(* ===== verification/Prelude.thy ===== *)
theory Prelude
  imports Main "HOL-Library.Word"
begin

text \<open>
  Shared vocabulary of the development: the fixed-width integer types of the Rust
  sources, Unicode scalars and strings, and the arithmetic that every component which
  manipulates limbs or bytes relies on.

  Conventions. \<open>u8\<close>, \<open>u16\<close>, \<open>u32\<close> and \<open>u64\<close> are words of that width. The signed
  types \<open>i32\<close> and \<open>i64\<close> are words too, read with \<^const>\<open>sint\<close>. Rust's \<open>usize\<close> is
  \<^typ>\<open>nat\<close> where it counts or indexes elements of a vector. A Rust \<open>char\<close> is its code
  point, a natural number, and a \<open>String\<close> is the list of its characters.
\<close>

unbundle bit_operations_syntax

section \<open>Machine integers, characters and strings\<close>

type_synonym u8 = "8 word"
type_synonym u16 = "16 word"
type_synonym u32 = "32 word"
type_synonym u64 = "64 word"
type_synonym i32 = "32 word"
type_synonym i64 = "64 word"
type_synonym rchar = nat
type_synonym rstring = "rchar list"

named_theorems word_nat \<open>reading words as natural numbers\<close>
named_theorems limb_simps \<open>values of little-endian digit lists\<close>

definition str :: "string \<Rightarrow> rstring" where
  "str s = map of_char s"

definition chr :: "char \<Rightarrow> rchar" where
  "chr c = of_char c"

section \<open>Words as natural numbers\<close>

lemma u32_lt [word_nat]: "unat (x :: u32) < 4294967296"
  using unsigned_less [of x] by simp

lemma u64_lt [word_nat]: "unat (x :: u64) < 18446744073709551616"
  using unsigned_less [of x] by simp

lemma u16_lt [word_nat]: "unat (x :: u16) < 65536"
  using unsigned_less [of x] by simp

lemma u8_lt [word_nat]: "unat (x :: u8) < 256"
  using unsigned_less [of x] by simp

lemma unat_u32_u64 [simp]: "unat (ucast (x :: u32) :: u64) = unat x"
  using u32_lt [of x] by (simp add: unsigned_ucast_eq take_bit_nat_eq_self)

lemma unat_u16_u64 [simp]: "unat (ucast (x :: u16) :: u64) = unat x"
  using u16_lt [of x] by (simp add: unsigned_ucast_eq take_bit_nat_eq_self)

lemma unat_u8_u32 [simp]: "unat (ucast (x :: u8) :: u32) = unat x"
  using u8_lt [of x] by (simp add: unsigned_ucast_eq take_bit_nat_eq_self)

lemma unat_u64_u32: "unat (ucast (x :: u64) :: u32) = unat x mod 4294967296"
  by (simp add: unsigned_ucast_eq take_bit_eq_mod)

lemma unat_shr32: "unat (drop_bit 32 (x :: u64)) = unat x div 4294967296"
  unfolding unat_drop_bit_eq by (simp add: drop_bit_eq_div)

lemma u64_split: "unat (ucast x :: u32) + 4294967296 * unat (drop_bit 32 x) = unat (x :: u64)"
  by (simp add: unat_u64_u32 unat_shr32)

lemma unat_add_u64:
  "unat a + unat b < 18446744073709551616 \<Longrightarrow> unat (a + b :: u64) = unat a + unat b"
  using unat_add_lem [of a b] by simp

lemma unat_mult_u64:
  "unat a * unat b < 18446744073709551616 \<Longrightarrow> unat (a * b :: u64) = unat a * unat b"
  using unat_mult_lem [of a b] by simp

lemma unat_u32_eqI: "unat (x :: u32) = unat y \<Longrightarrow> x = y"
  by (simp add: word_unat_eq_iff)

lemma u64_low_word: "ucast (m AND 0xffffffff :: u64) = (ucast m :: u32)"
proof -
  have "(0xffffffff :: u64) = mask 32" by (simp add: mask_eq_exp_minus_1)
  then have "m AND 0xffffffff = take_bit 32 m" by (simp add: take_bit_eq_mask)
  then show ?thesis by (auto intro!: bit_word_eqI simp: bit_simps)
qed

lemma sint_u64: "sint (v :: u64) = uint v \<or> sint v = uint v - 2 ^ 64"
proof -
  have "sint v = signed_take_bit 63 (uint v)" by (simp add: sint_uint)
  also have "\<dots> = take_bit 64 (uint v) - 2 ^ 64 * of_bool (bit (uint v) 63)"
    by (simp add: signed_take_bit_eq_take_bit_minus)
  also have "take_bit 64 (uint v) = uint v"
    using uint_bounded [of v] by (intro take_bit_int_eq_self) simp_all
  finally show ?thesis by (cases "bit (uint v) 63") simp_all
qed

lemma sint_u64_neg: "sint (v :: u64) < 0 \<Longrightarrow> sint v = uint v - 2 ^ 64"
  using sint_u64 [of v] uint_nonnegative [of v] by linarith

lemma sint_u64_nonneg: "0 \<le> sint (v :: u64) \<Longrightarrow> sint v = uint v"
  using sint_u64 [of v] uint_bounded [of v] by auto

lemma sint_u64_range: "- (2 ^ 63) \<le> sint (v :: u64) \<and> sint v < 2 ^ 63"
  using sint_ge [of v] sint_lt [of v] by simp

lemma sint_of_int_u64: "- (2 ^ 63) \<le> i \<Longrightarrow> i < 2 ^ 63 \<Longrightarrow> sint (word_of_int i :: u64) = i"
  by (simp add: sint_sbintrunc' signed_take_bit_int_eq_self)

lemma unat_pos_iff: "0 < unat x \<longleftrightarrow> x \<noteq> 0"
  by (rule unat_gt_0)

section \<open>Shifts combined with a disjunction\<close>

lemma or_push_nat: "c < 2 ^ s \<Longrightarrow> push_bit s m OR c = m * 2 ^ s + (c :: nat)"
proof -
  assume "c < 2 ^ s"
  then have "take_bit s c = c" by (rule take_bit_nat_eq_self)
  then have "\<not> bit (push_bit s m) n \<or> \<not> bit c n" for n
    by (metis bit_push_bit_iff_nat bit_take_bit_iff not_le)
  then have "push_bit s m + c = push_bit s m OR c" by (rule disjunctive_add)
  then show ?thesis by (simp add: push_bit_eq_mult)
qed

lemma unat_push_or:
  fixes v c :: "'a :: len word"
  assumes "unat c < 2 ^ s" "unat v * 2 ^ s + unat c < 2 ^ LENGTH('a)"
  shows "unat (push_bit s v OR c) = unat v * 2 ^ s + unat c"
proof -
  have "take_bit LENGTH('a) (push_bit s (unat v)) = push_bit s (unat v)"
    using assms(2) by (intro take_bit_nat_eq_self) (simp add: push_bit_eq_mult)
  then show ?thesis using assms(1) by (simp add: unsigned_or_eq unsigned_push_bit_eq or_push_nat)
qed

lemma unat_push_or_u64:
  "s < 32 \<Longrightarrow> unat c < 2 ^ s \<Longrightarrow>
   unat (push_bit s (ucast (x :: u32)) OR c :: u64) = unat x * 2 ^ s + unat c"
proof -
  assume s: "s < 32" and c: "unat c < 2 ^ s"
  have "unat x * 2 ^ s < 4294967296 * 2 ^ s" using u32_lt [of x] by simp
  also have "\<dots> \<le> 4294967296 * 2 ^ 32" using s by (intro mult_le_mono2 power_increasing) simp_all
  finally have "take_bit 64 (push_bit s (unat x)) = push_bit s (unat x)"
    by (intro take_bit_nat_eq_self) (simp add: push_bit_eq_mult)
  then show ?thesis using c
    by (simp add: unsigned_or_eq unsigned_push_bit_eq or_push_nat)
qed

lemma unat_shr_or_u32:
  fixes x c :: u32
  assumes "0 < s" "s < 32"
  shows "unat (drop_bit s x OR push_bit (32 - s) c) = unat x div 2 ^ s + unat c mod 2 ^ s * 2 ^ (32 - s)"
proof -
  have "unat x div 2 ^ s < 2 ^ (32 - s)"
    using u32_lt [of x] assms by (simp add: div_less_iff_less_mult flip: power_add)
  moreover have "take_bit 32 (push_bit (32 - s) (unat c)) = push_bit (32 - s) (unat c mod 2 ^ s)"
    using assms by (simp add: take_bit_push_bit) (simp add: take_bit_eq_mod)
  ultimately show ?thesis
    by (simp add: unsigned_or_eq unsigned_push_bit_eq unat_drop_bit_eq)
       (simp add: drop_bit_eq_div or_push_nat or.commute [of "unat x div 2 ^ s"])
qed

lemma u32_mask_nonzero: "x AND (push_bit s 1 - 1 :: u32) \<noteq> 0 \<longleftrightarrow> unat x mod 2 ^ s \<noteq> 0"
proof -
  have "push_bit s 1 - 1 = (mask s :: u32)" by (simp add: mask_eq_exp_minus_1 push_bit_of_1)
  then have "unat (x AND (push_bit s 1 - 1)) = unat x mod 2 ^ s"
    by (simp add: unsigned_take_bit_eq flip: take_bit_eq_mask) (simp add: take_bit_eq_mod)
  then show ?thesis by (metis unat_0_iff)
qed

section \<open>Bit lengths\<close>

text \<open>The number of significant bits; \<open>u32::leading_zeros\<close> is 32 minus it.\<close>

fun nbits :: "nat \<Rightarrow> nat" where
  "nbits n = (if n = 0 then 0 else Suc (nbits (n div 2)))"

declare nbits.simps [simp del]

lemma nbits_0 [simp]: "nbits 0 = 0"
  by (simp add: nbits.simps)

lemma nbits_upper: "n < 2 ^ nbits n"
proof (induction n rule: nbits.induct)
  case (1 n)
  show ?case
  proof (cases "n = 0")
    case False
    with "1.IH" have "n div 2 < 2 ^ nbits (n div 2)" by simp
    then have "n < 2 * 2 ^ nbits (n div 2)" by linarith
    with False show ?thesis by (simp add: nbits.simps [of n])
  qed simp
qed

lemma nbits_lower: "0 < n \<Longrightarrow> 2 ^ (nbits n - 1) \<le> n"
proof (induction n rule: nbits.induct)
  case (1 n)
  show ?case
  proof (cases "n div 2 = 0")
    case True
    with "1.prems" show ?thesis by (simp add: nbits.simps [of n])
  next
    case False
    then have pos: "0 < nbits (n div 2)" by (simp add: nbits.simps [of "n div 2"])
    from False "1" have "2 ^ (nbits (n div 2) - 1) \<le> n div 2" by simp
    then have "2 * 2 ^ (nbits (n div 2) - 1) \<le> n" by linarith
    with pos False show ?thesis by (simp add: nbits.simps [of n] flip: power_Suc)
  qed
qed

lemma nbits_le: "n < 2 ^ k \<Longrightarrow> nbits n \<le> k"
proof (rule ccontr)
  assume n: "n < 2 ^ k" and "\<not> nbits n \<le> k"
  then have k: "k \<le> nbits n - 1" and "0 < nbits n" by simp_all
  then have "0 < n" by (cases n) simp_all
  then have "(2::nat) ^ (nbits n - 1) \<le> n" by (rule nbits_lower)
  moreover have "(2::nat) ^ k \<le> 2 ^ (nbits n - 1)" using k by (rule power_increasing) simp
  ultimately show False using n by linarith
qed

lemma nbits_eqI: "2 ^ (k - 1) \<le> n \<Longrightarrow> n < 2 ^ k \<Longrightarrow> nbits n = k"
proof -
  assume lo: "2 ^ (k - 1) \<le> n" and hi: "n < 2 ^ k"
  from hi have "nbits n \<le> k" by (rule nbits_le)
  moreover have "\<not> nbits n < k"
  proof
    assume "nbits n < k"
    then have "(2::nat) ^ nbits n \<le> 2 ^ (k - 1)" by (intro power_increasing) simp_all
    with lo nbits_upper [of n] show False by linarith
  qed
  ultimately show ?thesis by simp
qed

definition leading_zeros :: "u32 \<Rightarrow> nat" where
  "leading_zeros x = 32 - nbits (unat x)"

section \<open>Little-endian digit lists\<close>

text \<open>
  The value of a list of 32-bit limbs, least significant first. All \<open>BigInt\<close> routines are
  specified through it.
\<close>

fun limbs_val :: "u32 list \<Rightarrow> nat" where
  "limbs_val [] = 0"
| "limbs_val (x # xs) = unat x + 4294967296 * limbs_val xs"

lemma limbs_val_append [limb_simps]:
  "limbs_val (xs @ ys) = limbs_val xs + 4294967296 ^ length xs * limbs_val ys"
  by (induction xs) (simp_all add: algebra_simps)

lemma limbs_val_replicate0 [simp]: "limbs_val (replicate n 0) = 0"
  by (induction n) simp_all

lemma limbs_val_bound: "limbs_val xs < 4294967296 ^ length xs"
proof (induction xs)
  case (Cons x xs)
  have "unat x + 4294967296 * limbs_val xs < 4294967296 + 4294967296 * limbs_val xs"
    using u32_lt [of x] by simp
  also have "\<dots> \<le> 4294967296 * 4294967296 ^ length xs"
    using Cons mult_le_mono2 [of "Suc (limbs_val xs)" "4294967296 ^ length xs" 4294967296]
    by simp
  finally show ?case by simp
qed simp

lemma base_pow: "(4294967296 :: nat) ^ n = 2 ^ (32 * n)"
  by (simp add: power_mult)

lemma limbs_val_take_drop:
  "w \<le> length xs \<Longrightarrow> limbs_val xs = limbs_val (take w xs) + 4294967296 ^ w * limbs_val (drop w xs)"
  using limbs_val_append [of "take w xs" "drop w xs"] by (simp add: min_def)

lemma limbs_val_drop: "limbs_val (drop w xs) = limbs_val xs div 4294967296 ^ w"
proof (cases "w \<le> length xs")
  case True
  then show ?thesis
    using limbs_val_take_drop [OF True] limbs_val_bound [of "take w xs"] by (simp add: min_absorb2)
next
  case False
  then have "(4294967296 :: nat) ^ length xs \<le> 4294967296 ^ w" by (intro power_increasing) simp_all
  with limbs_val_bound [of xs] have "limbs_val xs < 4294967296 ^ w" by linarith
  with False show ?thesis by simp
qed

lemma limbs_val_take: "limbs_val (take w xs) = limbs_val xs mod 4294967296 ^ w"
proof (cases "w \<le> length xs")
  case True
  then show ?thesis
    using limbs_val_take_drop [OF True] limbs_val_bound [of "take w xs"] by (simp add: min_absorb2)
next
  case False
  then have "(4294967296 :: nat) ^ length xs \<le> 4294967296 ^ w" by (intro power_increasing) simp_all
  with limbs_val_bound [of xs] have "limbs_val xs < 4294967296 ^ w" by linarith
  with False show ?thesis by simp
qed

lemma limbs_val_update:
  "i < length xs \<Longrightarrow>
   limbs_val (xs[i := v]) + unat (xs ! i) * 4294967296 ^ i = limbs_val xs + unat v * 4294967296 ^ i"
proof (induction xs arbitrary: i)
  case (Cons x xs)
  show ?case
  proof (cases i)
    case (Suc n)
    with Cons have
      "4294967296 * (limbs_val (xs[n := v]) + unat (xs ! n) * 4294967296 ^ n) =
       4294967296 * (limbs_val xs + unat v * 4294967296 ^ n)" by simp
    then show ?thesis using Suc by (simp only: distrib_left) (simp add: ac_simps)
  qed simp
qed simp

lemma limbs_val_lower: "xs \<noteq> [] \<Longrightarrow> last xs \<noteq> 0 \<Longrightarrow> 4294967296 ^ (length xs - 1) \<le> limbs_val xs"
proof (induction xs)
  case (Cons x xs)
  show ?case
  proof (cases "xs = []")
    case True
    with Cons.prems have "0 < unat x" by (simp add: unat_pos_iff)
    with True show ?thesis by simp
  next
    case False
    with Cons have IH: "4294967296 ^ (length xs - 1) \<le> limbs_val xs" by simp
    obtain n where n: "length xs = Suc n" using False by (cases xs) auto
    from IH have "4294967296 * 4294967296 ^ n \<le> 4294967296 * limbs_val xs" using n by simp
    then show ?thesis by (simp add: n)
  qed
qed simp

lemma limbs_val_inj:
  "length xs = length ys \<Longrightarrow> limbs_val xs = limbs_val ys \<Longrightarrow> xs = ys"
proof (induction xs ys rule: list_induct2)
  case (Cons x xs y ys)
  have "unat x = limbs_val (x # xs) mod 4294967296" using u32_lt [of x] by simp
  also have "\<dots> = unat y" using Cons.prems u32_lt [of y] by simp
  finally have xy: "unat x = unat y" .
  with Cons.prems have "limbs_val xs = limbs_val ys" by simp
  with Cons.IH xy show ?case by (simp add: unat_u32_eqI)
qed simp

lemma limbs_val_eq_0_iff: "limbs_val xs = 0 \<longleftrightarrow> (\<forall>x \<in> set xs. x = 0)"
  by (induction xs) (auto simp: unat_0_iff)

section \<open>Little-endian bytes\<close>

text \<open>\<open>to_le_bytes\<close> and \<open>from_le_bytes\<close> of the integer types.\<close>

fun le_bytes :: "nat \<Rightarrow> nat \<Rightarrow> u8 list" where
  "le_bytes 0 v = []"
| "le_bytes (Suc n) v = of_nat v # le_bytes n (v div 256)"

fun bytes_val :: "u8 list \<Rightarrow> nat" where
  "bytes_val [] = 0"
| "bytes_val (b # bs) = unat b + 256 * bytes_val bs"

definition u16_le_bytes :: "u16 \<Rightarrow> u8 list" where
  "u16_le_bytes x = le_bytes 2 (unat x)"

definition u32_le_bytes :: "u32 \<Rightarrow> u8 list" where
  "u32_le_bytes x = le_bytes 4 (unat x)"

definition u64_le_bytes :: "u64 \<Rightarrow> u8 list" where
  "u64_le_bytes x = le_bytes 8 (unat x)"

lemma length_le_bytes [simp]: "length (le_bytes n v) = n"
  by (induction n arbitrary: v) simp_all

lemma le_bytes_numeral:
  "le_bytes (numeral k) v = of_nat v # le_bytes (pred_numeral k) (v div 256)"
  using le_bytes.simps(2) [of "pred_numeral k" v] unfolding numeral_eq_Suc [of k, symmetric] .

lemma bytes_val_le_bytes: "bytes_val (le_bytes n v) = v mod 256 ^ n"
proof (induction n arbitrary: v)
  case (Suc n)
  have "unat (of_nat v :: u8) = v mod 256" by (simp add: unat_of_nat)
  with Suc show ?case by (simp add: mod_mult2_eq)
qed simp

lemma bytes_val_append:
  "bytes_val (xs @ ys) = bytes_val xs + 256 ^ length xs * bytes_val ys"
  by (induction xs) (simp_all add: algebra_simps)

lemma bytes_val_replicate0 [simp]: "bytes_val (replicate n 0) = 0"
  by (induction n) simp_all

lemma bytes_val_bound: "bytes_val bs < 256 ^ length bs"
proof (induction bs)
  case (Cons b bs)
  have "unat b + 256 * bytes_val bs < 256 * Suc (bytes_val bs)" using u8_lt [of b] by simp
  also have "\<dots> \<le> 256 * 256 ^ length bs" using Cons by (intro mult_le_mono2) simp
  finally show ?case by simp
qed simp

lemma bytes_val_inj: "length xs = length ys \<Longrightarrow> bytes_val xs = bytes_val ys \<Longrightarrow> xs = ys"
proof (induction xs ys rule: list_induct2)
  case (Cons x xs y ys)
  have "unat x = bytes_val (x # xs) mod 256" using u8_lt [of x] by simp
  also have "\<dots> = unat y" using Cons.prems u8_lt [of y] by simp
  finally have xy: "unat x = unat y" .
  with Cons.prems have "bytes_val xs = bytes_val ys" by simp
  with Cons.IH xy show ?case by (simp add: word_unat_eq_iff)
qed simp

lemma bytes_val_u16 [simp]: "bytes_val (u16_le_bytes x) = unat x"
  using u16_lt [of x] by (simp add: u16_le_bytes_def bytes_val_le_bytes)

lemma bytes_val_u32 [simp]: "bytes_val (u32_le_bytes x) = unat x"
  using u32_lt [of x] by (simp add: u32_le_bytes_def bytes_val_le_bytes)

lemma bytes_val_u64 [simp]: "bytes_val (u64_le_bytes x) = unat x"
  using u64_lt [of x] by (simp add: u64_le_bytes_def bytes_val_le_bytes)

lemma length_uN_le_bytes [simp]:
  "length (u16_le_bytes x) = 2" "length (u32_le_bytes y) = 4" "length (u64_le_bytes z) = 8"
  by (simp_all add: u16_le_bytes_def u32_le_bytes_def u64_le_bytes_def)

lemma bytes_val_concat_limbs: "bytes_val (concat (map u32_le_bytes xs)) = limbs_val xs"
  by (induction xs) (simp_all add: bytes_val_append)

lemma bytes_val_trim: "bytes_val (rev (dropWhile (\<lambda>x. x = 0) (rev bs))) = bytes_val bs"
proof (induction bs rule: rev_induct)
  case (snoc b bs)
  then show ?case by (simp add: bytes_val_append)
qed simp

section \<open>Results\<close>

text \<open>
  A Rust \<open>Result\<close> is a sum: \<open>Inr\<close> a value, \<open>Inl\<close> a fault. \<open>Err\<close> carries the message of the
  source's error structure, \<open>Panic\<close> stands for a panic of the standard library or of an
  overflow check, \<open>Diverge\<close> for exhausted iterations of a loop given as fuel; every use of
  fuel comes with a lemma that \<open>Diverge\<close> is not reached.
\<close>

datatype fault = Err string | Panic string | Diverge

type_synonym 'a res = "fault + 'a"

text \<open>The \<open>?\<close> operator.\<close>

definition bindr :: "'e + 'a \<Rightarrow> ('a \<Rightarrow> 'e + 'b) \<Rightarrow> 'e + 'b" where
  "bindr m f = (case m of Inl e \<Rightarrow> Inl e | Inr x \<Rightarrow> f x)"

lemma bindr_simps [simp]: "bindr (Inl e) f = Inl e" "bindr (Inr x) f = f x"
  by (simp_all add: bindr_def)

lemma bindr_Inr_iff: "bindr m f = Inr y \<longleftrightarrow> (\<exists>x. m = Inr x \<and> f x = Inr y)"
  by (cases m) simp_all

lemma bindr_Inl_iff: "bindr m f = Inl e \<longleftrightarrow> m = Inl e \<or> (\<exists>x. m = Inr x \<and> f x = Inl e)"
  by (cases m) simp_all

lemma bindr_InrE [elim!]:
  assumes "bindr m f = Inr y"
  obtains x where "m = Inr x" "f x = Inr y"
  using assms by (auto simp: bindr_Inr_iff)

lemma bindr_cong [fundef_cong]:
  "m = m' \<Longrightarrow> (\<And>x. m' = Inr x \<Longrightarrow> f x = f' x) \<Longrightarrow> bindr m f = bindr m' f'"
  by (cases m') simp_all

definition ok_or :: "'a option \<Rightarrow> string \<Rightarrow> 'a res" where
  "ok_or x msg = (case x of Some v \<Rightarrow> Inr v | None \<Rightarrow> Inl (Err msg))"

lemma ok_or_simps [simp]: "ok_or None msg = Inl (Err msg)" "ok_or (Some v) msg = Inr v"
  by (simp_all add: ok_or_def)

lemma ok_or_Inr_iff [simp]: "ok_or x msg = Inr v \<longleftrightarrow> x = Some v"
  by (cases x) simp_all

text \<open>\<open>char::to_digit\<close> of the standard library.\<close>

definition to_digit :: "nat \<Rightarrow> rchar \<Rightarrow> nat option" where
  "to_digit radix ch =
     (let d = (if 48 \<le> ch \<and> ch \<le> 57 then ch - 48
               else if 97 \<le> ch \<and> ch \<le> 122 then ch - 97 + 10
               else if 65 \<le> ch \<and> ch \<le> 90 then ch - 65 + 10
               else radix)
      in if d < radix then Some d else None)"

end
