(* ===== verification/Pyc.thy ===== *)
theory Pyc
  imports Prelude
begin

text \<open>
  The header of a compiled module, \<^verbatim>\<open>src/bytecode/pyc.rs\<close>: its reader and writer. The
  structure \<open>PycError\<close> has one field, its message, and is the \<open>Err\<close> fault.
\<close>

record PycHeader =
  magic :: u32
  bitfield :: u32
  timestamp :: "u32 option"
  source_size :: "u32 option"
  hash :: "u8 list option"

definition u32_from_le :: "u8 list \<Rightarrow> u32" where
  "u32_from_le bs = of_nat (bytes_val bs)"

definition read_u32_le :: "u8 list \<Rightarrow> nat \<Rightarrow> u32 res" where
  "read_u32_le bytes off =
     (if off + 4 \<le> length bytes then Inr (u32_from_le (take 4 (drop off bytes)))
      else Inl (Err ''unexpected end of file''))"

definition parse_pyc_header :: "u8 list \<Rightarrow> (PycHeader \<times> nat) res" where
  "parse_pyc_header bytes =
     (if length bytes < 8 then Inl (Err ''pyc header is too short'')
      else
        bindr (read_u32_le bytes 0) (\<lambda>mg.
        bindr (read_u32_le bytes 4) (\<lambda>bf.
        if bf AND 1 \<noteq> 0 then
          (if length bytes < 8 + 8 then Inl (Err ''pyc hash header is too short'')
           else Inr (\<lparr>magic = mg, bitfield = bf, timestamp = None, source_size = None,
                      hash = Some (take 8 (drop 8 bytes))\<rparr>, 16))
        else
          (if length bytes < 8 + 8 then Inl (Err ''pyc timestamp header is too short'')
           else
             bindr (read_u32_le bytes 8) (\<lambda>ts.
             bindr (read_u32_le bytes 12) (\<lambda>sz.
             Inr (\<lparr>magic = mg, bitfield = bf, timestamp = Some ts, source_size = Some sz,
                   hash = None\<rparr>, 16)))))))"

text \<open>The bytes the writer appends to its output buffer.\<close>

definition write_pyc_header :: "PycHeader \<Rightarrow> u8 list res" where
  "write_pyc_header h =
     (let out = u32_le_bytes (magic h) @ u32_le_bytes (bitfield h) in
      if bitfield h AND 1 \<noteq> 0 then
        bindr (ok_or (hash h) ''hash-based pyc header requires hash'') (\<lambda>hs.
        Inr (out @ hs))
      else
        bindr (ok_or (timestamp h) ''timestamp-based pyc header requires timestamp'') (\<lambda>ts.
        bindr (ok_or (source_size h) ''timestamp-based pyc header requires source_size'') (\<lambda>sz.
        Inr (out @ u32_le_bytes ts @ u32_le_bytes sz))))"

text \<open>
  The headers the reader produces: exactly the fields selected by the lowest bit of the bit
  field are present, and the hash, a byte array of length 8 in the source, has that length.
\<close>

definition wf_header :: "PycHeader \<Rightarrow> bool" where
  "wf_header h \<longleftrightarrow>
     (if bitfield h AND 1 \<noteq> 0
      then (\<exists>hs. hash h = Some hs \<and> length hs = 8) \<and> timestamp h = None \<and> source_size h = None
      else hash h = None \<and> timestamp h \<noteq> None \<and> source_size h \<noteq> None)"

section \<open>Lemmas\<close>

lemma u32_from_le_bytes [simp]: "u32_from_le (u32_le_bytes x) = x"
  by (simp add: u32_from_le_def)

lemma u32_le_bytes_from_le: "length bs = 4 \<Longrightarrow> u32_le_bytes (u32_from_le bs) = bs"
proof -
  assume l: "length bs = 4"
  then have lt: "bytes_val bs < 4294967296" using bytes_val_bound [of bs] by simp
  have "bytes_val (u32_le_bytes (u32_from_le bs)) = unat (u32_from_le bs)" by simp
  also have "\<dots> = bytes_val bs" using lt by (simp add: u32_from_le_def unat_of_nat)
  finally show ?thesis using l by (intro bytes_val_inj) simp_all
qed

lemma read_u32_le_append:
  "length pre = off \<Longrightarrow> read_u32_le (pre @ u32_le_bytes x @ post) off = Inr x"
  by (simp add: read_u32_le_def)

lemma parse_write_header:
  assumes "wf_header h" "write_pyc_header h = Inr bs"
  shows "parse_pyc_header (bs @ rest) = Inr (h, 16) \<and> length bs = 16"
proof (cases "bitfield h AND 1 \<noteq> 0")
  case True
  with assms obtain hs where hs: "hash h = Some hs" "length hs = 8" "timestamp h = None" "source_size h = None"
    by (auto simp: wf_header_def)
  with True assms have bs: "bs = u32_le_bytes (magic h) @ u32_le_bytes (bitfield h) @ hs"
    by (simp add: write_pyc_header_def)
  have "read_u32_le (bs @ rest) 0 = Inr (magic h)" "read_u32_le (bs @ rest) 4 = Inr (bitfield h)"
    using read_u32_le_append [of "[]" 0 "magic h"] read_u32_le_append [of "u32_le_bytes (magic h)" 4 "bitfield h"]
    by (simp_all add: bs)
  with True hs show ?thesis by (simp add: parse_pyc_header_def) (simp add: bs)
next
  case False
  with assms obtain ts sz where f: "timestamp h = Some ts" "source_size h = Some sz" "hash h = None"
    by (auto simp: wf_header_def)
  with False assms have bs: "bs = u32_le_bytes (magic h) @ u32_le_bytes (bitfield h) @ u32_le_bytes ts @ u32_le_bytes sz"
    by (simp add: write_pyc_header_def)
  have "read_u32_le (bs @ rest) 0 = Inr (magic h)" "read_u32_le (bs @ rest) 4 = Inr (bitfield h)"
    "read_u32_le (bs @ rest) 8 = Inr ts" "read_u32_le (bs @ rest) 12 = Inr sz"
    using read_u32_le_append [of "[]" 0 "magic h"] read_u32_le_append [of "u32_le_bytes (magic h)" 4 "bitfield h"]
      read_u32_le_append [of "u32_le_bytes (magic h) @ u32_le_bytes (bitfield h)" 8 ts]
      read_u32_le_append [of "u32_le_bytes (magic h) @ u32_le_bytes (bitfield h) @ u32_le_bytes ts" 12 sz]
    by (simp_all add: bs)
  with False f show ?thesis by (simp add: parse_pyc_header_def) (simp add: bs)
qed

lemma take16_split:
  "16 \<le> length bs \<Longrightarrow>
   take 16 bs = take 4 bs @ take 4 (drop 4 bs) @ take 4 (drop 8 bs) @ take 4 (drop 12 bs)"
proof -
  have "take (4 + (4 + (4 + 4))) bs = take 4 bs @ take 4 (drop 4 bs) @ take 4 (drop 8 bs) @ take 4 (drop 12 bs)"
    unfolding take_add by (simp add: drop_drop)
  then show ?thesis by simp
qed

lemma write_parse_header:
  assumes "parse_pyc_header bytes = Inr (h, n)"
  shows "n = 16 \<and> wf_header h \<and> write_pyc_header h = Inr (take 16 bytes)"
proof -
  have len: "16 \<le> length bytes" using assms
    by (auto simp: parse_pyc_header_def read_u32_le_def split: if_splits)
  have w: "u32_le_bytes (u32_from_le (take 4 (drop k bytes))) = take 4 (drop k bytes)" if "k \<le> 12" for k
    using len that by (intro u32_le_bytes_from_le) simp
  have w0: "u32_le_bytes (u32_from_le (take 4 bytes)) = take 4 bytes" using w [of 0] by simp
  have h8: "take 8 (drop 8 bytes) = take 4 (drop 8 bytes) @ take 4 (drop 12 bytes)"
    using take_add [of 4 4 "drop 8 bytes"] by simp
  show ?thesis using assms len w w0 h8 take16_split [OF len]
    by (auto simp: parse_pyc_header_def read_u32_le_def wf_header_def write_pyc_header_def split: if_splits)
qed

end
