(* ===== verification/Unicode.thy ===== *)
theory Unicode
  imports Prelude
begin

text \<open>
  Characters and their encodings: Rust's \<open>char\<close> validity and UTF-8 (\<open>str::as_bytes\<close>,
  \<open>String::from_utf8\<close>), which the marshal codec uses, and the surrogate helpers of
  \<^verbatim>\<open>src/unicode.rs\<close>, by which strings with lone surrogates are kept in Rust strings.
\<close>

section \<open>Scalar values\<close>

definition valid_char :: "nat \<Rightarrow> bool" where
  "valid_char c \<longleftrightarrow> c < 0x110000 \<and> \<not> (0xD800 \<le> c \<and> c \<le> 0xDFFF)"

definition char_from_u32 :: "nat \<Rightarrow> rchar option" where
  "char_from_u32 c = (if valid_char c then Some c else None)"

section \<open>Surrogates\<close>

definition INTERNAL_SURROGATE_BASE :: nat where
  "INTERNAL_SURROGATE_BASE = 0x10F800"

definition INTERNAL_SURROGATE_LIMIT :: nat where
  "INTERNAL_SURROGATE_LIMIT = INTERNAL_SURROGATE_BASE + 0x800"

definition internal_char_from_codepoint :: "nat \<Rightarrow> rchar option" where
  "internal_char_from_codepoint codepoint =
     (if 0xD800 \<le> codepoint \<and> codepoint \<le> 0xDFFF
      then char_from_u32 (INTERNAL_SURROGATE_BASE + (codepoint - 0xD800))
      else char_from_u32 codepoint)"

definition surrogate_codepoint_from_internal_char :: "rchar \<Rightarrow> nat option" where
  "surrogate_codepoint_from_internal_char code =
     (if INTERNAL_SURROGATE_BASE \<le> code \<and> code < INTERNAL_SURROGATE_LIMIT
      then Some (0xD800 + (code - INTERNAL_SURROGATE_BASE)) else None)"

definition surrogate_code_unit_from_internal_char :: "rchar \<Rightarrow> u16 option" where
  "surrogate_code_unit_from_internal_char ch =
     map_option of_nat (surrogate_codepoint_from_internal_char ch)"

definition canonical_codepoint_for_internal_char :: "rchar \<Rightarrow> nat" where
  "canonical_codepoint_for_internal_char ch =
     (case surrogate_codepoint_from_internal_char ch of Some c \<Rightarrow> c | None \<Rightarrow> ch)"

definition contains_internal_surrogate :: "rstring \<Rightarrow> bool" where
  "contains_internal_surrogate txt \<longleftrightarrow>
     (\<exists>ch \<in> set txt. surrogate_codepoint_from_internal_char ch \<noteq> None)"

lemmas surrogate_defs = internal_char_from_codepoint_def surrogate_codepoint_from_internal_char_def
  surrogate_code_unit_from_internal_char_def canonical_codepoint_for_internal_char_def
  char_from_u32_def valid_char_def INTERNAL_SURROGATE_BASE_def INTERNAL_SURROGATE_LIMIT_def

lemma internal_char_valid: "internal_char_from_codepoint c = Some ch \<Longrightarrow> valid_char ch"
  by (auto simp: surrogate_defs split: if_splits)

section \<open>UTF-8\<close>

definition utf8_char :: "rchar \<Rightarrow> u8 list" where
  "utf8_char c =
     (if c < 0x80 then [of_nat c]
      else if c < 0x800 then [of_nat (0xC0 + c div 64), of_nat (0x80 + c mod 64)]
      else if c < 0x10000 then
        [of_nat (0xE0 + c div 4096), of_nat (0x80 + c div 64 mod 64), of_nat (0x80 + c mod 64)]
      else [of_nat (0xF0 + c div 262144), of_nat (0x80 + c div 4096 mod 64),
            of_nat (0x80 + c div 64 mod 64), of_nat (0x80 + c mod 64)])"

definition len_utf8 :: "rchar \<Rightarrow> nat" where
  "len_utf8 c = (if c < 0x80 then 1 else if c < 0x800 then 2 else if c < 0x10000 then 3 else 4)"

definition byte_len :: "rstring \<Rightarrow> nat" where
  "byte_len s = sum_list (map len_utf8 s)"

definition as_bytes :: "rstring \<Rightarrow> u8 list" where
  "as_bytes s = concat (map utf8_char s)"

definition cont_byte :: "u8 \<Rightarrow> bool" where
  "cont_byte b \<longleftrightarrow> 0x80 \<le> unat b \<and> unat b \<le> 0xBF"

text \<open>The accepted second bytes exclude overlong forms, surrogates and values past U+10FFFF.\<close>

definition second_of_three :: "u8 \<Rightarrow> u8 \<Rightarrow> bool" where
  "second_of_three b0 b1 \<longleftrightarrow> cont_byte b1 \<and> (unat b0 = 0xE0 \<longrightarrow> 0xA0 \<le> unat b1) \<and> (unat b0 = 0xED \<longrightarrow> unat b1 \<le> 0x9F)"

definition second_of_four :: "u8 \<Rightarrow> u8 \<Rightarrow> bool" where
  "second_of_four b0 b1 \<longleftrightarrow> cont_byte b1 \<and> (unat b0 = 0xF0 \<longrightarrow> 0x90 \<le> unat b1) \<and> (unat b0 = 0xF4 \<longrightarrow> unat b1 \<le> 0x8F)"

fun utf8_next :: "u8 list \<Rightarrow> (rchar \<times> u8 list) option" where
  "utf8_next [] = None"
| "utf8_next (b0 # rest) =
     (let n0 = unat b0 in
      if n0 < 0x80 then Some (n0, rest)
      else if 0xC2 \<le> n0 \<and> n0 \<le> 0xDF then
        (case rest of
           b1 # rest \<Rightarrow> if cont_byte b1 then Some ((n0 - 0xC0) * 64 + (unat b1 - 0x80), rest) else None
         | _ \<Rightarrow> None)
      else if 0xE0 \<le> n0 \<and> n0 \<le> 0xEF then
        (case rest of
           b1 # b2 # rest \<Rightarrow>
             if second_of_three b0 b1 \<and> cont_byte b2
             then Some ((n0 - 0xE0) * 4096 + (unat b1 - 0x80) * 64 + (unat b2 - 0x80), rest) else None
         | _ \<Rightarrow> None)
      else if 0xF0 \<le> n0 \<and> n0 \<le> 0xF4 then
        (case rest of
           b1 # b2 # b3 # rest \<Rightarrow>
             if second_of_four b0 b1 \<and> cont_byte b2 \<and> cont_byte b3
             then Some ((n0 - 0xF0) * 262144 + (unat b1 - 0x80) * 4096 + (unat b2 - 0x80) * 64 + (unat b3 - 0x80), rest)
             else None
         | _ \<Rightarrow> None)
      else None)"

lemma utf8_next_shorter: "utf8_next bs = Some (c, rest) \<Longrightarrow> length rest < length bs"
  by (cases bs) (auto simp: Let_def split: if_splits list.splits)

function from_utf8 :: "u8 list \<Rightarrow> rstring option" where
  "from_utf8 bs =
     (if bs = [] then Some []
      else case utf8_next bs of
          None \<Rightarrow> None
        | Some (c, rest) \<Rightarrow> map_option (\<lambda>cs. c # cs) (from_utf8 rest))"
  by pat_completeness auto
termination
  by (relation "measure length") (auto dest: utf8_next_shorter)

declare from_utf8.simps [simp del]

lemma unat_u8: "n < 256 \<Longrightarrow> unat (of_nat n :: u8) = n"
  by (simp add: unat_of_nat)

lemma utf8_next_char: "valid_char c \<Longrightarrow> utf8_next (utf8_char c @ rest) = Some (c, rest)"
proof -
  assume v: "valid_char c"
  then have c: "c < 0x110000" "c < 0xD800 \<or> 0xDFFF < c" by (auto simp: valid_char_def)
  consider "c < 0x80" | "0x80 \<le> c" "c < 0x800" | "0x800 \<le> c" "c < 0x10000" | "0x10000 \<le> c" by linarith
  then show ?thesis
  proof cases
    case 1
    then show ?thesis by (simp add: utf8_char_def unat_u8)
  next
    case 2
    then have "c div 64 < 32" "2 \<le> c div 64" by simp_all
    moreover have "c mod 64 < 64" by simp
    ultimately show ?thesis using 2 by (simp add: utf8_char_def unat_u8 cont_byte_def Let_def del: of_nat_add)
  next
    case 3
    define h m l where "h = c div 4096" and "m = c div 64 mod 64" and "l = c mod 64"
    have "h = c div 64 div 64" by (simp add: h_def flip: div_mult2_eq)
    then have eq: "c = h * 4096 + m * 64 + l" using div_mult_mod_eq [of c 64] div_mult_mod_eq [of "c div 64" 64]
      unfolding m_def l_def by linarith
    have bounds: "m < 64" "l < 64" by (simp_all add: m_def l_def)
    have "h < 16" using 3 eq by linarith
    moreover have "h = 0 \<longrightarrow> 32 \<le> m" "h = 13 \<longrightarrow> m \<le> 31" using 3 c eq bounds by linarith+
    moreover have "utf8_char c = [of_nat (0xE0 + h), of_nat (0x80 + m), of_nat (0x80 + l)]"
      using 3 by (simp add: utf8_char_def h_def m_def l_def)
    ultimately show ?thesis using eq bounds
      by (simp add: unat_u8 cont_byte_def second_of_three_def Let_def del: of_nat_add)
  next
    case 4
    define k h m l where "k = c div 262144" and "h = c div 4096 mod 64" and "m = c div 64 mod 64" and "l = c mod 64"
    have "k = c div 64 div 64 div 64" "h = c div 64 div 64 mod 64"
      by (simp_all add: k_def h_def flip: div_mult2_eq)
    then have eq: "c = k * 262144 + h * 4096 + m * 64 + l"
      using div_mult_mod_eq [of c 64] div_mult_mod_eq [of "c div 64" 64] div_mult_mod_eq [of "c div 64 div 64" 64]
      unfolding m_def l_def by linarith
    have bounds: "h < 64" "m < 64" "l < 64" by (simp_all add: h_def m_def l_def)
    have "k \<le> 4" using c eq by linarith
    moreover have "k = 0 \<longrightarrow> 16 \<le> h" "k = 4 \<longrightarrow> h \<le> 15" using 4 c eq bounds by linarith+
    moreover have "utf8_char c = [of_nat (0xF0 + k), of_nat (0x80 + h), of_nat (0x80 + m), of_nat (0x80 + l)]"
      using 4 by (simp add: utf8_char_def k_def h_def m_def l_def)
    ultimately show ?thesis using eq bounds
      by (simp add: unat_u8 cont_byte_def second_of_four_def Let_def del: of_nat_add)
  qed
qed

lemma utf8_char_nonempty [simp]: "utf8_char c \<noteq> []"
  by (simp add: utf8_char_def)

lemma from_utf8_as_bytes: "\<forall>c \<in> set s. valid_char c \<Longrightarrow> from_utf8 (as_bytes s) = Some s"
proof (induction s)
  case Nil
  then show ?case by (simp add: as_bytes_def from_utf8.simps)
next
  case (Cons c s)
  then show ?case by (simp add: as_bytes_def from_utf8.simps [of "utf8_char c @ _"] utf8_next_char)
qed

end
