(* ===== verification/Bigint.thy ===== *)
theory Bigint
  imports Prelude
begin

text \<open>
  The arbitrary-precision integers of \<^verbatim>\<open>src/runtime/bigint.rs\<close>: sign and magnitude, the
  magnitude a little-endian vector of 32-bit limbs without trailing zero limb. Every
  routine of the source is a definition below, in the order of the source's \<open>impl\<close> block
  where one calls another, with the 64-bit intermediate arithmetic kept on words; printing
  is in \<open>Bigint_Text\<close>. The representation invariant \<open>bwf\<close> and the abstraction \<open>bval\<close> to the
  mathematical integer open \<open>Bigint_Arith\<close>; the theories \<open>Bigint_Arith\<close>, \<open>Bigint_Shift\<close>,
  \<open>Bigint_Bitwise\<close> and \<open>Bigint_Division\<close> prove the routines against them.
\<close>

section \<open>Data and constructors\<close>

record BigInt =
  sign :: int
  limbs :: "u32 list"

datatype Ordering = Less | Equal | Greater

definition bigint_zero :: BigInt where
  "bigint_zero = \<lparr>sign = 0, limbs = []\<rparr>"

text \<open>The push loop shared by \<open>from_i64\<close> and \<open>from_u64\<close>.\<close>

function u64_limbs :: "u64 \<Rightarrow> u32 list" where
  "u64_limbs magnitude =
     (if magnitude = 0 then []
      else ucast (magnitude AND 0xffffffff) # u64_limbs (drop_bit 32 magnitude))"
  by pat_completeness auto
termination
proof (relation "measure unat")
  fix m :: u64
  assume "m \<noteq> 0"
  then have "0 < unat m" by (simp add: unat_pos_iff)
  then show "(drop_bit 32 m, m) \<in> measure unat" by (simp add: unat_shr32)
qed simp

declare u64_limbs.simps [simp del]

definition unsigned_abs :: "i64 \<Rightarrow> u64" where
  "unsigned_abs v = (if sint v < 0 then - v else v)"

definition from_i64 :: "i64 \<Rightarrow> BigInt" where
  "from_i64 v =
     (if v = 0 then bigint_zero
      else \<lparr>sign = (if sint v < 0 then -1 else 1), limbs = u64_limbs (unsigned_abs v)\<rparr>)"

definition bigint_one :: BigInt where
  "bigint_one = from_i64 1"

definition from_u64 :: "u64 \<Rightarrow> BigInt" where
  "from_u64 v = (if v = 0 then bigint_zero else \<lparr>sign = 1, limbs = u64_limbs v\<rparr>)"

text \<open>\<open>while limbs.last() == Some(&0) { limbs.pop(); }\<close>\<close>

definition pop_zeros :: "u32 list \<Rightarrow> u32 list" where
  "pop_zeros xs = rev (dropWhile (\<lambda>x. x = 0) (rev xs))"

definition from_parts :: "int \<Rightarrow> u32 list \<Rightarrow> BigInt" where
  "from_parts s ls =
     (let ls' = pop_zeros ls
      in if ls' = [] then bigint_zero
         else \<lparr>sign = (if s < 0 then -1 else 1), limbs = ls'\<rparr>)"

definition is_zero :: "BigInt \<Rightarrow> bool" where
  "is_zero b \<longleftrightarrow> sign b = 0"

definition is_negative :: "BigInt \<Rightarrow> bool" where
  "is_negative b \<longleftrightarrow> sign b < 0"

definition negated :: "BigInt \<Rightarrow> BigInt" where
  "negated b = (if is_zero b then b else b\<lparr>sign := - sign b\<rparr>)"

definition bigint_abs :: "BigInt \<Rightarrow> BigInt" where
  "bigint_abs b = (if is_negative b then negated b else b)"

definition bit_length :: "BigInt \<Rightarrow> nat" where
  "bit_length b =
     (if limbs b = [] then 0
      else (length (limbs b) - 1) * 32 + (32 - leading_zeros (last (limbs b))))"

section \<open>Conversions\<close>

definition to_i64 :: "BigInt \<Rightarrow> i64 option" where
  "to_i64 b =
     (if is_zero b then Some 0
      else if 2 < length (limbs b) then None
      else let low = (case limbs b of [] \<Rightarrow> 0 | x # _ \<Rightarrow> ucast x) :: u64;
               high = (case limbs b of _ # y # _ \<Rightarrow> ucast y | _ \<Rightarrow> 0) :: u64;
               magnitude = low OR push_bit 32 high;
               limit = push_bit 63 1 :: u64
           in if 0 < sign b then
                (if magnitude \<le> 0x7fffffffffffffff then Some magnitude else None)
              else if magnitude = limit then Some limit
              else if magnitude < limit then Some (- magnitude)
              else None)"

definition to_abs_le_bytes :: "BigInt \<Rightarrow> u8 list" where
  "to_abs_le_bytes b =
     (if is_zero b then [0]
      else let out = rev (dropWhile (\<lambda>x. x = 0) (rev (concat (map u32_le_bytes (limbs b)))))
           in if out = [] then [0] else out)"

section \<open>Addition, subtraction and comparison\<close>

fun abs_add_loop :: "u32 list \<Rightarrow> u32 list \<Rightarrow> u64 \<Rightarrow> u32 list" where
  "abs_add_loop [] [] carry = (if carry \<noteq> 0 then [ucast carry] else [])"
| "abs_add_loop (l # ls) [] carry =
     (let sum = ucast l + 0 + carry in ucast sum # abs_add_loop ls [] (drop_bit 32 sum))"
| "abs_add_loop [] (r # rs) carry =
     (let sum = 0 + ucast r + carry in ucast sum # abs_add_loop [] rs (drop_bit 32 sum))"
| "abs_add_loop (l # ls) (r # rs) carry =
     (let sum = ucast l + ucast r + carry in ucast sum # abs_add_loop ls rs (drop_bit 32 sum))"

definition abs_add :: "u32 list \<Rightarrow> u32 list \<Rightarrow> u32 list" where
  "abs_add left right = abs_add_loop left right 0"

text \<open>
  The borrow loop works on \<open>i64\<close>; every intermediate value stays between \<open>-2^32\<close> and \<open>2^32\<close>,
  so it is modelled on \<^typ>\<open>int\<close>. Limbs of \<open>right\<close> past its end count as zero, limbs past
  the end of \<open>left\<close> are ignored, as in the source.
\<close>

fun abs_sub_loop :: "u32 list \<Rightarrow> u32 list \<Rightarrow> int \<Rightarrow> u32 list" where
  "abs_sub_loop [] right borrow = []"
| "abs_sub_loop (l # ls) right borrow =
     (let rhs = (case right of [] \<Rightarrow> 0 | r # _ \<Rightarrow> uint r);
          diff = uint l - rhs - borrow
      in if diff < 0 then word_of_int (diff + 2 ^ 32) # abs_sub_loop ls (tl right) 1
         else word_of_int diff # abs_sub_loop ls (tl right) 0)"

definition abs_sub :: "u32 list \<Rightarrow> u32 list \<Rightarrow> u32 list" where
  "abs_sub left right = abs_sub_loop left right 0"

definition cmp :: "'a :: linorder \<Rightarrow> 'a \<Rightarrow> Ordering" where
  "cmp x y = (if x < y then Less else if x = y then Equal else Greater)"

fun cmp_first_diff :: "(u32 \<times> u32) list \<Rightarrow> Ordering" where
  "cmp_first_diff [] = Equal"
| "cmp_first_diff ((lhs, rhs) # rest) = (if lhs \<noteq> rhs then cmp lhs rhs else cmp_first_diff rest)"

definition abs_cmp_limbs :: "u32 list \<Rightarrow> u32 list \<Rightarrow> Ordering" where
  "abs_cmp_limbs left right =
     (if length left \<noteq> length right then cmp (length left) (length right)
      else cmp_first_diff (zip (rev left) (rev right)))"

definition bigint_sub :: "BigInt \<Rightarrow> BigInt \<Rightarrow> BigInt" where
  "bigint_sub a b =
     (if sign b = 0 then a
      else if sign a = 0 then negated b
      else if sign a = 1 \<and> sign b = -1 then from_parts 1 (abs_add (limbs a) (limbs b))
      else if sign a = -1 \<and> sign b = 1 then from_parts (-1) (abs_add (limbs a) (limbs b))
      else if sign a = 1 \<and> sign b = 1 then
        (case abs_cmp_limbs (limbs a) (limbs b) of
           Greater \<Rightarrow> from_parts 1 (abs_sub (limbs a) (limbs b))
         | Less \<Rightarrow> from_parts (-1) (abs_sub (limbs b) (limbs a))
         | Equal \<Rightarrow> bigint_zero)
      else if sign a = -1 \<and> sign b = -1 then
        (case abs_cmp_limbs (limbs a) (limbs b) of
           Greater \<Rightarrow> from_parts (-1) (abs_sub (limbs a) (limbs b))
         | Less \<Rightarrow> from_parts 1 (abs_sub (limbs b) (limbs a))
         | Equal \<Rightarrow> bigint_zero)
      else bigint_zero)"

definition bigint_add :: "BigInt \<Rightarrow> BigInt \<Rightarrow> BigInt" where
  "bigint_add a b =
     (if sign a = 0 then b
      else if sign b = 0 then a
      else if sign a = 1 \<and> sign b = 1 then from_parts 1 (abs_add (limbs a) (limbs b))
      else if sign a = -1 \<and> sign b = -1 then from_parts (-1) (abs_add (limbs a) (limbs b))
      else if sign a = 1 \<and> sign b = -1 then bigint_sub a (negated b)
      else if sign a = -1 \<and> sign b = 1 then bigint_sub b (negated a)
      else bigint_zero)"

definition cmp_total :: "BigInt \<Rightarrow> BigInt \<Rightarrow> Ordering" where
  "cmp_total a b =
     (if sign a < sign b then Less
      else if sign a > sign b then Greater
      else if sign a = 0 \<and> sign b = 0 then Equal
      else if sign a = 1 \<and> sign b = 1 then abs_cmp_limbs (limbs a) (limbs b)
      else if sign a = -1 \<and> sign b = -1 then abs_cmp_limbs (limbs b) (limbs a)
      else Equal)"

section \<open>Multiplication and powers\<close>

fun mul_inner :: "u64 \<Rightarrow> u32 list \<Rightarrow> nat \<Rightarrow> u64 \<Rightarrow> u32 list \<Rightarrow> u32 list \<times> u64" where
  "mul_inner left [] idx carry out = (out, carry)"
| "mul_inner left (r # rs) idx carry out =
     (let sum = ucast (out ! idx) + left * ucast r + carry
      in mul_inner left rs (Suc idx) (drop_bit 32 sum) (out[idx := ucast sum]))"

fun mul_outer :: "u32 list \<Rightarrow> u32 list \<Rightarrow> nat \<Rightarrow> u32 list \<Rightarrow> u32 list" where
  "mul_outer [] other i out = out"
| "mul_outer (l # ls) other i out =
     (let (out', carry) = mul_inner (ucast l) other i 0 out;
          out'' = (if carry \<noteq> 0 then out'[i + length other := ucast carry] else out')
      in mul_outer ls other (Suc i) out'')"

definition bigint_mul :: "BigInt \<Rightarrow> BigInt \<Rightarrow> BigInt" where
  "bigint_mul a b =
     (if is_zero a \<or> is_zero b then bigint_zero
      else let out = mul_outer (limbs a) (limbs b) 0
                       (replicate (length (limbs a) + length (limbs b)) 0);
               s = (if sign a = sign b then 1 else -1)
           in from_parts s out)"

function pow_loop :: "BigInt \<Rightarrow> BigInt \<Rightarrow> u64 \<Rightarrow> BigInt" where
  "pow_loop base out exponent =
     (if exponent = 0 then out
      else let out' = (if exponent AND 1 = 1 then bigint_mul out base else out);
               exponent' = drop_bit 1 exponent;
               base' = (if exponent' \<noteq> 0 then bigint_mul base base else base)
           in pow_loop base' out' exponent')"
  by pat_completeness auto
termination
proof (relation "measure (\<lambda>(base, out, e). unat e)", goal_cases)
  case (2 base out exponent out' exponent' base')
  then have "0 < unat exponent" by (simp add: unat_pos_iff)
  then have "unat (drop_bit 1 exponent) < unat exponent"
    unfolding unat_drop_bit_eq by (simp add: drop_bit_eq_div)
  with 2 show ?case by simp
qed simp

declare pow_loop.simps [simp del]

definition pow_u64 :: "BigInt \<Rightarrow> u64 \<Rightarrow> BigInt" where
  "pow_u64 b exponent = pow_loop b bigint_one exponent"

section \<open>Shifts\<close>

fun shl_loop :: "nat \<Rightarrow> u32 list \<Rightarrow> nat \<Rightarrow> u64 \<Rightarrow> u32 list \<Rightarrow> u32 list \<times> u64" where
  "shl_loop bit_shift [] pos carry out = (out, carry)"
| "shl_loop bit_shift (limb # rest) pos carry out =
     (let shifted = push_bit bit_shift (ucast limb) OR carry
      in shl_loop bit_shift rest (Suc pos) (drop_bit 32 shifted) (out[pos := ucast shifted]))"

definition shl_bits :: "BigInt \<Rightarrow> nat \<Rightarrow> BigInt" where
  "shl_bits b bits =
     (if is_zero b then bigint_zero
      else if bits = 0 then b
      else let word_shift = bits div 32;
               bit_shift = bits mod 32;
               (out, carry) = shl_loop bit_shift (limbs b) word_shift 0
                                (replicate (length (limbs b) + word_shift + 1) 0);
               out' = (if carry \<noteq> 0 then out[length (limbs b) + word_shift := ucast carry] else out)
           in from_parts (sign b) out')"

text \<open>
  The reverse loop of \<open>abs_shr_bits\<close>: it runs from the most significant limb down, pushing
  the shifted limb, and the caller reverses the result.
\<close>

fun shr_loop :: "nat \<Rightarrow> u32 list \<Rightarrow> u32 \<Rightarrow> u32 list" where
  "shr_loop bit_shift [] carry = []"
| "shr_loop bit_shift (limb # rest) carry =
     (drop_bit bit_shift limb OR push_bit (32 - bit_shift) carry) # shr_loop bit_shift rest limb"

definition abs_shr_bits :: "BigInt \<Rightarrow> nat \<Rightarrow> BigInt" where
  "abs_shr_bits b bits =
     (if is_zero b then bigint_zero
      else let word_shift = bits div 32;
               bit_shift = bits mod 32
           in if length (limbs b) \<le> word_shift then bigint_zero
              else let out = (if bit_shift = 0 then drop word_shift (limbs b)
                              else rev (shr_loop bit_shift (rev (drop word_shift (limbs b))) 0))
                   in from_parts 1 out)"

definition abs_has_low_bits :: "BigInt \<Rightarrow> nat \<Rightarrow> bool" where
  "abs_has_low_bits b bits =
     (if bits = 0 then False
      else let word_shift = bits div 32;
               bit_shift = bits mod 32
           in (\<exists>limb \<in> set (take (min word_shift (length (limbs b))) (limbs b)). limb \<noteq> 0) \<or>
              (bit_shift \<noteq> 0 \<and> word_shift < length (limbs b) \<and>
               (limbs b ! word_shift) AND (push_bit bit_shift 1 - 1) \<noteq> 0))"

definition shr_bits_arithmetic :: "BigInt \<Rightarrow> nat \<Rightarrow> BigInt" where
  "shr_bits_arithmetic b bits =
     (if is_zero b then bigint_zero
      else if bits = 0 then b
      else if 0 < sign b then abs_shr_bits b bits
      else let absb = bigint_abs b;
               quot = abs_shr_bits absb bits
           in if abs_has_low_bits absb bits then negated (bigint_add quot bigint_one)
              else negated quot)"

section \<open>Bitwise operations\<close>

fun add_carry_words :: "u64 \<Rightarrow> u32 list \<Rightarrow> u32 list" where
  "add_carry_words carry [] = []"
| "add_carry_words carry (w # ws) =
     (if carry = 0 then w # ws
      else let sum = ucast w + carry in ucast sum # add_carry_words (drop_bit 32 sum) ws)"

definition twos_complement_words :: "BigInt \<Rightarrow> nat \<Rightarrow> u32 list" where
  "twos_complement_words b words =
     (let copy_len = min (length (limbs b)) words;
          out = take copy_len (limbs b) @ replicate (words - copy_len) 0
      in if 0 \<le> sign b then out
         else add_carry_words 1 (map (\<lambda>w. NOT w) out))"

fun sub_borrow_words :: "u64 \<Rightarrow> u32 list \<Rightarrow> u32 list" where
  "sub_borrow_words borrow [] = []"
| "sub_borrow_words borrow (w # ws) =
     (if borrow = 0 then w # ws
      else let cur = ucast w :: u64
           in if borrow \<le> cur then ucast (cur - borrow) # sub_borrow_words 0 ws
              else word_of_int (2 ^ 32 + uint cur - uint borrow) # sub_borrow_words 1 ws)"

definition from_twos_complement_words :: "u32 list \<Rightarrow> BigInt" where
  "from_twos_complement_words words =
     (if words = [] then bigint_zero
      else if last words AND 0x80000000 = 0 then from_parts 1 words
      else from_parts (-1) (map (\<lambda>w. NOT w) (sub_borrow_words 1 words)))"

definition bitwise_op :: "(u32 \<Rightarrow> u32 \<Rightarrow> u32) \<Rightarrow> BigInt \<Rightarrow> BigInt \<Rightarrow> BigInt" where
  "bitwise_op f a b =
     (let width_bits = max (bit_length a) (bit_length b) + 2;
          words = (width_bits + 31) div 32;
          left = twos_complement_words a words;
          right = twos_complement_words b words
      in from_twos_complement_words (map2 f left right))"

definition bigint_bitand :: "BigInt \<Rightarrow> BigInt \<Rightarrow> BigInt" where
  "bigint_bitand = bitwise_op (\<lambda>a b. a AND b)"

definition bigint_bitor :: "BigInt \<Rightarrow> BigInt \<Rightarrow> BigInt" where
  "bigint_bitor = bitwise_op (\<lambda>a b. a OR b)"

definition bigint_bitxor :: "BigInt \<Rightarrow> BigInt \<Rightarrow> BigInt" where
  "bigint_bitxor = bitwise_op (\<lambda>a b. a XOR b)"

definition bigint_bitnot :: "BigInt \<Rightarrow> BigInt" where
  "bigint_bitnot b = bigint_sub (negated b) bigint_one"

section \<open>Single-limb arithmetic\<close>

fun mul_small_loop :: "u64 \<Rightarrow> u32 list \<Rightarrow> u64 \<Rightarrow> u32 list" where
  "mul_small_loop small [] carry = (if carry \<noteq> 0 then [ucast carry] else [])"
| "mul_small_loop small (limb # rest) carry =
     (let value = ucast limb * small + carry
      in ucast value # mul_small_loop small rest (drop_bit 32 value))"

definition mul_small :: "BigInt \<Rightarrow> u32 \<Rightarrow> BigInt" where
  "mul_small b small =
     (if is_zero b \<or> small = 0 then bigint_zero
      else if small = 1 then b
      else from_parts (sign b) (mul_small_loop (ucast small) (limbs b) 0))"

fun add_small_loop :: "u32 list \<Rightarrow> u64 \<Rightarrow> u32 list" where
  "add_small_loop out carry =
     (if carry = 0 then out
      else case out of
          [] \<Rightarrow> [ucast carry]
        | x # xs \<Rightarrow> (let sum = ucast x + carry in ucast sum # add_small_loop xs (drop_bit 32 sum)))"

declare add_small_loop.simps [simp del]

definition add_small :: "BigInt \<Rightarrow> u32 \<Rightarrow> BigInt" where
  "add_small b small =
     (if small = 0 then b
      else if is_zero b then from_u64 (ucast small)
      else if sign b < 0 then bigint_add b (from_u64 (ucast small))
      else from_parts 1 (add_small_loop (limbs b) (ucast small)))"

text \<open>The loop of \<open>div_mod_small_positive\<close> runs from the top limb down, like \<open>shr_loop\<close>.\<close>

fun div_small_loop :: "u64 \<Rightarrow> u32 list \<Rightarrow> u64 \<Rightarrow> u32 list \<times> u64" where
  "div_small_loop divisor [] rem = ([], rem)"
| "div_small_loop divisor (limb # rest) rem =
     (let value = push_bit 32 rem OR ucast limb;
          (qs, r) = div_small_loop divisor rest (value mod divisor)
      in (ucast (value div divisor) # qs, r))"

definition div_mod_small_positive :: "BigInt \<Rightarrow> u32 \<Rightarrow> BigInt \<times> u32" where
  "div_mod_small_positive b divisor =
     (if is_zero b then (bigint_zero, 0)
      else let (qs, rem) = div_small_loop (ucast divisor) (rev (limbs b)) 0
           in (from_parts 1 (rev qs), ucast rem))"

section \<open>Division\<close>

text \<open>
  The shift-and-subtract loop of \<open>abs_div_mod_positive\<close>. It is given as many iterations as the
  dividend has bits, plus one; \<open>None\<close> is running out of them, which \<open>Bigint_Division\<close> shows
  never happens on well-formed operands.
\<close>

fun abs_div_loop :: "nat \<Rightarrow> BigInt \<Rightarrow> nat \<Rightarrow> BigInt \<Rightarrow> BigInt \<Rightarrow> (BigInt \<times> BigInt) option" where
  "abs_div_loop 0 divisor divisor_bits quot remainder = None"
| "abs_div_loop (Suc fuel) divisor divisor_bits quot remainder =
     (if cmp_total remainder divisor = Less then Some (quot, remainder)
      else let shift = bit_length remainder - divisor_bits;
               shifted = shl_bits divisor shift
           in if cmp_total shifted remainder = Greater then
                (if shift = 0 then Some (quot, remainder)
                 else abs_div_loop fuel divisor divisor_bits
                        (bigint_add quot (shl_bits bigint_one (shift - 1)))
                        (bigint_sub remainder (shl_bits divisor (shift - 1))))
              else abs_div_loop fuel divisor divisor_bits
                     (bigint_add quot (shl_bits bigint_one shift))
                     (bigint_sub remainder shifted))"

definition abs_div_mod_positive :: "BigInt \<Rightarrow> BigInt \<Rightarrow> (BigInt \<times> BigInt) option" where
  "abs_div_mod_positive b divisor =
     (if is_zero b then Some (bigint_zero, bigint_zero)
      else let remainder = bigint_abs b;
               divisor' = bigint_abs divisor
           in if cmp_total remainder divisor' = Less then Some (bigint_zero, remainder)
              else abs_div_loop (Suc (Suc (bit_length remainder))) divisor'
                     (bit_length divisor') bigint_zero remainder)"

text \<open>The outer option is the loop bound, the inner one the \<open>Option\<close> the source returns.\<close>

definition div_mod_floor :: "BigInt \<Rightarrow> BigInt \<Rightarrow> (BigInt \<times> BigInt) option option" where
  "div_mod_floor a divisor =
     (if is_zero divisor then Some None
      else if is_zero a then Some (Some (bigint_zero, bigint_zero))
      else case abs_div_mod_positive a (bigint_abs divisor) of
          None \<Rightarrow> None
        | Some (abs_quotient, abs_remainder) \<Rightarrow>
            let quot = (if sign a = sign divisor then abs_quotient else negated abs_quotient);
                remainder = (if sign a < 0 then negated abs_remainder else abs_remainder)
            in if \<not> is_zero remainder \<and> sign a \<noteq> sign divisor
               then Some (Some (bigint_sub quot bigint_one, bigint_add remainder divisor))
               else Some (Some (quot, remainder)))"

section \<open>Text\<close>

text \<open>\<open>char::from_digit\<close> of the standard library.\<close>

definition from_digit :: "nat \<Rightarrow> nat \<Rightarrow> rchar option" where
  "from_digit d radix =
     (if radix \<le> d then None else Some (if d < 10 then 48 + d else 97 + (d - 10)))"

fun from_str_loop :: "u32 \<Rightarrow> BigInt \<Rightarrow> rstring \<Rightarrow> BigInt option" where
  "from_str_loop radix out [] = Some out"
| "from_str_loop radix out (ch # rest) =
     (case to_digit (unat radix) ch of
        None \<Rightarrow> None
      | Some digit \<Rightarrow>
          from_str_loop radix (add_small (mul_small out radix) (of_nat digit)) rest)"

definition from_str_radix :: "rstring \<Rightarrow> u32 \<Rightarrow> BigInt option" where
  "from_str_radix txt radix =
     (if \<not> (2 \<le> radix \<and> radix \<le> 36) then None
      else if txt = [] then None
      else from_str_loop radix bigint_zero txt)"

end
