(* ===== verification/Bigint_Arith.thy ===== *)
theory Bigint_Arith
  imports Bigint
begin

text \<open>
  The representation invariant of \<open>BigInt\<close> and its abstraction to the integers, and the
  correctness of construction, normalisation, comparison, addition, subtraction,
  multiplication and exponentiation: each routine keeps the invariant and computes the
  integer operation it is named after.
\<close>

section \<open>Invariant and abstraction\<close>

definition bwf :: "BigInt \<Rightarrow> bool" where
  "bwf b \<longleftrightarrow> (sign b = 0 \<and> limbs b = []) \<or>
     ((sign b = 1 \<or> sign b = -1) \<and> limbs b \<noteq> [] \<and> last (limbs b) \<noteq> 0)"

definition bval :: "BigInt \<Rightarrow> int" where
  "bval b = sign b * int (limbs_val (limbs b))"

named_theorems bigint_wf \<open>routines keep the representation invariant\<close>
named_theorems bigint_val \<open>routines compute the integer operation\<close>

lemma wf_zero [bigint_wf, simp]: "bwf bigint_zero"
  by (simp add: bwf_def bigint_zero_def)

lemma bval_zero [bigint_val, simp]: "bval bigint_zero = 0"
  by (simp add: bval_def bigint_zero_def)

lemma wf_limbs_pos: "bwf b \<Longrightarrow> sign b \<noteq> 0 \<Longrightarrow> 0 < limbs_val (limbs b)"
  using limbs_val_lower [of "limbs b"] by (auto simp: bwf_def intro: gr0I)

lemma sign_eq_sgn: "bwf b \<Longrightarrow> sign b = sgn (bval b)"
  using wf_limbs_pos [of b] by (auto simp: bwf_def bval_def sgn_mult)

lemma abs_bval: "bwf b \<Longrightarrow> \<bar>bval b\<bar> = int (limbs_val (limbs b))"
  by (auto simp: bwf_def bval_def abs_mult)

lemma wf_sign_cases [consumes 1, case_names zero pos neg]:
  assumes "bwf b"
    and "sign b = 0 \<Longrightarrow> limbs b = [] \<Longrightarrow> bval b = 0 \<Longrightarrow> P"
    and "sign b = 1 \<Longrightarrow> bval b = int (limbs_val (limbs b)) \<Longrightarrow> 0 < bval b \<Longrightarrow> P"
    and "sign b = -1 \<Longrightarrow> bval b = - int (limbs_val (limbs b)) \<Longrightarrow> bval b < 0 \<Longrightarrow> P"
  shows P
  using assms wf_limbs_pos [of b] by (auto simp: bwf_def bval_def)

lemma is_zero_iff: "bwf b \<Longrightarrow> is_zero b \<longleftrightarrow> bval b = 0"
  by (simp add: is_zero_def sign_eq_sgn sgn_0_0)

section \<open>Normalisation\<close>

lemma pop_zeros_snoc: "pop_zeros (xs @ [x]) = (if x = 0 then pop_zeros xs else xs @ [x])"
  by (simp add: pop_zeros_def)

lemma limbs_val_pop_zeros [limb_simps]: "limbs_val (pop_zeros xs) = limbs_val xs"
proof (induction xs rule: rev_induct)
  case Nil
  show ?case by (simp add: pop_zeros_def)
next
  case (snoc x xs)
  then show ?case by (simp add: pop_zeros_snoc limbs_val_append)
qed

lemma last_pop_zeros: "pop_zeros xs \<noteq> [] \<Longrightarrow> last (pop_zeros xs) \<noteq> 0"
proof (induction xs rule: rev_induct)
  case Nil
  then show ?case by (simp add: pop_zeros_def)
next
  case (snoc x xs)
  then show ?case by (simp add: pop_zeros_snoc split: if_splits)
qed

lemma wf_from_parts [bigint_wf]: "bwf (from_parts s ls)"
  using last_pop_zeros [of ls] by (auto simp: from_parts_def bwf_def Let_def bigint_zero_def)

lemma bval_from_parts [bigint_val]:
  "bval (from_parts s ls) = (if s < 0 then -1 else 1) * int (limbs_val ls)"
proof -
  have "limbs_val ls = 0" if "pop_zeros ls = []"
    using limbs_val_pop_zeros [of ls] that by simp
  then show ?thesis
    by (simp add: from_parts_def bval_def Let_def bigint_zero_def limb_simps)
qed

text \<open>Normalised limb vectors with the same value are the same vector.\<close>

lemma normal_limbs_length:
  assumes "xs \<noteq> []" "last xs \<noteq> 0" "limbs_val xs \<le> limbs_val ys"
  shows "length xs \<le> length ys"
proof (rule ccontr)
  assume "\<not> length xs \<le> length ys"
  then have "(4294967296::nat) ^ length ys \<le> 4294967296 ^ (length xs - 1)"
    by (intro power_increasing) simp_all
  also have "\<dots> \<le> limbs_val xs" using assms(1,2) by (rule limbs_val_lower)
  finally show False using assms(3) limbs_val_bound [of ys] by linarith
qed

lemma wf_limbs_eq:
  assumes "bwf a" "bwf b" "limbs_val (limbs a) = limbs_val (limbs b)"
  shows "limbs a = limbs b"
proof (cases "limbs a = [] \<or> limbs b = []")
  case True
  with assms wf_limbs_pos [of a] wf_limbs_pos [of b] show ?thesis by (auto simp: bwf_def)
next
  case False
  with assms have "length (limbs a) = length (limbs b)"
    by (intro antisym normal_limbs_length) (auto simp: bwf_def)
  then show ?thesis using assms(3) by (rule limbs_val_inj)
qed

lemma wf_eqI: "bwf a \<Longrightarrow> bwf b \<Longrightarrow> bval a = bval b \<Longrightarrow> a = b"
  using wf_limbs_eq [of a b] abs_bval [of a] abs_bval [of b]
  by (simp add: sign_eq_sgn)

section \<open>Construction\<close>

lemma limbs_val_u64_limbs: "limbs_val (u64_limbs m) = unat m"
proof (induction m rule: u64_limbs.induct)
  case (1 m)
  then show ?case using u64_split [of m] by (simp add: u64_limbs.simps [of m] u64_low_word)
qed

lemma last_u64_limbs: "m \<noteq> 0 \<Longrightarrow> u64_limbs m \<noteq> [] \<and> last (u64_limbs m) \<noteq> 0"
proof (induction m rule: u64_limbs.induct)
  case (1 m)
  show ?case
  proof (cases "drop_bit 32 m = 0")
    case True
    then have "unat (ucast m :: u32) = unat m" using u64_split [of m] by simp
    with "1.prems" have "(ucast m :: u32) \<noteq> 0" by (metis unat_0_iff)
    with True "1.prems" show ?thesis
      by (simp add: u64_limbs.simps [of m] u64_limbs.simps [of 0] u64_low_word)
  next
    case False
    with "1" show ?thesis by (auto simp: u64_limbs.simps [of m])
  qed
qed

lemma wf_from_u64 [bigint_wf]: "bwf (from_u64 v)"
  using last_u64_limbs [of v] by (simp add: from_u64_def bwf_def bigint_zero_def)

lemma bval_from_u64 [bigint_val]: "bval (from_u64 v) = int (unat v)"
  by (simp add: from_u64_def bval_def bigint_zero_def limbs_val_u64_limbs)

lemma unat_unsigned_abs: "int (unat (unsigned_abs v)) = \<bar>sint v\<bar>"
proof (cases "sint v < 0")
  case True
  then have "v \<noteq> 0" by auto
  then have "uint (- v) = 2 ^ 64 - uint v"
    using uint_bounded [of v] uint_nonnegative [of v]
    by (simp add: uint_word_ariths zmod_zminus1_eq_if uint_0_iff)
  with True sint_u64_neg [OF True] show ?thesis by (simp add: unsigned_abs_def)
next
  case False
  then show ?thesis using sint_u64_nonneg [of v] by (simp add: unsigned_abs_def)
qed

lemma unsigned_abs_nz: "v \<noteq> 0 \<Longrightarrow> unsigned_abs v \<noteq> 0"
  by (simp add: unsigned_abs_def)

lemma wf_from_i64 [bigint_wf]: "bwf (from_i64 v)"
  using last_u64_limbs [OF unsigned_abs_nz, of v] by (auto simp: from_i64_def bwf_def bigint_zero_def)

lemma bval_from_i64 [bigint_val]: "bval (from_i64 v) = sint v"
  using unat_unsigned_abs [of v]
  by (auto simp: from_i64_def bval_def bigint_zero_def limbs_val_u64_limbs)

lemma wf_one [bigint_wf]: "bwf bigint_one"
  by (simp add: bigint_one_def bigint_wf)

lemma bval_one [bigint_val]: "bval bigint_one = 1"
  by (simp add: bigint_one_def bigint_val)

lemma wf_negated [bigint_wf]: "bwf b \<Longrightarrow> bwf (negated b)"
  by (auto simp: bwf_def negated_def is_zero_def)

lemma bval_negated [bigint_val]: "bval (negated b) = - bval b"
  by (simp add: negated_def bval_def is_zero_def)

lemma wf_abs [bigint_wf]: "bwf b \<Longrightarrow> bwf (bigint_abs b)"
  by (simp add: bigint_abs_def bigint_wf)

lemma bval_abs [bigint_val]: "bwf b \<Longrightarrow> bval (bigint_abs b) = \<bar>bval b\<bar>"
  by (cases rule: wf_sign_cases) (auto simp: bigint_abs_def bigint_val is_negative_def)

section \<open>Comparison\<close>

lemma cmp_first_diff_append:
  "length xs = length ys \<Longrightarrow>
   cmp_first_diff (zip (rev xs) (rev ys)) = cmp (limbs_val xs) (limbs_val ys)"
proof (induction xs arbitrary: ys rule: rev_induct)
  case Nil
  then show ?case by (simp add: cmp_def)
next
  case (snoc x xs)
  then obtain zs z where ys: "ys = zs @ [z]" and len: "length xs = length zs"
    by (cases ys rule: rev_cases) auto
  have "limbs_val xs < 4294967296 ^ length zs" "limbs_val zs < 4294967296 ^ length zs"
    using limbs_val_bound [of xs] limbs_val_bound [of zs] len by simp_all
  then have less: "limbs_val xs + 4294967296 ^ length zs * a < limbs_val zs + 4294967296 ^ length zs * b \<and>
      limbs_val zs + 4294967296 ^ length zs * a < limbs_val xs + 4294967296 ^ length zs * b"
    if "a < b" for a b
    using that mult_le_mono2 [of "Suc a" b "4294967296 ^ length zs"] by simp
  show ?case
  proof (cases "x = z")
    case True
    with snoc.IH [OF len] show ?thesis by (simp add: ys len limbs_val_append cmp_def)
  next
    case False
    then have "unat x \<noteq> unat z" by (auto dest: unat_u32_eqI)
    then consider "unat x < unat z" | "unat z < unat x" by linarith
    then show ?thesis
      using less [of "unat x" "unat z"] less [of "unat z" "unat x"] False
      by cases (simp_all add: ys len limbs_val_append cmp_def word_less_nat_alt)
  qed
qed

lemma abs_cmp_limbs_correct:
  assumes "xs = [] \<or> last xs \<noteq> 0" "ys = [] \<or> last ys \<noteq> 0"
  shows "abs_cmp_limbs xs ys = cmp (limbs_val xs) (limbs_val ys)"
proof (cases "length xs = length ys")
  case True
  then show ?thesis by (simp add: abs_cmp_limbs_def cmp_first_diff_append)
next
  case False
  have "length us < length vs \<Longrightarrow> limbs_val us < limbs_val vs" if "vs = [] \<or> last vs \<noteq> 0" for us vs
    using normal_limbs_length [of vs us] that by fastforce
  with assms False show ?thesis
    by (simp add: abs_cmp_limbs_def cmp_def) (metis linorder_neqE_nat less_not_sym)
qed

lemma wf_limbs_normal: "bwf b \<Longrightarrow> limbs b = [] \<or> last (limbs b) \<noteq> 0"
  by (auto simp: bwf_def)

lemma abs_cmp_wf:
  "bwf a \<Longrightarrow> bwf b \<Longrightarrow>
   abs_cmp_limbs (limbs a) (limbs b) = cmp (limbs_val (limbs a)) (limbs_val (limbs b))"
  by (intro abs_cmp_limbs_correct wf_limbs_normal)

lemma cmp_total_correct:
  assumes "bwf a" "bwf b"
  shows "cmp_total a b = cmp (bval a) (bval b)"
  using assms(1)
proof (cases rule: wf_sign_cases)
  case zero
  with assms(2) show ?thesis by (elim wf_sign_cases) (auto simp: cmp_total_def cmp_def)
next
  case pos
  with assms(2) abs_cmp_wf [OF assms] show ?thesis
    by (elim wf_sign_cases) (auto simp: cmp_total_def cmp_def)
next
  case neg
  with assms(2) abs_cmp_wf [OF assms(2,1)] show ?thesis
    by (elim wf_sign_cases) (auto simp: cmp_total_def cmp_def)
qed

lemma cmp_eq_iff [simp]:
  "cmp x y = Less \<longleftrightarrow> x < y" "cmp x y = Equal \<longleftrightarrow> x = y" "cmp x y = Greater \<longleftrightarrow> y < x"
  by (auto simp: cmp_def)

section \<open>Addition and subtraction\<close>

lemma add_carry_step:
  assumes "unat (c :: u64) \<le> 1" and "a < 4294967296" "b < 4294967296"
    and "unat l = a" "unat r = b"
  shows "unat (l + r + c :: u64) = a + b + unat c \<and> unat (drop_bit 32 (l + r + c)) \<le> 1"
  using assms by (simp add: unat_add_u64 unat_shr32)

lemma limbs_val_abs_add_loop:
  "unat c \<le> 1 \<Longrightarrow> limbs_val (abs_add_loop xs ys c) = limbs_val xs + limbs_val ys + unat c"
proof (induction xs ys c rule: abs_add_loop.induct)
  case (1 c)
  then show ?case by (simp add: unat_u64_u32)
next
  case (2 l ls c)
  note s = add_carry_step [OF "2.prems" u32_lt [of l], of 0 "ucast l" 0]
  from "2.IH" [OF refl] s show ?case
    using u64_split [of "ucast l + c"] by (simp add: Let_def)
next
  case (3 r rs c)
  note s = add_carry_step [OF "3.prems" _ u32_lt [of r], of 0 0 "ucast r"]
  from "3.IH" [OF refl] s show ?case
    using u64_split [of "ucast r + c"] by (simp add: Let_def)
next
  case (4 l ls r rs c)
  note s = add_carry_step [OF "4.prems" u32_lt [of l] u32_lt [of r], of "ucast l" "ucast r"]
  from "4.IH" [OF refl] s show ?case
    using u64_split [of "ucast l + ucast r + c"] by (simp add: Let_def algebra_simps)
qed

lemma limbs_val_abs_add [limb_simps]: "limbs_val (abs_add xs ys) = limbs_val xs + limbs_val ys"
  by (simp add: abs_add_def limbs_val_abs_add_loop)

lemma uint_word_of_int_u32:
  "0 \<le> d \<Longrightarrow> d < 4294967296 \<Longrightarrow> uint (word_of_int d :: u32) = d"
  by (simp add: uint_word_of_int)

text \<open>Subtraction is exact whenever the subtrahend and the incoming borrow do not exceed the minuend.\<close>

lemma limbs_val_abs_sub_loop:
  assumes "0 \<le> b" "b \<le> 1" "int (limbs_val ys) + b \<le> int (limbs_val xs)"
  shows "int (limbs_val (abs_sub_loop xs ys b)) = int (limbs_val xs) - int (limbs_val ys) - b"
  using assms
proof (induction xs ys b rule: abs_sub_loop.induct)
  case (1 ys b)
  then show ?case by simp
next
  case (2 l ls ys b)
  define rhs where "rhs = (case ys of [] \<Rightarrow> 0 | r # _ \<Rightarrow> uint r)"
  have ys: "int (limbs_val ys) = rhs + 4294967296 * int (limbs_val (tl ys))"
    by (cases ys) (simp_all add: rhs_def)
  have rhs: "0 \<le> rhs" "rhs < 4294967296"
    by (cases ys; simp add: rhs_def uint_lt2p [where ?'a = 32, simplified])+
  have p32: "(2::int) ^ 32 = 4294967296" by simp
  have l: "0 \<le> uint l" "uint l < 4294967296" using uint_bounded [of l] by simp_all
  show ?case
  proof (cases "uint l - rhs - b < 0")
    case True
    have "int (limbs_val (tl ys)) + 1 \<le> int (limbs_val ls)"
      using True "2.prems" ys by simp
    with "2.IH"(1) [OF rhs_def refl True] have
      "int (limbs_val (abs_sub_loop ls (tl ys) 1)) = int (limbs_val ls) - int (limbs_val (tl ys)) - 1"
      by simp
    moreover have "uint (word_of_int (uint l - rhs - b + 2 ^ 32) :: u32) = uint l - rhs - b + 2 ^ 32"
      unfolding p32 by (rule uint_word_of_int_u32) (use True l rhs "2.prems" in linarith)+
    ultimately show ?thesis using True ys by (simp add: rhs_def [symmetric] Let_def)
  next
    case False
    have "int (limbs_val (tl ys)) \<le> int (limbs_val ls)"
      using l rhs "2.prems" ys by simp
    with "2.IH"(2) [OF rhs_def refl False] have
      "int (limbs_val (abs_sub_loop ls (tl ys) 0)) = int (limbs_val ls) - int (limbs_val (tl ys))"
      by simp
    moreover have "uint (word_of_int (uint l - rhs - b) :: u32) = uint l - rhs - b"
      by (rule uint_word_of_int_u32) (use False l rhs "2.prems" in linarith)+
    ultimately show ?thesis using False ys by (simp add: rhs_def [symmetric] Let_def)
  qed
qed

lemma limbs_val_abs_sub [limb_simps]:
  "limbs_val ys \<le> limbs_val xs \<Longrightarrow> limbs_val (abs_sub xs ys) = limbs_val xs - limbs_val ys"
  using limbs_val_abs_sub_loop [of 0 ys xs] by (simp add: abs_sub_def)

lemma wf_sub [bigint_wf]: "bwf a \<Longrightarrow> bwf b \<Longrightarrow> bwf (bigint_sub a b)"
  by (simp add: bigint_sub_def bigint_wf split: Ordering.split)

lemma bval_sub [bigint_val]:
  assumes "bwf a" "bwf b"
  shows "bval (bigint_sub a b) = bval a - bval b"
  using assms(1)
proof (cases rule: wf_sign_cases)
  case zero
  then show ?thesis by (auto simp: bigint_sub_def bigint_val) (simp add: bval_def)
next
  case pos
  with assms(2) show ?thesis
    by (elim wf_sign_cases)
       (auto simp: bigint_sub_def bigint_val limb_simps abs_cmp_wf assms split: Ordering.split)
next
  case neg
  with assms(2) show ?thesis
    by (elim wf_sign_cases)
       (auto simp: bigint_sub_def bigint_val limb_simps abs_cmp_wf assms split: Ordering.split)
qed

lemma wf_add [bigint_wf]: "bwf a \<Longrightarrow> bwf b \<Longrightarrow> bwf (bigint_add a b)"
  by (simp add: bigint_add_def bigint_wf)

lemma bval_add [bigint_val]:
  assumes "bwf a" "bwf b"
  shows "bval (bigint_add a b) = bval a + bval b"
  using assms(1)
proof (cases rule: wf_sign_cases)
  case zero
  then show ?thesis by (simp add: bigint_add_def)
next
  case pos
  with assms(2) show ?thesis
    by (elim wf_sign_cases) (auto simp: bigint_add_def bigint_val bigint_wf limb_simps assms)
next
  case neg
  with assms(2) show ?thesis
    by (elim wf_sign_cases) (auto simp: bigint_add_def bigint_val bigint_wf limb_simps assms)
qed

section \<open>Multiplication\<close>

lemma mul_step_bound:
  assumes "a < 4294967296" "l < 4294967296" "r < 4294967296" "c < (4294967296 :: nat)"
  shows "a + l * r + c < 18446744073709551616"
proof -
  have "l * r \<le> 4294967295 * 4294967295" using assms by (intro mult_le_mono) simp_all
  with assms show ?thesis by simp
qed

lemma mul_step:
  fixes a r :: u32 and l c :: u64
  assumes "unat l < 4294967296" "unat c < 4294967296"
  defines "acc \<equiv> ucast a + l * ucast r + c"
  shows "unat (ucast acc :: u32) + 4294967296 * unat (drop_bit 32 acc) = unat a + unat l * unat r + unat c"
    and "unat (drop_bit 32 acc) < 4294967296"
proof -
  note b = mul_step_bound [OF u32_lt [of a] assms(1) u32_lt [of r] assms(2)]
  then have "unat acc = unat a + unat l * unat r + unat c"
    unfolding acc_def by (simp add: unat_add_u64 unat_mult_u64)
  then show "unat (ucast acc :: u32) + 4294967296 * unat (drop_bit 32 acc) = unat a + unat l * unat r + unat c"
    by (simp add: u64_split)
  show "unat (drop_bit 32 acc) < 4294967296" using u64_lt [of acc] by (simp add: unat_shr32)
qed

lemma mul_inner_correct:
  assumes "mul_inner l rs i c out = (out', c')" "i + length rs \<le> length out"
    and "unat l < 4294967296" "unat c < 4294967296"
  shows "length out' = length out \<and> unat c' < 4294967296 \<and>
    limbs_val out' + unat c' * 4294967296 ^ (i + length rs) =
      limbs_val out + unat l * limbs_val rs * 4294967296 ^ i + unat c * 4294967296 ^ i \<and>
    (\<forall>j. i + length rs \<le> j \<longrightarrow> out' ! j = out ! j)"
  using assms
proof (induction rs arbitrary: i c out)
  case Nil
  then show ?case by simp
next
  case (Cons r rs)
  define acc where "acc = ucast (out ! i) + l * ucast r + c"
  let ?P = "4294967296 ^ i :: nat"
  note st = mul_step [OF Cons.prems(3,4), of "out ! i" r, folded acc_def]
  from Cons.prems have "mul_inner l rs (Suc i) (drop_bit 32 acc) (out[i := ucast acc]) = (out', c')"
    by (simp add: acc_def Let_def)
  from Cons.IH [OF this _ Cons.prems(3) st(2)] Cons.prems(2) have IH:
    "length out' = length out" "unat c' < 4294967296"
    "limbs_val out' + unat c' * 4294967296 ^ (Suc i + length rs) =
      limbs_val (out[i := ucast acc]) + unat l * limbs_val rs * 4294967296 ^ Suc i
       + unat (drop_bit 32 acc) * 4294967296 ^ Suc i"
    "\<forall>j. Suc i + length rs \<le> j \<longrightarrow> out' ! j = out[i := ucast acc] ! j"
    by simp_all
  have upd: "limbs_val (out[i := ucast acc]) + unat (out ! i) * ?P
      = limbs_val out + unat (ucast acc :: u32) * ?P"
    using Cons.prems(2) by (intro limbs_val_update) simp
  have "unat (ucast acc :: u32) * ?P + unat (drop_bit 32 acc) * 4294967296 ^ Suc i
      = (unat (ucast acc :: u32) + 4294967296 * unat (drop_bit 32 acc)) * ?P"
    by (simp add: algebra_simps)
  also have "\<dots> = unat (out ! i) * ?P + unat l * unat r * ?P + unat c * ?P"
    unfolding st(1) by (simp add: algebra_simps)
  finally have "limbs_val out' + unat c' * 4294967296 ^ (Suc i + length rs) =
      limbs_val out + unat l * unat r * ?P + unat c * ?P + unat l * limbs_val rs * 4294967296 ^ Suc i"
    using IH(3) upd by linarith
  then show ?case using IH(1,2,4) by (simp add: algebra_simps)
qed

lemma mul_outer_correct:
  assumes "i + length ls + length rs = length out" "\<forall>j. i + length rs \<le> j \<longrightarrow> j < length out \<longrightarrow> out ! j = 0"
  shows "limbs_val (mul_outer ls rs i out) = limbs_val out + limbs_val ls * limbs_val rs * 4294967296 ^ i"
  using assms
proof (induction ls arbitrary: i out)
  case Nil
  then show ?case by simp
next
  case (Cons l ls)
  let ?k = "i + length rs"
  obtain out' c where inner: "mul_inner (ucast l) rs i 0 out = (out', c)" by fastforce
  from mul_inner_correct [OF this] Cons.prems(1) u32_lt [of l] have m:
    "length out' = length out" "unat c < 4294967296"
    "limbs_val out' + unat c * 4294967296 ^ ?k = limbs_val out + unat l * limbs_val rs * 4294967296 ^ i"
    "\<forall>j. ?k \<le> j \<longrightarrow> out' ! j = out ! j" by simp_all
  define out'' where "out'' = (if c \<noteq> 0 then out'[?k := ucast c] else out')"
  have k: "?k < length out" using Cons.prems(1) by simp
  then have z: "out' ! ?k = 0" using m(4) Cons.prems(2) by simp
  have "unat (ucast c :: u32) = unat c" using m(2) by (simp add: unat_u64_u32)
  then have val: "limbs_val out'' = limbs_val out' + unat c * 4294967296 ^ ?k"
    using limbs_val_update [of ?k out' "ucast c"] k m(1) z by (simp add: out''_def)
  have "limbs_val (mul_outer ls rs (Suc i) out'') =
      limbs_val out'' + limbs_val ls * limbs_val rs * 4294967296 ^ Suc i"
    by (rule Cons.IH) (use Cons.prems m in \<open>auto simp: out''_def nth_list_update\<close>)
  then show ?case using inner val m(3) by (simp add: out''_def Let_def algebra_simps)
qed

lemma wf_mul [bigint_wf]: "bwf (bigint_mul a b)"
  by (simp add: bigint_mul_def bigint_wf Let_def)

lemma bval_mul [bigint_val]:
  assumes "bwf a" "bwf b"
  shows "bval (bigint_mul a b) = bval a * bval b"
proof -
  have "limbs_val (mul_outer (limbs a) (limbs b) 0 (replicate (length (limbs a) + length (limbs b)) 0))
      = limbs_val (limbs a) * limbs_val (limbs b)"
    by (subst mul_outer_correct) simp_all
  with assms show ?thesis
    by (auto simp: bwf_def bigint_mul_def bigint_val is_zero_def Let_def bval_def [of a] bval_def [of b])
qed

section \<open>Powers\<close>

lemma wf_pow_loop: "bwf base \<Longrightarrow> bwf out \<Longrightarrow> bwf (pow_loop base out e)"
proof (induction base out e rule: pow_loop.induct)
  case (1 base out e)
  then show ?case by (subst pow_loop.simps) (simp add: Let_def bigint_wf)
qed

lemma u64_odd: "(e :: u64) AND 1 = 1 \<longleftrightarrow> odd (unat e)"
proof -
  have "unat (e AND 1) = unat e mod 2" by (simp add: and_one_eq unat_mod)
  moreover have "e AND 1 = 1 \<longleftrightarrow> unat (e AND 1) = 1" by (simp add: word_unat_eq_iff)
  ultimately show ?thesis by (simp add: odd_iff_mod_2_eq_one)
qed

lemma bval_pow_loop:
  "bwf base \<Longrightarrow> bwf out \<Longrightarrow> bval (pow_loop base out e) = bval out * bval base ^ unat e"
proof (induction base out e rule: pow_loop.induct)
  case (1 base out e)
  have half: "unat (drop_bit 1 e) = unat e div 2"
    unfolding unat_drop_bit_eq by (simp add: drop_bit_eq_div)
  show ?case
  proof (cases "e = 0")
    case True
    then show ?thesis by (simp add: pow_loop.simps)
  next
    case False
    define base' where "base' = (if drop_bit 1 e \<noteq> 0 then bigint_mul base base else base)"
    define out' where "out' = (if e AND 1 = 1 then bigint_mul out base else out)"
    have b': "bwf base'" "bval base' ^ unat (drop_bit 1 e) = (bval base ^ 2) ^ (unat e div 2)"
      using "1.prems" half by (auto simp: base'_def bigint_wf bigint_val power2_eq_square)
    have o': "bwf out'" "bval out' = bval out * bval base ^ (unat e mod 2)"
      using "1.prems" by (auto simp: out'_def bigint_wf bigint_val u64_odd odd_iff_mod_2_eq_one)
    have "pow_loop base out e = pow_loop base' out' (drop_bit 1 e)"
      using False by (simp add: pow_loop.simps [of base out e] Let_def base'_def out'_def)
    also have "bval \<dots> = bval out' * bval base' ^ unat (drop_bit 1 e)"
      using "1.IH" [OF False out'_def refl base'_def b'(1) o'(1)] .
    also have "\<dots> = bval out * bval base ^ (unat e mod 2 + 2 * (unat e div 2))"
      by (simp only: b' o' power_add power_mult mult.assoc)
    finally show ?thesis by simp
  qed
qed

lemma wf_pow [bigint_wf]: "bwf b \<Longrightarrow> bwf (pow_u64 b e)"
  by (simp add: pow_u64_def wf_pow_loop bigint_wf)

lemma bval_pow [bigint_val]: "bwf b \<Longrightarrow> bval (pow_u64 b e) = bval b ^ unat e"
  by (simp add: pow_u64_def bval_pow_loop bigint_wf bigint_val)

end
