(* ===== verification/Bigint_Shift.thy ===== *)
theory Bigint_Shift
  imports Bigint_Arith
begin

text \<open>
  Shifts, bit lengths, the conversions to machine integers and bytes, and the single-limb
  multiplication, addition and division of \<^verbatim>\<open>src/runtime/bigint.rs\<close>.
\<close>

section \<open>Bit length\<close>

lemma nbits_u32: "nbits (unat (x :: u32)) \<le> 32"
  by (rule nbits_le) (use u32_lt [of x] in simp)

lemma bit_length_nbits:
  assumes "bwf b"
  shows "bit_length b = nbits (limbs_val (limbs b))"
proof (cases "limbs b = []")
  case True
  then show ?thesis by (simp add: bit_length_def)
next
  case False
  then obtain ys x where l: "limbs b = ys @ [x]" by (cases "limbs b" rule: rev_cases) auto
  with assms have x: "0 < unat x" by (auto simp: bwf_def unat_pos_iff)
  define k where "k = nbits (unat x)"
  have k: "0 < k" using x by (simp add: k_def nbits.simps [of "unat x"])
  have bl: "bit_length b = 32 * length ys + k"
    using nbits_u32 [of x] by (simp add: bit_length_def l leading_zeros_def k_def)
  have v: "limbs_val (limbs b) = limbs_val ys + 2 ^ (32 * length ys) * unat x"
    by (simp add: l limbs_val_append base_pow)
  have ys: "limbs_val ys < 2 ^ (32 * length ys)" using limbs_val_bound [of ys] by (simp add: base_pow)
  have "2 ^ (32 * length ys + k - 1) = 2 ^ (32 * length ys) * (2 ^ (k - 1) :: nat)"
    using k by (simp flip: power_add)
  also have "\<dots> \<le> 2 ^ (32 * length ys) * unat x"
    using nbits_lower [OF x] by (simp add: k_def)
  finally have lo: "2 ^ (32 * length ys + k - 1) \<le> limbs_val (limbs b)" using v by linarith
  have "2 ^ (32 * length ys) * Suc (unat x) \<le> 2 ^ (32 * length ys) * 2 ^ k"
    using nbits_upper [of "unat x"] by (intro mult_le_mono2) (simp add: k_def Suc_le_eq)
  then have "limbs_val (limbs b) < 2 ^ (32 * length ys + k)" using v ys by (simp add: power_add)
  from nbits_eqI [OF lo this] show ?thesis by (simp add: bl)
qed

lemma bit_length_val: "bwf b \<Longrightarrow> bit_length b = nbits (nat \<bar>bval b\<bar>)"
  by (simp add: bit_length_nbits abs_bval)

section \<open>Left shift\<close>

lemma shl_loop_correct:
  assumes "shl_loop s xs p c out = (out', c')" "s < 32" "unat c < 2 ^ s" "p + length xs \<le> length out"
    and "\<forall>j. p \<le> j \<longrightarrow> j < length out \<longrightarrow> out ! j = 0"
  shows "length out' = length out \<and> unat c' < 2 ^ s \<and>
    limbs_val out' + unat c' * 4294967296 ^ (p + length xs) =
      limbs_val out + limbs_val xs * 2 ^ s * 4294967296 ^ p + unat c * 4294967296 ^ p \<and>
    (\<forall>j. p + length xs \<le> j \<longrightarrow> j < length out \<longrightarrow> out' ! j = 0)"
  using assms
proof (induction xs arbitrary: p c out)
  case Nil
  then show ?case by simp
next
  case (Cons x xs)
  define sh where "sh = (push_bit s (ucast x) OR c :: u64)"
  let ?P = "4294967296 ^ p :: nat"
  have sh: "unat sh = unat x * 2 ^ s + unat c"
    using Cons.prems(2,3) by (simp add: sh_def unat_push_or_u64)
  have "Suc (unat x) * 2 ^ s \<le> 4294967296 * 2 ^ s"
    using u32_lt [of x] by (intro mult_le_mono1) (simp add: Suc_le_eq)
  then have "unat sh < 2 ^ s * 4294967296" using Cons.prems(3) unfolding sh mult_Suc by linarith
  then have hi: "unat (drop_bit 32 sh) < 2 ^ s" by (simp add: unat_shr32 div_less_iff_less_mult)
  have z: "out ! p = 0" using Cons.prems(4,5) by simp
  from Cons.prems have "shl_loop s xs (Suc p) (drop_bit 32 sh) (out[p := ucast sh]) = (out', c')"
    by (simp add: sh_def Let_def)
  from Cons.IH [OF this Cons.prems(2) hi] Cons.prems(4,5) have IH:
    "length out' = length out" "unat c' < 2 ^ s"
    "limbs_val out' + unat c' * 4294967296 ^ (Suc p + length xs) =
      limbs_val (out[p := ucast sh]) + limbs_val xs * 2 ^ s * 4294967296 ^ Suc p
       + unat (drop_bit 32 sh) * 4294967296 ^ Suc p"
    "\<forall>j. Suc p + length xs \<le> j \<longrightarrow> j < length out \<longrightarrow> out' ! j = 0"
    by simp_all
  have upd: "limbs_val (out[p := ucast sh]) = limbs_val out + unat (ucast sh :: u32) * ?P"
    using limbs_val_update [of p out "ucast sh"] Cons.prems(4) z by simp
  have "unat (ucast sh :: u32) * ?P + unat (drop_bit 32 sh) * 4294967296 ^ Suc p
      = (unat (ucast sh :: u32) + 4294967296 * unat (drop_bit 32 sh)) * ?P"
    by (simp add: algebra_simps)
  also have "\<dots> = unat x * 2 ^ s * ?P + unat c * ?P"
    unfolding u64_split sh by (simp add: algebra_simps)
  finally have "limbs_val out' + unat c' * 4294967296 ^ (Suc p + length xs) =
      limbs_val out + unat x * 2 ^ s * ?P + unat c * ?P + limbs_val xs * 2 ^ s * 4294967296 ^ Suc p"
    using IH(3) upd by linarith
  then show ?case using IH(1,2,4) by (simp add: algebra_simps)
qed

lemma wf_shl [bigint_wf]: "bwf b \<Longrightarrow> bwf (shl_bits b n)"
  by (simp add: shl_bits_def bigint_wf Let_def split: prod.split)

lemma bval_shl [bigint_val]:
  assumes "bwf b"
  shows "bval (shl_bits b n) = bval b * 2 ^ n"
proof (cases "is_zero b \<or> n = 0")
  case True
  then show ?thesis by (auto simp: shl_bits_def is_zero_def bval_def bigint_zero_def)
next
  case False
  let ?w = "n div 32" and ?s = "n mod 32" and ?len = "length (limbs b)"
  obtain out c where loop:
    "shl_loop ?s (limbs b) ?w 0 (replicate (?len + ?w + 1) 0) = (out, c)" by fastforce
  from shl_loop_correct [OF this] have l:
    "length out = ?len + ?w + 1" "unat c < 2 ^ ?s"
    "limbs_val out + unat c * 4294967296 ^ (?w + ?len) = limbs_val (limbs b) * 2 ^ ?s * 4294967296 ^ ?w"
    "\<forall>j. ?w + ?len \<le> j \<longrightarrow> j < length out \<longrightarrow> out ! j = 0"
    by (simp_all del: replicate_Suc)
  have "(2 :: nat) ^ ?s < 2 ^ 32" by (rule power_strict_increasing) simp_all
  then have "unat (ucast c :: u32) = unat c" using l(2) by (simp add: unat_u64_u32)
  then have "limbs_val (if c \<noteq> 0 then out[?len + ?w := ucast c] else out)
      = limbs_val (limbs b) * 2 ^ ?s * 4294967296 ^ ?w"
    using limbs_val_update [of "?len + ?w" out "ucast c"] l by (auto simp: add.commute)
  also have "\<dots> = limbs_val (limbs b) * 2 ^ n"
    by (simp add: base_pow mult.assoc flip: power_add)
  finally show ?thesis using False assms loop
    by (auto simp: shl_bits_def bigint_val bwf_def is_zero_def bval_def [of b] simp del: replicate_Suc)
qed

section \<open>Right shift\<close>

lemma shr_loop_correct:
  assumes "0 < s" "s < 32"
  shows "limbs_val (rev (shr_loop s (rev xs) c)) =
    (limbs_val xs + 4294967296 ^ length xs * (unat c mod 2 ^ s)) div 2 ^ s"
proof (induction xs arbitrary: c rule: rev_induct)
  case Nil
  show ?case by simp
next
  case (snoc x ys)
  let ?B = "4294967296 ^ length ys :: nat"
  have len: "length (shr_loop s us d) = length us" for us d
    by (induction us arbitrary: d) simp_all
  have B: "4294967296 = (2 :: nat) ^ (32 - s) * 2 ^ s" using assms by (simp flip: power_add)
  have x: "unat x = unat x div 2 ^ s * 2 ^ s + unat x mod 2 ^ s"
    by (rule div_mult_mod_eq [symmetric])
  have "limbs_val (rev (shr_loop s (rev (ys @ [x])) c)) =
      (limbs_val ys + ?B * (unat x mod 2 ^ s)) div 2 ^ s
       + ?B * (unat x div 2 ^ s + unat c mod 2 ^ s * 2 ^ (32 - s))"
    by (simp add: limbs_val_append len snoc.IH unat_shr_or_u32 [OF assms])
  also have "\<dots> = (limbs_val ys + ?B * (unat x mod 2 ^ s)
       + 2 ^ s * (?B * (unat x div 2 ^ s + unat c mod 2 ^ s * 2 ^ (32 - s)))) div 2 ^ s"
    by simp
  also have "limbs_val ys + ?B * (unat x mod 2 ^ s)
       + 2 ^ s * (?B * (unat x div 2 ^ s + unat c mod 2 ^ s * 2 ^ (32 - s)))
      = limbs_val ys + ?B * (unat x div 2 ^ s * 2 ^ s + unat x mod 2 ^ s)
        + ?B * (2 ^ (32 - s) * 2 ^ s) * (unat c mod 2 ^ s)"
    by (simp only: algebra_simps)
  also have "\<dots> = limbs_val (ys @ [x]) + 4294967296 ^ length (ys @ [x]) * (unat c mod 2 ^ s)"
    unfolding x [symmetric] B [symmetric] by (simp add: limbs_val_append algebra_simps)
  finally show ?case .
qed

lemma wf_abs_shr [bigint_wf]: "bwf (abs_shr_bits b n)"
  by (simp add: abs_shr_bits_def bigint_wf Let_def)

lemma bval_abs_shr [bigint_val]:
  assumes "bwf b"
  shows "bval (abs_shr_bits b n) = \<bar>bval b\<bar> div 2 ^ n"
proof -
  let ?w = "n div 32" and ?s = "n mod 32"
  have n: "(2 :: nat) ^ n = 4294967296 ^ ?w * 2 ^ ?s" by (simp add: base_pow flip: power_add)
  have sh: "limbs_val (rev (shr_loop ?s (rev (drop ?w (limbs b))) 0)) = limbs_val (limbs b) div 2 ^ n"
    if "?s \<noteq> 0"
    using that by (simp add: shr_loop_correct limbs_val_drop n div_mult2_eq)
  have ws: "limbs_val (drop ?w (limbs b)) = limbs_val (limbs b) div 2 ^ n" if "?s = 0"
    using that by (simp add: limbs_val_drop n)
  have none: "limbs_val (limbs b) div 2 ^ n = 0" if "length (limbs b) \<le> ?w"
    using limbs_val_drop [of ?w "limbs b"] that by (simp add: n div_mult2_eq)
  have "bval (abs_shr_bits b n) = int (limbs_val (limbs b) div 2 ^ n)"
    using assms sh ws none
    by (auto simp: abs_shr_bits_def bigint_val Let_def is_zero_def bwf_def)
  then show ?thesis by (simp add: abs_bval [OF assms] zdiv_int)
qed

lemma abs_has_low_bits_correct:
  assumes "bwf b"
  shows "abs_has_low_bits b n \<longleftrightarrow> \<bar>bval b\<bar> mod 2 ^ n \<noteq> 0"
proof -
  let ?w = "n div 32" and ?s = "n mod 32" and ?xs = "limbs b"
  have n: "(2 :: nat) ^ n = 4294967296 ^ ?w * 2 ^ ?s" by (simp add: base_pow flip: power_add)
  have low: "(\<exists>limb \<in> set (take (min ?w (length ?xs)) ?xs). limb \<noteq> 0) \<longleftrightarrow> limbs_val ?xs mod 4294967296 ^ ?w \<noteq> 0"
    by (simp add: limbs_val_take [symmetric] limbs_val_eq_0_iff min_def)
  have top: "limbs_val (drop ?w ?xs) mod 2 ^ ?s = unat (?xs ! ?w) mod 2 ^ ?s" if "?w < length ?xs"
  proof -
    have "(4294967296 :: nat) = 2 ^ (32 - ?s) * 2 ^ ?s" by (simp flip: power_add)
    then have "(2 :: nat) ^ ?s dvd 4294967296" by (rule dvdI [OF trans]) (simp add: mult.commute)
    then have "4294967296 * m mod 2 ^ ?s = (0 :: nat)" for m by (simp add: mod_eq_0_iff_dvd dvd_mult2)
    then have "(u + 4294967296 * m) mod 2 ^ ?s = u mod 2 ^ ?s" for u m :: nat
      by (metis add.right_neutral mod_add_right_eq)
    with that show ?thesis by (simp add: Cons_nth_drop_Suc [symmetric])
  qed
  have "limbs_val ?xs mod 2 ^ n
      = limbs_val ?xs mod 4294967296 ^ ?w + 4294967296 ^ ?w * (limbs_val (drop ?w ?xs) mod 2 ^ ?s)"
    unfolding n limbs_val_drop by (simp add: mod_mult2_eq add.commute)
  then have "limbs_val ?xs mod 2 ^ n \<noteq> 0 \<longleftrightarrow>
      limbs_val ?xs mod 4294967296 ^ ?w \<noteq> 0 \<or> limbs_val (drop ?w ?xs) mod 2 ^ ?s \<noteq> 0"
    by simp
  also have "\<dots> \<longleftrightarrow> abs_has_low_bits b n"
    using low top u32_mask_nonzero [of "?xs ! ?w" ?s]
    by (cases "?w < length ?xs"; cases "n = 0") (auto simp: abs_has_low_bits_def Let_def)
  finally have "limbs_val ?xs mod 2 ^ n \<noteq> 0 \<longleftrightarrow> abs_has_low_bits b n" .
  moreover have "\<bar>bval b\<bar> mod 2 ^ n = int (limbs_val ?xs mod 2 ^ n)"
    by (simp add: abs_bval [OF assms] zmod_int)
  ultimately show ?thesis by simp
qed

lemma wf_shr [bigint_wf]: "bwf b \<Longrightarrow> bwf (shr_bits_arithmetic b n)"
  by (simp add: shr_bits_arithmetic_def bigint_wf Let_def)

lemma bval_shr [bigint_val]:
  assumes "bwf b"
  shows "bval (shr_bits_arithmetic b n) = bval b div 2 ^ n"
  using assms
proof (cases rule: wf_sign_cases)
  case zero
  then show ?thesis by (simp add: shr_bits_arithmetic_def is_zero_def)
next
  case pos
  with assms show ?thesis by (simp add: shr_bits_arithmetic_def is_zero_def bigint_val)
next
  case neg
  then have m: "\<bar>bval b\<bar> = - bval b" by simp
  have "bval b div 2 ^ n = - (\<bar>bval b\<bar> div 2 ^ n) - (if \<bar>bval b\<bar> mod 2 ^ n = 0 then 0 else 1)"
    using zdiv_zminus1_eq_if [of "2 ^ n" "\<bar>bval b\<bar>"] by (simp add: m)
  with neg assms show ?thesis
    by (simp add: shr_bits_arithmetic_def is_zero_def bigint_val bigint_wf Let_def
        abs_has_low_bits_correct)
qed

section \<open>Single-limb multiplication and addition\<close>

lemma limbs_val_mul_small_loop:
  assumes "unat m < 4294967296" "unat c < 4294967296"
  shows "limbs_val (mul_small_loop m xs c) = limbs_val xs * unat m + unat c"
  using assms(2)
proof (induction xs arbitrary: c)
  case Nil
  then show ?case by (simp add: unat_u64_u32)
next
  case (Cons x xs)
  define v where "v = ucast x * m + c"
  have "unat v = unat x * unat m + unat c"
    using mul_step_bound [OF _ u32_lt [of x] assms(1) Cons.prems, of 0]
    by (simp add: v_def unat_add_u64 unat_mult_u64)
  moreover have "unat (drop_bit 32 v) < 4294967296" using u64_lt [of v] by (simp add: unat_shr32)
  ultimately show ?case using Cons.IH [of "drop_bit 32 v"] u64_split [of v]
    by (simp add: v_def Let_def algebra_simps)
qed

lemma wf_mul_small [bigint_wf]: "bwf b \<Longrightarrow> bwf (mul_small b m)"
  by (simp add: mul_small_def bigint_wf)

lemma bval_mul_small [bigint_val]: "bwf b \<Longrightarrow> bval (mul_small b m) = bval b * int (unat m)"
  using limbs_val_mul_small_loop [of "ucast m" 0 "limbs b"] u32_lt [of m]
  by (auto simp: mul_small_def bigint_val is_zero_def bwf_def bval_def [of b])

lemma limbs_val_add_small_loop:
  "unat c < 4294967296 \<Longrightarrow> limbs_val (add_small_loop xs c) = limbs_val xs + unat c"
proof (induction xs arbitrary: c)
  case Nil
  then show ?case by (simp add: add_small_loop.simps unat_u64_u32)
next
  case (Cons x xs)
  have s: "unat (ucast x + c) = unat x + unat c"
    using Cons.prems u32_lt [of x] by (simp add: unat_add_u64)
  then have "unat (drop_bit 32 (ucast x + c)) < 4294967296"
    using Cons.prems u32_lt [of x] by (simp add: unat_shr32)
  with Cons.IH [of "drop_bit 32 (ucast x + c)"] show ?case
    using u64_split [of "ucast x + c"] s by (simp add: add_small_loop.simps [of "x # xs"] Let_def)
qed

lemma wf_add_small [bigint_wf]: "bwf b \<Longrightarrow> bwf (add_small b m)"
  by (simp add: add_small_def bigint_wf)

lemma bval_add_small [bigint_val]: "bwf b \<Longrightarrow> bval (add_small b m) = bval b + int (unat m)"
  using limbs_val_add_small_loop [of "ucast m" "limbs b"] u32_lt [of m]
  by (auto simp: add_small_def bigint_val bigint_wf is_zero_def)
     (auto simp: bwf_def bval_def [of b])

section \<open>Single-limb division\<close>

lemma div_small_step:
  fixes x :: u32 and d r :: u64
  assumes "0 < unat d" "unat d < 4294967296" "unat r < unat d"
  defines "v \<equiv> push_bit 32 r OR ucast x"
  shows "unat v = unat r * 4294967296 + unat x"
    and "unat (ucast (v div d) :: u32) = unat v div unat d"
    and "unat (v mod d) = unat v mod unat d"
proof -
  have "unat r * 4294967296 < 18446744073709551616" using assms by simp
  then have "take_bit 64 (push_bit 32 (unat r)) = push_bit 32 (unat r)"
    by (intro take_bit_nat_eq_self) (simp add: push_bit_eq_mult)
  moreover have "unat x < 2 ^ 32" using u32_lt [of x] by simp
  ultimately show v: "unat v = unat r * 4294967296 + unat x"
    using or_push_nat [of "unat x" 32 "unat r"]
    by (simp add: v_def unsigned_or_eq unsigned_push_bit_eq)
  have "unat v < unat d * 4294967296"
    using v mult_le_mono1 [of "Suc (unat r)" "unat d" 4294967296] assms(3) u32_lt [of x] by simp
  then show "unat (ucast (v div d) :: u32) = unat v div unat d"
    by (simp add: unat_u64_u32 unat_div less_mult_imp_div_less mult.commute)
  show "unat (v mod d) = unat v mod unat d" by (simp add: unat_mod)
qed

lemma div_small_loop_correct:
  assumes "0 < unat d" "unat d < 4294967296"
  shows "unat r < unat d \<Longrightarrow> div_small_loop d (rev xs) r = (qs, r') \<Longrightarrow>
    limbs_val xs + unat r * 4294967296 ^ length xs = limbs_val (rev qs) * unat d + unat r' \<and>
    unat r' < unat d \<and> length qs = length xs"
proof (induction xs arbitrary: r qs r' rule: rev_induct)
  case Nil
  then show ?case by simp
next
  case (snoc x xs)
  define v where "v = (push_bit 32 r OR ucast x :: u64)"
  note st = div_small_step [OF assms snoc.prems(1), of x, folded v_def]
  from snoc.prems(2) obtain qs' where q: "div_small_loop d (rev xs) (v mod d) = (qs', r')"
    and qs: "qs = ucast (v div d) # qs'"
    by (auto simp: v_def Let_def split: prod.splits)
  have "unat (v mod d) < unat d" using assms(1) by (simp add: st)
  from snoc.IH [OF this q] have IH:
    "limbs_val xs + unat (v mod d) * 4294967296 ^ length xs = limbs_val (rev qs') * unat d + unat r'"
    "unat r' < unat d" "length qs' = length xs" by simp_all
  have "unat v = unat v div unat d * unat d + unat (v mod d)" by (simp add: st(3))
  then have "(unat r * 4294967296 + unat x) * 4294967296 ^ length xs
     = unat v div unat d * unat d * 4294967296 ^ length xs + unat (v mod d) * 4294967296 ^ length xs"
    unfolding st(1) [symmetric] by (metis add_mult_distrib)
  with IH show ?case
    by (simp add: qs limbs_val_append st(2) algebra_simps)
qed

lemma div_mod_small_correct:
  assumes "bwf b" "0 \<le> bval b" "0 < unat d"
    and "div_mod_small_positive b d = (q, r)"
  shows "bwf q" "bval q = bval b div int (unat d)" "int (unat r) = bval b mod int (unat d)"
proof -
  have "bwf q \<and> bval b = bval q * int (unat d) + int (unat r) \<and> unat r < unat d"
  proof (cases "is_zero b")
    case True
    then show ?thesis using assms by (auto simp: div_mod_small_positive_def is_zero_iff)
  next
    case False
    obtain qs r' where l: "div_small_loop (ucast d) (rev (limbs b)) 0 = (qs, r')" by fastforce
    from div_small_loop_correct [OF _ _ _ l] assms(3) u32_lt [of d] have
      c: "limbs_val (limbs b) = limbs_val (rev qs) * unat d + unat r'" "unat r' < unat d" by simp_all
    then have "unat (ucast r' :: u32) = unat r'" using u32_lt [of d] by (simp add: unat_u64_u32)
    moreover have "bval b = int (limbs_val (rev qs)) * int (unat d) + int (unat r')"
      using abs_bval [OF assms(1)] assms(2) c(1) by simp
    ultimately show ?thesis using False l c(2) assms
      by (auto simp: div_mod_small_positive_def bigint_wf bigint_val)
  qed
  then have e: "bwf q" "bval b = bval q * uint d + uint r" and "r < d"
    by (simp_all add: word_less_nat_alt)
  then have "uint r < uint d" by (simp add: word_less_def)
  moreover from this have "uint d \<noteq> 0" using uint_nonnegative [of r] by linarith
  ultimately show "bwf q" "bval q = bval b div int (unat d)" "int (unat r) = bval b mod int (unat d)"
    using e by (simp_all add: div_pos_pos_trivial mod_pos_pos_trivial)
qed

end
