(* ===== verification/Floats.thy ===== *)
theory Floats
  imports Bigint_Shift
begin

text \<open>
  IEEE double precision as the sources see it. An \<open>f64\<close> is its bit pattern (\<open>to_bits\<close>); the
  magnitude of a finite one is a fraction of natural numbers, and arithmetic is exact
  arithmetic on fractions followed by rounding to nearest, ties to even. On top of it the
  two conversions of \<^verbatim>\<open>src/runtime/bigint.rs\<close> and \<open>str::parse::<f64>\<close>.
\<close>

type_synonym f64 = u64

section \<open>Decoding and rounding\<close>

definition f64_exponent :: "f64 \<Rightarrow> nat" where
  "f64_exponent x = unat (drop_bit 52 x AND 0x7ff)"

definition f64_mantissa :: "f64 \<Rightarrow> nat" where
  "f64_mantissa x = unat (x AND (push_bit 52 1 - 1))"

definition f64_sign_bit :: "f64 \<Rightarrow> bool" where
  "f64_sign_bit x \<longleftrightarrow> drop_bit 63 x \<noteq> 0"

definition is_finite :: "f64 \<Rightarrow> bool" where
  "is_finite x \<longleftrightarrow> f64_exponent x \<noteq> 0x7ff"

text \<open>The magnitude of a finite double, as numerator and denominator.\<close>

definition f64_frac :: "f64 \<Rightarrow> nat \<times> nat" where
  "f64_frac x =
     (let e = f64_exponent x; m = f64_mantissa x
      in if e = 0 then (m, 2 ^ 1074)
         else if 1075 \<le> e then ((2 ^ 52 + m) * 2 ^ (e - 1075), 1)
         else (2 ^ 52 + m, 2 ^ (1075 - e)))"

definition f64_inf :: nat where
  "f64_inf = 2047 * 2 ^ 52"

text \<open>Rounding half to even of a quotient.\<close>

definition round_half_even :: "nat \<Rightarrow> nat \<Rightarrow> nat" where
  "round_half_even p q =
     (let m = p div q; r = p mod q
      in if q < 2 * r \<or> (2 * r = q \<and> odd m) then Suc m else m)"

text \<open>
  The exponent of the last place of the double nearest to \<open>p / q\<close>: the least \<open>e\<close> with
  \<open>p / q < 2 ^ (53 + e)\<close>, but not below that of the subnormal numbers. The estimate from the
  bit lengths is at most one too small.
\<close>

definition scaled :: "nat \<Rightarrow> nat \<Rightarrow> int \<Rightarrow> nat \<times> nat" where
  "scaled p q e = (if 0 \<le> e then (p, q * 2 ^ nat e) else (p * 2 ^ nat (- e), q))"

definition last_place :: "nat \<Rightarrow> nat \<Rightarrow> int" where
  "last_place p q =
     (let e = int (nbits p) - int (nbits q) - 53;
          (p', q') = scaled p q e
      in max (if p' div q' < 2 ^ 53 then e else e + 1) (- 1074))"

definition f64_round :: "nat \<Rightarrow> nat \<Rightarrow> nat" where
  "f64_round p q =
     (if p = 0 then 0
      else let e = last_place p q; (p', q') = scaled p q e
           in min f64_inf (nat (e + 1074) * 2 ^ 52 + round_half_even p' q'))"

text \<open>Sum and product of non-negative doubles.\<close>

definition f64_add_mag :: "nat \<Rightarrow> nat \<Rightarrow> nat" where
  "f64_add_mag x y =
     (if f64_inf \<le> x \<or> f64_inf \<le> y then f64_inf
      else let (a, b) = f64_frac (of_nat x); (c, d) = f64_frac (of_nat y)
           in f64_round (a * d + c * b) (b * d))"

definition f64_mul_mag :: "nat \<Rightarrow> nat \<Rightarrow> nat" where
  "f64_mul_mag x y =
     (if f64_inf \<le> x \<or> f64_inf \<le> y then f64_inf
      else let (a, b) = f64_frac (of_nat x); (c, d) = f64_frac (of_nat y)
           in f64_round (a * c) (b * d))"

section \<open>Conversions of big integers\<close>

definition from_f64_integral :: "f64 \<Rightarrow> BigInt option" where
  "from_f64_integral value =
     (if \<not> is_finite value then None
      else if fst (f64_frac value) = 0 then Some bigint_zero
      else if \<not> snd (f64_frac value) dvd fst (f64_frac value) then None
      else if f64_exponent value = 0 then Some bigint_zero
      else let mantissa = value AND (push_bit 52 1 - 1);
               out = from_u64 (push_bit 52 1 OR mantissa);
               shift = int (f64_exponent value) - 1023 - 52;
               shifted = (if 0 \<le> shift then Some (shl_bits out (nat shift))
                          else if abs_has_low_bits out (nat (- shift)) then None
                          else Some (abs_shr_bits out (nat (- shift))))
           in map_option (\<lambda>out. if f64_sign_bit value then negated out else out) shifted)"

text \<open>The loop over the limbs from the most significant one; \<open>4294967296.0\<close> is a double constant.\<close>

definition to_f64_mag :: "u32 list \<Rightarrow> nat" where
  "to_f64_mag ls =
     foldl (\<lambda>value limb. f64_add_mag (f64_mul_mag value (f64_round 4294967296 1)) (f64_round (unat limb) 1))
       0 (rev ls)"

definition to_f64 :: "BigInt \<Rightarrow> f64" where
  "to_f64 b =
     (if is_zero b then 0
      else let value = of_nat (to_f64_mag (limbs b))
           in if sign b < 0 then value XOR push_bit 63 1 else value)"

section \<open>Parsing\<close>

text \<open>
  \<open>str::parse::<f64>\<close>: an optional sign, then \<open>inf\<close>, \<open>infinity\<close>, \<open>nan\<close> in any case, or decimal
  digits with an optional point (a digit on at least one side) and an optional exponent.
\<close>

definition is_digit_char :: "rchar \<Rightarrow> bool" where
  "is_digit_char c \<longleftrightarrow> 48 \<le> c \<and> c \<le> 57"

definition dec_val :: "rstring \<Rightarrow> nat" where
  "dec_val ds = foldl (\<lambda>v c. v * 10 + (c - 48)) 0 ds"

definition lower_char :: "rchar \<Rightarrow> rchar" where
  "lower_char c = (if 65 \<le> c \<and> c \<le> 90 then c + 32 else c)"

definition parse_exp :: "rstring \<Rightarrow> int option" where
  "parse_exp s =
     (case s of
        [] \<Rightarrow> Some 0
      | c # rest \<Rightarrow>
          if lower_char c \<noteq> 101 then None
          else let neg = (rest \<noteq> [] \<and> hd rest = 45);
                   ds = (if rest \<noteq> [] \<and> (hd rest = 45 \<or> hd rest = 43) then tl rest else rest)
               in if ds = [] \<or> \<not> list_all is_digit_char ds then None
                  else Some (if neg then - int (dec_val ds) else int (dec_val ds)))"

definition parse_number :: "rstring \<Rightarrow> nat option" where
  "parse_number s =
     (let ip = takeWhile is_digit_char s;
          s1 = dropWhile is_digit_char s;
          dot = (s1 \<noteq> [] \<and> hd s1 = 46);
          fp = (if dot then takeWhile is_digit_char (tl s1) else []);
          s2 = (if dot then dropWhile is_digit_char (tl s1) else s1)
      in if ip = [] \<and> fp = [] then None
         else case parse_exp s2 of
             None \<Rightarrow> None
           | Some ex \<Rightarrow>
               let e = ex - int (length fp); n = dec_val (ip @ fp)
               in Some (if 0 \<le> e then f64_round (n * 10 ^ nat e) 1 else f64_round n (10 ^ nat (- e))))"

definition parse_f64 :: "rstring \<Rightarrow> f64 option" where
  "parse_f64 s =
     (let neg = (s \<noteq> [] \<and> hd s = 45);
          body = (if s \<noteq> [] \<and> (hd s = 45 \<or> hd s = 43) then tl s else s);
          low = map lower_char body;
          mag = (if low = str ''inf'' \<or> low = str ''infinity'' then Some f64_inf
                 else if low = str ''nan'' then Some (f64_inf + 2 ^ 51)
                 else parse_number body)
      in map_option (\<lambda>v. if neg then of_nat v OR push_bit 63 1 else of_nat v) mag)"

end
