(* ===== verification/Marshal.thy ===== *)
theory Marshal
  imports Pyc Unicode Floats
begin

text \<open>
  The marshal format of \<^verbatim>\<open>src/bytecode/cpython.rs\<close>: the objects a compiled module contains,
  \<open>MarshalWriter\<close>, \<open>MarshalReader\<close> with its table of references, and the entry points
  \<open>load_pyc\<close>, \<open>dump_pyc\<close>, \<open>marshal_dump_object\<close> and \<open>marshal_load_object\<close>. Floats are their
  bit patterns. A writer is modelled by the bytes it appends to \<open>data\<close>; an error discards
  them, as the callers do.
\<close>

section \<open>Objects\<close>

datatype PyObject =
    Null
  | NoneObj
  | StopIteration
  | EllipsisObj
  | Bool bool
  | IntObj i64
  | BigIntObj BigInt
  | Float f64
  | Complex f64 f64
  | Str rstring
  | Bytes "u8 list"
  | Tuple "PyObject list"
  | ListObj "PyObject list"
  | Dict "(PyObject \<times> PyObject) list"
  | SetObj "PyObject list"
  | FrozenSet "PyObject list"
  | Code CpythonCode
  | Slice "PyObject option" "PyObject option" "PyObject option"
and CpythonCode =
    CpythonCode (argcount: i32) (posonlyargcount: i32) (kwonlyargcount: i32) (stacksize: i32) (flags: i32)
      (code: "u8 list") (code_consts: "PyObject list") (names: "rstring list")
      (localsplusnames: "rstring list") (localspluskinds: "u8 list")
      (filename: rstring) (name: rstring) (qualname: rstring) (firstlineno: i32)
      (linetable: "u8 list") (exceptiontable: "u8 list")

section \<open>The writer\<close>

definition write_u8 :: "char \<Rightarrow> u8 list" where
  "write_u8 c = [of_nat (of_char c)]"

definition write_i32 :: "i32 \<Rightarrow> u8 list" where
  "write_i32 v = u32_le_bytes v"

definition write_u16 :: "u16 \<Rightarrow> u8 list" where
  "write_u16 v = u16_le_bytes v"

definition i32_try_from :: "nat \<Rightarrow> i32 option" where
  "i32_try_from n = (if n < 2 ^ 31 then Some (of_nat n) else None)"

definition write_bytes_long :: "u8 list \<Rightarrow> u8 list res" where
  "write_bytes_long bytes =
     bindr (ok_or (i32_try_from (length bytes)) ''byte sequence too large for marshal'') (\<lambda>n.
     Inr (write_i32 n @ bytes))"

fun long_digits :: "nat \<Rightarrow> u16 list" where
  "long_digits mag = (if mag = 0 then [] else of_nat (mag mod 32768) # long_digits (mag div 32768))"

declare long_digits.simps [simp del]

definition write_long :: "i64 \<Rightarrow> u8 list res" where
  "write_long value =
     (if value = 0 then Inr (write_i32 0)
      else let digits = long_digits (nat \<bar>sint value\<bar>) in
        bindr (ok_or (i32_try_from (length digits)) ''long constant too large'') (\<lambda>count.
        Inr (write_i32 (if sint value < 0 then - count else count) @ concat (map write_u16 digits))))"

definition write_int :: "i64 \<Rightarrow> u8 list res" where
  "write_int value =
     (if - (2 ^ 31) \<le> sint value \<and> sint value \<le> 2 ^ 31 - 1
      then Inr (write_u8 CHR ''i'' @ write_i32 (ucast value))
      else bindr (write_long value) (\<lambda>out. Inr (write_u8 CHR ''l'' @ out)))"

definition write_str :: "rstring \<Rightarrow> u8 list res" where
  "write_str s = bindr (write_bytes_long (as_bytes s)) (\<lambda>out. Inr (write_u8 CHR ''u'' @ out))"

definition write_bytes :: "u8 list \<Rightarrow> u8 list res" where
  "write_bytes bs = bindr (write_bytes_long bs) (\<lambda>out. Inr (write_u8 CHR ''s'' @ out))"

text \<open>The loop over the elements of a sequence, given what each element writes.\<close>

fun write_each :: "u8 list res list \<Rightarrow> u8 list res" where
  "write_each [] = Inr []"
| "write_each (w # ws) = bindr w (\<lambda>a. bindr (write_each ws) (\<lambda>b. Inr (a @ b)))"

definition write_seq :: "char \<Rightarrow> string \<Rightarrow> u8 list res list \<Rightarrow> u8 list res" where
  "write_seq tag too_large items =
     bindr (ok_or (i32_try_from (length items)) too_large) (\<lambda>n.
     bindr (write_each items) (\<lambda>out.
     Inr (write_u8 tag @ write_i32 n @ out)))"

definition write_opt :: "u8 list res option \<Rightarrow> u8 list res" where
  "write_opt w = (case w of Some w \<Rightarrow> w | None \<Rightarrow> Inr (write_u8 CHR ''0''))"

fun write_object :: "PyObject \<Rightarrow> u8 list res"
  and write_code_object :: "CpythonCode \<Rightarrow> u8 list res" where
  "write_object Null = Inr (write_u8 CHR ''0'')"
| "write_object NoneObj = Inr (write_u8 CHR ''N'')"
| "write_object StopIteration = Inr (write_u8 CHR ''S'')"
| "write_object EllipsisObj = Inr (write_u8 CHR ''.'')"
| "write_object (Bool b) = Inr (write_u8 (if b then CHR ''T'' else CHR ''F''))"
| "write_object (IntObj value) = write_int value"
| "write_object (BigIntObj b) = Inl (Err ''cannot marshal bigint constants outside i64 range'')"
| "write_object (Float value) = Inr (write_u8 CHR ''g'' @ u64_le_bytes value)"
| "write_object (Complex re im) = Inr (write_u8 CHR ''y'' @ u64_le_bytes re @ u64_le_bytes im)"
| "write_object (Str s) = write_str s"
| "write_object (Bytes bs) = write_bytes bs"
| "write_object (Tuple items) =
     write_seq CHR ''('' ''tuple constant too large'' (map write_object items)"
| "write_object (ListObj items) =
     write_seq CHR ''['' ''list constant too large'' (map write_object items)"
| "write_object (Dict entries) =
     bindr (write_each (map (\<lambda>(key, value).
              bindr (write_object key) (\<lambda>a. bindr (write_object value) (\<lambda>b. Inr (a @ b)))) entries)) (\<lambda>out.
     Inr (write_u8 CHR ''{'' @ out @ write_u8 CHR ''0''))"
| "write_object (SetObj items) =
     write_seq CHR ''<'' ''set constant too large'' (map write_object items)"
| "write_object (FrozenSet items) =
     write_seq CHR ''>'' ''frozenset constant too large'' (map write_object items)"
| "write_object (Code c) = write_code_object c"
| "write_object (Slice lower upper step) =
     bindr (write_opt (map_option write_object lower)) (\<lambda>a.
     bindr (write_opt (map_option write_object upper)) (\<lambda>b.
     bindr (write_opt (map_option write_object step)) (\<lambda>c.
     Inr (write_u8 CHR '':'' @ a @ b @ c))))"
| "write_code_object (CpythonCode ac po kw ss fl cd cs ns lps lpk fn nm qn fl1 lt et) =
     bindr (write_bytes cd) (\<lambda>code_bytes.
     bindr (write_seq CHR ''('' ''tuple constant too large'' (map write_object cs)) (\<lambda>consts_bytes.
     bindr (write_seq CHR ''('' ''tuple constant too large'' (map write_str ns)) (\<lambda>names_bytes.
     bindr (write_seq CHR ''('' ''tuple constant too large'' (map write_str lps)) (\<lambda>lps_bytes.
     bindr (write_bytes lpk) (\<lambda>lpk_bytes.
     bindr (write_str fn) (\<lambda>fn_bytes.
     bindr (write_str nm) (\<lambda>nm_bytes.
     bindr (write_str qn) (\<lambda>qn_bytes.
     bindr (write_bytes lt) (\<lambda>lt_bytes.
     bindr (write_bytes et) (\<lambda>et_bytes.
     Inr (write_u8 CHR ''c'' @ write_i32 ac @ write_i32 po @ write_i32 kw @ write_i32 ss @ write_i32 fl @
          code_bytes @ consts_bytes @ names_bytes @ lps_bytes @ lpk_bytes @ fn_bytes @ nm_bytes @
          qn_bytes @ write_i32 fl1 @ lt_bytes @ et_bytes)))))))))))"

section \<open>The reader\<close>

record MarshalReader =
  data :: "u8 list"
  offset :: nat
  refs :: "PyObject list"

definition new_reader :: "u8 list \<Rightarrow> MarshalReader" where
  "new_reader bytes = \<lparr>data = bytes, offset = 0, refs = []\<rparr>"

type_synonym 'a reader = "MarshalReader \<Rightarrow> ('a \<times> MarshalReader) res"

definition read_u8 :: "u8 reader" where
  "read_u8 r =
     (if offset r < length (data r) then Inr (data r ! offset r, r\<lparr>offset := offset r + 1\<rparr>)
      else Inl (Err ''unexpected end of data''))"

text \<open>The end of the slice is a \<open>usize\<close>, whose addition is checked.\<close>

definition read_exact :: "nat \<Rightarrow> u8 list reader" where
  "read_exact n r =
     (let stop = offset r + n in
      if 2 ^ 64 \<le> stop then Inl (Panic ''attempt to add with overflow'')
      else if length (data r) < stop then Inl (Err ''unexpected end of data'')
      else Inr (take n (drop (offset r) (data r)), r\<lparr>offset := stop\<rparr>))"

definition read_i32 :: "i32 reader" where
  "read_i32 r = bindr (read_exact 4 r) (\<lambda>(bs, r). Inr (u32_from_le bs, r))"

definition read_u16 :: "u16 reader" where
  "read_u16 r = bindr (read_exact 2 r) (\<lambda>(bs, r). Inr (of_nat (bytes_val bs), r))"

definition read_f64 :: "f64 reader" where
  "read_f64 r = bindr (read_exact 8 r) (\<lambda>(bs, r). Inr (of_nat (bytes_val bs), r))"

text \<open>The cast of an \<open>i32\<close> to \<open>usize\<close> sign-extends: a negative size becomes huge.\<close>

definition as_usize :: "i32 \<Rightarrow> nat" where
  "as_usize v = unat (scast v :: u64)"

definition read_bytes_long :: "u8 list reader" where
  "read_bytes_long r = bindr (read_i32 r) (\<lambda>(n, r). read_exact (as_usize n) r)"

definition utf8_string :: "u8 list \<times> MarshalReader \<Rightarrow> (rstring \<times> MarshalReader) res" where
  "utf8_string = (\<lambda>(bs, r). bindr (ok_or (from_utf8 bs) ''invalid utf8'') (\<lambda>s. Inr (s, r)))"

definition read_string_long :: "rstring reader" where
  "read_string_long r = bindr (read_bytes_long r) utf8_string"

definition read_string_short :: "rstring reader" where
  "read_string_short r =
     bindr (read_u8 r) (\<lambda>(n, r). bindr (read_exact (unat n) r) utf8_string)"

fun read_digits :: "nat \<Rightarrow> u64 list reader" where
  "read_digits 0 r = Inr ([], r)"
| "read_digits (Suc n) r =
     bindr (read_u16 r) (\<lambda>(d, r). bindr (read_digits n r) (\<lambda>(ds, r). Inr (ucast d # ds, r)))"

definition digits_bigint :: "u64 list \<Rightarrow> BigInt" where
  "digits_bigint digits =
     foldl (\<lambda>value digit.
         if digit \<noteq> 0 then bigint_add (shl_bits value 15) (from_u64 digit) else shl_bits value 15)
       bigint_zero (rev digits)"

definition i32_unsigned_abs :: "i32 \<Rightarrow> nat" where
  "i32_unsigned_abs n = nat \<bar>sint n\<bar>"

definition read_long_object :: "PyObject reader" where
  "read_long_object r =
     bindr (read_i32 r) (\<lambda>(n, r).
     if n = 0 then Inr (IntObj 0, r)
     else
       bindr (read_digits (i32_unsigned_abs n) r) (\<lambda>(digits, r).
       let value = digits_bigint digits;
           value' = (if sint n < 0 then negated value else value)
       in case to_i64 value' of
            Some i \<Rightarrow> Inr (IntObj i, r)
          | None \<Rightarrow> Inr (BigIntObj value', r)))"

definition reserve_ref :: "MarshalReader \<Rightarrow> nat \<times> MarshalReader" where
  "reserve_ref r = (length (refs r), r\<lparr>refs := refs r @ [Null]\<rparr>)"

fun parse_str_list :: "PyObject list \<Rightarrow> rstring list res" where
  "parse_str_list [] = Inr []"
| "parse_str_list (Str s # items) = bindr (parse_str_list items) (\<lambda>ss. Inr (s # ss))"
| "parse_str_list (_ # items) = Inl (Err ''expected string in list'')"

definition as_seq :: "string \<Rightarrow> PyObject \<Rightarrow> PyObject list res" where
  "as_seq msg obj = (case obj of Tuple items \<Rightarrow> Inr items | ListObj items \<Rightarrow> Inr items | _ \<Rightarrow> Inl (Err msg))"

definition as_bytes_obj :: "string \<Rightarrow> PyObject \<Rightarrow> u8 list res" where
  "as_bytes_obj msg obj = (case obj of Bytes bs \<Rightarrow> Inr bs | _ \<Rightarrow> Inl (Err msg))"

definition as_str_obj :: "string \<Rightarrow> PyObject \<Rightarrow> rstring res" where
  "as_str_obj msg obj = (case obj of Str s \<Rightarrow> Inr s | _ \<Rightarrow> Inl (Err msg))"

definition non_null :: "PyObject \<Rightarrow> PyObject option" where
  "non_null obj = (if obj = Null then None else Some obj)"

text \<open>\<open>Vec::with_capacity\<close> panics when the size in bytes exceeds \<open>isize::MAX\<close>.\<close>

definition with_capacity :: "nat \<Rightarrow> unit res" where
  "with_capacity n = (if 2 ^ 63 \<le> n then Inl (Panic ''capacity overflow'') else Inr ())"

text \<open>The \<open>Debug\<close> form of an ASCII character, for the error message.\<close>

definition hex_char :: "nat \<Rightarrow> char" where
  "hex_char n = char_of (if n < 10 then 48 + n else 87 + n)"

definition debug_char :: "nat \<Rightarrow> string" where
  "debug_char n =
     (let body =
        (if n = 0 then [char_of (92::nat), CHR ''0'']
         else if n = 9 then [char_of (92::nat), CHR ''t'']
         else if n = 10 then [char_of (92::nat), CHR ''n'']
         else if n = 13 then [char_of (92::nat), CHR ''r'']
         else if n = 39 \<or> n = 92 then [char_of (92::nat), char_of n]
         else if 32 \<le> n \<and> n < 127 then [char_of n]
         else char_of (92::nat) # ''u{'' @ (if n < 16 then [hex_char n] else [hex_char (n div 16), hex_char (n mod 16)]) @ ''}'')
      in [char_of (39::nat)] @ body @ [char_of (39::nat)])"

text \<open>The second half of the \<open>'c'\<close> branch, which checks the kinds of the ten objects read.\<close>

definition build_code ::
  "i32 list \<Rightarrow> i32 \<Rightarrow> PyObject list \<Rightarrow> PyObject res" where
  "build_code ints first objs =
     bindr (as_bytes_obj ''code object missing bytes'' (objs ! 0)) (\<lambda>cd.
     bindr (as_seq ''code consts must be tuple/list'' (objs ! 1)) (\<lambda>cs.
     bindr (bindr (as_seq ''code names must be tuple/list'' (objs ! 2)) parse_str_list) (\<lambda>ns.
     bindr (bindr (as_seq ''localsplusnames must be tuple/list'' (objs ! 3)) parse_str_list) (\<lambda>lps.
     bindr (as_bytes_obj ''localspluskinds must be bytes'' (objs ! 4)) (\<lambda>lpk.
     bindr (as_str_obj ''filename must be string'' (objs ! 5)) (\<lambda>fn.
     bindr (as_str_obj ''name must be string'' (objs ! 6)) (\<lambda>nm.
     bindr (as_str_obj ''qualname must be string'' (objs ! 7)) (\<lambda>qn.
     bindr (as_bytes_obj ''linetable must be bytes'' (objs ! 8)) (\<lambda>lt.
     bindr (as_bytes_obj ''exceptiontable must be bytes'' (objs ! 9)) (\<lambda>et.
     Inr (Code (CpythonCode (ints ! 0) (ints ! 1) (ints ! 2) (ints ! 3) (ints ! 4)
            cd cs ns lps lpk fn nm qn first lt et))))))))))))"

fun read_ints :: "nat \<Rightarrow> i32 list reader" where
  "read_ints 0 r = Inr ([], r)"
| "read_ints (Suc n) r =
     bindr (read_i32 r) (\<lambda>(i, r). bindr (read_ints n r) (\<lambda>(is, r). Inr (i # is, r)))"

text \<open>What the value of a finished object does to its reserved slot in the reference table.\<close>

definition finish_ref :: "nat option \<Rightarrow> PyObject \<times> MarshalReader \<Rightarrow> (PyObject \<times> MarshalReader) res" where
  "finish_ref ref_index = (\<lambda>(value, r).
     case ref_index of
       None \<Rightarrow> Inr (value, r)
     | Some i \<Rightarrow>
         if length (refs r) \<le> i then Inl (Err ''invalid marshal reference'')
         else Inr (value, r\<lparr>refs := (refs r)[i := value]\<rparr>))"

text \<open>
  The loops of the container branches, over the reader \<open>rd\<close> of one element. The loop of the
  dictionary branch ends at a null key; it gets a number of rounds.
\<close>

fun read_n :: "PyObject reader \<Rightarrow> nat \<Rightarrow> PyObject list reader" where
  "read_n rd 0 r = Inr ([], r)"
| "read_n rd (Suc n) r =
     bindr (rd r) (\<lambda>(x, r). bindr (read_n rd n r) (\<lambda>(xs, r). Inr (x # xs, r)))"

fun read_entries :: "PyObject reader \<Rightarrow> nat \<Rightarrow> (PyObject \<times> PyObject) list reader" where
  "read_entries rd 0 r = Inl Diverge"
| "read_entries rd (Suc rounds) r =
     bindr (rd r) (\<lambda>(key, r).
     if key = Null then Inr ([], r)
     else
       bindr (rd r) (\<lambda>(value, r).
       bindr (read_entries rd rounds r) (\<lambda>(es, r). Inr ((key, value) # es, r))))"

text \<open>The branches of \<open>read_object\<close> that build a value, by the type byte.\<close>

definition read_body :: "PyObject reader \<Rightarrow> nat \<Rightarrow> bool \<Rightarrow> char \<Rightarrow> PyObject reader" where
  "read_body rd fuel allow_code obj_type r =
     (if obj_type = CHR ''0'' then Inr (Null, r)
      else if obj_type = CHR ''N'' then Inr (NoneObj, r)
      else if obj_type = CHR ''S'' then Inr (StopIteration, r)
      else if obj_type = CHR ''.'' then Inr (EllipsisObj, r)
      else if obj_type = CHR ''F'' then Inr (Bool False, r)
      else if obj_type = CHR ''T'' then Inr (Bool True, r)
      else if obj_type = CHR ''i'' then bindr (read_i32 r) (\<lambda>(v, r). Inr (IntObj (scast v), r))
      else if obj_type = CHR ''l'' then read_long_object r
      else if obj_type = CHR ''g'' then bindr (read_f64 r) (\<lambda>(v, r). Inr (Float v, r))
      else if obj_type = CHR ''y'' then
        bindr (read_f64 r) (\<lambda>(re, r). bindr (read_f64 r) (\<lambda>(im, r). Inr (Complex re im, r)))
      else if obj_type = CHR ''f'' then
        bindr (read_u8 r) (\<lambda>(len, r).
        bindr (read_exact (unat len) r) (\<lambda>(bytes, r).
        bindr (ok_or (from_utf8 bytes) ''invalid marshal float string'') (\<lambda>txt.
        bindr (ok_or (parse_f64 txt) ''invalid marshal float literal'') (\<lambda>value.
        Inr (Float value, r)))))
      else if obj_type = CHR ''s'' then bindr (read_bytes_long r) (\<lambda>(bs, r). Inr (Bytes bs, r))
      else if obj_type = CHR ''a'' \<or> obj_type = CHR ''A'' then
        bindr (read_string_long r) (\<lambda>(s, r). Inr (Str s, r))
      else if obj_type = CHR ''z'' \<or> obj_type = CHR ''Z'' then
        bindr (read_string_short r) (\<lambda>(s, r). Inr (Str s, r))
      else if obj_type = CHR ''u'' \<or> obj_type = CHR ''t'' then
        bindr (read_string_long r) (\<lambda>(s, r). Inr (Str s, r))
      else if obj_type = CHR ''('' then
        bindr (read_i32 r) (\<lambda>(n, r). bindr (with_capacity (as_usize n)) (\<lambda>_.
        bindr (read_n rd (as_usize n) r) (\<lambda>(xs, r). Inr (Tuple xs, r))))
      else if obj_type = CHR '')'' then
        bindr (read_u8 r) (\<lambda>(n, r).
        bindr (read_n rd (unat n) r) (\<lambda>(xs, r). Inr (Tuple xs, r)))
      else if obj_type = CHR ''['' then
        bindr (read_i32 r) (\<lambda>(n, r). bindr (with_capacity (as_usize n)) (\<lambda>_.
        bindr (read_n rd (as_usize n) r) (\<lambda>(xs, r). Inr (ListObj xs, r))))
      else if obj_type = CHR ''{'' then
        bindr (read_entries rd fuel r) (\<lambda>(es, r). Inr (Dict es, r))
      else if obj_type = CHR ''<'' then
        bindr (read_i32 r) (\<lambda>(n, r). bindr (with_capacity (as_usize n)) (\<lambda>_.
        bindr (read_n rd (as_usize n) r) (\<lambda>(xs, r). Inr (SetObj xs, r))))
      else if obj_type = CHR ''>'' then
        bindr (read_i32 r) (\<lambda>(n, r). bindr (with_capacity (as_usize n)) (\<lambda>_.
        bindr (read_n rd (as_usize n) r) (\<lambda>(xs, r). Inr (FrozenSet xs, r))))
      else if obj_type = CHR ''c'' then
        (if \<not> allow_code then Inl (Err ''code objects not allowed'')
         else
           bindr (read_ints 5 r) (\<lambda>(ints, r).
           bindr (read_n rd 8 r) (\<lambda>(objs, r).
           bindr (read_i32 r) (\<lambda>(first, r).
           bindr (read_n rd 2 r) (\<lambda>(tables, r).
           bindr (build_code ints first (objs @ tables)) (\<lambda>obj. Inr (obj, r)))))))
      else if obj_type = CHR '':'' then
        bindr (read_n rd 3 r) (\<lambda>(xs, r).
        Inr (Slice (non_null (xs ! 0)) (non_null (xs ! 1)) (non_null (xs ! 2)), r))
      else Inl (Err (''unsupported marshal type '' @ debug_char (of_char obj_type))))"

text \<open>
  The recursion is over the nesting depth, given as fuel; \<open>Marshal_Proofs\<close> shows that one
  more than the number of unread bytes is enough for every input.
\<close>

primrec read_object :: "nat \<Rightarrow> bool \<Rightarrow> PyObject reader" where
  "read_object 0 allow_code r = Inl Diverge"
| "read_object (Suc fuel) allow_code r =
     bindr (read_u8 r) (\<lambda>(code, r).
     let flag = (code AND 0x80 \<noteq> 0);
         obj_type = char_of (unat (code AND 0x7f));
         (ref_index, r) = (if flag then (let (i, r) = reserve_ref r in (Some i, r)) else (None, r))
     in if obj_type = CHR ''r'' then
          bindr (read_i32 r) (\<lambda>(i, r).
          let index = as_usize i
          in if index < length (refs r) then Inr (refs r ! index, r)
             else Inl (Err ''invalid marshal reference''))
        else bindr (read_body (read_object fuel allow_code) fuel allow_code obj_type r) (finish_ref ref_index))"

section \<open>Entry points\<close>

definition read_fuel :: "u8 list \<Rightarrow> nat" where
  "read_fuel bytes = length bytes + 1"

definition marshal_dump_object :: "PyObject \<Rightarrow> u8 list res" where
  "marshal_dump_object obj = write_object obj"

definition marshal_load_object :: "u8 list \<Rightarrow> bool \<Rightarrow> PyObject res" where
  "marshal_load_object bytes allow_code =
     bindr (read_object (read_fuel bytes) allow_code (new_reader bytes)) (\<lambda>(obj, r). Inr obj)"

definition load_pyc :: "u8 list \<Rightarrow> CpythonCode res" where
  "load_pyc bytes =
     bindr (parse_pyc_header bytes) (\<lambda>(header, off).
     bindr (read_object (read_fuel (drop off bytes)) True (new_reader (drop off bytes))) (\<lambda>(obj, r).
     case obj of Code c \<Rightarrow> Inr c | _ \<Rightarrow> Inl (Err ''pyc did not contain a code object'')))"

definition dump_pyc :: "CpythonCode \<Rightarrow> PycHeader \<Rightarrow> u8 list res" where
  "dump_pyc c header =
     bindr (write_pyc_header header) (\<lambda>bytes.
     bindr (write_code_object c) (\<lambda>out. Inr (bytes @ out)))"

end
