(* ===== verification/Bigint_Bitwise.thy ===== *)
theory Bigint_Bitwise
  imports Bigint_Shift
begin

text \<open>
  The bitwise operations of \<open>BigInt\<close>: they convert both operands to two's complement words,
  combine the words limb by limb and convert back. The locale \<open>word_bitop\<close> states what a
  limb operation has to satisfy for the whole routine to compute an operation on integers
  with infinite sign extension (Python's semantics); it is interpreted for the three
  operators of the source.
\<close>

section \<open>Complementing limb vectors\<close>

lemma uint_not_u32: "uint (NOT (w :: u32)) = 4294967295 - uint w"
proof -
  have "uint (NOT w) = (- uint w - 1) mod 2 ^ 32"
    unfolding unsigned_not_eq by (simp add: take_bit_eq_mod not_eq_complement)
  also have "\<dots> = (4294967295 - uint w) mod 4294967296"
    by (subst mod_add_self2 [symmetric]) (simp add: algebra_simps)
  also have "\<dots> = 4294967295 - uint w"
  proof (rule mod_pos_pos_trivial)
    have "uint w < 4294967296" using uint_bounded [of w] by simp
    then show "0 \<le> 4294967295 - uint w" by linarith
    show "4294967295 - uint w < 4294967296" using uint_nonnegative [of w] by linarith
  qed
  finally show ?thesis .
qed

lemma limbs_val_map_not:
  "int (limbs_val (map (\<lambda>w. NOT w) ws)) = 4294967296 ^ length ws - 1 - int (limbs_val ws)"
  by (induction ws) (simp_all add: uint_not_u32 algebra_simps)

lemma mod_digit: "u < k \<Longrightarrow> u + k * (m mod p) = (u + k * m) mod (k * p :: nat)"
  by (simp add: mod_mult2_eq)

lemma limbs_val_add_carry:
  "unat c \<le> 1 \<Longrightarrow> limbs_val (add_carry_words c ws) = (limbs_val ws + unat c) mod 4294967296 ^ length ws"
proof (induction ws arbitrary: c)
  case Nil
  then show ?case by simp
next
  case (Cons w ws)
  show ?case
  proof (cases "c = 0")
    case True
    then show ?thesis using limbs_val_bound [of "w # ws"] by simp
  next
    case False
    have s: "unat (ucast w + c) = unat w + unat c"
      using Cons.prems u32_lt [of w] by (simp add: unat_add_u64)
    have hi: "unat (drop_bit 32 (ucast w + c)) \<le> 1"
      using Cons.prems u32_lt [of w] by (simp add: unat_shr32 s)
    let ?lo = "unat (ucast (ucast w + c) :: u32)" and ?hi = "unat (drop_bit 32 (ucast w + c))"
    have eq: "limbs_val (w # ws) + unat c = ?lo + 4294967296 * (limbs_val ws + ?hi)"
      using u64_split [of "ucast w + c"] s by (simp add: algebra_simps)
    have "limbs_val (add_carry_words c (w # ws)) =
        ?lo + 4294967296 * ((limbs_val ws + ?hi) mod 4294967296 ^ length ws)"
      using Cons.IH [OF hi] False by (simp add: Let_def)
    also have "\<dots> = (?lo + 4294967296 * (limbs_val ws + ?hi)) mod (4294967296 * 4294967296 ^ length ws)"
      by (rule mod_digit [OF u32_lt])
    finally show ?thesis unfolding eq by simp
  qed
qed

lemma limbs_val_sub_borrow:
  "1 \<le> limbs_val ws \<Longrightarrow> limbs_val (sub_borrow_words 1 ws) = limbs_val ws - 1"
proof (induction ws)
  case (Cons w ws)
  have idle: "sub_borrow_words 0 us = us" for us by (cases us) simp_all
  show ?case
  proof (cases "w = 0")
    case True
    with Cons show ?thesis by (simp add: Let_def)
  next
    case False
    then have "0 < unat w" by (simp add: unat_pos_iff)
    then have "(1 :: u64) \<le> ucast w" by (simp add: word_le_nat_alt)
    moreover from this have "unat (ucast w - 1 :: u64) = unat w - 1"
      by (simp add: unat_sub_if_size word_le_nat_alt)
    then have "unat (ucast (ucast w - 1 :: u64) :: u32) = unat w - 1"
      using u32_lt [of w] by (simp add: unat_u64_u32)
    ultimately show ?thesis using \<open>0 < unat w\<close> by (simp add: Let_def idle)
  qed
qed simp

section \<open>To and from two's complement\<close>

lemma length_add_carry [simp]: "length (add_carry_words c ws) = length ws"
  by (induction c ws rule: add_carry_words.induct) (simp_all add: Let_def)

lemma length_sub_borrow [simp]: "length (sub_borrow_words c ws) = length ws"
  by (induction c ws rule: sub_borrow_words.induct) (simp_all add: Let_def)

lemma length_twos [simp]: "length (twos_complement_words b n) = n"
  by (simp add: twos_complement_words_def Let_def)

lemma twos_complement_val:
  assumes "bwf b"
  shows "int (limbs_val (twos_complement_words b n)) = take_bit (32 * n) (bval b)"
proof -
  let ?cl = "min (length (limbs b)) n"
  define out where "out = take ?cl (limbs b) @ replicate (n - ?cl) 0"
  have twos: "twos_complement_words b n =
      (if 0 \<le> sign b then out else add_carry_words 1 (map (\<lambda>w. NOT w) out))"
    by (simp only: twos_complement_words_def Let_def out_def)
  have len: "length out = n" by (simp add: out_def)
  have "limbs_val out = limbs_val (take n (limbs b))"
    by (cases "n \<le> length (limbs b)") (simp_all add: out_def limbs_val_append min_def)
  then have v: "limbs_val out = limbs_val (limbs b) mod 2 ^ (32 * n)"
    by (simp add: limbs_val_take base_pow)
  have b: "(4294967296 :: int) ^ n = 2 ^ (32 * n)" by (simp add: power_mult)
  show ?thesis
  proof (cases "0 \<le> sign b")
    case True
    then have "bval b = int (limbs_val (limbs b))" using assms by (auto simp: bwf_def bval_def)
    with True v show ?thesis
      by (simp add: twos take_bit_eq_mod zmod_int)
  next
    case False
    then have neg: "bval b = - int (limbs_val (limbs b))" using assms by (auto simp: bwf_def bval_def)
    have "int (limbs_val (add_carry_words 1 (map (\<lambda>w. NOT w) out)))
        = (int (limbs_val (map (\<lambda>w. NOT w) out)) + 1) mod 2 ^ (32 * n)"
      by (simp add: limbs_val_add_carry zmod_int len b add.commute)
    also have "\<dots> = (2 ^ (32 * n) - int (limbs_val (limbs b)) mod 2 ^ (32 * n)) mod 2 ^ (32 * n)"
      by (simp add: limbs_val_map_not len b v zmod_int)
    also have "\<dots> = (- int (limbs_val (limbs b))) mod 2 ^ (32 * n)"
      by (simp add: mod_diff_right_eq mod_minus_eq mod_diff_left_eq)
    finally show ?thesis using False neg
      by (simp add: twos take_bit_eq_mod)
  qed
qed

lemma wf_from_twos [bigint_wf]: "bwf (from_twos_complement_words ws)"
  by (simp add: from_twos_complement_words_def bigint_wf)

lemma top_bit_and: "(x :: u32) AND 0x80000000 = 0 \<longleftrightarrow> \<not> bit x 31"
  using and_exp_eq_0_iff_not_bit [of x 31] by simp

lemma from_twos_complement_val:
  assumes "ws \<noteq> []"
  shows "bval (from_twos_complement_words ws) = signed_take_bit (32 * length ws - 1) (int (limbs_val ws))"
proof -
  obtain ys x where ws: "ws = ys @ [x]" using assms by (cases ws rule: rev_cases) auto
  let ?k = "32 * length ws - 1"
  have k: "Suc ?k = 32 * length ws" by (simp add: ws)
  have bound: "limbs_val ws < 2 ^ (32 * length ws)" using limbs_val_bound [of ws] by (simp add: base_pow)
  have dr: "drop_bit (32 * length ys) (limbs_val ws) = unat x"
    using limbs_val_bound [of ys]
    by (simp add: ws limbs_val_append base_pow drop_bit_eq_div)
  have "bit (limbs_val ws) (32 * length ys + 31) = bit (unat x) 31"
    unfolding dr [symmetric] by (simp only: bit_drop_bit_eq o_def)
  moreover have "?k = 32 * length ys + 31" by (simp add: ws)
  ultimately have top: "bit (int (limbs_val ws)) ?k \<longleftrightarrow> bit x 31"
    by (simp only: bit_of_nat_iff_bit) (simp add: bit_unsigned_iff)
  have "take_bit (Suc ?k) (int (limbs_val ws)) = int (limbs_val ws)"
    using bound k by (simp add: take_bit_int_eq_self flip: of_nat_less_iff)
  then have sg: "signed_take_bit ?k (int (limbs_val ws)) =
      int (limbs_val ws) - 2 ^ (32 * length ws) * of_bool (bit x 31)"
    using top k by (simp add: signed_take_bit_eq_take_bit_minus)
  show ?thesis
  proof (cases "bit x 31")
    case False
    then show ?thesis using sg top_bit_and [of x]
      by (simp add: from_twos_complement_words_def ws bigint_val)
  next
    case True
    then have "x \<noteq> 0" by auto
    then have "limbs_val ws \<noteq> 0" by (simp add: ws limbs_val_append unat_0_iff)
    then have "int (limbs_val (map (\<lambda>w. NOT w) (sub_borrow_words 1 ws))) =
        2 ^ (32 * length ws) - int (limbs_val ws)"
      using limbs_val_sub_borrow [of ws]
      by (simp add: limbs_val_map_not power_mult of_nat_diff)
    with True sg top_bit_and [of x] assms show ?thesis
      by (simp add: from_twos_complement_words_def bigint_val ws)
  qed
qed

section \<open>Limb-wise operations\<close>

lemma bit_digit:
  "bit (unat (x :: u32) + 4294967296 * m) n \<longleftrightarrow> (if n < 32 then bit x n else bit m (n - 32))"
proof -
  have "push_bit 32 m OR unat x = m * 2 ^ 32 + unat x"
    using u32_lt [of x] by (intro or_push_nat) simp
  then have "unat x + 4294967296 * m = push_bit 32 m OR unat x" by simp
  moreover have "\<not> bit x n" if "32 \<le> n" using that bit_imp_le_length [of x n] by auto
  ultimately show ?thesis by (simp add: bit_simps)
qed

locale word_bitop =
  fixes f :: "u32 \<Rightarrow> u32 \<Rightarrow> u32" and F :: "int \<Rightarrow> int \<Rightarrow> int" and g :: "bool \<Rightarrow> bool \<Rightarrow> bool"
  assumes bit_limb: "n < 32 \<Longrightarrow> bit (f x y) n \<longleftrightarrow> g (bit x n) (bit y n)"
    and bit_int: "bit (F k l) n \<longleftrightarrow> g (bit k n) (bit l n)"
    and g_False: "\<not> g False False"
begin

lemma bit_limbs_val_map2:
  "length xs = length ys \<Longrightarrow>
   bit (limbs_val (map2 f xs ys)) n \<longleftrightarrow> g (bit (limbs_val xs) n) (bit (limbs_val ys) n)"
proof (induction xs ys arbitrary: n rule: list_induct2)
  case Nil
  show ?case by (simp add: g_False)
next
  case (Cons x xs y ys)
  then show ?case by (simp add: bit_digit bit_limb)
qed

lemma bval_bitwise_op:
  assumes "bwf a" "bwf b"
  shows "bval (bitwise_op f a b) = F (bval a) (bval b)"
proof -
  define n where "n = (max (bit_length a) (bit_length b) + 2 + 31) div 32"
  define ws where "ws = map2 f (twos_complement_words a n) (twos_complement_words b n)"
  have n: "max (bit_length a) (bit_length b) < 32 * n - 1" "0 < n" unfolding n_def by linarith+
  have len: "length ws = n" by (simp add: ws_def)
  have range: "signed_take_bit (32 * n - 1) (bval c) = bval c" if "bwf c" "bit_length c < 32 * n - 1" for c
  proof -
    have "nat \<bar>bval c\<bar> < 2 ^ bit_length c" by (simp add: bit_length_val that nbits_upper)
    also have "(2 :: nat) ^ bit_length c \<le> 2 ^ (32 * n - 1)" using that by (intro power_increasing) simp_all
    finally have "\<bar>bval c\<bar> < 2 ^ (32 * n - 1)" by (simp add: nat_less_iff)
    then show ?thesis by (intro signed_take_bit_int_eq_self) linarith+
  qed
  have word: "bit (int (limbs_val (twos_complement_words c n))) (min m (32 * n - 1)) = bit (bval c) m"
    if "bwf c" "bit_length c < 32 * n - 1" for c m
  proof -
    have "bit (bval c) m = bit (signed_take_bit (32 * n - 1) (bval c)) m" by (simp only: range [OF that])
    also have "\<dots> = bit (bval c) (min m (32 * n - 1))" by (simp add: bit_signed_take_bit_iff min.commute)
    finally show ?thesis using n by (simp add: twos_complement_val that bit_take_bit_iff min_less_iff_disj)
  qed
  have "bitwise_op f a b = from_twos_complement_words ws"
    by (simp only: bitwise_op_def Let_def n_def ws_def)
  moreover have "ws \<noteq> []" using len n by auto
  ultimately have v: "bval (bitwise_op f a b) = signed_take_bit (32 * n - 1) (int (limbs_val ws))"
    by (simp add: from_twos_complement_val len)
  show ?thesis unfolding v
  proof (rule bit_eqI)
    fix m
    have "bit (signed_take_bit (32 * n - 1) (int (limbs_val ws))) m = bit (limbs_val ws) (min m (32 * n - 1))"
      by (simp add: bit_signed_take_bit_iff min.commute bit_of_nat_iff_bit)
    also have "\<dots> = g (bit (bval a) m) (bit (bval b) m)"
      using word [OF assms(1)] word [OF assms(2)] n
      by (simp add: ws_def bit_limbs_val_map2 bit_of_nat_iff_bit)
    finally show "bit (signed_take_bit (32 * n - 1) (int (limbs_val ws))) m = bit (F (bval a) (bval b)) m"
      by (simp add: bit_int)
  qed
qed

end

interpretation limb_and: word_bitop "\<lambda>a b. a AND b" "\<lambda>k l. k AND l" "\<lambda>p q. p \<and> q"
  by unfold_locales (simp_all add: bit_and_iff)

interpretation limb_or: word_bitop "\<lambda>a b. a OR b" "\<lambda>k l. k OR l" "\<lambda>p q. p \<or> q"
  by unfold_locales (simp_all add: bit_or_iff)

interpretation limb_xor: word_bitop "\<lambda>a b. a XOR b" "\<lambda>k l. k XOR l" "\<lambda>p q. p \<noteq> q"
  by unfold_locales (simp_all add: bit_xor_iff)

lemma wf_bitwise_op [bigint_wf]: "bwf (bitwise_op f a b)"
  by (simp add: bitwise_op_def Let_def bigint_wf)

lemma bval_bitand [bigint_val]: "bwf a \<Longrightarrow> bwf b \<Longrightarrow> bval (bigint_bitand a b) = bval a AND bval b"
  unfolding bigint_bitand_def by (rule limb_and.bval_bitwise_op)

lemma bval_bitor [bigint_val]: "bwf a \<Longrightarrow> bwf b \<Longrightarrow> bval (bigint_bitor a b) = bval a OR bval b"
  unfolding bigint_bitor_def by (rule limb_or.bval_bitwise_op)

lemma bval_bitxor [bigint_val]: "bwf a \<Longrightarrow> bwf b \<Longrightarrow> bval (bigint_bitxor a b) = bval a XOR bval b"
  unfolding bigint_bitxor_def by (rule limb_xor.bval_bitwise_op)

lemma bval_bitnot [bigint_val]: "bwf a \<Longrightarrow> bval (bigint_bitnot a) = NOT (bval a)"
  by (simp add: bigint_bitnot_def bigint_val bigint_wf not_eq_complement)

end
