(* ===== verification/Bigint_Division.thy ===== *)
theory Bigint_Division
  imports Bigint_Shift
begin

text \<open>
  Long division of \<open>BigInt\<close>: the shift-and-subtract loop ends within its bound on
  well-formed operands and yields quotient and remainder, and \<open>div_mod_floor\<close> rounds towards
  minus infinity as Python's \<open>//\<close> and \<open>%\<close> do. Also the conversion to \<open>i64\<close>.
\<close>

section \<open>The shift-and-subtract loop\<close>

text \<open>
  The shift chosen by one iteration is the largest \<open>t\<close> with \<open>d * 2 ^ t \<le> r\<close>.
\<close>

lemma shift_choice:
  fixes d r :: nat
  assumes "0 < d" "d \<le> r"
  defines "s \<equiv> nbits r - nbits d"
  shows "d * 2 ^ s \<le> r \<Longrightarrow> r < d * 2 ^ Suc s"
    and "r < d * 2 ^ s \<Longrightarrow> 0 < s \<and> d * 2 ^ (s - 1) \<le> r"
proof -
  have r: "2 ^ (nbits r - 1) \<le> r" "r < 2 ^ nbits r" using assms nbits_lower [of r] nbits_upper by simp_all
  have d: "2 ^ (nbits d - 1) \<le> d" "d < 2 ^ nbits d" using assms nbits_lower [of d] nbits_upper by simp_all
  have "0 < nbits d" using assms(1) by (simp add: nbits.simps [of d])
  have le: "nbits d \<le> nbits r" using assms r by (intro nbits_le) simp
  {
    have "nbits d - 1 + Suc s = nbits r" using le \<open>0 < nbits d\<close> by (simp add: s_def)
    then have "r < 2 ^ (nbits d - 1) * 2 ^ Suc s" using r by (simp only: flip: power_add)
    also have "\<dots> \<le> d * 2 ^ Suc s" using d(1) by (rule mult_le_mono1)
    finally show "r < d * 2 ^ Suc s" .
  next
    assume gt: "r < d * 2 ^ s"
    have pos: "0 < s" using gt assms(2) by (cases s) simp_all
    have "d * 2 ^ (s - 1) \<le> 2 ^ nbits d * 2 ^ (s - 1)" using d(2) by simp
    also have "\<dots> = 2 ^ (nbits r - 1)" using pos le by (simp add: s_def flip: power_add)
    also have "\<dots> \<le> r" by (rule r)
    finally show "0 < s \<and> d * 2 ^ (s - 1) \<le> r" using pos by simp
  }
qed

lemma shift_choice_int:
  fixes d r :: int
  assumes "0 < d" "d \<le> r"
  defines "s \<equiv> nbits (nat r) - nbits (nat d)"
  shows "d * 2 ^ s \<le> r \<Longrightarrow> r < d * 2 ^ Suc s"
    and "r < d * 2 ^ s \<Longrightarrow> 0 < s \<and> d * 2 ^ (s - 1) \<le> r"
proof -
  obtain dn rn where e: "d = int dn" "r = int rn"
    using assms(1,2) by (meson order.trans less_imp_le nonneg_int_cases)
  have *: "0 < dn" "dn \<le> rn" using assms(1,2) e by simp_all
  have tr: "int dn * 2 ^ k = int (dn * 2 ^ k)" for k by simp
  have s: "s = nbits rn - nbits dn" by (simp add: s_def e)
  show "r < d * 2 ^ Suc s" if "d * 2 ^ s \<le> r"
    using shift_choice(1) [OF *, folded s] that unfolding e tr of_nat_le_iff of_nat_less_iff .
  show "0 < s \<and> d * 2 ^ (s - 1) \<le> r" if "r < d * 2 ^ s"
    using shift_choice(2) [OF *, folded s] that unfolding e tr of_nat_le_iff of_nat_less_iff .
qed

lemma abs_div_step:
  fixes d r :: int
  assumes "0 < d" "d * 2 ^ t \<le> r"
  shows "r div d = 2 ^ t + (r - d * 2 ^ t) div d" "r mod d = (r - d * 2 ^ t) mod d"
proof -
  have "r = (r - d * 2 ^ t) + 2 ^ t * d" by simp
  then show "r div d = 2 ^ t + (r - d * 2 ^ t) div d" "r mod d = (r - d * 2 ^ t) mod d"
    using assms(1) by (metis add.commute div_mult_self1 less_irrefl, metis mod_mult_self1)
qed

lemma abs_div_loop_correct:
  assumes "bwf d" "0 < bval d"
  shows "bwf r \<Longrightarrow> bwf q \<Longrightarrow> 0 \<le> bval r \<Longrightarrow> bval r < bval d * 2 ^ k \<Longrightarrow> k < fuel \<Longrightarrow>
    \<exists>q' r'. abs_div_loop fuel d (bit_length d) q r = Some (q', r') \<and> bwf q' \<and> bwf r' \<and>
      bval q' = bval q + bval r div bval d \<and> bval r' = bval r mod bval d"
proof (induction fuel arbitrary: q r k)
  case 0
  then show ?case by simp
next
  case (Suc fuel)
  show ?case
  proof (cases "bval r < bval d")
    case True
    with Suc.prems assms show ?thesis by (simp add: cmp_total_correct div_pos_pos_trivial)
  next
    case False
    define s where "s = bit_length r - bit_length d"
    have s: "s = nbits (nat (bval r)) - nbits (nat (bval d))"
      using Suc.prems assms by (simp add: s_def bit_length_val)
    from False have "bval d \<le> bval r" by simp
    note sc = shift_choice_int [OF assms(2) this, folded s]
    have rec: "\<exists>q' r'. abs_div_loop fuel d (bit_length d) (bigint_add q (shl_bits bigint_one t))
        (bigint_sub r (shl_bits d t)) = Some (q', r') \<and> bwf q' \<and> bwf r' \<and>
        bval q' = bval q + bval r div bval d \<and> bval r' = bval r mod bval d"
      if lo: "bval d * 2 ^ t \<le> bval r" and hi: "bval r < bval d * 2 ^ Suc t" for t
    proof -
      have "bval d * 2 ^ t < bval d * 2 ^ k" using lo Suc.prems(4) by linarith
      then have "t < k" using assms(2) by (simp add: power_strict_increasing_iff)
      with Suc.prems(5) have "t < fuel" by simp
      from Suc.IH [of "bigint_sub r (shl_bits d t)" "bigint_add q (shl_bits bigint_one t)", OF _ _ _ _ this]
      show ?thesis using Suc.prems(1,2) assms lo hi abs_div_step [OF assms(2) lo]
        by (simp add: bigint_wf bigint_val add.assoc)
    qed
    show ?thesis
    proof (cases "bval r < bval d * 2 ^ s")
      case True
      with sc(2) have lo: "bval d * 2 ^ (s - 1) \<le> bval r" and s0: "Suc (s - 1) = s" by simp_all
      from rec [OF lo, unfolded s0, OF True] s0 True False Suc.prems assms show ?thesis
        by (simp add: cmp_total_correct bigint_wf bigint_val s_def [symmetric] Let_def)
    next
      case le: False
      then have lo: "bval d * 2 ^ s \<le> bval r" by simp
      from rec [OF lo sc(1) [OF lo]] le False Suc.prems assms show ?thesis
        by (simp add: cmp_total_correct bigint_wf bigint_val s_def [symmetric] Let_def)
    qed
  qed
qed

lemma abs_div_mod_positive_correct:
  assumes "bwf a" "bwf d" "0 < bval d"
  shows "\<exists>q r. abs_div_mod_positive a d = Some (q, r) \<and> bwf q \<and> bwf r \<and>
    bval q = \<bar>bval a\<bar> div bval d \<and> bval r = \<bar>bval a\<bar> mod bval d"
proof -
  have d: "bigint_abs d = d" using assms by (simp add: bigint_abs_def is_negative_def sign_eq_sgn)
  have a: "bwf (bigint_abs a)" "bval (bigint_abs a) = \<bar>bval a\<bar>"
    using assms by (simp_all add: bigint_wf bigint_val)
  consider "bval a = 0" | "bval a \<noteq> 0" "\<bar>bval a\<bar> < bval d" | "bval a \<noteq> 0" "\<not> \<bar>bval a\<bar> < bval d" by blast
  then show ?thesis
  proof cases
    case 1
    with assms show ?thesis by (simp add: abs_div_mod_positive_def is_zero_iff)
  next
    case 2
    with assms a show ?thesis
      by (simp add: abs_div_mod_positive_def is_zero_iff d cmp_total_correct div_pos_pos_trivial)
  next
    case 3
    let ?n = "bit_length (bigint_abs a)"
    have "\<bar>bval a\<bar> < 2 ^ ?n"
      using a nbits_upper [of "nat \<bar>bval a\<bar>"] by (simp add: bit_length_val nat_less_iff)
    also have "(2 :: int) ^ ?n \<le> bval d * 2 ^ ?n" using assms(3) by simp
    finally have "bval (bigint_abs a) < bval d * 2 ^ ?n" using a by simp
    from abs_div_loop_correct [OF assms(2,3) a(1) wf_zero _ this, of "Suc (Suc ?n)"] 3 assms a
    show ?thesis
      by (simp add: abs_div_mod_positive_def is_zero_iff d cmp_total_correct Let_def
          del: abs_div_loop.simps)
  qed
qed

section \<open>Floor division\<close>

lemma floor_div_mod_unique:
  fixes a d q r :: int
  assumes "a = q * d + r" "0 \<le> r \<and> r < d \<or> d < r \<and> r \<le> 0"
  shows "q = a div d" "r = a mod d"
proof -
  show q: "q = a div d"
    using assms int_div_pos_eq [of a d q r] int_div_neg_eq [of a d q r] by (auto simp: mult.commute)
  show "r = a mod d" using assms(1) q by (simp add: minus_div_mult_eq_mod [symmetric])
qed

lemma div_mod_floor_correct:
  assumes "bwf a" "bwf d" "bval d \<noteq> 0"
  shows "\<exists>q r. div_mod_floor a d = Some (Some (q, r)) \<and> bwf q \<and> bwf r \<and>
    bval q = bval a div bval d \<and> bval r = bval a mod bval d"
proof (cases "is_zero a")
  case True
  with assms show ?thesis by (simp add: div_mod_floor_def is_zero_iff)
next
  case False
  have pos: "0 < bval (bigint_abs d)" using assms by (simp add: bigint_val)
  obtain q r where qr: "abs_div_mod_positive a (bigint_abs d) = Some (q, r)" "bwf q" "bwf r"
    and q: "bval q = \<bar>bval a\<bar> div \<bar>bval d\<bar>" and r: "bval r = \<bar>bval a\<bar> mod \<bar>bval d\<bar>"
    using abs_div_mod_positive_correct [OF assms(1) wf_abs [OF assms(2)] pos] assms
    by (auto simp: bigint_val)
  define q1 where "q1 = (if sign a = sign d then q else negated q)"
  define r1 where "r1 = (if sign a < 0 then negated r else r)"
  define fix_up where "fix_up \<longleftrightarrow> \<not> is_zero r1 \<and> sign a \<noteq> sign d"
  define q2 where "q2 = (if fix_up then bigint_sub q1 bigint_one else q1)"
  define r2 where "r2 = (if fix_up then bigint_add r1 d else r1)"
  have wf: "bwf q2" "bwf r2" "bwf q1" "bwf r1"
    using qr assms by (simp_all add: q2_def r2_def q1_def r1_def bigint_wf)
  have res: "div_mod_floor a d = Some (Some (q2, r2))"
    using False assms qr(1)
    by (simp add: div_mod_floor_def is_zero_iff q1_def r1_def q2_def r2_def fix_up_def Let_def)
  have e: "\<bar>bval a\<bar> = bval q * \<bar>bval d\<bar> + bval r" "0 \<le> bval r" "bval r < \<bar>bval d\<bar>"
    using assms(3) by (simp_all add: q r)
  have "bval a = bval q2 * bval d + bval r2 \<and>
      (0 \<le> bval r2 \<and> bval r2 < bval d \<or> bval d < bval r2 \<and> bval r2 \<le> 0)"
    using e False assms qr(2,3) wf(3,4)
    by (cases "0 < bval a"; cases "0 < bval d")
       (auto simp: q2_def r2_def fix_up_def is_zero_iff bigint_val bigint_wf q1_def r1_def
         sign_eq_sgn sgn_if algebra_simps split: if_splits)
  with floor_div_mod_unique [of "bval a" "bval q2" "bval d" "bval r2"] wf res show ?thesis by blast
qed

section \<open>Conversion to a machine integer\<close>

lemma unat_pair: "unat (ucast (x :: u32) OR push_bit 32 (ucast (y :: u32)) :: u64) = unat x + 4294967296 * unat y"
proof -
  have "unat y * 4294967296 < 18446744073709551616" using u32_lt [of y] by simp
  then have "take_bit 64 (push_bit 32 (unat y)) = push_bit 32 (unat y)"
    by (intro take_bit_nat_eq_self) (simp add: push_bit_eq_mult)
  moreover have "unat x < 2 ^ 32" using u32_lt [of x] by simp
  ultimately show ?thesis
    using or_push_nat [of "unat x" 32 "unat y"]
    by (simp add: unsigned_or_eq unsigned_push_bit_eq or.commute)
qed

definition i64_magnitude :: "u32 list \<Rightarrow> u64" where
  "i64_magnitude ls = (case ls of [] \<Rightarrow> 0 | x # _ \<Rightarrow> ucast x)
     OR push_bit 32 (case ls of _ # y # _ \<Rightarrow> ucast y | _ \<Rightarrow> 0)"

lemma unat_i64_magnitude: "length ls \<le> 2 \<Longrightarrow> unat (i64_magnitude ls) = limbs_val ls"
  by (auto simp: i64_magnitude_def unat_pair le_Suc_eq length_Suc_conv numeral_2_eq_2)

lemma to_i64_alt:
  "to_i64 b =
     (if is_zero b then Some 0
      else if 2 < length (limbs b) then None
      else if 0 < sign b then
        (if i64_magnitude (limbs b) \<le> 0x7fffffffffffffff then Some (i64_magnitude (limbs b)) else None)
      else if i64_magnitude (limbs b) = 0x8000000000000000 then Some 0x8000000000000000
      else if i64_magnitude (limbs b) < 0x8000000000000000 then Some (- i64_magnitude (limbs b))
      else None)"
  by (simp add: to_i64_def i64_magnitude_def Let_def)

lemma to_i64_correct:
  assumes "bwf b"
  shows "to_i64 b = (if - (2 ^ 63) \<le> bval b \<and> bval b < 2 ^ 63 then Some (word_of_int (bval b)) else None)"
proof (cases "2 < length (limbs b)")
  case True
  then have nz: "sign b \<noteq> 0" "limbs b \<noteq> []" "last (limbs b) \<noteq> 0" using assms by (auto simp: bwf_def)
  have "(4294967296 :: nat) ^ 2 \<le> 4294967296 ^ (length (limbs b) - 1)"
    using True by (intro power_increasing) simp_all
  also have "\<dots> \<le> limbs_val (limbs b)" using nz by (intro limbs_val_lower)
  finally have "2 ^ 64 \<le> \<bar>bval b\<bar>" using abs_bval [OF assms] by simp
  then show ?thesis using True nz by (auto simp: to_i64_def is_zero_def)
next
  case False
  define m where "m = i64_magnitude (limbs b)"
  have um: "uint m = int (limbs_val (limbs b))"
    using False unat_i64_magnitude [of "limbs b"] by (simp add: m_def uint_nat)
  have wm: "word_of_int (int (limbs_val (limbs b))) = m" by (simp add: um [symmetric])
  show ?thesis
    using assms
  proof (cases rule: wf_sign_cases)
    case zero
    then show ?thesis by (simp add: to_i64_def is_zero_def)
  next
    case pos
    then show ?thesis using False um wm
      by (simp add: to_i64_alt is_zero_def m_def [symmetric] word_le_def)
  next
    case neg
    have "m = 0x8000000000000000 \<longleftrightarrow> uint m = 0x8000000000000000"
      by (simp add: word_uint_eq_iff)
    moreover have "m < 0x8000000000000000 \<longleftrightarrow> uint m < 0x8000000000000000"
      by (simp add: word_less_def)
    moreover have "- m = 0x8000000000000000" if "m = 0x8000000000000000" using that by simp
    ultimately show ?thesis using neg False um wm
      by (auto simp: to_i64_alt is_zero_def m_def [symmetric])
  qed
qed

end
