(* ===== verification/Bigint_Text.thy ===== *)
theory Bigint_Text
  imports Bigint_Shift
begin

text \<open>
  Reading and printing \<open>BigInt\<close> values: \<open>from_str_radix\<close>, \<open>to_str_radix\<close> and the \<open>Display\<close>
  implementation, which prints nine decimal digits at a time. The printing loops are
  recursive functions whose termination follows from the correctness of the single-limb
  division; printing and then parsing gives the number back.
\<close>

section \<open>The printing loops\<close>

lemma div_small_measure:
  assumes "2 \<le> d" "\<not> is_zero v" "div_mod_small_positive v d = (q, r)"
  shows "is_zero q \<or> limbs_val (limbs q) < limbs_val (limbs v)"
proof -
  have d: "0 < unat d" "unat d < 4294967296" "2 \<le> unat d"
    using assms(1) u32_lt [of d] by (simp_all add: word_le_nat_alt)
  obtain qs r' where l: "div_small_loop (ucast d) (rev (limbs v)) 0 = (qs, r')" by fastforce
  from div_small_loop_correct [OF _ _ _ l] d
  have c: "limbs_val (limbs v) = limbs_val (rev qs) * unat d + unat r'" by simp
  have q: "q = from_parts 1 (rev qs)" using assms l by (simp add: div_mod_small_positive_def)
  show ?thesis
  proof (cases "limbs_val (rev qs) = 0")
    case True
    then have "bval q = 0" by (simp add: q bval_from_parts)
    then show ?thesis using wf_from_parts [of 1 "rev qs"] by (simp add: q is_zero_iff)
  next
    case False
    then have "limbs_val (rev qs) < limbs_val (rev qs) * unat d" using d by simp
    moreover have "limbs_val (limbs q) = limbs_val (rev qs)"
      using wf_from_parts [of 1 "rev qs"] bval_from_parts [of 1 "rev qs"] abs_bval [of q] by (simp add: q)
    ultimately show ?thesis using c by linarith
  qed
qed

text \<open>
  The remainders of repeated division, least significant first. Both callers use a
  constant radix of at least 2; the guard only makes the function total.
\<close>

function radix_loop :: "u32 \<Rightarrow> BigInt \<Rightarrow> u32 list" where
  "radix_loop radix v =
     (if is_zero v \<or> \<not> 2 \<le> radix then []
      else let (quot, rem) = div_mod_small_positive v radix in rem # radix_loop radix quot)"
  by pat_completeness auto
termination
proof (relation "measure (\<lambda>(radix, v). if is_zero v then 0 else Suc (limbs_val (limbs v)))", goal_cases)
  case (2 radix v x quot rem)
  with div_small_measure [of radix v quot rem] show ?case by auto
qed simp

declare radix_loop.simps [simp del]

fun map_option_list :: "('a \<Rightarrow> 'b option) \<Rightarrow> 'a list \<Rightarrow> 'b list option" where
  "map_option_list f [] = Some []"
| "map_option_list f (x # xs) =
     (case f x of None \<Rightarrow> None | Some y \<Rightarrow> map_option (\<lambda>ys. y # ys) (map_option_list f xs))"

definition to_str_radix :: "BigInt \<Rightarrow> u32 \<Rightarrow> rstring option" where
  "to_str_radix b radix =
     (if \<not> (2 \<le> radix \<and> radix \<le> 36) then None
      else if is_zero b then Some (str ''0'')
      else case map_option_list (\<lambda>rem. from_digit (unat rem) (unat radix))
                  (radix_loop radix (bigint_abs b)) of
          None \<Rightarrow> None
        | Some out \<Rightarrow> Some (rev (if sign b < 0 then out @ str ''-'' else out)))"

text \<open>\<open>format!("{}")\<close> and \<open>format!("{:09}")\<close> on a \<open>u32\<close>.\<close>

fun nat_dec :: "nat \<Rightarrow> rstring" where
  "nat_dec n = (if n < 10 then [48 + n] else nat_dec (n div 10) @ [48 + n mod 10])"

declare nat_dec.simps [simp del]

definition dec09 :: "nat \<Rightarrow> rstring" where
  "dec09 n = replicate (9 - length (nat_dec n)) 48 @ nat_dec n"

definition bigint_to_string :: "BigInt \<Rightarrow> rstring" where
  "bigint_to_string b =
     (if is_zero b then str ''0''
      else let chunks = radix_loop 1000000000 (bigint_abs b)
           in (if sign b < 0 then str ''-'' else []) @
              (if chunks = [] then []
               else nat_dec (unat (last chunks)) @
                    concat (map (\<lambda>c. dec09 (unat c)) (rev (butlast chunks)))))"

section \<open>Digit strings\<close>

definition digits_val :: "int \<Rightarrow> int \<Rightarrow> int list \<Rightarrow> int" where
  "digits_val radix = foldl (\<lambda>v d. v * radix + d)"

lemma digits_val_append [simp]:
  "digits_val r v (xs @ ys) = digits_val r (digits_val r v xs) ys"
  by (simp add: digits_val_def)

lemma digits_val_Nil [simp]: "digits_val r v [] = v"
  by (simp add: digits_val_def)

lemma digits_val_Cons [simp]: "digits_val r v (x # xs) = digits_val r (v * r + x) xs"
  by (simp add: digits_val_def)

lemma digits_val_acc: "digits_val r v xs = v * r ^ length xs + digits_val r 0 xs"
proof (induction xs rule: rev_induct)
  case (snoc x xs)
  then show ?case by (simp add: algebra_simps)
qed simp

definition char_digits :: "nat \<Rightarrow> rstring \<Rightarrow> int list" where
  "char_digits radix cs = map (\<lambda>c. int (the (to_digit radix c))) cs"

lemma to_digit_bound: "to_digit radix c = Some d \<Longrightarrow> d < radix"
  by (auto simp: to_digit_def Let_def split: if_splits)

lemma from_digit_to_digit: "radix \<le> 36 \<Longrightarrow> from_digit d radix = Some c \<Longrightarrow> to_digit radix c = Some d"
  by (auto simp: from_digit_def to_digit_def Let_def split: if_splits)

lemma from_str_loop_val:
  assumes "radix \<le> 36" "\<forall>c \<in> set cs. to_digit (unat radix) c \<noteq> None"
  shows "bwf out \<Longrightarrow> \<exists>b. from_str_loop radix out cs = Some b \<and> bwf b \<and>
    bval b = digits_val (int (unat radix)) (bval out) (char_digits (unat radix) cs)"
  using assms(2)
proof (induction cs arbitrary: out)
  case Nil
  then show ?case by (simp add: char_digits_def)
next
  case (Cons c cs)
  then obtain d where d: "to_digit (unat radix) c = Some d" by auto
  then have "d < 4294967296" using to_digit_bound [of "unat radix" c d] u32_lt [of radix] by linarith
  then have ud: "unat (of_nat d :: u32) = d" by (simp add: unat_of_nat)
  let ?out = "add_small (mul_small out radix) (of_nat d)"
  have "bwf ?out" "bval ?out = bval out * int (unat radix) + int d"
    using Cons.prems(1) ud by (simp_all add: bigint_wf bigint_val del: of_nat_unat)
  with Cons.IH [of ?out] Cons.prems d show ?case by (simp add: char_digits_def)
qed

lemma radix_loop_val:
  assumes "2 \<le> radix"
  shows "bwf v \<Longrightarrow> 0 \<le> bval v \<Longrightarrow>
    digits_val (int (unat radix)) 0 (map (\<lambda>d. int (unat d)) (rev (radix_loop radix v))) = bval v \<and>
    (\<forall>d \<in> set (radix_loop radix v). unat d < unat radix)"
  using assms
proof (induction radix v rule: radix_loop.induct)
  case (1 radix v)
  show ?case
  proof (cases "is_zero v")
    case True
    with "1.prems" show ?thesis by (simp add: radix_loop.simps is_zero_iff)
  next
    case False
    obtain q r where qr: "div_mod_small_positive v radix = (q, r)" by fastforce
    have pos: "0 < unat radix" using "1.prems"(3) by (simp add: word_le_nat_alt)
    note dm = div_mod_small_correct [OF "1.prems"(1,2) pos qr]
    have "0 \<le> bval q" using "1.prems"(2) by (simp add: dm div_int_pos_iff)
    with "1.IH" [OF _ qr [symmetric] refl dm(1)] False "1.prems"(3) have IH:
      "digits_val (int (unat radix)) 0 (map (\<lambda>d. int (unat d)) (rev (radix_loop radix q))) = bval q"
      "\<forall>d \<in> set (radix_loop radix q). unat d < unat radix" by simp_all
    have "int (unat r) < int (unat radix)" unfolding dm(3) using pos by (intro pos_mod_bound) (simp only: of_nat_0_less_iff)
    then have "unat r < unat radix" by (simp only: of_nat_less_iff)
    moreover have "bval q * int (unat radix) + int (unat r) = bval v"
      unfolding dm by (rule div_mult_mod_eq)
    ultimately show ?thesis using IH False "1.prems"(3) qr
      by (simp add: radix_loop.simps [of radix v] del: of_nat_unat)
  qed
qed

lemma map_option_list_Some:
  "(\<forall>x \<in> set xs. f x = Some (g x)) \<Longrightarrow> map_option_list f xs = Some (map g xs)"
  by (induction xs) simp_all

section \<open>Parsing what was printed\<close>

lemma from_str_radix_val:
  assumes "2 \<le> radix" "radix \<le> 36" "cs \<noteq> []" "\<forall>c \<in> set cs. to_digit (unat radix) c \<noteq> None"
    and "bwf b" "bval b = digits_val (int (unat radix)) 0 (char_digits (unat radix) cs)"
  shows "from_str_radix cs radix = Some b"
proof -
  obtain b' where "from_str_loop radix bigint_zero cs = Some b'" "bwf b'" "bval b' = bval b"
    using from_str_loop_val [OF assms(2,4) wf_zero] assms(6) by auto
  with wf_eqI [of b' b] assms show ?thesis by (simp add: from_str_radix_def)
qed

lemma radix_digit_chars:
  fixes radix :: u32 and ds :: "u32 list"
  assumes "2 \<le> radix" "radix \<le> 36" "\<forall>d \<in> set ds. unat d < unat radix"
  obtains cs where "map_option_list (\<lambda>d. from_digit (unat d) (unat radix)) ds = Some cs"
    "\<forall>c \<in> set cs. to_digit (unat radix) c \<noteq> None"
    "char_digits (unat radix) (rev cs) = map (\<lambda>d. int (unat d)) (rev ds)" "length cs = length ds"
proof -
  define g where "g d = the (from_digit (unat d) (unat radix))" for d :: u32
  have r36: "unat radix \<le> 36" using assms(2) by (simp add: word_le_nat_alt)
  have g: "from_digit (unat d) (unat radix) = Some (g d)" "to_digit (unat radix) (g d) = Some (unat d)"
    if "d \<in> set ds" for d
  proof -
    show f: "from_digit (unat d) (unat radix) = Some (g d)"
      using that assms(3) by (auto simp: g_def from_digit_def)
    show "to_digit (unat radix) (g d) = Some (unat d)" by (rule from_digit_to_digit [OF r36 f])
  qed
  show ?thesis
    by (rule that [of "map g ds"]) (auto simp: g map_option_list_Some char_digits_def rev_map)
qed

lemma radix_loop_nonempty: "2 \<le> radix \<Longrightarrow> \<not> is_zero v \<Longrightarrow> radix_loop radix v \<noteq> []"
  by (simp add: radix_loop.simps split: prod.split)

lemma to_str_radix_parses:
  assumes "bwf b" "0 \<le> bval b" "2 \<le> radix" "radix \<le> 36"
  shows "\<exists>s. to_str_radix b radix = Some s \<and> from_str_radix s radix = Some b"
proof (cases "is_zero b")
  case True
  have "to_digit (unat radix) 48 = Some 0"
    using assms(3) by (simp add: to_digit_def Let_def word_le_nat_alt)
  then have "from_str_radix (str ''0'') radix = Some b"
    using assms True by (intro from_str_radix_val) (auto simp: str_def char_digits_def is_zero_iff)
  with True assms show ?thesis by (simp add: to_str_radix_def)
next
  case False
  then have ab: "bigint_abs b = b" and sg: "\<not> sign b < 0"
    using assms by (auto simp: bigint_abs_def is_negative_def sign_eq_sgn is_zero_iff sgn_if)
  let ?ds = "radix_loop radix b"
  note rl = radix_loop_val [OF assms(3,1,2)]
  obtain cs where cs: "map_option_list (\<lambda>d. from_digit (unat d) (unat radix)) ?ds = Some cs"
    "\<forall>c \<in> set cs. to_digit (unat radix) c \<noteq> None"
    "char_digits (unat radix) (rev cs) = map (\<lambda>d. int (unat d)) (rev ?ds)" "length cs = length ?ds"
    using radix_digit_chars [OF assms(3,4), of ?ds] rl by auto
  have "from_str_radix (rev cs) radix = Some b"
    using assms cs rl radix_loop_nonempty [OF assms(3) False] by (intro from_str_radix_val) auto
  with False ab sg cs assms show ?thesis by (simp add: to_str_radix_def)
qed

section \<open>The decimal printer\<close>

lemma nat_dec_digits: "c \<in> set (nat_dec n) \<Longrightarrow> 48 \<le> c \<and> c \<le> 57"
  by (induction n rule: nat_dec.induct) (subst (asm) nat_dec.simps, auto split: if_splits)

lemma char_digits_append [simp]:
  "char_digits r (xs @ ys) = char_digits r xs @ char_digits r ys"
  by (simp add: char_digits_def)

lemma nat_dec_val: "digits_val 10 0 (char_digits 10 (nat_dec n)) = int n"
proof (induction n rule: nat_dec.induct)
  case (1 n)
  have d: "char_digits 10 [48 + d] = [int d]" if "d < 10" for d
    using that by (simp add: char_digits_def to_digit_def)
  show ?case
  proof (cases "n < 10")
    case True
    then show ?thesis by (simp add: nat_dec.simps [of n] d)
  next
    case False
    with "1.IH" d [of "n mod 10"] show ?thesis
      by (simp add: nat_dec.simps [of n]) (simp add: zdiv_int zmod_int)
  qed
qed

lemma length_nat_dec: "n < 10 ^ Suc k \<Longrightarrow> length (nat_dec n) \<le> Suc k"
proof (induction k arbitrary: n)
  case 0
  then show ?case by (simp add: nat_dec.simps)
next
  case (Suc k)
  then have "n div 10 < 10 ^ Suc k" by (simp add: div_less_iff_less_mult)
  with Suc.IH [of "n div 10"] show ?case by (simp add: nat_dec.simps [of n])
qed

lemma dec09_val:
  assumes "n < 1000000000"
  shows "digits_val 10 v (char_digits 10 (dec09 n)) = v * 1000000000 + int n"
proof -
  have "length (nat_dec n) \<le> 9" using length_nat_dec [of n 8] assms by simp
  then have "length (dec09 n) = 9" by (simp add: dec09_def)
  then have len: "length (char_digits 10 (dec09 n)) = 9" by (simp add: char_digits_def)
  have "char_digits 10 (replicate k 48) = replicate k 0" for k
    by (simp add: char_digits_def to_digit_def map_replicate)
  moreover have "digits_val 10 0 (replicate k 0) = 0" for k
    by (induction k) simp_all
  ultimately have "digits_val 10 0 (char_digits 10 (dec09 n)) = int n"
    by (simp add: dec09_def nat_dec_val)
  with digits_val_acc [of 10 v "char_digits 10 (dec09 n)"] show ?thesis by (simp add: len)
qed

lemma dec09_chunks_val:
  "\<forall>c \<in> set cs. c < 1000000000 \<Longrightarrow>
   digits_val 10 v (char_digits 10 (concat (map dec09 cs))) = digits_val 1000000000 v (map int cs)"
  by (induction cs arbitrary: v) (simp_all add: dec09_val char_digits_def [of 10 "[]"])

lemma dec09_digits: "c \<in> set (dec09 n) \<Longrightarrow> 48 \<le> c \<and> c \<le> 57"
  by (auto simp: dec09_def dest: nat_dec_digits)

lemma to_digit_decimal: "48 \<le> c \<and> c \<le> 57 \<Longrightarrow> \<exists>d. to_digit 10 c = Some d"
  by (rule exI [of _ "c - 48"]) (auto simp: to_digit_def Let_def)

lemma bigint_to_string_parses:
  assumes "bwf b" "0 \<le> bval b"
  shows "from_str_radix (bigint_to_string b) 10 = Some b"
proof (cases "is_zero b")
  case True
  then show ?thesis using assms
    by (intro from_str_radix_val)
       (auto simp: bigint_to_string_def str_def char_digits_def is_zero_iff to_digit_def)
next
  case False
  then have ab: "bigint_abs b = b" and sg: "\<not> sign b < 0"
    using assms by (auto simp: bigint_abs_def is_negative_def sign_eq_sgn is_zero_iff sgn_if)
  let ?ds = "radix_loop 1000000000 b"
  have ne: "?ds \<noteq> []" using False by (intro radix_loop_nonempty) simp_all
  then have ds: "rev ?ds = last ?ds # rev (butlast ?ds)" by (cases ?ds rule: rev_cases) simp_all
  have rl: "digits_val 1000000000 0 (map (\<lambda>d. int (unat d)) (rev ?ds)) = bval b"
    "\<forall>d \<in> set ?ds. unat d < 1000000000"
    using radix_loop_val [of 1000000000 b] assms by simp_all
  let ?rest = "map unat (rev (butlast ?ds))"
  have s: "bigint_to_string b = nat_dec (unat (last ?ds)) @ concat (map dec09 ?rest)"
    using False ab sg ne by (simp add: bigint_to_string_def Let_def o_def)
  have "\<forall>c \<in> set ?rest. c < 1000000000" using rl(2) by (auto dest: in_set_butlastD)
  then have "digits_val 10 0 (char_digits 10 (bigint_to_string b))
      = digits_val 1000000000 (int (unat (last ?ds))) (map int ?rest)"
    unfolding s by (simp only: char_digits_append digits_val_append nat_dec_val dec09_chunks_val)
  also have "\<dots> = bval b" using rl(1) unfolding ds by (simp add: o_def)
  finally have v: "bval b = digits_val 10 0 (char_digits 10 (bigint_to_string b))" by simp
  have "bigint_to_string b \<noteq> []" unfolding s by (subst nat_dec.simps) simp
  moreover have "\<forall>c \<in> set (bigint_to_string b). to_digit 10 c \<noteq> None"
    unfolding s by (auto intro!: to_digit_decimal dest: nat_dec_digits dec09_digits)
  ultimately show ?thesis using assms v by (intro from_str_radix_val) simp_all
qed

lemma bigint_to_string_negated:
  assumes "bwf b" "0 < bval b"
  shows "bigint_to_string (negated b) = 45 # bigint_to_string b"
proof -
  from assms have "sign b = 1" by (cases rule: wf_sign_cases) simp_all
  then obtain ls where "b = \<lparr>sign = 1, limbs = ls\<rparr>" by (cases b) simp
  then show ?thesis
    by (simp add: bigint_to_string_def negated_def is_zero_def bigint_abs_def is_negative_def str_def Let_def)
qed

end
