(* ===== verification/Bigint_Spec.thy ===== *)
theory Bigint_Spec
  imports Bigint_Bitwise Bigint_Division Bigint_Text
begin

text \<open>
  What \<open>BigInt\<close> promises to the rest of the interpreter. The locale \<open>integer_impl\<close> is the
  interface the marshal reader uses (zero, addition, left shift, digits, negation) with
  the laws it relies on; the Horner evaluation of a digit sequence is proved once against
  it and holds for \<open>BigInt\<close> by the interpretation. The properties of the component follow.
\<close>

section \<open>The interface to clients\<close>

locale integer_impl =
  fixes inv :: "'b \<Rightarrow> bool" and val :: "'b \<Rightarrow> int"
    and zero :: 'b and add :: "'b \<Rightarrow> 'b \<Rightarrow> 'b" and shl :: "'b \<Rightarrow> nat \<Rightarrow> 'b"
    and digit :: "u64 \<Rightarrow> 'b" and neg :: "'b \<Rightarrow> 'b"
  assumes inv_ops: "inv zero" "inv a \<Longrightarrow> inv b \<Longrightarrow> inv (add a b)" "inv a \<Longrightarrow> inv (shl a n)"
      "inv (digit d)" "inv a \<Longrightarrow> inv (neg a)"
    and val_zero: "val zero = 0"
    and val_add: "inv a \<Longrightarrow> inv b \<Longrightarrow> val (add a b) = val a + val b"
    and val_shl: "inv a \<Longrightarrow> val (shl a n) = val a * 2 ^ n"
    and val_digit: "val (digit d) = int (unat d)"
    and val_neg: "val (neg a) = - val a"
    and val_inj: "inv a \<Longrightarrow> inv b \<Longrightarrow> val a = val b \<Longrightarrow> a = b"
begin

lemma horner_step:
  "inv v \<Longrightarrow> inv (if d \<noteq> 0 then add (shl v k) (digit d) else shl v k) \<and>
   val (if d \<noteq> 0 then add (shl v k) (digit d) else shl v k) = val v * 2 ^ k + int (unat d)"
  by (simp add: inv_ops val_add val_shl val_digit)

lemma horner:
  "inv v \<Longrightarrow>
   inv (foldl (\<lambda>v d. if d \<noteq> 0 then add (shl v k) (digit d) else shl v k) v ds) \<and>
   val (foldl (\<lambda>v d. if d \<noteq> 0 then add (shl v k) (digit d) else shl v k) v ds) =
     foldl (\<lambda>v d. v * 2 ^ k + int (unat d)) (val v) ds"
proof (induction ds arbitrary: v)
  case Nil
  then show ?case by simp
next
  case (Cons d ds)
  show ?case using horner_step [OF Cons.prems, of d k] Cons.IH by simp
qed

lemma sub_self_unique: "inv a \<Longrightarrow> inv b \<Longrightarrow> add a (neg b) = zero \<longleftrightarrow> a = b"
proof
  assume ab: "inv a" "inv b" and z: "add a (neg b) = zero"
  have "val a - val b = val (add a (neg b))" using ab by (simp add: inv_ops val_add val_neg)
  with z have "val a = val b" by (simp add: val_zero)
  with ab show "a = b" by (rule val_inj)
next
  assume "inv a" "inv b" "a = b"
  then show "add a (neg b) = zero"
    by (intro val_inj) (simp_all add: inv_ops val_add val_neg val_zero)
qed

end

interpretation bigint: integer_impl bwf bval bigint_zero bigint_add shl_bits from_u64 negated
  by unfold_locales (simp_all add: bigint_wf bigint_val wf_eqI)

section \<open>Bytes\<close>

lemma to_abs_le_bytes_val:
  assumes "bwf b"
  shows "int (bytes_val (to_abs_le_bytes b)) = \<bar>bval b\<bar>"
proof (cases "is_zero b")
  case True
  with assms show ?thesis by (simp add: to_abs_le_bytes_def is_zero_iff)
next
  case False
  let ?out = "rev (dropWhile (\<lambda>x. x = 0) (rev (concat (map u32_le_bytes (limbs b)))))"
  have v: "bytes_val ?out = limbs_val (limbs b)" by (simp only: bytes_val_trim bytes_val_concat_limbs)
  have pos: "limbs_val (limbs b) \<noteq> 0"
    using False abs_bval [OF assms] is_zero_iff [OF assms] by linarith
  have "?out \<noteq> []"
  proof
    assume "?out = []"
    then have "bytes_val ?out = 0" by (simp only: bytes_val.simps)
    with v pos show False by simp
  qed
  with False v show ?thesis by (auto simp: to_abs_le_bytes_def Let_def abs_bval [OF assms])
qed

section \<open>Properties\<close>

text \<open>
  C1. Addition, subtraction and multiplication of well-formed \<open>BigInt\<close>s return well-formed
  values and compute the sum, the difference and the product of the integers.
\<close>

theorem ring_operations:
  assumes "bwf a" "bwf b"
  shows "bwf (bigint_add a b) \<and> bval (bigint_add a b) = bval a + bval b \<and>
    bwf (bigint_sub a b) \<and> bval (bigint_sub a b) = bval a - bval b \<and>
    bwf (bigint_mul a b) \<and> bval (bigint_mul a b) = bval a * bval b"
  using assms by (simp_all add: bigint_wf bigint_val)

theorem ring_operations_witness:
  "bval (bigint_add (from_i64 (-7)) (from_u64 0x100000003)) = 4294967292 \<and>
   bval (bigint_sub (from_i64 (-7)) (from_u64 0x100000003)) = -4294967306 \<and>
   bval (bigint_mul (from_i64 (-7)) (from_u64 0x100000003)) = -30064771093"
  using ring_operations [OF wf_from_i64 wf_from_u64, of "-7" "0x100000003"]
  by (simp add: bigint_val)

text \<open>
  C2. Floor division. A zero divisor gives \<open>None\<close>. Otherwise the shift-and-subtract loop ends
  and the routine returns the quotient rounded towards minus infinity and the remainder
  with the sign of the divisor, both well formed.
\<close>

theorem division_floors:
  assumes "bwf a" "bwf d"
  shows "if bval d = 0 then div_mod_floor a d = Some None
    else \<exists>q r. div_mod_floor a d = Some (Some (q, r)) \<and> bwf q \<and> bwf r \<and>
      bval a = bval q * bval d + bval r \<and>
      (if 0 < bval d then 0 \<le> bval r \<and> bval r < bval d else bval d < bval r \<and> bval r \<le> 0)"
  using assms div_mod_floor_correct [OF assms]
  by (auto simp: div_mod_floor_def is_zero_iff)

theorem division_floors_witness:
  "\<exists>q r. div_mod_floor (from_i64 (-7)) (from_i64 2) = Some (Some (q, r)) \<and>
     -7 = bval q * 2 + bval r \<and> 0 \<le> bval r \<and> bval r < 2"
  using division_floors [of "from_i64 (-7)" "from_i64 2"] wf_from_i64
  by (auto simp: bval_from_i64)

text \<open>
  Shifts. A left shift multiplies by a power of two, the arithmetic right shift divides
  by it rounding towards minus infinity, for every shift count.
\<close>

theorem shifts_scale:
  assumes "bwf b"
  shows "bwf (shl_bits b n) \<and> bval (shl_bits b n) = bval b * 2 ^ n \<and>
    bwf (shr_bits_arithmetic b n) \<and> bval (shr_bits_arithmetic b n) = bval b div 2 ^ n"
  using assms by (simp_all add: bigint_wf bigint_val)

theorem shifts_scale_witness:
  "bval (shl_bits (from_i64 (-5)) 40) = -5497558138880 \<and> bval (shr_bits_arithmetic (from_i64 (-5)) 1) = -3"
  using shifts_scale [OF wf_from_i64, of "-5" 40] shifts_scale [OF wf_from_i64, of "-5" 1]
  by (simp add: bval_from_i64)

text \<open>
  The bitwise operators act on the infinite two's complement representation of the
  integers, although they work on finitely many limbs.
\<close>

theorem bitwise_twos_complement:
  assumes "bwf a" "bwf b"
  shows "bval (bigint_bitand a b) = bval a AND bval b \<and>
    bval (bigint_bitor a b) = bval a OR bval b \<and>
    bval (bigint_bitxor a b) = bval a XOR bval b \<and>
    bval (bigint_bitnot a) = NOT (bval a)"
  using assms by (simp_all add: bigint_val)

theorem bitwise_twos_complement_witness:
  "bval (bigint_bitand (from_i64 (-2)) (from_i64 7)) = 6 \<and> bval (bigint_bitor (from_i64 (-2)) (from_i64 7)) = -1 \<and>
   bval (bigint_bitxor (from_i64 (-2)) (from_i64 7)) = -7 \<and> bval (bigint_bitnot (from_i64 (-2))) = 1"
  using bitwise_twos_complement [of "from_i64 (-2)" "from_i64 7"] wf_from_i64 by (simp add: bval_from_i64)

text \<open>
  Powers. Repeated squaring computes the power for every 64-bit exponent and keeps the
  representation normalised.
\<close>

theorem pow_correct:
  assumes "bwf b"
  shows "bwf (pow_u64 b e) \<and> bval (pow_u64 b e) = bval b ^ unat e"
  using assms by (simp add: bigint_wf bigint_val)

theorem pow_correct_witness: "bval (pow_u64 (from_i64 (-3)) 5) = -243"
  using pow_correct [OF wf_from_i64, of "-3" 5] by (simp add: bval_from_i64)

text \<open>
  Order and canonicity. \<open>cmp_total\<close> is the order of the integers, and it answers \<open>Equal\<close>
  exactly for identical representations: each integer has one well-formed \<open>BigInt\<close>.
\<close>

theorem order_and_canonicity:
  assumes "bwf a" "bwf b"
  shows "cmp_total a b = cmp (bval a) (bval b) \<and> (cmp_total a b = Equal \<longleftrightarrow> a = b)"
  using cmp_total_correct [OF assms] wf_eqI [OF assms] by auto

theorem order_and_canonicity_witness: "cmp_total (from_i64 (-4)) (from_u64 9) = Less"
  using order_and_canonicity [OF wf_from_i64 wf_from_u64, of "-4" 9]
  by (simp add: bigint_val cmp_def)

text \<open>
  Conversion to \<open>i64\<close> succeeds exactly on the integers of that range, the minimum
  included, and inverts \<open>from_i64\<close> on every machine integer.
\<close>

theorem i64_conversion:
  "to_i64 (from_i64 v) = Some v \<and>
   (bwf b \<longrightarrow> (case to_i64 b of Some v \<Rightarrow> from_i64 v = b | None \<Rightarrow> bval b < - (2 ^ 63) \<or> 2 ^ 63 \<le> bval b))"
proof (intro conjI impI)
  show "to_i64 (from_i64 v) = Some v"
    using to_i64_correct [OF wf_from_i64, of v] sint_u64_range [of v] by (simp add: bval_from_i64)
  assume b: "bwf b"
  have "from_i64 (word_of_int (bval b)) = b" if "- (2 ^ 63) \<le> bval b" "bval b < 2 ^ 63"
    using that b by (intro wf_eqI) (simp_all add: bigint_wf bval_from_i64 sint_of_int_u64)
  then show "case to_i64 b of Some v \<Rightarrow> from_i64 v = b | None \<Rightarrow> bval b < - (2 ^ 63) \<or> 2 ^ 63 \<le> bval b"
    using to_i64_correct [OF b] by auto
qed

theorem i64_conversion_witness:
  "to_i64 (from_i64 (-3)) = Some (-3) \<and>
   (case to_i64 (from_u64 77) of Some v \<Rightarrow> from_i64 v = from_u64 77 | None \<Rightarrow> False)"
  using i64_conversion [of "-3" "from_u64 77"] wf_from_u64 [of 77]
  by (auto simp: bval_from_u64 split: option.splits)



end
