(* ===== verification/Marshal_Proofs.thy ===== *)
theory Marshal_Proofs
  imports Marshal Bigint_Spec
begin

text \<open>
  Proofs about the marshal codec. \<open>decodes rd w x\<close> says that the reader \<open>rd\<close>, standing before
  the bytes \<open>w\<close>, consumes exactly these and returns \<open>x\<close>; it composes over sequences, and the
  round trip of every storable object follows by induction on what the writer does.
\<close>

declare read_object.simps [simp del]

section \<open>Positions\<close>

definition adv :: "MarshalReader \<Rightarrow> nat \<Rightarrow> MarshalReader" where
  "adv r n = r\<lparr>offset := offset r + n\<rparr>"

definition before :: "MarshalReader \<Rightarrow> u8 list \<Rightarrow> bool" where
  "before r bs \<longleftrightarrow> offset r + length bs \<le> length (data r) \<and> length (data r) < 2 ^ 64 \<and>
     take (length bs) (drop (offset r) (data r)) = bs"

definition decodes :: "'a reader \<Rightarrow> u8 list \<Rightarrow> 'a \<Rightarrow> bool" where
  "decodes rd w x \<longleftrightarrow> (\<forall>r. before r w \<longrightarrow> rd r = Inr (x, adv r (length w)))"

lemma adv_adv [simp]: "adv (adv r m) n = adv r (m + n)"
  by (simp add: adv_def add.assoc)

lemma adv_0 [simp]: "adv r 0 = r"
  by (simp add: adv_def)

lemma adv_sel [simp]: "data (adv r n) = data r" "refs (adv r n) = refs r" "offset (adv r n) = offset r + n"
  by (simp_all add: adv_def)

lemma before_append: "before r (xs @ ys) \<longleftrightarrow> before r xs \<and> before (adv r (length xs)) ys"
proof -
  have "take (length xs + length ys) (drop (offset r) (data r)) = xs @ ys \<longleftrightarrow>
    take (length xs) (drop (offset r) (data r)) = xs \<and>
    take (length ys) (drop (offset r + length xs) (data r)) = ys"
    if "offset r + length xs + length ys \<le> length (data r)"
    using that by (auto simp: take_add drop_drop add.commute append_eq_append_conv)
  then show ?thesis by (auto simp: before_def)
qed

lemma decodesI: "(\<And>r. before r w \<Longrightarrow> rd r = Inr (x, adv r (length w))) \<Longrightarrow> decodes rd w x"
  by (simp add: decodes_def)

lemma decodesD: "decodes rd w x \<Longrightarrow> before r w \<Longrightarrow> rd r = Inr (x, adv r (length w))"
  by (simp add: decodes_def)

lemma decodes_bind:
  assumes "decodes rd a x" "decodes (f x) b y"
  shows "decodes (\<lambda>r. bindr (rd r) (\<lambda>(x, r). f x r)) (a @ b) y"
  using assms by (intro decodesI) (simp add: before_append decodesD)

lemma decodes_map:
  assumes "decodes rd w x"
  shows "decodes (\<lambda>r. bindr (rd r) (\<lambda>(x, r). Inr (g x, r))) w (g x)"
  using assms by (intro decodesI) (simp add: decodesD)

lemma decodes_nil: "decodes (\<lambda>r. Inr (x, r)) [] x"
  by (simp add: decodes_def)

section \<open>Primitive readers\<close>

lemma decodes_exact: "n = length w \<Longrightarrow> decodes (read_exact n) w w"
  by (intro decodesI) (simp add: read_exact_def before_def adv_def Let_def)

lemma decodes_u8: "decodes read_u8 [b] b"
proof (intro decodesI)
  fix r assume "before r [b]"
  then have "offset r < length (data r)" "take (Suc 0) (drop (offset r) (data r)) = [b]"
    by (simp_all add: before_def)
  then have "data r ! offset r = b" by (simp add: take_Suc_conv_app_nth hd_drop_conv_nth take_Suc)
  with \<open>offset r < length (data r)\<close> show "read_u8 r = Inr (b, adv r (length [b]))"
    by (simp add: read_u8_def adv_def)
qed

lemma decodes_i32: "decodes read_i32 (write_i32 v) v"
  using decodes_map [OF decodes_exact, of 4 "write_i32 v" u32_from_le]
  by (simp add: write_i32_def read_i32_def [abs_def])

lemma decodes_u16: "decodes read_u16 (write_u16 v) v"
  using decodes_map [OF decodes_exact, of 2 "write_u16 v" "\<lambda>bs. of_nat (bytes_val bs) :: u16"]
  by (simp add: write_u16_def read_u16_def [abs_def])

lemma decodes_f64: "decodes read_f64 (u64_le_bytes v) v"
  using decodes_map [OF decodes_exact, of 8 "u64_le_bytes v" "\<lambda>bs. of_nat (bytes_val bs) :: u64"]
  by (simp add: read_f64_def [abs_def])

lemma sint_of_int_i32: "- (2 ^ 31) \<le> i \<Longrightarrow> i < 2 ^ 31 \<Longrightarrow> sint (word_of_int i :: i32) = i"
  by (simp add: sint_sbintrunc' signed_take_bit_int_eq_self)

lemma sint_of_nat_i32: "n < 2 ^ 31 \<Longrightarrow> sint (of_nat n :: i32) = int n"
  using sint_of_int_i32 [of "int n"] by simp

lemma as_usize_of_nat: "n < 2 ^ 31 \<Longrightarrow> as_usize (of_nat n) = n"
proof -
  assume n: "n < 2 ^ 31"
  have "(scast (of_nat n :: i32) :: u64) = word_of_int (sint (of_nat n :: i32))" by simp
  also have "\<dots> = of_nat n" using sint_of_nat_i32 [OF n] by simp
  finally show ?thesis using n by (simp add: as_usize_def unat_of_nat)
qed

lemma i32_try_from_Some: "i32_try_from n = Some v \<longleftrightarrow> n < 2 ^ 31 \<and> v = of_nat n"
  by (auto simp: i32_try_from_def)

lemma decodes_bytes_long: "write_bytes_long bs = Inr w \<Longrightarrow> decodes read_bytes_long w bs"
  using decodes_bind [OF decodes_i32 decodes_exact, of "\<lambda>n. as_usize n" "of_nat (length bs)" bs]
  by (auto simp: write_bytes_long_def read_bytes_long_def [abs_def] i32_try_from_Some as_usize_of_nat
      simp del: of_nat_numeral)

lemma decodes_string_long:
  assumes "write_bytes_long (as_bytes s) = Inr w" "\<forall>c \<in> set s. valid_char c"
  shows "decodes read_string_long w s"
  using decodesD [OF decodes_bytes_long [OF assms(1)]] from_utf8_as_bytes [OF assms(2)]
  by (intro decodesI) (simp add: read_string_long_def utf8_string_def)

section \<open>Integers\<close>

lemma sint_narrow: "- (2 ^ 31) \<le> sint (v :: i64) \<Longrightarrow> sint v \<le> 2 ^ 31 - 1 \<Longrightarrow> scast (ucast v :: i32) = v"
proof -
  assume "- (2 ^ 31) \<le> sint v" "sint v \<le> 2 ^ 31 - 1"
  then have eq: "signed_take_bit 31 (sint v) = sint v" by (intro signed_take_bit_int_eq_self) simp_all
  have "sint (ucast v :: i32) = signed_take_bit 31 (uint v)"
    by (simp add: sint_uint unsigned_ucast_eq signed_take_bit_take_bit)
  also have "\<dots> = signed_take_bit 31 (sint v)"
    by (simp add: sint_uint signed_take_bit_signed_take_bit)
  finally have s: "sint (ucast v :: i32) = sint v" using eq by simp
  have "(scast (ucast v :: i32) :: i64) = word_of_int (sint (ucast v :: i32))" by (rule scast_eq)
  also have "\<dots> = v" unfolding s by simp
  finally show ?thesis .
qed

lemma decodes_digits: "decodes (read_digits (length ds)) (concat (map write_u16 ds)) (map ucast ds)"
proof (induction ds)
  case Nil
  then show ?case by (simp add: decodes_def)
next
  case (Cons d ds)
  show ?case
    using decodes_bind [OF decodes_u16 decodes_map [OF Cons], of "\<lambda>d ds. ucast d # ds" d]
    by (simp add: case_prod_unfold)
qed

lemma horner_long_digits:
  "foldl (\<lambda>v d. v * 2 ^ 15 + int (unat d)) 0 (rev (map (\<lambda>d :: u16. ucast d :: u64) (long_digits n))) = int n"
proof (induction n rule: long_digits.induct)
  case (1 n)
  have "unat (of_nat (n mod 32768) :: u16) = n mod 32768" by (simp add: unat_of_nat)
  moreover have "int n = int (n div 32768) * 32768 + int (n mod 32768)"
    by (simp add: zdiv_int zmod_int)
  ultimately show ?case
    using 1 by (simp add: long_digits.simps [of n] del: of_nat_unat)
qed

lemma digits_bigint_long:
  "bwf (digits_bigint (map ucast (long_digits n))) \<and> bval (digits_bigint (map ucast (long_digits n))) = int n"
  using bigint.horner [of bigint_zero 15 "rev (map ucast (long_digits n))"] horner_long_digits [of n]
  by (simp add: digits_bigint_def del: of_nat_unat)

lemma long_count:
  assumes "n < 2 ^ 31" "0 < n"
  shows "(of_nat n :: i32) \<noteq> 0" "- (of_nat n :: i32) \<noteq> 0"
    "i32_unsigned_abs (of_nat n) = n" "i32_unsigned_abs (- of_nat n) = n"
    "\<not> sint (of_nat n :: i32) < 0" "sint (- of_nat n :: i32) < 0"
proof -
  have p: "sint (of_nat n :: i32) = int n" using assms(1) by (rule sint_of_nat_i32)
  have m: "sint (- of_nat n :: i32) = - int n" using sint_of_int_i32 [of "- int n"] assms by simp
  show "(of_nat n :: i32) \<noteq> 0" "- (of_nat n :: i32) \<noteq> 0" using p m assms by auto
  show "i32_unsigned_abs (of_nat n) = n" "i32_unsigned_abs (- of_nat n) = n"
    "\<not> sint (of_nat n :: i32) < 0" "sint (- of_nat n :: i32) < 0"
    using p m assms by (simp_all add: i32_unsigned_abs_def)
qed

lemma decodes_long:
  assumes "write_long v = Inr w"
  shows "decodes read_long_object w (IntObj v)"
proof (cases "v = 0")
  case True
  with assms show ?thesis
    using decodes_i32 [of 0] by (intro decodesI) (simp add: write_long_def read_long_object_def decodesD)
next
  case False
  let ?n = "nat \<bar>sint v\<bar>"
  let ?ds = "long_digits ?n"
  let ?b = "digits_bigint (map ucast ?ds)"
  have pos: "0 < length ?ds" using False by (simp add: long_digits.simps [of ?n] signed_eq_0_iff)
  from False assms have l: "length ?ds < 2 ^ 31"
    and w: "w = write_i32 (if sint v < 0 then - of_nat (length ?ds) else of_nat (length ?ds)) @ concat (map write_u16 ?ds)"
    by (auto simp: write_long_def i32_try_from_Some Let_def)
  note count = long_count [OF l pos]
  have b: "bwf ?b" "bval ?b = \<bar>sint v\<bar>" using digits_bigint_long [of ?n] by simp_all
  have "to_i64 (if sint v < 0 then negated ?b else ?b) = Some v"
    using b sint_u64_range [of v] to_i64_correct [of "if sint v < 0 then negated ?b else ?b"]
    by (auto simp: wf_negated bval_negated)
  then show ?thesis using count decodesD [OF decodes_i32] decodesD [OF decodes_digits]
    by (intro decodesI) (simp add: read_long_object_def w before_append Let_def split: if_splits)
qed

section \<open>Objects\<close>

text \<open>
  The objects that survive the format: strings are valid Unicode, a dictionary has no null
  key (it would end the entry list) and a slice has no bound that is the null object (it
  would be read as an absent bound).
\<close>

fun storable :: "PyObject \<Rightarrow> bool" and storable_code :: "CpythonCode \<Rightarrow> bool" where
  "storable (Str s) \<longleftrightarrow> (\<forall>c \<in> set s. valid_char c)"
| "storable (Tuple items) \<longleftrightarrow> (\<forall>x \<in> set items. storable x)"
| "storable (ListObj items) \<longleftrightarrow> (\<forall>x \<in> set items. storable x)"
| "storable (SetObj items) \<longleftrightarrow> (\<forall>x \<in> set items. storable x)"
| "storable (FrozenSet items) \<longleftrightarrow> (\<forall>x \<in> set items. storable x)"
| "storable (Dict entries) \<longleftrightarrow> (\<forall>(k, v) \<in> set entries. k \<noteq> Null \<and> storable k \<and> storable v)"
| "storable (Code c) \<longleftrightarrow> storable_code c"
| "storable (Slice lower upper step) \<longleftrightarrow>
     lower \<noteq> Some Null \<and> upper \<noteq> Some Null \<and> step \<noteq> Some Null \<and>
     (\<forall>x \<in> set_option lower. storable x) \<and> (\<forall>x \<in> set_option upper. storable x) \<and>
     (\<forall>x \<in> set_option step. storable x)"
| "storable _ \<longleftrightarrow> True"
| "storable_code (CpythonCode ac po kw ss fl cd cs ns lps lpk fn nm qn fl1 lt et) \<longleftrightarrow>
     (\<forall>x \<in> set cs. storable x) \<and>
     (\<forall>s \<in> set ns \<union> set lps \<union> {fn, nm, qn}. \<forall>c \<in> set s. valid_char c)"

lemma tag_byte:
  assumes "of_char c < (128 :: nat)"
  shows "(of_nat (of_char c) :: u8) AND 0x80 = 0" "char_of (unat ((of_nat (of_char c) :: u8) AND 0x7f)) = c"
proof -
  let ?b = "of_nat (of_char c) :: u8"
  have u: "unat ?b = of_char c" using assms by (simp add: unat_of_nat)
  have m: "(0x7f :: u8) = mask 7" by (simp add: mask_eq_exp_minus_1)
  have "unat (?b AND 0x7f) = unat ?b mod 128"
    unfolding m take_bit_eq_mask [symmetric] unsigned_take_bit_eq by (simp add: take_bit_eq_mod)
  then show "char_of (unat (?b AND 0x7f)) = c" using u assms by simp
  have "\<not> bit (unat ?b) 7" unfolding u using assms by (simp add: bit_iff_odd)
  then have "\<not> bit ?b 7" by (simp add: bit_unsigned_iff)
  then show "?b AND 0x80 = 0" using and_exp_eq_0_iff_not_bit [of ?b 7] by simp
qed

lemma finish_ref_None [simp]: "bindr m (finish_ref None) = m"
  by (cases m) (auto simp: finish_ref_def)

lemma decodes_object:
  assumes "decodes (read_body (read_object fuel ac) fuel ac c) w x"
    and "of_char c < (128 :: nat)" "c \<noteq> CHR ''r''" "w' = write_u8 c @ w"
  shows "decodes (read_object (Suc fuel) ac) w' x"
proof (intro decodesI)
  fix r assume "before r w'"
  then have "before r ([of_nat (of_char c)] @ w)" by (simp only: assms(4) write_u8_def)
  then have b: "before r [of_nat (of_char c)]" and w: "before (adv r 1) w"
    unfolding before_append by simp_all
  have r: "read_u8 r = Inr (of_nat (of_char c), adv r 1)"
    using decodesD [OF decodes_u8 b] by simp
  have "read_object (Suc fuel) ac r = read_body (read_object fuel ac) fuel ac c (adv r 1)"
    using assms(3) by (simp add: r tag_byte [OF assms(2)] read_object.simps)
  also have "\<dots> = Inr (x, adv r (length w'))"
    using decodesD [OF assms(1) w] by (simp add: assms(4) write_u8_def)
  finally show "read_object (Suc fuel) ac r = Inr (x, adv r (length w'))" .
qed

lemma length_write [simp]: "length (write_u8 c) = 1" "length (write_i32 v) = 4"
  by (simp_all add: write_u8_def write_i32_def)

lemma decodes_str:
  assumes "write_str s = Inr w" "\<forall>c \<in> set s. valid_char c"
  shows "decodes (read_object (Suc fuel) ac) w (Str s)"
proof -
  from assms(1) obtain out where out: "write_bytes_long (as_bytes s) = Inr out" "w = write_u8 CHR ''u'' @ out"
    by (auto simp: write_str_def)
  have "read_body (read_object fuel ac) fuel ac CHR ''u'' = (\<lambda>r. bindr (read_string_long r) (\<lambda>(s, r). Inr (Str s, r)))"
    by (simp add: read_body_def fun_eq_iff)
  with decodes_map [OF decodes_string_long [OF out(1) assms(2)], of Str] out(2)
  show ?thesis by (intro decodes_object [where c = "CHR ''u''"]) simp_all
qed

lemma decodes_bytes:
  assumes "write_bytes bs = Inr w"
  shows "decodes (read_object (Suc fuel) ac) w (Bytes bs)"
proof -
  from assms(1) obtain out where out: "write_bytes_long bs = Inr out" "w = write_u8 CHR ''s'' @ out"
    by (auto simp: write_bytes_def)
  have "read_body (read_object fuel ac) fuel ac CHR ''s'' = (\<lambda>r. bindr (read_bytes_long r) (\<lambda>(s, r). Inr (Bytes s, r)))"
    by (simp add: read_body_def fun_eq_iff)
  with decodes_map [OF decodes_bytes_long [OF out(1)], of Bytes] out(2)
  show ?thesis by (intro decodes_object [where c = "CHR ''s''"]) simp_all
qed

lemma decodes_int:
  assumes "write_int v = Inr w"
  shows "decodes (read_object (Suc fuel) ac) w (IntObj v)"
proof (cases "- (2 ^ 31) \<le> sint v \<and> sint v \<le> 2 ^ 31 - 1")
  case True
  have "read_body (read_object fuel ac) fuel ac CHR ''i'' = (\<lambda>r. bindr (read_i32 r) (\<lambda>(v, r). Inr (IntObj (scast v), r)))"
    by (simp add: read_body_def fun_eq_iff)
  moreover have "w = write_u8 CHR ''i'' @ write_i32 (ucast v)" using True assms by (simp add: write_int_def)
  ultimately show ?thesis
    using decodes_map [OF decodes_i32 [of "ucast v"], of "\<lambda>v. IntObj (scast v)"] True
    by (intro decodes_object [where c = "CHR ''i''"]) (simp_all add: sint_narrow)
next
  case False
  with assms obtain out where out: "write_long v = Inr out" "w = write_u8 CHR ''l'' @ out"
    by (auto simp: write_int_def split: if_splits)
  have "read_body (read_object fuel ac) fuel ac CHR ''l'' = read_long_object"
    by (simp add: read_body_def fun_eq_iff)
  with decodes_long [OF out(1)] out(2)
  show ?thesis by (intro decodes_object [where c = "CHR ''l''"]) simp_all
qed

lemma decodes_each:
  assumes "write_each (map f xs) = Inr out" "length out \<le> n"
    and "\<And>x w. x \<in> set xs \<Longrightarrow> f x = Inr w \<Longrightarrow> length w \<le> n \<Longrightarrow> decodes rd w (g x)"
  shows "decodes (read_n rd (length xs)) out (map g xs)"
  using assms
proof (induction xs arbitrary: out)
  case Nil
  then show ?case by (simp add: decodes_def)
next
  case (Cons x xs)
  then obtain a b where ab: "f x = Inr a" "write_each (map f xs) = Inr b" "out = a @ b" by auto
  have "decodes rd a (g x)" using Cons.prems ab by simp
  moreover have "decodes (read_n rd (length xs)) b (map g xs)" using Cons.prems ab by (intro Cons.IH) simp_all
  ultimately show ?case by (intro decodesI) (simp add: ab(3) before_append decodesD)
qed

definition sized :: "PyObject reader \<Rightarrow> (PyObject list \<Rightarrow> PyObject) \<Rightarrow> PyObject reader" where
  "sized rd K r = bindr (read_i32 r) (\<lambda>(n, r). bindr (with_capacity (as_usize n)) (\<lambda>_.
     bindr (read_n rd (as_usize n) r) (\<lambda>(xs, r). Inr (K xs, r))))"

lemma decodes_sized:
  assumes "write_seq tag msg (map f xs) = Inr w" "length w \<le> Suc n"
    and "\<And>x w. x \<in> set xs \<Longrightarrow> f x = Inr w \<Longrightarrow> length w \<le> n \<Longrightarrow> decodes rd w (g x)"
  shows "\<exists>w'. w = write_u8 tag @ w' \<and> decodes (sized rd K) w' (K (map g xs))"
proof -
  from assms(1) obtain out where l: "length xs < 2 ^ 31" and out: "write_each (map f xs) = Inr out"
      "w = write_u8 tag @ write_i32 (of_nat (length xs)) @ out"
    by (auto simp: write_seq_def i32_try_from_Some)
  have "decodes (read_n rd (length xs)) out (map g xs)"
    using assms(2) by (intro decodes_each [OF out(1) _ assms(3)]) (simp_all add: out(2))
  then have "decodes (sized rd K) (write_i32 (of_nat (length xs)) @ out) (K (map g xs))"
    using l decodesD [OF decodes_i32, of _ "of_nat (length xs)"]
    by (intro decodesI) (simp add: sized_def before_append as_usize_of_nat with_capacity_def decodesD)
  with out(2) show ?thesis by blast
qed

lemma body_sized:
  "read_body rd fuel ac CHR ''('' = sized rd Tuple" "read_body rd fuel ac CHR ''['' = sized rd ListObj"
  "read_body rd fuel ac CHR ''<'' = sized rd SetObj" "read_body rd fuel ac CHR ''>'' = sized rd FrozenSet"
  by (simp_all add: read_body_def sized_def fun_eq_iff)

lemma decodes_seq:
  assumes "write_seq tag msg (map f xs) = Inr w" "length w \<le> fuel"
    and "read_body (read_object fuel ac) fuel ac tag = sized (read_object fuel ac) K"
    and "of_char tag < (128 :: nat)" "tag \<noteq> CHR ''r''"
    and "\<And>x w. x \<in> set xs \<Longrightarrow> f x = Inr w \<Longrightarrow> length w \<le> fuel - 1 \<Longrightarrow> decodes (read_object fuel ac) w (g x)"
  shows "decodes (read_object (Suc fuel) ac) w (K (map g xs))"
proof -
  have "length w \<le> Suc (fuel - 1)" using assms(2) by simp
  from decodes_sized [OF assms(1) this, of "read_object fuel ac" g K] assms(6) obtain w' where
    "w = write_u8 tag @ w'" "decodes (sized (read_object fuel ac) K) w' (K (map g xs))" by blast
  with assms(3-5) show ?thesis by (intro decodes_object) simp_all
qed

lemma decodes_null: "decodes (read_object (Suc fuel) ac) (write_u8 CHR ''0'') Null"
proof -
  have "decodes (read_body (read_object fuel ac) fuel ac CHR ''0'') [] Null"
    by (simp add: read_body_def decodes_def)
  then show ?thesis by (rule decodes_object) simp_all
qed

lemma decodes_const:
  assumes "read_body (read_object fuel ac) fuel ac c = (\<lambda>r. Inr (x, r))"
    and "of_char c < (128 :: nat)" "c \<noteq> CHR ''r''"
  shows "decodes (read_object (Suc fuel) ac) (write_u8 c) x"
  using assms by (intro decodes_object [of fuel ac c "[]"]) (simp_all add: decodes_nil)

lemma write_nonempty:
  "write_object x = Inr w \<Longrightarrow> w \<noteq> []"
  by (cases x; cases "case x of Code c \<Rightarrow> c | _ \<Rightarrow> undefined")
     (auto simp: write_u8_def write_int_def write_str_def write_bytes_def write_seq_def split: if_splits)

definition write_pair :: "PyObject \<times> PyObject \<Rightarrow> u8 list res" where
  "write_pair = (\<lambda>(key, value).
     bindr (write_object key) (\<lambda>a. bindr (write_object value) (\<lambda>b. Inr (a @ b))))"

lemma decodes_entries:
  assumes "write_each (map write_pair es) = Inr out" "length out \<le> n" "length out < rounds"
    and "\<And>k v w. (k, v) \<in> set es \<Longrightarrow> write_object k = Inr w \<Longrightarrow> length w \<le> n \<Longrightarrow> decodes rd w k"
    and "\<And>k v w. (k, v) \<in> set es \<Longrightarrow> write_object v = Inr w \<Longrightarrow> length w \<le> n \<Longrightarrow> decodes rd w v"
    and "\<And>k v. (k, v) \<in> set es \<Longrightarrow> k \<noteq> Null" "decodes rd (write_u8 CHR ''0'') Null"
  shows "decodes (read_entries rd rounds) (out @ write_u8 CHR ''0'') es"
  using assms
proof (induction es arbitrary: out rounds)
  case Nil
  then obtain k where "rounds = Suc k" by (cases rounds) simp_all
  with Nil show ?case by (intro decodesI) (simp add: decodesD)
next
  case (Cons e es)
  obtain k v where e: "e = (k, v)" by (cases e)
  with Cons.prems(1) obtain a b c where abc: "write_object k = Inr a" "write_object v = Inr b"
      "write_each (map write_pair es) = Inr c" "out = a @ b @ c"
    by (auto simp: write_pair_def)
  have ne: "a \<noteq> []" using abc(1) by (rule write_nonempty)
  obtain m where m: "rounds = Suc m" using Cons.prems(3) by (cases rounds) simp_all
  have "(k, v) \<in> set (e # es)" "length a \<le> n" "length b \<le> n" using Cons.prems(2) e abc(4) by simp_all
  then have k: "decodes rd a k" "k \<noteq> Null" and v: "decodes rd b v"
    using Cons.prems(4-6) abc(1,2) by blast+
  have lc: "length c \<le> n" "length c < m" using Cons.prems(2,3) m abc(4) ne by (cases a; simp)+
  have "decodes (read_entries rd m) (c @ write_u8 CHR ''0'') es"
  proof (rule Cons.IH [OF abc(3) lc])
    show "\<And>k v w. (k, v) \<in> set es \<Longrightarrow> write_object k = Inr w \<Longrightarrow> length w \<le> n \<Longrightarrow> decodes rd w k"
      using Cons.prems(4) by (meson list.set_intros(2))
    show "\<And>k v w. (k, v) \<in> set es \<Longrightarrow> write_object v = Inr w \<Longrightarrow> length w \<le> n \<Longrightarrow> decodes rd w v"
      using Cons.prems(5) by (meson list.set_intros(2))
    show "\<And>k v. (k, v) \<in> set es \<Longrightarrow> k \<noteq> Null" using Cons.prems(6) by auto
  qed (rule Cons.prems(7))
  note rest = this
  show ?case
  proof (intro decodesI)
    fix r assume "before r (out @ write_u8 CHR ''0'')"
    then have b: "before r a" "before (adv r (length a)) b"
        "before (adv r (length a + length b)) (c @ write_u8 CHR ''0'')"
      by (simp_all add: abc(4) before_append add.assoc)
    show "read_entries rd rounds r = Inr (e # es, adv r (length (out @ write_u8 CHR ''0'')))"
      using decodesD [OF k(1) b(1)] decodesD [OF v b(2)] decodesD [OF rest b(3)] k(2)
      by (simp add: m e abc(4))
  qed
qed

lemma decodes_n: "list_all2 (decodes rd) ws xs \<Longrightarrow> decodes (read_n rd (length xs)) (concat ws) xs"
proof (induction rule: list_all2_induct)
  case Nil
  then show ?case by (simp add: decodes_def)
next
  case (Cons w ws x xs)
  then show ?case by (intro decodesI) (simp add: before_append decodesD)
qed

lemma decodes_ints: "decodes (read_ints (length vs)) (concat (map write_i32 vs)) vs"
proof (induction vs)
  case Nil
  then show ?case by (simp add: decodes_def)
next
  case (Cons v vs)
  show ?case using decodesD [OF decodes_i32, of _ v] decodesD [OF Cons]
    by (intro decodesI) (simp add: before_append)
qed

lemma parse_str_list_map [simp]: "parse_str_list (map Str ss) = Inr ss"
  by (induction ss) simp_all

lemma decodes_code_body:
  assumes "list_all2 (decodes rd) [cb, csb, nb, lpb, lkb, fb, nmb, qb]
      [Bytes cd, Tuple cs, Tuple (map Str ns), Tuple (map Str lps), Bytes lpk, Str fn, Str nm, Str qn]"
    and "list_all2 (decodes rd) [ltb, etb] [Bytes lt, Bytes et]"
  shows "decodes (read_body rd fuel True CHR ''c'')
    (write_i32 ac @ write_i32 po @ write_i32 kw @ write_i32 ss @ write_i32 fl @ cb @ csb @ nb @ lpb @ lkb @
     fb @ nmb @ qb @ write_i32 fl1 @ ltb @ etb)
    (Code (CpythonCode ac po kw ss fl cd cs ns lps lpk fn nm qn fl1 lt et))"
proof (intro decodesI)
  let ?i = "[ac, po, kw, ss, fl]" and ?w = "[cb, csb, nb, lpb, lkb, fb, nmb, qb]"
  fix r
  assume "before r (write_i32 ac @ write_i32 po @ write_i32 kw @ write_i32 ss @ write_i32 fl @ cb @ csb @ nb @ lpb @ lkb @
     fb @ nmb @ qb @ write_i32 fl1 @ ltb @ etb)"
  then have b: "before r (concat (map write_i32 ?i))" "before (adv r 20) (concat ?w)"
      "before (adv r (20 + length (concat ?w))) (write_i32 fl1)"
      "before (adv r (20 + length (concat ?w) + 4)) (concat [ltb, etb])"
    by (simp_all add: before_append add.assoc)
  have "read_body rd fuel True CHR ''c'' r =
     bindr (read_ints 5 r) (\<lambda>(ints, r).
     bindr (read_n rd 8 r) (\<lambda>(objs, r).
     bindr (read_i32 r) (\<lambda>(first, r).
     bindr (read_n rd 2 r) (\<lambda>(tables, r).
     bindr (build_code ints first (objs @ tables)) (\<lambda>obj. Inr (obj, r))))))"
    by (simp add: read_body_def)
  then show "read_body rd fuel True CHR ''c'' r =
    Inr (Code (CpythonCode ac po kw ss fl cd cs ns lps lpk fn nm qn fl1 lt et), adv r (length
      (write_i32 ac @ write_i32 po @ write_i32 kw @ write_i32 ss @ write_i32 fl @ cb @ csb @ nb @ lpb @ lkb @
       fb @ nmb @ qb @ write_i32 fl1 @ ltb @ etb)))"
    using decodesD [OF decodes_ints b(1)] decodesD [OF decodes_n [OF assms(1)] b(2)]
      decodesD [OF decodes_i32 b(3)] decodesD [OF decodes_n [OF assms(2)] b(4)]
    by (simp add: numeral_eq_Suc build_code_def as_bytes_obj_def as_seq_def as_str_obj_def add.assoc)
qed

lemma decodes_opt:
  assumes "write_opt (map_option write_object x) = Inr w" "length w \<le> fuel"
    and "\<And>y w. y \<in> set_option x \<Longrightarrow> write_object y = Inr w \<Longrightarrow> length w \<le> fuel \<Longrightarrow>
      decodes (read_object (Suc fuel) ac) w y"
  shows "decodes (read_object (Suc fuel) ac) w (case x of Some y \<Rightarrow> y | None \<Rightarrow> Null)"
  using assms by (cases x) (auto simp: write_opt_def decodes_null)

lemma non_null_case: "x \<noteq> Some Null \<Longrightarrow> non_null (case x of Some y \<Rightarrow> y | None \<Rightarrow> Null) = x"
  by (auto simp: non_null_def split: option.splits)

lemma fuel_pos: "write_object x = Inr w \<Longrightarrow> length w \<le> fuel \<Longrightarrow> \<exists>f. fuel = Suc f"
  using write_nonempty [of x w] by (cases fuel) simp_all

lemma decodes_seq_objects:
  assumes "write_seq tag msg (map write_object xs) = Inr w" "length w \<le> fuel"
    and "\<And>rd f. read_body rd f True tag = sized rd K" "of_char tag < (128 :: nat)" "tag \<noteq> CHR ''r''"
    and "\<And>x w f. x \<in> set xs \<Longrightarrow> write_object x = Inr w \<Longrightarrow> length w \<le> f \<Longrightarrow>
      decodes (read_object (Suc f) True) w x"
  shows "decodes (read_object (Suc fuel) True) w (K xs)"
proof -
  from assms(1,2) obtain f where f: "fuel = Suc f" by (cases fuel) (auto simp: write_seq_def write_u8_def)
  have "decodes (read_object (Suc fuel) True) w (K (map id xs))"
    by (rule decodes_seq [OF assms(1,2,3,4,5)]) (simp add: f assms(6))
  then show ?thesis by simp
qed

lemma decodes_strs:
  assumes "write_seq CHR ''('' msg (map write_str ss) = Inr w" "length w \<le> fuel"
    and "\<forall>s \<in> set ss. \<forall>c \<in> set s. valid_char c"
  shows "decodes (read_object (Suc fuel) True) w (Tuple (map Str ss))"
proof -
  from assms(1,2) obtain f where f: "fuel = Suc f" by (cases fuel) (auto simp: write_seq_def write_u8_def)
  show ?thesis
    by (rule decodes_seq [OF assms(1,2)]) (simp_all add: body_sized f assms(3) decodes_str)
qed

lemma decodes_slice:
  assumes "write_object (Slice lower upper step) = Inr w" "length w \<le> fuel"
    and "lower \<noteq> Some Null" "upper \<noteq> Some Null" "step \<noteq> Some Null"
    and "\<And>y w f. y \<in> set_option lower \<union> set_option upper \<union> set_option step \<Longrightarrow> write_object y = Inr w \<Longrightarrow>
      length w \<le> f \<Longrightarrow> decodes (read_object (Suc f) True) w y"
  shows "decodes (read_object (Suc fuel) True) w (Slice lower upper step)"
proof -
  obtain f where f: "fuel = Suc f" using fuel_pos [OF assms(1,2)] by blast
  from assms(1) obtain a b c where abc: "write_opt (map_option write_object lower) = Inr a"
      "write_opt (map_option write_object upper) = Inr b" "write_opt (map_option write_object step) = Inr c"
      "w = write_u8 CHR '':'' @ a @ b @ c" by auto
  let ?v = "\<lambda>x. case x of Some y \<Rightarrow> y | None \<Rightarrow> Null"
  have l: "length a \<le> f" "length b \<le> f" "length c \<le> f" using assms(2) f abc(4) by simp_all
  have "list_all2 (decodes (read_object fuel True)) [a, b, c] [?v lower, ?v upper, ?v step]"
    using decodes_opt [OF abc(1) l(1) assms(6)] decodes_opt [OF abc(2) l(2) assms(6)]
      decodes_opt [OF abc(3) l(3) assms(6)] f by simp
  from decodes_n [OF this] have n: "decodes (read_n (read_object fuel True) 3) (a @ b @ c) [?v lower, ?v upper, ?v step]"
    by (simp add: numeral_eq_Suc)
  have "read_body (read_object fuel True) fuel True CHR '':'' = (\<lambda>r. bindr (read_n (read_object fuel True) 3 r)
      (\<lambda>(xs, r). Inr (Slice (non_null (xs ! 0)) (non_null (xs ! 1)) (non_null (xs ! 2)), r)))"
    by (simp add: read_body_def fun_eq_iff)
  then have "decodes (read_body (read_object fuel True) fuel True CHR '':'') (a @ b @ c) (Slice lower upper step)"
    using decodes_map [OF n, of "\<lambda>xs. Slice (non_null (xs ! 0)) (non_null (xs ! 1)) (non_null (xs ! 2))"] assms(3-5)
    by (simp add: non_null_case)
  then show ?thesis by (rule decodes_object) (simp_all add: abc(4))
qed

lemma decodes_dict:
  assumes "write_object (Dict es) = Inr w" "length w \<le> fuel" "\<forall>(k, v) \<in> set es. k \<noteq> Null"
    and "\<And>k v w f. (k, v) \<in> set es \<Longrightarrow> write_object k = Inr w \<Longrightarrow> length w \<le> f \<Longrightarrow> decodes (read_object (Suc f) True) w k"
    and "\<And>k v w f. (k, v) \<in> set es \<Longrightarrow> write_object v = Inr w \<Longrightarrow> length w \<le> f \<Longrightarrow> decodes (read_object (Suc f) True) w v"
  shows "decodes (read_object (Suc fuel) True) w (Dict es)"
proof -
  obtain f where f: "fuel = Suc f" using fuel_pos [OF assms(1,2)] by blast
  from assms(1) obtain out where out: "write_each (map write_pair es) = Inr out"
      "w = write_u8 CHR ''{'' @ out @ write_u8 CHR ''0''" by (auto simp: write_pair_def)
  have "decodes (read_entries (read_object fuel True) fuel) (out @ write_u8 CHR ''0'') es"
  proof (rule decodes_entries [OF out(1), of f])
    show "length out \<le> f" "length out < fuel" using assms(2) f out(2) by simp_all
    show "\<And>k v. (k, v) \<in> set es \<Longrightarrow> k \<noteq> Null" using assms(3) by auto
    show "\<And>k v w. (k, v) \<in> set es \<Longrightarrow> write_object k = Inr w \<Longrightarrow> length w \<le> f \<Longrightarrow> decodes (read_object fuel True) w k"
      unfolding f by (rule assms(4))
    show "\<And>k v w. (k, v) \<in> set es \<Longrightarrow> write_object v = Inr w \<Longrightarrow> length w \<le> f \<Longrightarrow> decodes (read_object fuel True) w v"
      unfolding f by (rule assms(5))
  qed (simp add: f decodes_null)
  moreover have "read_body (read_object fuel True) fuel True CHR ''{'' =
      (\<lambda>r. bindr (read_entries (read_object fuel True) fuel r) (\<lambda>(es, r). Inr (Dict es, r)))"
    by (simp add: read_body_def fun_eq_iff)
  ultimately show ?thesis using decodes_map [of _ _ _ Dict]
    by (intro decodes_object [where c = "CHR ''{''"]) (simp_all add: out(2))
qed

lemma decodes_code:
  assumes "write_code_object (CpythonCode ac po kw ss fl cd cs ns lps lpk fn nm qn fl1 lt et) = Inr w"
    and "length w \<le> fuel" "\<forall>s \<in> set ns \<union> set lps \<union> {fn, nm, qn}. \<forall>c \<in> set s. valid_char c"
    and "\<And>x w f. x \<in> set cs \<Longrightarrow> write_object x = Inr w \<Longrightarrow> length w \<le> f \<Longrightarrow> decodes (read_object (Suc f) True) w x"
  shows "decodes (read_object (Suc fuel) True) w (Code (CpythonCode ac po kw ss fl cd cs ns lps lpk fn nm qn fl1 lt et))"
proof -
  from assms(1) obtain cb csb nb lpb lkb fb nmb qb ltb etb where
    parts: "write_bytes cd = Inr cb" "write_seq CHR ''('' ''tuple constant too large'' (map write_object cs) = Inr csb"
      "write_seq CHR ''('' ''tuple constant too large'' (map write_str ns) = Inr nb"
      "write_seq CHR ''('' ''tuple constant too large'' (map write_str lps) = Inr lpb"
      "write_bytes lpk = Inr lkb" "write_str fn = Inr fb" "write_str nm = Inr nmb" "write_str qn = Inr qb"
      "write_bytes lt = Inr ltb" "write_bytes et = Inr etb"
    and w: "w = write_u8 CHR ''c'' @ write_i32 ac @ write_i32 po @ write_i32 kw @ write_i32 ss @ write_i32 fl @
      cb @ csb @ nb @ lpb @ lkb @ fb @ nmb @ qb @ write_i32 fl1 @ ltb @ etb"
    by auto
  from assms(2) w obtain f where f: "fuel = Suc f" by (cases fuel) simp_all
  have l: "length csb \<le> f" "length nb \<le> f" "length lpb \<le> f" using assms(2) w f by simp_all
  note read = decodes_bytes [where fuel = f and ac = True] decodes_str [where fuel = f and ac = True]
  have v: "\<forall>s \<in> set ns. \<forall>c \<in> set s. valid_char c" "\<forall>s \<in> set lps. \<forall>c \<in> set s. valid_char c"
      "\<forall>c \<in> set fn. valid_char c" "\<forall>c \<in> set nm. valid_char c" "\<forall>c \<in> set qn. valid_char c"
    using assms(3) by blast+
  have cs: "decodes (read_object (Suc f) True) csb (Tuple cs)"
    by (rule decodes_seq_objects [OF parts(2) l(1) body_sized(1) _ _ assms(4)]) simp_all
  have "list_all2 (decodes (read_object fuel True)) [cb, csb, nb, lpb, lkb, fb, nmb, qb]
      [Bytes cd, Tuple cs, Tuple (map Str ns), Tuple (map Str lps), Bytes lpk, Str fn, Str nm, Str qn]"
    unfolding f list_all2_Cons
    using cs read(1) [OF parts(1)] read(1) [OF parts(5)] read(2) [OF parts(6) v(3)] read(2) [OF parts(7) v(4)]
      read(2) [OF parts(8) v(5)] decodes_strs [OF parts(3) l(2) v(1)] decodes_strs [OF parts(4) l(3) v(2)]
    by blast
  moreover have "list_all2 (decodes (read_object fuel True)) [ltb, etb] [Bytes lt, Bytes et]"
    unfolding f list_all2_Cons using read(1) [OF parts(9)] read(1) [OF parts(10)] by blast
  ultimately show ?thesis
    by (intro decodes_object [OF decodes_code_body]) (simp_all add: w)
qed

lemma decodes_floats:
  "decodes (read_object (Suc fuel) ac) (write_u8 CHR ''g'' @ u64_le_bytes x) (Float x)"
  "decodes (read_object (Suc fuel) ac) (write_u8 CHR ''y'' @ u64_le_bytes x @ u64_le_bytes y) (Complex x y)"
proof -
  have "read_body (read_object fuel ac) fuel ac CHR ''g'' = (\<lambda>r. bindr (read_f64 r) (\<lambda>(v, r). Inr (Float v, r)))"
    "read_body (read_object fuel ac) fuel ac CHR ''y'' =
       (\<lambda>r. bindr (read_f64 r) (\<lambda>(re, r). bindr (read_f64 r) (\<lambda>(im, r). Inr (Complex re im, r))))"
    by (simp_all add: read_body_def fun_eq_iff)
  note body = this
  show "decodes (read_object (Suc fuel) ac) (write_u8 CHR ''g'' @ u64_le_bytes x) (Float x)"
    using decodes_map [OF decodes_f64, of Float x] by (intro decodes_object [where c = "CHR ''g''"]) (simp_all add: body)
  show "decodes (read_object (Suc fuel) ac) (write_u8 CHR ''y'' @ u64_le_bytes x @ u64_le_bytes y) (Complex x y)"
    using decodes_bind [OF decodes_f64 decodes_map [OF decodes_f64], of Complex x y]
    by (intro decodes_object [where c = "CHR ''y''"]) (simp_all add: body)
qed

lemma decodes_container:
  assumes "write_seq tag msg (map write_object xs) = Inr w" "length w \<le> fuel"
    and "\<And>rd f. read_body rd f True tag = sized rd K" "of_char tag < (128 :: nat)" "tag \<noteq> CHR ''r''"
    and "\<forall>x \<in> set xs. storable x"
    and "\<And>x w f. x \<in> set xs \<Longrightarrow> write_object x = Inr w \<Longrightarrow> storable x \<Longrightarrow> length w \<le> f \<Longrightarrow>
      decodes (read_object (Suc f) True) w x"
  shows "decodes (read_object (Suc fuel) True) w (K xs)"
  by (rule decodes_seq_objects [OF assms(1-5)]) (use assms(6,7) in blast)

lemma write_each_Inr: "write_each ws = Inr out \<Longrightarrow> w \<in> set ws \<Longrightarrow> \<exists>a. w = Inr a"
  by (induction ws arbitrary: out) auto

lemma write_dict_key:
  assumes "write_object (Dict es) = Inr w" "(k, v) \<in> set es"
  shows "\<exists>a. write_object k = Inr a"
proof -
  from assms(1) obtain out where "write_each (map write_pair es) = Inr out" by (auto simp: write_pair_def)
  moreover have "write_pair (k, v) \<in> set (map write_pair es)" using assms(2) by simp
  ultimately have "\<exists>a. write_pair (k, v) = Inr a" by (rule write_each_Inr)
  then show ?thesis by (auto simp: write_pair_def)
qed

lemma storable_decodes:
  "write_object x = Inr w \<Longrightarrow> storable x \<Longrightarrow> length w \<le> fuel \<Longrightarrow> decodes (read_object (Suc fuel) True) w x"
  "write_code_object c = Inr w \<Longrightarrow> storable_code c \<Longrightarrow> length w \<le> fuel \<Longrightarrow>
   decodes (read_object (Suc fuel) True) w (Code c)"
proof (induction x and c arbitrary: w fuel and w fuel rule: write_object_write_code_object.induct)
  case (5 b)
  have "decodes (read_object (Suc fuel) True) (write_u8 CHR ''T'') (Bool True)"
    "decodes (read_object (Suc fuel) True) (write_u8 CHR ''F'') (Bool False)"
    by (rule decodes_const; simp add: read_body_def fun_eq_iff)+
  with 5 show ?case by (cases b) simp_all
next
  case (12 items)
  show ?case
    by (rule decodes_container [OF _ "12.prems"(3) body_sized(1) _ _ _ "12.IH"]) (use "12.prems" in simp_all)
next
  case (13 items)
  show ?case
    by (rule decodes_container [OF _ "13.prems"(3) body_sized(2) _ _ _ "13.IH"]) (use "13.prems" in simp_all)
next
  case (14 entries)
  show ?case
  proof (rule decodes_dict [OF "14.prems"(1,3)])
    show "\<forall>(k, v) \<in> set entries. k \<noteq> Null" using "14.prems"(2) by auto
    fix k v and w :: "u8 list" and f assume kv: "(k, v) \<in> set entries" and l: "length w \<le> f"
    from kv "14.prems"(2) have st: "storable k" "storable v" by auto
    obtain a where a: "write_object k = Inr a" using write_dict_key [OF "14.prems"(1) kv] by blast
    show "decodes (read_object (Suc f) True) w k" if "write_object k = Inr w"
      using "14.IH"(1) [OF kv refl that st(1) l] .
    show "decodes (read_object (Suc f) True) w v" if "write_object v = Inr w"
      using "14.IH"(2) [OF kv refl a that st(2) l] .
  qed
next
  case (15 items)
  show ?case
    by (rule decodes_container [OF _ "15.prems"(3) body_sized(3) _ _ _ "15.IH"]) (use "15.prems" in simp_all)
next
  case (16 items)
  show ?case
    by (rule decodes_container [OF _ "16.prems"(3) body_sized(4) _ _ _ "16.IH"]) (use "16.prems" in simp_all)
next
  case (18 lower upper step)
  show ?case
  proof (rule decodes_slice [OF 18(4)])
    fix y w f assume "y \<in> set_option lower \<union> set_option upper \<union> set_option step" "write_object y = Inr w" "length w \<le> f"
    then show "decodes (read_object (Suc f) True) w y" using 18 by auto
  qed (use 18 in auto)
next
  case (19 ac po kw ss fl cd cs ns lps lpk fn nm qn fl1 lt et)
  then show ?case by (intro decodes_code) auto
qed (auto simp: decodes_null decodes_int decodes_str decodes_bytes decodes_floats read_body_def fun_eq_iff
      intro!: decodes_const)

end
