(* ===== verification/Marshal_Progress.thy ===== *)
theory Marshal_Progress
  imports Marshal_Proofs
begin

text \<open>
  Reading marshal data makes progress: every reader leaves the data alone and never moves
  backwards, reading an object consumes at least one byte, and so the recursion of
  \<open>read_object\<close> ends on every input within the fuel the entry points give it.
\<close>

section \<open>Progress\<close>

text \<open>
  \<open>sound d rd\<close>: the reader keeps the data, consumes at least \<open>d\<close> bytes when it succeeds, and
  never runs out of fuel on readers with fewer than \<open>n\<close> unread bytes.
\<close>

definition unread :: "MarshalReader \<Rightarrow> nat" where
  "unread r = length (data r) - offset r"

definition sound :: "nat \<Rightarrow> nat \<Rightarrow> 'a reader \<Rightarrow> bool" where
  "sound n d rd \<longleftrightarrow> (\<forall>r. unread r < n \<longrightarrow>
     (case rd r of Inl e \<Rightarrow> e \<noteq> Diverge | Inr (x, r') \<Rightarrow> unread r' + d \<le> unread r))"

lemma soundD_Inr: "sound n d rd \<Longrightarrow> unread r < n \<Longrightarrow> rd r = Inr (x, r') \<Longrightarrow> unread r' + d \<le> unread r"
  by (auto simp: sound_def split: sum.splits)

lemma soundD_Inl: "sound n d rd \<Longrightarrow> unread r < n \<Longrightarrow> rd r \<noteq> Inl Diverge"
  by (auto simp: sound_def split: sum.splits)

lemma soundI:
  assumes "\<And>r. unread r < n \<Longrightarrow> rd r \<noteq> Inl Diverge"
    and "\<And>r x r'. unread r < n \<Longrightarrow> rd r = Inr (x, r') \<Longrightarrow> unread r' + d \<le> unread r"
  shows "sound n d rd"
  using assms by (auto simp: sound_def split: sum.splits)

lemma sound_bind:
  assumes "sound n d rd" "\<And>x. sound n' e (f x)" "n \<le> n' + d" "k \<le> d + e"
  shows "sound n k (\<lambda>r. bindr (rd r) (\<lambda>(x, r). f x r))"
proof (rule soundI)
  fix r assume r: "unread r < n"
  have next_ok: "unread r' < n'" if "rd r = Inr (x, r')" for x r'
    using soundD_Inr [OF assms(1) r that] r assms(3) by linarith
  show "bindr (rd r) (\<lambda>(x, r). f x r) \<noteq> Inl Diverge"
    using soundD_Inl [OF assms(1) r] soundD_Inl [OF assms(2) next_ok] by (auto simp: bindr_Inl_iff)
  fix y r'' assume "bindr (rd r) (\<lambda>(x, r). f x r) = Inr (y, r'')"
  then obtain x r' where "rd r = Inr (x, r')" "f x r' = Inr (y, r'')" by (auto simp: bindr_Inr_iff)
  then show "unread r'' + k \<le> unread r"
    using soundD_Inr [OF assms(1) r] soundD_Inr [OF assms(2) next_ok] assms(4) by fastforce
qed

lemma sound_pure: "sound n 0 (\<lambda>r. Inr (x, r))"
  by (simp add: sound_def)

lemma sound_fault: "e \<noteq> Diverge \<Longrightarrow> sound n d (\<lambda>r. Inl e)"
  by (simp add: sound_def)

lemma sound_mono: "sound n d rd \<Longrightarrow> n' \<le> n \<Longrightarrow> d' \<le> d \<Longrightarrow> sound n' d' rd"
proof (rule soundI)
  assume a: "sound n d rd" "n' \<le> n" "d' \<le> d"
  fix r assume "unread r < n'"
  with a(2) have r: "unread r < n" by simp
  show "rd r \<noteq> Inl Diverge" using soundD_Inl [OF a(1) r] .
  fix x r' assume "rd r = Inr (x, r')"
  from soundD_Inr [OF a(1) r this] a(3) show "unread r' + d' \<le> unread r" by simp
qed

lemma sound_zero: "sound 0 d rd"
  by (simp add: sound_def)

lemma sound_if: "sound n d f \<Longrightarrow> sound n d g \<Longrightarrow> sound n d (\<lambda>r. if b then f r else g r)"
  by (cases b) simp_all

lemma sound_then: "sound n 0 rd \<Longrightarrow> (\<And>x. sound n 0 (f x)) \<Longrightarrow> sound n 0 (\<lambda>r. bindr (rd r) (\<lambda>(x, r). f x r))"
  by (rule sound_bind [where n' = n and d = 0 and e = 0]) simp_all

lemma sound_check: "m \<noteq> Inl Diverge \<Longrightarrow> (\<And>x. sound n 0 (f x)) \<Longrightarrow> sound n 0 (\<lambda>r. bindr m (\<lambda>x. f x r))"
  by (cases m) (simp_all add: sound_fault)

lemma no_diverge_bind: "m \<noteq> Inl Diverge \<Longrightarrow> (\<And>x. f x \<noteq> Inl Diverge) \<Longrightarrow> bindr m f \<noteq> Inl Diverge"
  by (cases m) simp_all

lemmas sound_intros = sound_then sound_check sound_pure sound_if sound_fault

section \<open>Primitive readers\<close>

lemma sound_u8: "sound n 1 read_u8"
  by (auto simp: sound_def read_u8_def unread_def)

lemma sound_exact: "sound n 0 (read_exact k)"
  by (auto simp: sound_def read_exact_def unread_def Let_def)

lemma sound_i32: "sound n 0 read_i32"
  unfolding read_i32_def [abs_def] by (intro sound_intros sound_exact)

lemma sound_u16: "sound n 0 read_u16"
  unfolding read_u16_def [abs_def] by (intro sound_intros sound_exact)

lemma sound_f64: "sound n 0 read_f64"
  unfolding read_f64_def [abs_def] by (intro sound_intros sound_exact)

lemma sound_u8_0: "sound n 0 read_u8"
  using sound_u8 [of n] by (rule sound_mono) simp_all

lemma ok_or_no_diverge: "ok_or x msg \<noteq> Inl Diverge"
  by (cases x) simp_all

lemma sound_bytes_long: "sound n 0 read_bytes_long"
  unfolding read_bytes_long_def [abs_def] by (intro sound_intros sound_i32 sound_exact)

lemma sound_string_long: "sound n 0 read_string_long"
  unfolding read_string_long_def [abs_def] utf8_string_def
  by (intro sound_intros sound_bytes_long ok_or_no_diverge)

lemma sound_string_short: "sound n 0 read_string_short"
  unfolding read_string_short_def [abs_def] utf8_string_def
  by (intro sound_intros sound_u8_0 sound_exact ok_or_no_diverge)

lemma sound_digits: "sound n 0 (read_digits k)"
proof (induction k)
  case (Suc k)
  have "read_digits (Suc k) = (\<lambda>r. bindr (read_u16 r) (\<lambda>(d, r). bindr (read_digits k r) (\<lambda>(ds, r). Inr (ucast d # ds, r))))"
    by (simp add: fun_eq_iff)
  with Suc show ?case by (auto intro!: sound_intros sound_u16)
qed (simp add: sound_def)

lemma sound_ints: "sound n 0 (read_ints k)"
proof (induction k)
  case (Suc k)
  have "read_ints (Suc k) = (\<lambda>r. bindr (read_i32 r) (\<lambda>(d, r). bindr (read_ints k r) (\<lambda>(ds, r). Inr (d # ds, r))))"
    by (simp add: fun_eq_iff)
  with Suc show ?case by (auto intro!: sound_intros sound_i32)
qed (simp add: sound_def)

lemma sound_long: "sound n 0 read_long_object"
proof -
  have "sound n 0 (\<lambda>r. case x of Some i \<Rightarrow> Inr (IntObj i, r) | None \<Rightarrow> Inr (b, r))" for x b
    by (cases x) (simp_all add: sound_pure)
  then show ?thesis
    unfolding read_long_object_def [abs_def] Let_def
    by (intro sound_intros sound_i32 sound_digits)
qed

section \<open>Objects\<close>

lemma sound_n: "sound n 0 rd \<Longrightarrow> sound n 0 (read_n rd k)"
proof (induction k)
  case (Suc k)
  have "read_n rd (Suc k) = (\<lambda>r. bindr (rd r) (\<lambda>(d, r). bindr (read_n rd k r) (\<lambda>(ds, r). Inr (d # ds, r))))"
    by (simp add: fun_eq_iff)
  with Suc show ?case by (auto intro!: sound_intros)
qed (simp add: sound_def)

lemma sound_entries: "sound n 1 rd \<Longrightarrow> n \<le> rounds \<Longrightarrow> sound n 0 (read_entries rd rounds)"
proof (induction rounds arbitrary: n)
  case 0
  then show ?case by (simp add: sound_zero)
next
  case (Suc rounds)
  let ?pair = "\<lambda>key r. bindr (rd r) (\<lambda>(value, r).
     bindr (read_entries rd rounds r) (\<lambda>(es, r). Inr ((key, value) # es, r)))"
  have rd: "sound (n - 1) 0 rd" using Suc.prems(1) by (rule sound_mono) simp_all
  have "sound (n - 1) 0 (read_entries rd rounds)"
    using Suc.prems by (intro Suc.IH) (auto intro: sound_mono)
  then have "sound (n - 1) 0 (?pair key)" for key by (intro sound_intros rd)
  then have "sound (n - 1) 0 (\<lambda>r. if key = Null then Inr ([], r) else ?pair key r)" for key
    by (intro sound_if sound_pure)
  note sound_bind [OF Suc.prems(1), where f = "\<lambda>key r. if key = Null then Inr ([], r) else ?pair key r", OF this, of 0]
  moreover have "read_entries rd (Suc rounds) =
      (\<lambda>r. bindr (rd r) (\<lambda>(key, r). if key = Null then Inr ([], r) else ?pair key r))"
    by (simp add: fun_eq_iff)
  ultimately show ?case by simp
qed

lemma check_no_diverge:
  "as_seq msg x \<noteq> Inl Diverge" "as_bytes_obj msg x \<noteq> Inl Diverge" "as_str_obj msg x \<noteq> Inl Diverge"
  "with_capacity k \<noteq> Inl Diverge"
  by (cases x; simp add: as_seq_def as_bytes_obj_def as_str_obj_def with_capacity_def)+

lemma parse_str_list_no_diverge: "parse_str_list xs \<noteq> Inl Diverge"
  by (induction xs rule: parse_str_list.induct) (auto simp: bindr_Inl_iff)

lemma build_code_no_diverge: "build_code ints first objs \<noteq> Inl Diverge"
  unfolding build_code_def by (intro no_diverge_bind check_no_diverge parse_str_list_no_diverge) simp

lemma sound_body:
  assumes "sound n 1 rd" "n \<le> fuel"
  shows "sound n 0 (read_body rd fuel ac c)"
proof -
  have rd: "sound n 0 rd" using assms(1) by (rule sound_mono) simp_all
  show ?thesis unfolding read_body_def [abs_def]
    by (intro sound_intros sound_u8_0 sound_i32 sound_f64 sound_exact sound_long sound_bytes_long
        sound_string_long sound_string_short sound_n [OF rd] sound_entries [OF assms] sound_ints
        check_no_diverge ok_or_no_diverge build_code_no_diverge) simp_all
qed

lemma unread_refs [simp]: "unread (r\<lparr>refs := x\<rparr>) = unread r"
  by (simp add: unread_def)

lemma sound_reserved:
  assumes "\<And>i. sound n 0 (rd i)"
  shows "sound n 0 (\<lambda>r. rd (g r) (r\<lparr>refs := refs r @ [Null]\<rparr>))"
proof (rule soundI)
  fix r assume r: "unread r < n"
  let ?r = "r\<lparr>refs := refs r @ [Null]\<rparr>"
  from r have r': "unread ?r < n" by simp
  show "rd (g r) ?r \<noteq> Inl Diverge" by (rule soundD_Inl [OF assms r'])
  fix x s assume "rd (g r) ?r = Inr (x, s)"
  from soundD_Inr [OF assms r' this] show "unread s + 0 \<le> unread r" by simp
qed

lemma sound_finish: "sound n 0 (\<lambda>r. finish_ref i (x, r))"
  by (auto simp: sound_def finish_ref_def split: option.splits)

lemma sound_object: "sound fuel 1 (read_object fuel ac)"
proof (induction fuel)
  case 0
  then show ?case by (rule sound_zero)
next
  case (Suc fuel)
  let ?rest = "\<lambda>i c r. bindr (read_body (read_object fuel ac) fuel ac c r) (finish_ref i)"
  let ?ref = "\<lambda>r. bindr (read_i32 r) (\<lambda>(i, r). let index = as_usize i
     in if index < length (refs r) then Inr (refs r ! index, r) else Inl (Err ''invalid marshal reference''))"
  have rest: "sound fuel 0 (?rest i c)" for i c
    using sound_then [OF sound_body [OF Suc order_refl], where f = "\<lambda>x r. finish_ref i (x, r)", OF sound_finish]
    by (simp add: case_prod_unfold)
  have ref: "sound fuel 0 ?ref" unfolding Let_def
    by (intro sound_then sound_i32) (simp add: sound_def)
  have "sound fuel 0 (\<lambda>r. let flag = (code AND 0x80 \<noteq> 0);
         obj_type = char_of (unat (code AND 0x7f));
         (ref_index, r) = (if flag then (let (i, r) = reserve_ref r in (Some i, r)) else (None, r))
     in if obj_type = CHR ''r'' then ?ref r else ?rest ref_index obj_type r)" for code
    using rest ref sound_reserved [where rd = "\<lambda>_. ?ref", OF ref] sound_body [OF Suc order_refl]
      sound_reserved [where rd = "\<lambda>i. ?rest i (char_of (unat (code AND 0x7f)))" and
        g = "\<lambda>r. Some (length (refs r))", OF rest]
    by (cases "code AND 0x80 = 0"; cases "char_of (unat (code AND 0x7f)) = CHR ''r''")
       (simp_all add: reserve_ref_def Let_def)
  from sound_bind [OF sound_u8 this, of "Suc fuel" 1] show ?case
    by (simp add: read_object.simps [abs_def])
qed

end
