(* ===== verification/Marshal_Spec.thy ===== *)
theory Marshal_Spec
  imports Marshal_Progress
begin

text \<open>
  The properties of the marshal codec and of the \<open>.pyc\<close> container: round trips, termination
  on every input, and that a reader told not to accept code objects returns none, at any
  depth and through any reference.
\<close>

section \<open>Code-free results\<close>

fun code_free :: "PyObject \<Rightarrow> bool" where
  "code_free (Tuple xs) \<longleftrightarrow> (\<forall>x \<in> set xs. code_free x)"
| "code_free (ListObj xs) \<longleftrightarrow> (\<forall>x \<in> set xs. code_free x)"
| "code_free (SetObj xs) \<longleftrightarrow> (\<forall>x \<in> set xs. code_free x)"
| "code_free (FrozenSet xs) \<longleftrightarrow> (\<forall>x \<in> set xs. code_free x)"
| "code_free (Dict es) \<longleftrightarrow> (\<forall>(k, v) \<in> set es. code_free k \<and> code_free v)"
| "code_free (Slice a b c) \<longleftrightarrow> (\<forall>x \<in> set_option a. code_free x) \<and> (\<forall>x \<in> set_option b. code_free x) \<and>
     (\<forall>x \<in> set_option c. code_free x)"
| "code_free (Code c) \<longleftrightarrow> False"
| "code_free _ \<longleftrightarrow> True"

definition clean :: "MarshalReader \<Rightarrow> bool" where
  "clean r \<longleftrightarrow> (\<forall>x \<in> set (refs r). code_free x)"

text \<open>\<open>keeps Q rd\<close>: from a clean reference table, results satisfy \<open>Q\<close> and the table stays clean.\<close>

definition keeps :: "('a \<Rightarrow> bool) \<Rightarrow> 'a reader \<Rightarrow> bool" where
  "keeps Q rd \<longleftrightarrow> (\<forall>r x r'. clean r \<longrightarrow> rd r = Inr (x, r') \<longrightarrow> Q x \<and> clean r')"

lemma keepsD: "keeps Q rd \<Longrightarrow> clean r \<Longrightarrow> rd r = Inr (x, r') \<Longrightarrow> Q x \<and> clean r'"
  by (auto simp: keeps_def)

lemma keeps_bind:
  assumes "keeps Q rd" "\<And>x. Q x \<Longrightarrow> keeps R (f x)"
  shows "keeps R (\<lambda>r. bindr (rd r) (\<lambda>(x, r). f x r))"
  unfolding keeps_def
proof (intro allI impI)
  fix r y r'' assume "clean r" "bindr (rd r) (\<lambda>(x, r). f x r) = Inr (y, r'')"
  then obtain x r' where "rd r = Inr (x, r')" "f x r' = Inr (y, r'')" by (auto simp: bindr_Inr_iff)
  with keepsD [OF assms(1) \<open>clean r\<close>] keepsD [OF assms(2)] show "R y \<and> clean r''" by blast
qed

lemma keeps_pure: "Q x \<Longrightarrow> keeps Q (\<lambda>r. Inr (x, r))"
  by (simp add: keeps_def)

lemma keeps_fault: "keeps Q (\<lambda>r. Inl e)"
  by (simp add: keeps_def)

lemma keeps_if: "keeps Q f \<Longrightarrow> keeps Q g \<Longrightarrow> keeps Q (\<lambda>r. if b then f r else g r)"
  by (cases b) simp_all

lemma keeps_check: "(\<And>x. keeps Q (f x)) \<Longrightarrow> keeps Q (\<lambda>r. bindr m (\<lambda>x. f x r))"
  by (cases m) (simp_all add: keeps_fault)

abbreviation keeps_any :: "'a reader \<Rightarrow> bool" where
  "keeps_any rd \<equiv> keeps (\<lambda>_. True) rd"

lemma keeps_u8: "keeps_any read_u8"
  by (auto simp: keeps_def read_u8_def clean_def split: if_splits)

lemma keeps_exact: "keeps_any (read_exact n)"
  by (auto simp: keeps_def read_exact_def clean_def Let_def split: if_splits)

lemma keeps_prims: "keeps_any read_i32" "keeps_any read_u16" "keeps_any read_f64" "keeps_any read_bytes_long"
  unfolding read_i32_def [abs_def] read_u16_def [abs_def] read_f64_def [abs_def] read_bytes_long_def [abs_def]
  by (intro keeps_bind [OF keeps_exact] keeps_bind [OF keeps_bind [OF keeps_exact]] keeps_pure keeps_exact TrueI)+

lemma keeps_strings: "keeps_any read_string_long" "keeps_any read_string_short"
  unfolding read_string_long_def [abs_def] read_string_short_def [abs_def] utf8_string_def
  by (intro keeps_bind [OF keeps_prims(4)] keeps_bind [OF keeps_u8] keeps_bind [OF keeps_exact]
      keeps_check keeps_pure TrueI)+

lemma keeps_digits: "keeps_any (read_digits k)"
proof (induction k)
  case (Suc k)
  have "read_digits (Suc k) = (\<lambda>r. bindr (read_u16 r) (\<lambda>(d, r). bindr (read_digits k r) (\<lambda>(ds, r). Inr (ucast d # ds, r))))"
    by (simp add: fun_eq_iff)
  moreover have "keeps_any (\<lambda>r. bindr (read_u16 r) (\<lambda>(d, r). bindr (read_digits k r) (\<lambda>(ds, r). Inr (ucast d # ds, r))))"
    by (intro keeps_bind [OF keeps_prims(2)] keeps_bind [OF Suc] keeps_pure TrueI)
  ultimately show ?case by simp
qed (simp add: keeps_pure)

lemma keeps_long: "keeps code_free read_long_object"
proof -
  have "keeps code_free (\<lambda>r. case x of Some i \<Rightarrow> Inr (IntObj i, r) | None \<Rightarrow> Inr (BigIntObj b, r))" for x b
    by (cases x) (simp_all add: keeps_pure)
  then show ?thesis unfolding read_long_object_def [abs_def] Let_def
    by (intro keeps_bind [OF keeps_prims(1)] keeps_bind [OF keeps_digits] keeps_if keeps_pure) simp_all
qed

lemma keeps_n: "keeps code_free rd \<Longrightarrow> keeps (\<lambda>xs. length xs = k \<and> (\<forall>x \<in> set xs. code_free x)) (read_n rd k)"
proof (induction k)
  case (Suc k)
  have "read_n rd (Suc k) = (\<lambda>r. bindr (rd r) (\<lambda>(d, r). bindr (read_n rd k r) (\<lambda>(ds, r). Inr (d # ds, r))))"
    by (simp add: fun_eq_iff)
  moreover have "keeps (\<lambda>xs. length xs = Suc k \<and> (\<forall>x \<in> set xs. code_free x))
      (\<lambda>r. bindr (rd r) (\<lambda>(d, r). bindr (read_n rd k r) (\<lambda>(ds, r). Inr (d # ds, r))))"
    by (intro keeps_bind [OF Suc.prems] keeps_bind [OF Suc.IH [OF Suc.prems]] keeps_pure) simp
  ultimately show ?case by simp
qed (simp add: keeps_def)

lemma keeps_entries: "keeps code_free rd \<Longrightarrow> keeps (\<lambda>es. \<forall>(k, v) \<in> set es. code_free k \<and> code_free v) (read_entries rd n)"
proof (induction n)
  case 0
  then show ?case by (simp add: keeps_fault)
next
  case (Suc n)
  let ?Q = "\<lambda>es. \<forall>(k, v) \<in> set es. code_free k \<and> code_free v"
  have "keeps ?Q (\<lambda>r. if key = Null then Inr ([], r) else bindr (rd r) (\<lambda>(value, r).
      bindr (read_entries rd n r) (\<lambda>(es, r). Inr ((key, value) # es, r))))" if "code_free key" for key
    using that by (intro keeps_if keeps_pure keeps_bind [OF Suc.prems] keeps_bind [OF Suc.IH [OF Suc.prems]]) auto
  from keeps_bind [OF Suc.prems this] show ?case by simp
qed

lemma non_null_free: "code_free x \<Longrightarrow> \<forall>y \<in> set_option (non_null x). code_free y"
  by (simp add: non_null_def)

lemma keeps_body:
  assumes "keeps code_free rd"
  shows "keeps code_free (read_body rd fuel False c)"
proof -
  note rd_n = keeps_n [OF assms]
  have slice: "code_free (Slice (non_null (xs ! 0)) (non_null (xs ! 1)) (non_null (xs ! 2)))"
    if "length xs = 3 \<and> (\<forall>x \<in> set xs. code_free x)" for xs
  proof -
    from that have "length xs = Suc (Suc (Suc 0))" by simp
    then obtain a b c where "xs = [a, b, c]" by (auto simp: length_Suc_conv)
    with that show ?thesis by (auto simp: non_null_def)
  qed
  show ?thesis unfolding read_body_def [abs_def] if_True not_False_eq_True
    by (intro keeps_if keeps_fault keeps_check keeps_long keeps_bind [OF keeps_prims(1)] keeps_bind [OF keeps_prims(3)]
        keeps_bind [OF keeps_prims(4)] keeps_bind [OF keeps_u8] keeps_bind [OF keeps_exact] keeps_bind [OF keeps_strings(1)]
        keeps_bind [OF keeps_strings(2)] keeps_bind [OF rd_n] keeps_bind [OF keeps_entries [OF assms]] keeps_pure slice)
       simp_all
qed

text \<open>One step of \<open>read_object\<close>, after the type byte.\<close>

lemma read_object_step:
  assumes "read_u8 r = Inr (b, r1)"
  defines "r2 \<equiv> if b AND 0x80 \<noteq> 0 then r1\<lparr>refs := refs r1 @ [Null]\<rparr> else r1"
    and "i \<equiv> if b AND 0x80 \<noteq> 0 then Some (length (refs r1)) else None"
    and "c \<equiv> char_of (unat (b AND 0x7f))"
  shows "read_object (Suc fuel) ac r =
    (if c = CHR ''r'' then
       bindr (read_i32 r2) (\<lambda>(k, r3).
         if as_usize k < length (refs r3) then Inr (refs r3 ! as_usize k, r3)
         else Inl (Err ''invalid marshal reference''))
     else bindr (read_body (read_object fuel ac) fuel ac c r2) (finish_ref i))"
  by (simp add: read_object.simps assms(1) reserve_ref_def Let_def r2_def i_def c_def)

lemma clean_update: "code_free x \<Longrightarrow> clean r \<Longrightarrow> clean (r\<lparr>refs := (refs r)[k := x]\<rparr>)"
  using set_update_subset_insert [of "refs r" k x] by (auto simp: clean_def)

lemma keeps_finish: "keeps code_free rd \<Longrightarrow> keeps code_free (\<lambda>r. bindr (rd r) (finish_ref i))"
  by (cases i) (auto simp: keeps_def bindr_Inr_iff finish_ref_def clean_update split: if_splits)

lemma keeps_ref:
  "keeps code_free (\<lambda>r. bindr (read_i32 r) (\<lambda>(k, r3).
     if as_usize k < length (refs r3) then Inr (refs r3 ! as_usize k, r3)
     else Inl (Err ''invalid marshal reference'')))"
  by (rule keeps_bind [OF keeps_prims(1)]) (simp add: keeps_def clean_def)

lemma keeps_object: "keeps code_free (read_object fuel False)"
proof (induction fuel)
  case 0
  then show ?case by (simp add: keeps_def read_object.simps)
next
  case (Suc fuel)
  show ?case unfolding keeps_def
  proof (intro allI impI)
    fix r x r' assume r: "clean r" and rd: "read_object (Suc fuel) False r = Inr (x, r')"
    from rd obtain b r1 where b: "read_u8 r = Inr (b, r1)" by (auto simp: read_object.simps)
    define r2 where "r2 = (if b AND 0x80 \<noteq> 0 then r1\<lparr>refs := refs r1 @ [Null]\<rparr> else r1)"
    have "clean r1" using keepsD [OF keeps_u8 r b] by simp
    then have r2: "clean r2" by (simp add: clean_def r2_def)
    note step = rd [unfolded read_object_step [OF b, folded r2_def]]
    show "code_free x \<and> clean r'"
    proof (cases "char_of (unat (b AND 0x7f)) = CHR ''r''")
      case True
      then show ?thesis using step keepsD [OF keeps_ref r2] by simp
    next
      case False
      then show ?thesis using step keepsD [OF keeps_finish [OF keeps_body [OF Suc]] r2] by simp
    qed
  qed
qed

section \<open>Properties\<close>

text \<open>
  C9. Round trip. Every storable object whose encoding succeeds (the encoder refuses integers
  beyond 64 bits and sequences of \<open>2^31\<close> or more elements) is read back unchanged, whatever
  its nesting of containers, slices and code objects.
\<close>

theorem marshal_roundtrip:
  assumes "storable obj" "marshal_dump_object obj = Inr bytes" "length bytes < 2 ^ 64"
  shows "marshal_load_object bytes True = Inr obj"
proof -
  have "decodes (read_object (read_fuel bytes) True) bytes obj"
    using storable_decodes(1) [of obj bytes "length bytes"] assms
    by (simp add: marshal_dump_object_def read_fuel_def)
  then show ?thesis using assms(3)
    by (simp add: marshal_load_object_def decodesD before_def new_reader_def)
qed

theorem marshal_roundtrip_witness:
  "marshal_load_object [0x28, 2, 0, 0, 0, 0x69, 7, 0, 0, 0, 0x7b, 0x75, 1, 0, 0, 0, 0x61, 0x54, 0x30] True =
   Inr (Tuple [IntObj 7, Dict [(Str [97], Bool True)]])"
  by (rule marshal_roundtrip)
     (simp_all add: marshal_dump_object_def write_seq_def i32_try_from_def write_int_def write_str_def
       write_bytes_long_def as_bytes_def utf8_char_def write_u8_def write_i32_def u32_le_bytes_def
       le_bytes_numeral valid_char_def)

text \<open>
  C10. A compiled module written with a well-formed header is loaded back: \<open>load_pyc\<close> inverts
  \<open>dump_pyc\<close>.
\<close>

theorem pyc_roundtrip:
  assumes "wf_header h" "storable_code c" "dump_pyc c h = Inr bytes" "length bytes < 2 ^ 64"
  shows "load_pyc bytes = Inr c"
proof -
  from assms(3) obtain hb cb where hb: "write_pyc_header h = Inr hb" and cb: "write_code_object c = Inr cb"
    and bytes: "bytes = hb @ cb" by (auto simp: dump_pyc_def)
  from parse_write_header [OF assms(1) hb, of cb] have p: "parse_pyc_header bytes = Inr (h, 16)" and l: "length hb = 16"
    by (simp_all add: bytes)
  have "decodes (read_object (read_fuel cb) True) cb (Code c)"
    using storable_decodes(2) [OF cb assms(2), of "length cb"] by (simp add: read_fuel_def)
  then have "read_object (read_fuel cb) True (new_reader cb) = Inr (Code c, adv (new_reader cb) (length cb))"
    using assms(4) bytes by (intro decodesD) (simp_all add: before_def new_reader_def)
  then show ?thesis by (simp add: load_pyc_def p) (simp add: bytes l)
qed

theorem pyc_roundtrip_witness:
  "\<exists>bytes. dump_pyc (CpythonCode 0 0 0 1 64 [1, 2] [NoneObj, IntObj 3] [[97]] [] [] [] [109] [109] 1 [] [])
       \<lparr>magic = 0xa0d0e2b, bitfield = 0, timestamp = Some 5, source_size = Some 9, hash = None\<rparr> = Inr bytes \<and>
     load_pyc bytes = Inr (CpythonCode 0 0 0 1 64 [1, 2] [NoneObj, IntObj 3] [[97]] [] [] [] [109] [109] 1 [] [])"
  (is "\<exists>bytes. dump_pyc ?c ?h = Inr bytes \<and> _")
proof -
  have "\<exists>bytes. dump_pyc ?c ?h = Inr bytes \<and> length bytes < 2 ^ 64"
    by (simp add: dump_pyc_def write_pyc_header_def write_seq_def i32_try_from_def write_int_def write_str_def
        write_bytes_def write_bytes_long_def as_bytes_def utf8_char_def Let_def)
  then obtain bytes where b: "dump_pyc ?c ?h = Inr bytes" "length bytes < 2 ^ 64" by blast
  have "load_pyc bytes = Inr ?c"
    by (rule pyc_roundtrip [OF _ _ b]) (simp_all add: wf_header_def valid_char_def)
  with b show ?thesis by blast
qed

text \<open>
  C11. Termination. Reading ends on every byte sequence: the recursion never exhausts the fuel
  of one more than the number of bytes.
\<close>

theorem marshal_terminates: "marshal_load_object bytes allow_code \<noteq> Inl Diverge \<and> load_pyc bytes \<noteq> Inl Diverge"
proof -
  have r: "read_object (read_fuel bs) ac (new_reader bs) \<noteq> Inl Diverge" for bs ac
    using soundD_Inl [OF sound_object, of "new_reader bs" "read_fuel bs"]
    by (simp add: unread_def new_reader_def read_fuel_def)
  have p: "parse_pyc_header bytes \<noteq> Inl Diverge"
    by (auto simp: parse_pyc_header_def read_u32_le_def bindr_Inl_iff)
  have "(case obj of Code c \<Rightarrow> Inr c | _ \<Rightarrow> Inl (Err msg)) \<noteq> (Inl Diverge :: CpythonCode res)" for obj msg
    by (cases obj) simp_all
  note no = this
  show ?thesis unfolding marshal_load_object_def load_pyc_def
    by (intro conjI no_diverge_bind r p) (auto simp: r no bindr_Inl_iff)
qed

text \<open>
  Headers. Whatever \<open>parse_pyc_header\<close> accepts is sixteen bytes long and is written back
  byte for byte, and what \<open>write_pyc_header\<close> writes for a well-formed header is parsed back,
  whatever follows it.
\<close>

theorem header_roundtrip:
  "(parse_pyc_header bytes = Inr (h, n) \<longrightarrow> n = 16 \<and> wf_header h \<and> write_pyc_header h = Inr (take 16 bytes)) \<and>
   (wf_header h \<longrightarrow> (\<exists>bs. write_pyc_header h = Inr bs \<and> parse_pyc_header (bs @ rest) = Inr (h, 16)))"
proof (intro conjI impI)
  assume "parse_pyc_header bytes = Inr (h, n)"
  then show "n = 16" "wf_header h" "write_pyc_header h = Inr (take 16 bytes)" using write_parse_header by blast+
next
  assume h: "wf_header h"
  then obtain bs where "write_pyc_header h = Inr bs"
    by (auto simp: wf_header_def write_pyc_header_def Let_def split: if_splits)
  with parse_write_header [OF h] show "\<exists>bs. write_pyc_header h = Inr bs \<and> parse_pyc_header (bs @ rest) = Inr (h, 16)"
    by blast
qed

theorem header_roundtrip_witness:
  "\<exists>bs. write_pyc_header \<lparr>magic = 0xa0d0e2b, bitfield = 0, timestamp = Some 5, source_size = Some 9, hash = None\<rparr> = Inr bs \<and>
     parse_pyc_header (bs @ [0x63]) =
       Inr (\<lparr>magic = 0xa0d0e2b, bitfield = 0, timestamp = Some 5, source_size = Some 9, hash = None\<rparr>, 16)"
  using header_roundtrip [of "[]" "\<lparr>magic = 0xa0d0e2b, bitfield = 0, timestamp = Some 5, source_size = Some 9, hash = None\<rparr>" 0 "[0x63]"]
  by (simp add: wf_header_def)

text \<open>
  C13. With code objects disallowed, a successful read contains no code object at any depth,
  and none enters through the table of references.
\<close>

theorem no_code_objects:
  "marshal_load_object bytes False = Inr obj \<Longrightarrow> code_free obj"
proof -
  have "clean (new_reader bytes)" by (simp add: clean_def new_reader_def)
  moreover assume "marshal_load_object bytes False = Inr obj"
  then obtain r where "read_object (read_fuel bytes) False (new_reader bytes) = Inr (obj, r)"
    by (auto simp: marshal_load_object_def)
  ultimately show ?thesis using keepsD [OF keeps_object] by blast
qed

theorem no_code_objects_witness: "marshal_load_object [0x29, 1, 0x4e] False = Inr (Tuple [NoneObj]) \<and> code_free (Tuple [NoneObj])"
proof -
  have "marshal_load_object [0x29, 1, 0x4e] False = Inr (Tuple [NoneObj])"
    by code_simp
  with no_code_objects [OF this] show ?thesis by simp
qed

end
