(* ===== verification/Bytecode.thy ===== *)
theory Bytecode
  imports Prelude
begin

text \<open>
  The bytecode representation of \<^verbatim>\<open>src/bytecode/mod.rs\<close>: opcodes, instructions, locations,
  exception handlers and code objects with their layout indexes. An opcode is its name, the
  text its \<open>Debug\<close> form prints; the names of the source's enumeration follow. Constants are
  runtime values, which no operation here inspects: code objects are polymorphic in them.
\<close>

section \<open>Opcodes\<close>

datatype Opcode = Opcode (opcode_name: string)

abbreviation Nop :: Opcode where "Nop \<equiv> Opcode ''Nop''"
abbreviation MakeCell :: Opcode where "MakeCell \<equiv> Opcode ''MakeCell''"
abbreviation LoadConst :: Opcode where "LoadConst \<equiv> Opcode ''LoadConst''"
abbreviation LoadName :: Opcode where "LoadName \<equiv> Opcode ''LoadName''"
abbreviation LoadLocals :: Opcode where "LoadLocals \<equiv> Opcode ''LoadLocals''"
abbreviation LoadFromDictOrGlobals :: Opcode where "LoadFromDictOrGlobals \<equiv> Opcode ''LoadFromDictOrGlobals''"
abbreviation LoadFromDictOrDeref :: Opcode where "LoadFromDictOrDeref \<equiv> Opcode ''LoadFromDictOrDeref''"
abbreviation LoadFast :: Opcode where "LoadFast \<equiv> Opcode ''LoadFast''"
abbreviation LoadFast2 :: Opcode where "LoadFast2 \<equiv> Opcode ''LoadFast2''"
abbreviation LoadFastAndClear :: Opcode where "LoadFastAndClear \<equiv> Opcode ''LoadFastAndClear''"
abbreviation LoadDeref :: Opcode where "LoadDeref \<equiv> Opcode ''LoadDeref''"
abbreviation LoadClosure :: Opcode where "LoadClosure \<equiv> Opcode ''LoadClosure''"
abbreviation LoadGlobal :: Opcode where "LoadGlobal \<equiv> Opcode ''LoadGlobal''"
abbreviation LoadBuildClass :: Opcode where "LoadBuildClass \<equiv> Opcode ''LoadBuildClass''"
abbreviation PushNull :: Opcode where "PushNull \<equiv> Opcode ''PushNull''"
abbreviation LoadAttr :: Opcode where "LoadAttr \<equiv> Opcode ''LoadAttr''"
abbreviation LoadSuperAttr :: Opcode where "LoadSuperAttr \<equiv> Opcode ''LoadSuperAttr''"
abbreviation LoadSpecial :: Opcode where "LoadSpecial \<equiv> Opcode ''LoadSpecial''"
abbreviation StoreName :: Opcode where "StoreName \<equiv> Opcode ''StoreName''"
abbreviation StoreFast :: Opcode where "StoreFast \<equiv> Opcode ''StoreFast''"
abbreviation StoreFastLoadFast :: Opcode where "StoreFastLoadFast \<equiv> Opcode ''StoreFastLoadFast''"
abbreviation StoreFastStoreFast :: Opcode where "StoreFastStoreFast \<equiv> Opcode ''StoreFastStoreFast''"
abbreviation StoreAttr :: Opcode where "StoreAttr \<equiv> Opcode ''StoreAttr''"
abbreviation StoreAttrCpython :: Opcode where "StoreAttrCpython \<equiv> Opcode ''StoreAttrCpython''"
abbreviation StoreGlobal :: Opcode where "StoreGlobal \<equiv> Opcode ''StoreGlobal''"
abbreviation StoreDeref :: Opcode where "StoreDeref \<equiv> Opcode ''StoreDeref''"
abbreviation DeleteName :: Opcode where "DeleteName \<equiv> Opcode ''DeleteName''"
abbreviation DeleteFast :: Opcode where "DeleteFast \<equiv> Opcode ''DeleteFast''"
abbreviation DeleteAttr :: Opcode where "DeleteAttr \<equiv> Opcode ''DeleteAttr''"
abbreviation DeleteSubscript :: Opcode where "DeleteSubscript \<equiv> Opcode ''DeleteSubscript''"
abbreviation BinaryAdd :: Opcode where "BinaryAdd \<equiv> Opcode ''BinaryAdd''"
abbreviation InplaceAdd :: Opcode where "InplaceAdd \<equiv> Opcode ''InplaceAdd''"
abbreviation BinarySub :: Opcode where "BinarySub \<equiv> Opcode ''BinarySub''"
abbreviation BinarySubConst :: Opcode where "BinarySubConst \<equiv> Opcode ''BinarySubConst''"
abbreviation BinaryMul :: Opcode where "BinaryMul \<equiv> Opcode ''BinaryMul''"
abbreviation BinaryMatMul :: Opcode where "BinaryMatMul \<equiv> Opcode ''BinaryMatMul''"
abbreviation BinaryDiv :: Opcode where "BinaryDiv \<equiv> Opcode ''BinaryDiv''"
abbreviation BinaryPow :: Opcode where "BinaryPow \<equiv> Opcode ''BinaryPow''"
abbreviation BinaryFloorDiv :: Opcode where "BinaryFloorDiv \<equiv> Opcode ''BinaryFloorDiv''"
abbreviation BinaryMod :: Opcode where "BinaryMod \<equiv> Opcode ''BinaryMod''"
abbreviation BinaryLShift :: Opcode where "BinaryLShift \<equiv> Opcode ''BinaryLShift''"
abbreviation BinaryRShift :: Opcode where "BinaryRShift \<equiv> Opcode ''BinaryRShift''"
abbreviation BinaryAnd :: Opcode where "BinaryAnd \<equiv> Opcode ''BinaryAnd''"
abbreviation BinaryXor :: Opcode where "BinaryXor \<equiv> Opcode ''BinaryXor''"
abbreviation BinaryOr :: Opcode where "BinaryOr \<equiv> Opcode ''BinaryOr''"
abbreviation CompareEq :: Opcode where "CompareEq \<equiv> Opcode ''CompareEq''"
abbreviation CompareNe :: Opcode where "CompareNe \<equiv> Opcode ''CompareNe''"
abbreviation CompareLt :: Opcode where "CompareLt \<equiv> Opcode ''CompareLt''"
abbreviation CompareLtConst :: Opcode where "CompareLtConst \<equiv> Opcode ''CompareLtConst''"
abbreviation CompareLe :: Opcode where "CompareLe \<equiv> Opcode ''CompareLe''"
abbreviation CompareGt :: Opcode where "CompareGt \<equiv> Opcode ''CompareGt''"
abbreviation CompareGe :: Opcode where "CompareGe \<equiv> Opcode ''CompareGe''"
abbreviation CompareIn :: Opcode where "CompareIn \<equiv> Opcode ''CompareIn''"
abbreviation CompareNotIn :: Opcode where "CompareNotIn \<equiv> Opcode ''CompareNotIn''"
abbreviation CompareIs :: Opcode where "CompareIs \<equiv> Opcode ''CompareIs''"
abbreviation CompareIsNot :: Opcode where "CompareIsNot \<equiv> Opcode ''CompareIsNot''"
abbreviation UnaryNeg :: Opcode where "UnaryNeg \<equiv> Opcode ''UnaryNeg''"
abbreviation UnaryNot :: Opcode where "UnaryNot \<equiv> Opcode ''UnaryNot''"
abbreviation UnaryPos :: Opcode where "UnaryPos \<equiv> Opcode ''UnaryPos''"
abbreviation UnaryInvert :: Opcode where "UnaryInvert \<equiv> Opcode ''UnaryInvert''"
abbreviation ConvertValue :: Opcode where "ConvertValue \<equiv> Opcode ''ConvertValue''"
abbreviation FormatSimple :: Opcode where "FormatSimple \<equiv> Opcode ''FormatSimple''"
abbreviation FormatWithSpec :: Opcode where "FormatWithSpec \<equiv> Opcode ''FormatWithSpec''"
abbreviation ToBool :: Opcode where "ToBool \<equiv> Opcode ''ToBool''"
abbreviation MakeFunction :: Opcode where "MakeFunction \<equiv> Opcode ''MakeFunction''"
abbreviation BuildClass :: Opcode where "BuildClass \<equiv> Opcode ''BuildClass''"
abbreviation CallFunction :: Opcode where "CallFunction \<equiv> Opcode ''CallFunction''"
abbreviation CallFunction1 :: Opcode where "CallFunction1 \<equiv> Opcode ''CallFunction1''"
abbreviation CallFunctionKw :: Opcode where "CallFunctionKw \<equiv> Opcode ''CallFunctionKw''"
abbreviation CallFunctionVar :: Opcode where "CallFunctionVar \<equiv> Opcode ''CallFunctionVar''"
abbreviation CallFunctionEx :: Opcode where "CallFunctionEx \<equiv> Opcode ''CallFunctionEx''"
abbreviation ImportName :: Opcode where "ImportName \<equiv> Opcode ''ImportName''"
abbreviation ImportNameCpython :: Opcode where "ImportNameCpython \<equiv> Opcode ''ImportNameCpython''"
abbreviation ImportFromCpython :: Opcode where "ImportFromCpython \<equiv> Opcode ''ImportFromCpython''"
abbreviation BuildList :: Opcode where "BuildList \<equiv> Opcode ''BuildList''"
abbreviation BuildSet :: Opcode where "BuildSet \<equiv> Opcode ''BuildSet''"
abbreviation BuildTuple :: Opcode where "BuildTuple \<equiv> Opcode ''BuildTuple''"
abbreviation BuildString :: Opcode where "BuildString \<equiv> Opcode ''BuildString''"
abbreviation BuildInterpolation :: Opcode where "BuildInterpolation \<equiv> Opcode ''BuildInterpolation''"
abbreviation BuildTemplate :: Opcode where "BuildTemplate \<equiv> Opcode ''BuildTemplate''"
abbreviation BuildDict :: Opcode where "BuildDict \<equiv> Opcode ''BuildDict''"
abbreviation DictMerge :: Opcode where "DictMerge \<equiv> Opcode ''DictMerge''"
abbreviation BuildSlice :: Opcode where "BuildSlice \<equiv> Opcode ''BuildSlice''"
abbreviation GetLen :: Opcode where "GetLen \<equiv> Opcode ''GetLen''"
abbreviation BinarySlice :: Opcode where "BinarySlice \<equiv> Opcode ''BinarySlice''"
abbreviation StoreSlice :: Opcode where "StoreSlice \<equiv> Opcode ''StoreSlice''"
abbreviation Copy :: Opcode where "Copy \<equiv> Opcode ''Copy''"
abbreviation Swap :: Opcode where "Swap \<equiv> Opcode ''Swap''"
abbreviation UnpackSequence :: Opcode where "UnpackSequence \<equiv> Opcode ''UnpackSequence''"
abbreviation UnpackSequenceCpython :: Opcode where "UnpackSequenceCpython \<equiv> Opcode ''UnpackSequenceCpython''"
abbreviation UnpackEx :: Opcode where "UnpackEx \<equiv> Opcode ''UnpackEx''"
abbreviation UnpackExCpython :: Opcode where "UnpackExCpython \<equiv> Opcode ''UnpackExCpython''"
abbreviation ListAppend :: Opcode where "ListAppend \<equiv> Opcode ''ListAppend''"
abbreviation SetAdd :: Opcode where "SetAdd \<equiv> Opcode ''SetAdd''"
abbreviation ListExtend :: Opcode where "ListExtend \<equiv> Opcode ''ListExtend''"
abbreviation SetUpdate :: Opcode where "SetUpdate \<equiv> Opcode ''SetUpdate''"
abbreviation MapAdd :: Opcode where "MapAdd \<equiv> Opcode ''MapAdd''"
abbreviation DictSet :: Opcode where "DictSet \<equiv> Opcode ''DictSet''"
abbreviation DictUpdate :: Opcode where "DictUpdate \<equiv> Opcode ''DictUpdate''"
abbreviation Subscript :: Opcode where "Subscript \<equiv> Opcode ''Subscript''"
abbreviation StoreSubscript :: Opcode where "StoreSubscript \<equiv> Opcode ''StoreSubscript''"
abbreviation DupTop :: Opcode where "DupTop \<equiv> Opcode ''DupTop''"
abbreviation JumpIfFalse :: Opcode where "JumpIfFalse \<equiv> Opcode ''JumpIfFalse''"
abbreviation JumpIfTrue :: Opcode where "JumpIfTrue \<equiv> Opcode ''JumpIfTrue''"
abbreviation JumpIfNone :: Opcode where "JumpIfNone \<equiv> Opcode ''JumpIfNone''"
abbreviation JumpIfNotNone :: Opcode where "JumpIfNotNone \<equiv> Opcode ''JumpIfNotNone''"
abbreviation Jump :: Opcode where "Jump \<equiv> Opcode ''Jump''"
abbreviation SetupExcept :: Opcode where "SetupExcept \<equiv> Opcode ''SetupExcept''"
abbreviation SetupAnnotations :: Opcode where "SetupAnnotations \<equiv> Opcode ''SetupAnnotations''"
abbreviation PopBlock :: Opcode where "PopBlock \<equiv> Opcode ''PopBlock''"
abbreviation Raise :: Opcode where "Raise \<equiv> Opcode ''Raise''"
abbreviation MatchException :: Opcode where "MatchException \<equiv> Opcode ''MatchException''"
abbreviation CheckExcMatch :: Opcode where "CheckExcMatch \<equiv> Opcode ''CheckExcMatch''"
abbreviation MatchExceptionStar :: Opcode where "MatchExceptionStar \<equiv> Opcode ''MatchExceptionStar''"
abbreviation MatchClass :: Opcode where "MatchClass \<equiv> Opcode ''MatchClass''"
abbreviation MatchKeys :: Opcode where "MatchKeys \<equiv> Opcode ''MatchKeys''"
abbreviation MatchMapping :: Opcode where "MatchMapping \<equiv> Opcode ''MatchMapping''"
abbreviation MatchSequence :: Opcode where "MatchSequence \<equiv> Opcode ''MatchSequence''"
abbreviation ClearException :: Opcode where "ClearException \<equiv> Opcode ''ClearException''"
abbreviation PushExcInfo :: Opcode where "PushExcInfo \<equiv> Opcode ''PushExcInfo''"
abbreviation PopExcept :: Opcode where "PopExcept \<equiv> Opcode ''PopExcept''"
abbreviation WithExceptStart :: Opcode where "WithExceptStart \<equiv> Opcode ''WithExceptStart''"
abbreviation Reraise :: Opcode where "Reraise \<equiv> Opcode ''Reraise''"
abbreviation PopTop :: Opcode where "PopTop \<equiv> Opcode ''PopTop''"
abbreviation EndFor :: Opcode where "EndFor \<equiv> Opcode ''EndFor''"
abbreviation GetIter :: Opcode where "GetIter \<equiv> Opcode ''GetIter''"
abbreviation GetAwaitable :: Opcode where "GetAwaitable \<equiv> Opcode ''GetAwaitable''"
abbreviation ForIter :: Opcode where "ForIter \<equiv> Opcode ''ForIter''"
abbreviation YieldValue :: Opcode where "YieldValue \<equiv> Opcode ''YieldValue''"
abbreviation YieldFrom :: Opcode where "YieldFrom \<equiv> Opcode ''YieldFrom''"
abbreviation Send :: Opcode where "Send \<equiv> Opcode ''Send''"
abbreviation CallCpython :: Opcode where "CallCpython \<equiv> Opcode ''CallCpython''"
abbreviation CallCpythonKwStack :: Opcode where "CallCpythonKwStack \<equiv> Opcode ''CallCpythonKwStack''"
abbreviation CallIntrinsic1 :: Opcode where "CallIntrinsic1 \<equiv> Opcode ''CallIntrinsic1''"
abbreviation CallIntrinsic2 :: Opcode where "CallIntrinsic2 \<equiv> Opcode ''CallIntrinsic2''"
abbreviation MakeFunctionStack :: Opcode where "MakeFunctionStack \<equiv> Opcode ''MakeFunctionStack''"
abbreviation SetFunctionAttribute :: Opcode where "SetFunctionAttribute \<equiv> Opcode ''SetFunctionAttribute''"
abbreviation ReturnConst :: Opcode where "ReturnConst \<equiv> Opcode ''ReturnConst''"
abbreviation ReturnValue :: Opcode where "ReturnValue \<equiv> Opcode ''ReturnValue''"

section \<open>Instructions and code objects\<close>

record ExceptionHandler =
  h_start :: nat
  h_end :: nat
  h_target :: nat
  h_depth :: nat
  h_push_lasti :: bool

record Instruction =
  opcode :: Opcode
  instr_arg :: "u32 option"

definition instruction_new :: "Opcode \<Rightarrow> u32 option \<Rightarrow> Instruction" where
  "instruction_new op a = \<lparr>opcode = op, instr_arg = a\<rparr>"

record Location =
  loc_line :: nat
  loc_column :: nat
  loc_end_line :: nat
  loc_end_column :: nat

definition location_new :: "nat \<Rightarrow> nat \<Rightarrow> Location" where
  "location_new l c = \<lparr>loc_line = l, loc_column = c, loc_end_line = 0, loc_end_column = 0\<rparr>"

definition location_with_end :: "nat \<Rightarrow> nat \<Rightarrow> nat \<Rightarrow> nat \<Rightarrow> Location" where
  "location_with_end l c el ec = \<lparr>loc_line = l, loc_column = c, loc_end_line = el, loc_end_column = ec\<rparr>"

definition location_unknown :: Location where
  "location_unknown = \<lparr>loc_line = 0, loc_column = 0, loc_end_line = 0, loc_end_column = 0\<rparr>"

record 'v CodeObject =
  co_name :: rstring
  co_filename :: rstring
  first_line :: nat
  instructions :: "Instruction list"
  locations :: "Location list"
  constants :: "'v list"
  co_names :: "rstring list"
  cellvars :: "rstring list"
  freevars :: "rstring list"
  posonly_params :: "rstring list"
  params :: "rstring list"
  vararg :: "rstring option"
  kwarg :: "rstring option"
  kwonly_params :: "rstring list"
  name_to_index :: "rstring \<rightharpoonup> nat"
  cellvar_to_index :: "rstring \<rightharpoonup> nat"
  fast_local_count :: nat
  plain_positional_arity :: "nat option"
  plain_positional_arg0_slot :: "nat option"
  plain_positional_arg0_cell :: "nat option"
  plain_positional_arg1_slot :: "nat option"
  plain_positional_arg1_cell :: "nat option"
  plain_positional_arg2_slot :: "nat option"
  plain_positional_arg2_cell :: "nat option"
  positional_param_slot_indexes :: "nat option list"
  positional_param_cell_indexes :: "nat option list"
  is_comprehension :: bool
  is_generator :: bool
  is_coroutine :: bool
  is_iterable_coroutine :: bool
  is_async_generator :: bool
  future_annotations_import :: bool
  exception_handlers :: "ExceptionHandler list"

definition comprehension_name :: "rstring \<Rightarrow> bool" where
  "comprehension_name n \<longleftrightarrow> n = str ''<listcomp>'' \<or> n = str ''<dictcomp>'' \<or> n = str ''<genexpr>''"

text \<open>The first constant of a new code object is the value \<open>None\<close>.\<close>

definition code_new :: "'v \<Rightarrow> rstring \<Rightarrow> rstring \<Rightarrow> 'v CodeObject" where
  "code_new none_value n f =
     \<lparr>co_name = n, co_filename = f, first_line = 1, instructions = [], locations = [],
      constants = [none_value], co_names = [], cellvars = [], freevars = [], posonly_params = [], params = [],
      vararg = None, kwarg = None, kwonly_params = [], name_to_index = Map.empty,
      cellvar_to_index = Map.empty, fast_local_count = 0, plain_positional_arity = None,
      plain_positional_arg0_slot = None, plain_positional_arg0_cell = None,
      plain_positional_arg1_slot = None, plain_positional_arg1_cell = None,
      plain_positional_arg2_slot = None, plain_positional_arg2_cell = None,
      positional_param_slot_indexes = [], positional_param_cell_indexes = [],
      is_comprehension = comprehension_name n, is_generator = False, is_coroutine = False,
      is_iterable_coroutine = False, is_async_generator = False, future_annotations_import = False,
      exception_handlers = []\<rparr>"

definition add_const :: "'v \<Rightarrow> 'v CodeObject \<Rightarrow> u32 \<times> 'v CodeObject" where
  "add_const v c =
     (let c' = c\<lparr>constants := constants c @ [v]\<rparr> in (of_nat (length (constants c') - 1), c'))"

definition add_name :: "rstring \<Rightarrow> 'v CodeObject \<Rightarrow> u32 \<times> 'v CodeObject" where
  "add_name n c =
     (case name_to_index c n of
        Some idx \<Rightarrow> (of_nat idx, c)
      | None \<Rightarrow>
          (let c' = c\<lparr>name_to_index := (name_to_index c)(n \<mapsto> length (co_names c)),
                     co_names := co_names c @ [n]\<rparr>
           in (of_nat (length (co_names c') - 1), c')))"

section \<open>Layout indexes\<close>

text \<open>The loop that numbers the elements of a list; a later occurrence replaces an earlier one.\<close>

definition index_names :: "rstring list \<Rightarrow> rstring \<rightharpoonup> nat" where
  "index_names ns = foldl (\<lambda>m (idx, n). m(n \<mapsto> idx)) Map.empty (enumerate 0 ns)"

definition local_bound :: "Instruction \<Rightarrow> nat \<Rightarrow> nat" where
  "local_bound instr count =
     (if opcode instr \<in> {LoadFast, StoreFast, LoadFastAndClear} then
        (case instr_arg instr of
           Some idx \<Rightarrow> (let idx' = unat idx + 1 in if count < idx' then idx' else count)
         | None \<Rightarrow> count)
      else if opcode instr \<in> {LoadFast2, StoreFastLoadFast, StoreFastStoreFast} then
        (case instr_arg instr of
           Some a \<Rightarrow>
             (let first = unat (drop_bit 16 a) + 1;
                  second = unat (a AND 0xFFFF) + 1;
                  count' = (if count < first then first else count)
              in if count' < second then second else count')
         | None \<Rightarrow> count)
      else count)"

definition slot_bound :: "nat option \<Rightarrow> nat \<Rightarrow> nat" where
  "slot_bound slot count =
     (case slot of Some idx \<Rightarrow> if count < idx + 1 then idx + 1 else count | None \<Rightarrow> count)"

definition nth_flat :: "nat option list \<Rightarrow> nat \<Rightarrow> nat option" where
  "nth_flat xs i = (if i < length xs then xs ! i else None)"

definition rebuild_layout_indexes :: "'v CodeObject \<Rightarrow> 'v CodeObject" where
  "rebuild_layout_indexes c =
     (let names_ix = index_names (co_names c);
          cells_ix = index_names (cellvars c);
          positional = posonly_params c @ params c;
          slots = map names_ix positional;
          cells = map cells_ix positional;
          count = fold local_bound (instructions c) 0;
          count' = fold slot_bound slots count
      in c\<lparr>name_to_index := names_ix, cellvar_to_index := cells_ix,
           positional_param_slot_indexes := slots, positional_param_cell_indexes := cells,
           fast_local_count := count',
           plain_positional_arg0_slot := nth_flat slots 0, plain_positional_arg0_cell := nth_flat cells 0,
           plain_positional_arg1_slot := nth_flat slots 1, plain_positional_arg1_cell := nth_flat cells 1,
           plain_positional_arg2_slot := nth_flat slots 2, plain_positional_arg2_cell := nth_flat cells 2,
           is_comprehension := comprehension_name (co_name c),
           plain_positional_arity :=
             (if kwonly_params c = [] \<and> vararg c = None \<and> kwarg c = None
              then Some (length (posonly_params c) + length (params c)) else None)\<rparr>)"

section \<open>Disassembly\<close>

fun decimal :: "nat \<Rightarrow> string" where
  "decimal n = (if n < 10 then [char_of (48 + n)] else decimal (n div 10) @ [char_of (48 + n mod 10)])"

declare decimal.simps [simp del]

definition decimal04 :: "nat \<Rightarrow> string" where
  "decimal04 n = replicate (4 - length (decimal n)) CHR ''0'' @ decimal n"

definition disassemble_line :: "nat \<times> Instruction \<Rightarrow> string" where
  "disassemble_line = (\<lambda>(idx, instr).
     decimal04 idx @ '' '' @ opcode_name (opcode instr) @
     (case instr_arg instr of Some a \<Rightarrow> '' '' @ decimal (unat a) | None \<Rightarrow> []) @ [CHR 0x0A])"

definition disassemble :: "'v CodeObject \<Rightarrow> string" where
  "disassemble c = concat (map disassemble_line (enumerate 0 (instructions c)))"

end
