(* ===== verification/Codetables.thy ===== *)
theory Codetables
  imports Bytecode
begin

text \<open>
  The decoders of \<^verbatim>\<open>src/bytecode/cpython.rs\<close> for the parts of a CPython code object: its
  instruction stream, its compressed table of locations and its exception table, the
  targets of relative jumps and the check of the targets before lowering. \<open>i32\<close> values are
  integers with the overflow checks written out; table positions are natural numbers.
\<close>

section \<open>Checked arithmetic\<close>

definition i32_ok :: "int \<Rightarrow> int res" where
  "i32_ok i = (if - (2 ^ 31) \<le> i \<and> i < 2 ^ 31 then Inr i else Inl (Panic ''attempt to add with overflow''))"

definition as_i32 :: "u32 \<Rightarrow> int" where
  "as_i32 w = sint w"

section \<open>The instruction stream\<close>

record CpInstr =
  cp_name :: string
  cp_arg :: u32

definition unknown_name :: "u8 \<Rightarrow> string" where
  "unknown_name op = ''UNKNOWN_'' @ decimal (unat op)"

fun decode_loop :: "(u8 \<rightharpoonup> string) \<Rightarrow> u32 \<Rightarrow> u8 list \<Rightarrow> CpInstr list" where
  "decode_loop opmap ext (op # a # rest) =
     (let name = (case opmap op of Some n \<Rightarrow> n | None \<Rightarrow> unknown_name op);
          full = push_bit 8 ext OR ucast a
      in if name = ''EXTENDED_ARG''
         then \<lparr>cp_name = name, cp_arg = full\<rparr> # decode_loop opmap full rest
         else \<lparr>cp_name = name, cp_arg = full\<rparr> # decode_loop opmap 0 rest)"
| "decode_loop opmap ext _ = []"

definition decode_instructions :: "u8 list \<Rightarrow> (u8 \<rightharpoonup> string) \<Rightarrow> CpInstr list res" where
  "decode_instructions bytes opmap =
     (if odd (length bytes) then Inl (Err ''bytecode length must be even'')
      else Inr (decode_loop opmap 0 bytes))"

section \<open>Relative jumps\<close>

definition u32_try_from :: "nat \<Rightarrow> string \<Rightarrow> u32 res" where
  "u32_try_from n msg = (if n < 2 ^ 32 then Inr (of_nat n) else Inl (Err msg))"

text \<open>\<open>checked_add\<close> on \<open>usize\<close>.\<close>

definition checked_add :: "nat \<Rightarrow> nat \<Rightarrow> nat option" where
  "checked_add a b = (if a + b < 2 ^ 64 then Some (a + b) else None)"

definition checked_sub :: "nat \<Rightarrow> nat \<Rightarrow> nat option" where
  "checked_sub a b = (if b \<le> a then Some (a - b) else None)"

definition forward_by :: "nat \<Rightarrow> string \<Rightarrow> nat \<Rightarrow> u32 \<Rightarrow> u32 res" where
  "forward_by k msg idx delta =
     bindr (ok_or (Option.bind (checked_add idx k) (\<lambda>v. checked_add v (unat delta))) msg) (\<lambda>t. u32_try_from t msg)"

definition relative_forward_target :: "nat \<Rightarrow> u32 \<Rightarrow> u32 res" where
  "relative_forward_target = forward_by 1 ''jump target overflow''"

definition relative_forward_target_plus_two :: "nat \<Rightarrow> u32 \<Rightarrow> u32 res" where
  "relative_forward_target_plus_two = forward_by 2 ''jump target overflow''"

definition for_iter_target :: "nat \<Rightarrow> u32 \<Rightarrow> u32 res" where
  "for_iter_target = forward_by 4 ''FOR_ITER target overflow''"

definition backward_by :: "nat \<Rightarrow> nat \<Rightarrow> u32 \<Rightarrow> u32 res" where
  "backward_by k idx delta =
     bindr (ok_or (checked_add idx k) ''jump target overflow'') (\<lambda>base.
     bindr (ok_or (checked_sub base (unat delta)) ''backward jump before start'') (\<lambda>t.
     u32_try_from t ''jump target overflow''))"

definition relative_backward_target :: "nat \<Rightarrow> u32 \<Rightarrow> u32 res" where
  "relative_backward_target = backward_by 2"

definition relative_backward_no_interrupt_target :: "nat \<Rightarrow> u32 \<Rightarrow> u32 res" where
  "relative_backward_no_interrupt_target = backward_by 1"

definition jump_target :: "nat \<Rightarrow> CpInstr \<Rightarrow> u32 option res" where
  "jump_target idx instr =
     (let name = cp_name instr; a = cp_arg instr; some = (\<lambda>t. bindr t (\<lambda>v. Inr (Some v))) in
      if name \<in> {''POP_JUMP_IF_FALSE'', ''POP_JUMP_IF_TRUE'', ''POP_JUMP_IF_NONE'', ''POP_JUMP_IF_NOT_NONE'',
                 ''INSTRUMENTED_POP_JUMP_IF_FALSE'', ''INSTRUMENTED_POP_JUMP_IF_TRUE'',
                 ''INSTRUMENTED_POP_JUMP_IF_NONE'', ''INSTRUMENTED_POP_JUMP_IF_NOT_NONE''}
      then some (relative_forward_target_plus_two idx a)
      else if name \<in> {''JUMP_FORWARD'', ''INSTRUMENTED_JUMP_FORWARD'', ''JUMP'', ''JUMP_NO_INTERRUPT''}
      then some (relative_forward_target idx a)
      else if name \<in> {''SEND'', ''SEND_GEN''} then some (relative_forward_target_plus_two idx a)
      else if name \<in> {''JUMP_BACKWARD'', ''JUMP_BACKWARD_NO_JIT'', ''JUMP_BACKWARD_JIT'', ''INSTRUMENTED_JUMP_BACKWARD''}
      then some (relative_backward_target idx a)
      else if name = ''JUMP_BACKWARD_NO_INTERRUPT'' then some (relative_backward_no_interrupt_target idx a)
      else if name \<in> {''FOR_ITER'', ''INSTRUMENTED_FOR_ITER'', ''FOR_ITER_GEN'', ''FOR_ITER_LIST'',
                       ''FOR_ITER_RANGE'', ''FOR_ITER_TUPLE''}
      then some (for_iter_target idx a)
      else Inr None)"

fun control_flow_loop :: "nat \<Rightarrow> nat \<Rightarrow> CpInstr list \<Rightarrow> unit res" where
  "control_flow_loop len idx [] = Inr ()"
| "control_flow_loop len idx (instr # rest) =
     bindr (jump_target idx instr) (\<lambda>t.
     case t of
       Some t \<Rightarrow>
         if len < unat t
         then Inl (Err (''jump target '' @ decimal (unat t) @ '' out of range at instruction '' @ decimal idx))
         else control_flow_loop len (Suc idx) rest
     | None \<Rightarrow> control_flow_loop len (Suc idx) rest)"

definition validate_cpython_control_flow :: "CpInstr list \<Rightarrow> unit res" where
  "validate_cpython_control_flow is = control_flow_loop (length is) 0 is"

section \<open>The exception table\<close>

text \<open>Six bits per byte, most significant first; bit 6 marks that another byte follows.\<close>

function varint_tail :: "u8 list \<Rightarrow> nat \<Rightarrow> u32 \<Rightarrow> (u32 \<times> nat) res" where
  "varint_tail bytes index v =
     (if length bytes \<le> index then Inl (Panic ''index out of bounds'')
      else if bytes ! index AND 0x40 \<noteq> 0 then
        (let index' = index + 1
         in if length bytes \<le> index'
            then Inl (Err ''truncated exception table while parsing varint'')
            else varint_tail bytes index' (push_bit 6 v OR ucast (bytes ! index' AND 0x3F)))
      else Inr (v, index + 1))"
  by pat_completeness auto
termination
  by (relation "measure (\<lambda>(bytes, index, v). length bytes - index)") auto

declare varint_tail.simps [simp del]

definition parse_varint :: "u8 list \<Rightarrow> nat \<Rightarrow> (u32 \<times> nat) res" where
  "parse_varint bytes index =
     (if length bytes \<le> index then Inl (Err ''truncated exception table while parsing varint'')
      else varint_tail bytes index (ucast (bytes ! index AND 0x3F)))"

lemma varint_tail_progress: "varint_tail bytes index v = Inr (w, k) \<Longrightarrow> index < k \<and> k \<le> length bytes"
proof (induction bytes index v rule: varint_tail.induct)
  case (1 bytes index v)
  then show ?case
    by (subst (asm) (2) varint_tail.simps) (auto simp: Let_def split: if_splits)
qed

lemma parse_varint_progress: "parse_varint bytes index = Inr (w, k) \<Longrightarrow> index < k \<and> k \<le> length bytes"
  by (auto simp: parse_varint_def varint_tail_progress split: if_splits)

definition saturating_add :: "nat \<Rightarrow> nat \<Rightarrow> nat" where
  "saturating_add a b = min (a + b) (2 ^ 64 - 1)"

definition parse_entry :: "u8 list \<Rightarrow> nat \<Rightarrow> nat \<Rightarrow> (ExceptionHandler \<times> nat) res" where
  "parse_entry bytes instruction_count index =
     bindr (parse_varint bytes index) (\<lambda>(start, index).
     bindr (parse_varint bytes index) (\<lambda>(sz, index).
     bindr (parse_varint bytes index) (\<lambda>(target, index).
     bindr (parse_varint bytes index) (\<lambda>(depth_and_lasti, index).
     let start = unat start; target = unat target;
         stop = saturating_add start (unat sz);
         depth = unat depth_and_lasti div 2;
         push_lasti = odd (unat depth_and_lasti)
     in if instruction_count < start \<or> instruction_count < stop \<or> instruction_count < target then
          Inl (Err (''exception table entry out of range (start='' @ decimal start @ '', end='' @ decimal stop @
            '', target='' @ decimal target @ '', instruction_count='' @ decimal instruction_count @ '')''))
        else if stop \<le> start then
          Inl (Err (''invalid exception table entry range ['' @ decimal start @ '', '' @ decimal stop @ '')''))
        else Inr (\<lparr>h_start = start, h_end = stop, h_target = target, h_depth = depth,
                   h_push_lasti = push_lasti\<rparr>, index)))))"

lemma parse_entry_progress:
  "parse_entry bytes n index = Inr (h, k) \<Longrightarrow> index < k \<and> k \<le> length bytes"
  by (auto simp: parse_entry_def Let_def split: if_splits dest!: parse_varint_progress)

function exception_loop :: "u8 list \<Rightarrow> nat \<Rightarrow> nat \<Rightarrow> ExceptionHandler list res" where
  "exception_loop bytes instruction_count index =
     (if index < length bytes then
        bindr (parse_entry bytes instruction_count index) (\<lambda>(h, index).
        bindr (exception_loop bytes instruction_count index) (\<lambda>hs. Inr (h # hs)))
      else Inr [])"
  by pat_completeness auto
termination
  by (relation "measure (\<lambda>(bytes, n, index). length bytes - index)") (auto dest!: parse_entry_progress)

declare exception_loop.simps [simp del]

definition parse_exception_table :: "u8 list \<Rightarrow> nat \<Rightarrow> ExceptionHandler list res" where
  "parse_exception_table bytes instruction_count =
     (if bytes = [] then Inr [] else exception_loop bytes instruction_count 0)"

end
