(* ===== verification/Verifier.thy ===== *)
theory Verifier
  imports Codetables
begin

text \<open>
  The validator of lowered bytecode in \<^verbatim>\<open>src/bytecode/cpython.rs\<close>: \<open>translated_successors\<close>,
  the effect of an instruction on the depth of the operand stack and its successors, and
  \<open>validate_translated_code\<close>, a breadth-first walk that follows each instruction once. Depths
  are \<open>i32\<close> with checked arithmetic.
\<close>

section \<open>Successors of an instruction\<close>

definition underflow_message :: "nat \<Rightarrow> Opcode \<Rightarrow> string" where
  "underflow_message ip op =
     ''stack underflow at instruction '' @ decimal ip @ '' ('' @ opcode_name op @ '')''"

text \<open>The closure \<open>pop\<close>.\<close>

definition pop :: "nat \<Rightarrow> Opcode \<Rightarrow> int \<Rightarrow> int \<Rightarrow> int res" where
  "pop ip op stack_depth count =
     (if stack_depth < count then Inl (Err (underflow_message ip op)) else i32_ok (stack_depth - count))"

definition decimal_int :: "int \<Rightarrow> string" where
  "decimal_int i = (if i < 0 then ''-'' @ decimal (nat (- i)) else decimal (nat i))"

definition invalid_arg :: "string \<Rightarrow> int \<Rightarrow> nat \<Rightarrow> string" where
  "invalid_arg what i ip = ''invalid '' @ what @ '' arg '' @ decimal_int i @ '' at instruction '' @ decimal ip"

text \<open>
  The shapes of the branches: the instruction falls through with a fixed number of operands
  popped and pushed, or with a count taken from its argument.
\<close>

definition pop_push :: "nat \<Rightarrow> Opcode \<Rightarrow> int \<Rightarrow> int \<Rightarrow> int \<Rightarrow> (nat \<times> int) list res" where
  "pop_push ip op stack_depth pops pushes =
     bindr (pop ip op stack_depth pops) (\<lambda>d. bindr (i32_ok (d + pushes)) (\<lambda>d. Inr [(ip + 1, d)]))"

definition push_only :: "nat \<Rightarrow> int \<Rightarrow> int \<Rightarrow> (nat \<times> int) list res" where
  "push_only ip stack_depth pushes = bindr (i32_ok (stack_depth + pushes)) (\<lambda>d. Inr [(ip + 1, d)])"

definition stack_neutral_ops :: "Opcode list" where
  "stack_neutral_ops = [Nop, MakeCell, DeleteFast, SetupExcept, PopBlock, ClearException, EndFor, SetupAnnotations]"

definition push_one_ops :: "Opcode list" where
  "push_one_ops = [LoadConst, LoadName, LoadLocals, LoadFast, LoadDeref, LoadClosure, LoadBuildClass, PushNull,
     LoadFastAndClear, MatchKeys, MatchMapping, MatchSequence, GetLen, ImportName]"

text \<open>Instructions with a fixed effect: operands popped and operands pushed afterwards.\<close>

definition fixed_effects :: "(Opcode list \<times> int \<times> int) list" where
  "fixed_effects =
    [([LoadFromDictOrGlobals, LoadFromDictOrDeref], 1, 1),
     ([LoadSpecial], 1, 2),
     ([StoreName, StoreFast, StoreGlobal, StoreDeref, DeleteAttr, PopTop, PopExcept], 1, 0),
     ([PushExcInfo], 1, 2),
     ([WithExceptStart], 5, 6),
     ([UnaryNeg, UnaryNot, UnaryPos, UnaryInvert, ConvertValue, FormatSimple, CallIntrinsic1, ToBool], 1, 1),
     ([CallIntrinsic2], 2, 1),
     ([StoreFastLoadFast], 1, 1),
     ([StoreFastStoreFast], 2, 0),
     ([StoreAttr, StoreAttrCpython], 2, 0),
     ([BinaryAdd, BinarySub, BinaryMul, BinaryDiv, BinaryPow, BinaryFloorDiv, BinaryMod, CompareEq, CompareNe,
       CompareLt, CompareLe, CompareGt, CompareGe, CompareIn, CompareNotIn, CompareIs, CompareIsNot, Subscript,
       MatchException], 2, 1),
     ([MatchClass], 3, 1),
     ([CheckExcMatch], 2, 2),
     ([MatchExceptionStar], 2, 2),
     ([BuildTemplate], 2, 1),
     ([FormatWithSpec], 2, 1),
     ([BinarySlice], 3, 1),
     ([DictSet], 3, 1),
     ([StoreSlice], 4, 0),
     ([DeleteSubscript], 2, 0),
     ([DupTop], 1, 2),
     ([GetIter], 1, 1),
     ([GetAwaitable], 1, 1),
     ([YieldValue], 1, 1),
     ([MakeFunction], 2, 1),
     ([MakeFunctionStack], 1, 1),
     ([SetFunctionAttribute], 2, 1),
     ([BuildClass], 3, 1),
     ([CallFunctionKw], 1, 1),
     ([CallFunctionVar], 3, 1),
     ([CallFunctionEx], 4, 1),
     ([ImportNameCpython], 2, 1),
     ([ImportFromCpython], 1, 2)]"

definition fixed_effect :: "Opcode \<Rightarrow> (int \<times> int) option" where
  "fixed_effect op = map_option snd (find (\<lambda>(ops, _). op \<in> set ops) fixed_effects)"

text \<open>The branches that read a count from the argument.\<close>

definition counted_effect :: "nat \<Rightarrow> Opcode \<Rightarrow> u32 option \<Rightarrow> int \<Rightarrow> (nat \<times> int) list res" where
  "counted_effect ip op a stack_depth =
     (let need = (\<lambda>msg. ok_or a msg); pp = pop_push ip op stack_depth in
      if op = LoadGlobal then
        (let push_null = (case a of Some w \<Rightarrow> w | None \<Rightarrow> 0) AND 1
         in push_only ip stack_depth (if push_null = 1 then 2 else 1))
      else if op = LoadAttr then bindr (need ''missing LOAD_ATTR arg'') (\<lambda>raw. pp 1 (1 + uint (raw AND 1)))
      else if op = LoadSuperAttr then bindr (need ''missing LOAD_SUPER_ATTR arg'') (\<lambda>raw. pp 3 (1 + uint (raw AND 1)))
      else if op = Copy then
        bindr (need ''missing COPY depth'') (\<lambda>raw. let d = as_i32 raw in
        if d \<le> 0 then Inl (Err (invalid_arg ''COPY'' d ip)) else pp d (d + 1))
      else if op = Swap then
        bindr (need ''missing SWAP depth'') (\<lambda>raw. let d = as_i32 raw in
        if d < 2 then Inl (Err (invalid_arg ''SWAP'' d ip)) else pp d d)
      else if op \<in> {BuildList, BuildSet, BuildTuple, BuildString} then
        bindr (need ''missing build count'') (\<lambda>raw. pp (as_i32 raw) 1)
      else if op = BuildInterpolation then
        bindr (need ''missing BUILD_INTERPOLATION arg'') (\<lambda>raw. pp (if raw AND 1 \<noteq> 0 then 3 else 2) 1)
      else if op = BuildDict then
        bindr (need ''missing dict count'') (\<lambda>raw. bindr (i32_ok (as_i32 raw * 2)) (\<lambda>n. pp n 1))
      else if op \<in> {ListAppend, SetAdd, ListExtend, SetUpdate} then
        bindr (need ''missing LIST_* arg'') (\<lambda>raw. let d = as_i32 raw in
        if d \<le> 0 then Inl (Err (invalid_arg ''LIST_*'' d ip)) else bindr (i32_ok (d + 1)) (\<lambda>n. pp n d))
      else if op = MapAdd then
        bindr (need ''missing MAP_ADD arg'') (\<lambda>raw. let d = as_i32 raw in
        if d \<le> 0 then Inl (Err (invalid_arg ''MAP_ADD'' d ip)) else bindr (i32_ok (d + 2)) (\<lambda>n. pp n d))
      else if op = DictMerge then
        bindr (need ''missing DICT_MERGE arg'') (\<lambda>raw. let d = as_i32 raw in
        if d \<le> 0 then Inl (Err (invalid_arg ''DICT_MERGE'' d ip)) else bindr (i32_ok (d + 1)) (\<lambda>n. pp n d))
      else if op = BuildSlice then
        (let count = as_i32 (case a of Some w \<Rightarrow> w | None \<Rightarrow> 3) in
         if count \<noteq> 2 \<and> count \<noteq> 3 then Inl (Err (invalid_arg ''BUILD_SLICE'' count ip)) else pp count 1)
      else if op \<in> {UnpackSequence, UnpackSequenceCpython} then
        bindr (need ''missing unpack count'') (\<lambda>raw. pp 1 (as_i32 raw))
      else if op \<in> {UnpackEx, UnpackExCpython} then
        bindr (need ''missing unpack sizes'') (\<lambda>packed.
        let before = uint (packed AND 0xFFFF); after = uint (drop_bit 16 packed) in pp 1 (before + after + 1))
      else if op = DictUpdate then
        (let d = as_i32 (case a of Some w \<Rightarrow> w | None \<Rightarrow> 1) in
         if d \<le> 0 then Inl (Err (invalid_arg ''DICT_UPDATE'' d ip)) else bindr (i32_ok (d + 1)) (\<lambda>n. pp n d))
      else if op = StoreSubscript then (if a = Some 1 then pp 3 0 else pp 3 1)
      else if op = CallFunction then
        bindr (need ''missing call argc'') (\<lambda>raw. bindr (i32_ok (as_i32 raw + 1)) (\<lambda>n. pp n 1))
      else if op = CallCpython then
        bindr (need ''missing call argc'') (\<lambda>raw. pp (uint (raw AND 0xFFFF) + 1) 1)
      else if op = CallCpythonKwStack then
        bindr (need ''missing call argc'') (\<lambda>raw. bindr (i32_ok (as_i32 raw + 2)) (\<lambda>n. pp n 1))
      else Inr [(ip + 1, stack_depth)])"

text \<open>The branches with a jump target, and those that leave the code.\<close>

definition jump_effect :: "nat \<Rightarrow> Opcode \<Rightarrow> u32 option \<Rightarrow> int \<Rightarrow> (nat \<times> int) list res option" where
  "jump_effect ip op a stack_depth =
     (if op \<in> {JumpIfFalse, JumpIfTrue, JumpIfNone, JumpIfNotNone} then Some (
        bindr (ok_or a ''missing jump target'') (\<lambda>t.
        bindr (pop ip op stack_depth 1) (\<lambda>d. Inr [(ip + 1, d), (unat t, d)])))
      else if op = Jump then Some (
        bindr (ok_or a ''missing jump target'') (\<lambda>t. Inr [(unat t, stack_depth)]))
      else if op = ForIter then Some (
        bindr (ok_or a ''missing for-iter target'') (\<lambda>t.
        bindr (pop ip op stack_depth 1) (\<lambda>d. bindr (i32_ok (d + 2)) (\<lambda>d2. Inr [(ip + 1, d2), (unat t, d)]))))
      else if op = Send then Some (
        bindr (ok_or a ''missing send target'') (\<lambda>t.
        bindr (pop ip op stack_depth 2) (\<lambda>d. bindr (i32_ok (d + 2)) (\<lambda>d2. bindr (i32_ok (d + 1)) (\<lambda>d1.
        Inr [(ip + 1, d2), (unat t, d1)])))))
      else if op \<in> {Raise, Reraise, ReturnConst, ReturnValue} then Some (Inr [])
      else None)"

definition translated_successors :: "nat \<Rightarrow> int \<Rightarrow> Instruction \<Rightarrow> nat \<Rightarrow> (nat \<times> int) list res" where
  "translated_successors ip stack_depth instr code_len =
     (let op = opcode instr; a = instr_arg instr in
      bindr
        (case jump_effect ip op a stack_depth of
           Some r \<Rightarrow> r
         | None \<Rightarrow>
             if op \<in> set stack_neutral_ops then Inr [(ip + 1, stack_depth)]
             else if op \<in> set push_one_ops then push_only ip stack_depth 1
             else if op = LoadFast2 then push_only ip stack_depth 2
             else case fixed_effect op of
                 Some (pops, pushes) \<Rightarrow> pop_push ip op stack_depth pops pushes
               | None \<Rightarrow> counted_effect ip op a stack_depth)
        (\<lambda>successors.
           if \<exists>(next_ip, _) \<in> set successors. code_len < next_ip
           then Inl (Err (''translated jump target out of range at instruction '' @ decimal ip))
           else Inr successors))"

section \<open>The walk\<close>

fun check_successors :: "nat \<Rightarrow> Opcode \<Rightarrow> nat \<Rightarrow> (nat \<times> int) list \<Rightarrow> unit res" where
  "check_successors ip op code_len [] = Inr ()"
| "check_successors ip op code_len ((next_ip, next_depth) # rest) =
     (if next_depth < 0 then Inl (Err (underflow_message ip op))
      else if code_len < next_ip then
        Inl (Err (''translated jump target '' @ decimal next_ip @ '' out of range at instruction '' @ decimal ip))
      else check_successors ip op code_len rest)"

lemma unseen_decreases:
  "ip < n \<Longrightarrow> ip \<notin> set seen \<Longrightarrow> card ({..<n} - set (ip # seen)) < card ({..<n :: nat} - set seen)"
proof -
  assume "ip < n" "ip \<notin> set seen"
  then have "ip \<in> {..<n} - set seen" by simp
  moreover have "{..<n} - set (ip # seen) = {..<n} - set seen - {ip}" by auto
  ultimately show ?thesis by (metis card_Diff1_less finite_Diff finite_lessThan)
qed

function validate_loop :: "Instruction list \<Rightarrow> (nat \<times> int) list \<Rightarrow> nat list \<Rightarrow> unit res" where
  "validate_loop code [] seen = Inr ()"
| "validate_loop code ((ip, stack_depth) # queue) seen =
     (if length code \<le> ip then validate_loop code queue seen
      else if ip \<in> set seen then validate_loop code queue seen
      else
        bindr (translated_successors ip stack_depth (code ! ip) (length code)) (\<lambda>successors.
        bindr (check_successors ip (opcode (code ! ip)) (length code) successors) (\<lambda>_.
        validate_loop code (queue @ successors) (ip # seen))))"
  by pat_completeness auto
termination
proof (relation "(\<lambda>(code, queue, seen). card ({..<length code} - set seen)) <*mlex*>
    (\<lambda>(code, queue, seen). length queue) <*mlex*> {}", goal_cases)
  case (4 code ip d queue seen)
  from unseen_decreases [of ip "length code" seen] 4(1,2) show ?case by (simp add: mlex_iff)
qed (simp_all add: mlex_iff wf_mlex)

definition validate_translated_code :: "Instruction list \<Rightarrow> unit res" where
  "validate_translated_code code = validate_loop code [(0, 0)] []"

end
