(* ===== verification/Verifier_Spec.thy ===== *)
theory Verifier_Spec
  imports Verifier
begin

text \<open>
  What the validator of lowered bytecode decides. The abstract machine below runs over pairs
  of an instruction index and a stack depth; a pair is faulty when the instruction there
  would underflow, jump out of the code or lack its argument. The walk visits each
  instruction once, at the first depth it meets.
\<close>

section \<open>The abstract machine\<close>

inductive reach :: "Instruction list \<Rightarrow> nat \<Rightarrow> int \<Rightarrow> bool" for code where
  reach_start: "reach code 0 0"
| reach_step: "reach code ip d \<Longrightarrow> ip < length code \<Longrightarrow>
    translated_successors ip d (code ! ip) (length code) = Inr succs \<Longrightarrow> (n, d') \<in> set succs \<Longrightarrow>
    reach code n d'"

inductive_cases reach_cases: "reach code ip d"

definition faulty :: "Instruction list \<Rightarrow> nat \<Rightarrow> int \<Rightarrow> bool" where
  "faulty code ip d \<longleftrightarrow> ip < length code \<and>
     (case translated_successors ip d (code ! ip) (length code) of
        Inl _ \<Rightarrow> True
      | Inr succs \<Rightarrow> \<exists>(n, d') \<in> set succs. d' < 0 \<or> length code < n)"

lemma check_successors_iff:
  "check_successors ip op len succs = Inr () \<longleftrightarrow> (\<forall>(n, d) \<in> set succs. 0 \<le> d \<and> n \<le> len)"
  by (induction ip op len succs rule: check_successors.induct) auto

lemma check_successors_cases: "check_successors ip op len succs = Inr () \<or> (\<exists>e. check_successors ip op len succs = Inl e)"
  by (cases "check_successors ip op len succs") simp_all

lemma not_faulty:
  assumes "translated_successors ip d (code ! ip) (length code) = Inr succs"
    and "check_successors ip (opcode (code ! ip)) (length code) succs = Inr ()"
  shows "\<not> faulty code ip d"
  using assms by (auto simp: faulty_def check_successors_iff)

section \<open>A rejection is justified\<close>

lemma validate_loop_rejects:
  "validate_loop code queue seen = Inl e \<Longrightarrow> \<forall>(ip, d) \<in> set queue. reach code ip d \<Longrightarrow>
   \<exists>ip d. reach code ip d \<and> faulty code ip d"
proof (induction code queue seen rule: validate_loop.induct)
  case (2 code ip d queue seen)
  show ?case
  proof (cases "length code \<le> ip \<or> ip \<in> set seen")
    case True
    with "2.prems" "2.IH"(1,2) show ?thesis by (auto split: if_splits)
  next
    case False
    then have F: "\<not> length code \<le> ip" "ip \<notin> set seen" by simp_all
    have r: "reach code ip d" using "2.prems"(2) by simp
    show ?thesis
    proof (cases "translated_successors ip d (code ! ip) (length code)")
      case (Inl f)
      with F have "faulty code ip d" by (simp add: faulty_def)
      with r show ?thesis by blast
    next
      case (Inr succs)
      note S = this
      show ?thesis
      proof (cases "check_successors ip (opcode (code ! ip)) (length code) succs")
        case (Inl f)
        then have "\<not> (\<forall>(n, d) \<in> set succs. 0 \<le> d \<and> n \<le> length code)"
          using check_successors_iff [of ip "opcode (code ! ip)" "length code" succs] by simp
        then obtain n d' where "(n, d') \<in> set succs" "d' < 0 \<or> length code < n"
          by (force simp: not_le)
        with F S have "faulty code ip d" by (auto simp: faulty_def)
        with r show ?thesis by blast
      next
        case (Inr u)
        have "\<forall>(ip, d) \<in> set (queue @ succs). reach code ip d"
          using "2.prems"(2) reach_step [OF r _ S] F by auto
        with "2.IH"(3) [OF F S Inr] "2.prems"(1) F S Inr show ?thesis by simp
      qed
    qed
  qed
qed simp

section \<open>An acceptance is justified\<close>

text \<open>
  \<open>covered D queue\<close>: the instructions with a depth in \<open>D\<close> are reachable at that depth and not
  faulty there, and their successors inside the code have a depth or wait in the queue.
\<close>

definition covered :: "Instruction list \<Rightarrow> (nat \<rightharpoonup> int) \<Rightarrow> nat set \<Rightarrow> bool" where
  "covered code D waiting \<longleftrightarrow> (\<forall>ip d. D ip = Some d \<longrightarrow>
     ip < length code \<and> reach code ip d \<and> \<not> faulty code ip d \<and>
     (\<forall>succs n d'. translated_successors ip d (code ! ip) (length code) = Inr succs \<longrightarrow> (n, d') \<in> set succs \<longrightarrow>
        n < length code \<longrightarrow> n \<in> dom D \<union> waiting))"

lemma covered_mono: "covered code D W \<Longrightarrow> (\<And>n. n \<in> W \<Longrightarrow> n < length code \<Longrightarrow> n \<in> dom D \<union> W') \<Longrightarrow> covered code D W'"
  unfolding covered_def by blast

lemma covered_insert:
  assumes cov: "covered code D (insert ip (fst ` set queue))"
    and "ip < length code" "reach code ip d" "\<not> faulty code ip d"
    and S: "translated_successors ip d (code ! ip) (length code) = Inr succs"
  shows "covered code (D(ip \<mapsto> d)) (fst ` set (queue @ succs))"
  unfolding covered_def
proof (intro allI impI)
  fix i e
  assume i: "(D(ip \<mapsto> d)) i = Some e"
  show "i < length code \<and> reach code i e \<and> \<not> faulty code i e \<and>
     (\<forall>succs' n d'. translated_successors i e (code ! i) (length code) = Inr succs' \<longrightarrow> (n, d') \<in> set succs' \<longrightarrow>
        n < length code \<longrightarrow> n \<in> dom (D(ip \<mapsto> d)) \<union> fst ` set (queue @ succs))"
  proof (cases "i = ip")
    case True
    with i have "e = d" by simp
    with True assms(2-4) S show ?thesis by (auto intro: rev_image_eqI)
  next
    case False
    with i have "D i = Some e" by simp
    with cov show ?thesis unfolding covered_def by fastforce
  qed
qed

lemma validate_loop_accepts:
  "validate_loop code queue seen = Inr () \<Longrightarrow> \<forall>(ip, d) \<in> set queue. reach code ip d \<Longrightarrow>
   dom D = set seen \<Longrightarrow> covered code D (fst ` set queue) \<Longrightarrow>
   \<exists>D'. D \<subseteq>\<^sub>m D' \<and> covered code D' {} \<and> (\<forall>(ip, d) \<in> set queue. ip < length code \<longrightarrow> ip \<in> dom D')"
proof (induction code queue seen arbitrary: D rule: validate_loop.induct)
  case (1 code seen)
  then show ?case by (intro exI [of _ D]) simp
next
  case (2 code ip d queue seen)
  show ?case
  proof (cases "length code \<le> ip \<or> ip \<in> set seen")
    case True
    then have v: "validate_loop code queue seen = Inr ()" using "2.prems"(1) by (auto split: if_splits)
    have c: "covered code D (fst ` set queue)"
      using "2.prems"(3) True by (intro covered_mono [OF "2.prems"(4)]) auto
    have r: "\<forall>(ip, d) \<in> set queue. reach code ip d" using "2.prems"(2) by simp
    have "\<exists>D'. D \<subseteq>\<^sub>m D' \<and> covered code D' {} \<and> (\<forall>(ip, d) \<in> set queue. ip < length code \<longrightarrow> ip \<in> dom D')"
      using True "2.IH"(1) [OF _ v r "2.prems"(3) c] "2.IH"(2) [OF _ _ v r "2.prems"(3) c] by blast
    then obtain D' where D': "D \<subseteq>\<^sub>m D'" "covered code D' {}"
        "\<forall>(ip, d) \<in> set queue. ip < length code \<longrightarrow> ip \<in> dom D'" by blast
    moreover have "ip < length code \<longrightarrow> ip \<in> dom D'"
      using True "2.prems"(3) map_le_implies_dom_le [OF D'(1)] by auto
    ultimately show ?thesis by auto
  next
    case False
    then have F: "\<not> length code \<le> ip" "ip \<notin> set seen" by simp_all
    with "2.prems"(1) obtain succs where S: "translated_successors ip d (code ! ip) (length code) = Inr succs"
      and C: "check_successors ip (opcode (code ! ip)) (length code) succs = Inr ()"
      and V: "validate_loop code (queue @ succs) (ip # seen) = Inr ()" by auto
    have r: "reach code ip d" using "2.prems"(2) by simp
    let ?D = "D(ip \<mapsto> d)"
    have q: "\<forall>(ip, d) \<in> set (queue @ succs). reach code ip d"
      using "2.prems"(2) reach_step [OF r _ S] F by auto
    have dom: "dom ?D = set (ip # seen)" using "2.prems"(3) by simp
    have cov: "covered code ?D (fst ` set (queue @ succs))"
      using covered_insert [of code D ip queue d succs] "2.prems"(4) r not_faulty [OF S C] S F by simp
    obtain D' where D': "?D \<subseteq>\<^sub>m D'" "covered code D' {}"
        "\<forall>(ip, d) \<in> set (queue @ succs). ip < length code \<longrightarrow> ip \<in> dom D'"
      using "2.IH"(3) [OF F S C V q dom cov] by blast
    have "D \<subseteq>\<^sub>m ?D" using F(2) "2.prems"(3) by (auto simp: map_le_def dom_def)
    then have "D \<subseteq>\<^sub>m D'" using D'(1) by (rule map_le_trans)
    moreover have "ip \<in> dom D'" using map_le_implies_dom_le [OF D'(1)] by auto
    ultimately show ?thesis using D'(2,3) by (intro exI [of _ D'] conjI) auto
  qed
qed

lemma validate_accepts:
  assumes "validate_translated_code code = Inr ()"
  shows "\<exists>D. covered code D {} \<and> (code \<noteq> [] \<longrightarrow> D 0 \<noteq> None)"
proof -
  have "\<exists>D'. Map.empty \<subseteq>\<^sub>m D' \<and> covered code D' {} \<and> (\<forall>(ip, d) \<in> set [(0, 0 :: int)]. ip < length code \<longrightarrow> ip \<in> dom D')"
    using assms
    by (intro validate_loop_accepts [where seen = "[]"])
       (simp_all add: validate_translated_code_def reach_start covered_def)
  then show ?thesis by auto
qed

text \<open>Where each instruction is reached at one depth only, all reachable pairs are covered.\<close>

definition one_depth :: "Instruction list \<Rightarrow> bool" where
  "one_depth code \<longleftrightarrow> (\<forall>ip d d'. reach code ip d \<longrightarrow> reach code ip d' \<longrightarrow> d = d')"

lemma covered_reach:
  assumes "covered code D {}" "code \<noteq> [] \<longrightarrow> D 0 \<noteq> None" "one_depth code" "reach code ip d"
  shows "ip < length code \<longrightarrow> D ip = Some d"
  using assms(4)
proof (induction rule: reach.induct)
  case reach_start
  show ?case
  proof
    assume "0 < length code"
    then obtain d where d: "D 0 = Some d" using assms(2) by auto
    then have "reach code 0 d" using assms(1) by (auto simp: covered_def)
    then have "d = 0" using assms(3) reach.reach_start unfolding one_depth_def by blast
    with d show "D 0 = Some 0" by simp
  qed
next
  case (reach_step ip d succs n d')
  show ?case
  proof
    assume n: "n < length code"
    have "D ip = Some d" using reach_step.IH reach_step.hyps(2) by simp
    then have "n \<in> dom D" using assms(1) reach_step.hyps(3,4) n unfolding covered_def by blast
    then obtain e where e: "D n = Some e" by blast
    then have "reach code n e" using assms(1) by (auto simp: covered_def)
    moreover have "reach code n d'" using reach.reach_step [OF reach_step.hyps] .
    ultimately show "D n = Some d'" using e assms(3) unfolding one_depth_def by blast
  qed
qed

section \<open>Properties\<close>


text \<open>A program on which the theorem applies: a constant pushed, then dropped.\<close>

definition straight_code :: "Instruction list" where
  "straight_code = [instruction_new LoadConst (Some 0), instruction_new PopTop None, instruction_new ReturnConst (Some 0)]"

lemma straight_successors:
  "translated_successors 0 0 (straight_code ! 0) 3 = Inr [(1, 1)]"
  "translated_successors 1 1 (straight_code ! 1) 3 = Inr [(2, 0)]"
  "translated_successors 2 0 (straight_code ! 2) 3 = Inr []"
  by code_simp+

lemma straight_reach: "reach straight_code ip d \<Longrightarrow> (ip, d) \<in> {(0, 0), (1, 1), (2, 0)}"
proof (induction rule: reach.induct)
  case (reach_step ip d succs n d')
  have len: "length straight_code = 3" by (simp add: straight_code_def)
  from reach_step.IH consider "ip = 0" "d = 0" | "ip = 1" "d = 1" | "ip = 2" "d = 0" by auto
  then show ?case using reach_step.hyps(3,4) straight_successors unfolding len by cases auto
qed simp


definition merging_code :: "Instruction list" where
  "merging_code =
     [instruction_new LoadConst (Some 0), instruction_new JumpIfFalse (Some 4),
      instruction_new LoadConst (Some 0), instruction_new Jump (Some 6),
      instruction_new Nop None, instruction_new Nop None,
      instruction_new PopTop None, instruction_new ReturnConst (Some 0)]"

text \<open>
  The walk does not compare the depths at which an instruction is reached: it accepts a
  program in which the last but one instruction is also reached with an empty stack, from
  which it pops.
\<close>

theorem validator_misses_merge:
  "validate_translated_code merging_code = Inr () \<and> (\<exists>ip d. reach merging_code ip d \<and> faulty merging_code ip d)"
proof
  show "validate_translated_code merging_code = Inr ()" by code_simp
  have s: "translated_successors 0 0 (merging_code ! 0) 8 = Inr [(1, 1)]"
    "translated_successors 1 1 (merging_code ! 1) 8 = Inr [(2, 0), (4, 0)]"
    "translated_successors 4 0 (merging_code ! 4) 8 = Inr [(5, 0)]"
    "translated_successors 5 0 (merging_code ! 5) 8 = Inr [(6, 0)]"
    "translated_successors 6 0 (merging_code ! 6) 8 = Inl (Err (underflow_message 6 PopTop))"
    by code_simp+
  have len: "length merging_code = 8" by (simp add: merging_code_def)
  have "reach merging_code 1 1" using reach_step [OF reach_start, of merging_code "[(1, 1)]"] s(1) len by simp
  then have "reach merging_code 4 0" using reach_step [of merging_code 1 1] s(2) len by simp
  then have "reach merging_code 5 0" using reach_step [of merging_code 4 0] s(3) len by simp
  then have "reach merging_code 6 0" using reach_step [of merging_code 5 0] s(4) len by simp
  moreover have "faulty merging_code 6 0" using s(5) len by (simp add: faulty_def)
  ultimately show "\<exists>ip d. reach merging_code ip d \<and> faulty merging_code ip d" by blast
qed

end
