(* ===== verification/Translator.thy ===== *)
theory Translator
  imports Marshal Verifier
begin

text \<open>
  Lowering of a CPython code object to pyrs bytecode, the \<open>Translator\<close> of
  \<^verbatim>\<open>src/bytecode/cpython.rs\<close>: the tables of names, locals and cells, the parameters, and
  the translation of the instruction stream, which yields one instruction per CPython
  instruction. Constants are runtime values; the heap is a list of cells, an address is an
  index, and an allocation appends a cell with the contents handed to it.
\<close>

datatype Value =
    NoneVal
  | BoolVal bool
  | IntVal i64
  | BigIntVal BigInt
  | FloatVal f64
  | ComplexVal f64 f64
  | StrVal rstring
  | ExceptionType string
  | Builtin string
  | EllipsisVal
  | TupleVal nat
  | ListVal nat
  | DictVal nat
  | SetVal nat
  | FrozenSetVal nat
  | BytesVal nat
  | CodeVal nat
  | SliceVal "i64 option" "i64 option" "i64 option"

datatype Cell =
    TupleCell "Value list"
  | ListCell "Value list"
  | DictCell "(Value \<times> Value) list"
  | SetCell "Value list"
  | FrozenSetCell "Value list"
  | BytesCell "u8 list"
  | CodeCell "Value CodeObject"

type_synonym heap = "Cell list"

definition alloc :: "Cell \<Rightarrow> heap \<Rightarrow> nat \<times> heap" where
  "alloc cell h = (length h, h @ [cell])"

record Translator =
  t_names :: "rstring list"
  t_name_index :: "rstring \<rightharpoonup> u32"
  t_locals_map :: "u32 option list"
  t_names_map :: "u32 option list"
  t_deref_map :: "u32 option list"
  t_cellvars :: "rstring list"
  t_freevars :: "rstring list"
  t_constants :: "Value list"
  t_heap :: heap

definition translator_new :: "CpythonCode \<Rightarrow> heap \<Rightarrow> Translator" where
  "translator_new c h =
     \<lparr>t_names = [], t_name_index = Map.empty,
      t_locals_map = replicate (length (localsplusnames c)) None,
      t_names_map = replicate (length (names c)) None,
      t_deref_map = [], t_cellvars = [], t_freevars = [], t_constants = [], t_heap = h\<rparr>"

section \<open>Cells and parameters\<close>

definition deref_step :: "CpythonCode \<Rightarrow> nat \<times> rstring \<Rightarrow> Translator \<Rightarrow> Translator" where
  "deref_step c = (\<lambda>(idx, nm) t.
     let kind = (if idx < length (localspluskinds c) then localspluskinds c ! idx else 0);
         (t, deref_index) =
           (if kind AND 0x40 \<noteq> 0
            then (let t' = t\<lparr>t_cellvars := t_cellvars t @ [nm]\<rparr>
                  in (t', Some (of_nat (length (t_cellvars t') - 1))))
            else (t, None));
         (t, deref_index) =
           (if kind AND 0x80 \<noteq> 0
            then (let t' = t\<lparr>t_freevars := t_freevars t @ [nm]\<rparr>
                  in (t', Some (of_nat (length (t_cellvars t') + length (t_freevars t') - 1))))
            else (t, deref_index))
     in t\<lparr>t_deref_map := t_deref_map t @ [deref_index]\<rparr>)"

definition build_deref_maps :: "CpythonCode \<Rightarrow> Translator \<Rightarrow> Translator" where
  "build_deref_maps c t = fold (deref_step c) (enumerate 0 (localsplusnames c)) t"

definition populate_params :: "CpythonCode \<Rightarrow> 'v CodeObject \<Rightarrow> 'v CodeObject res" where
  "populate_params c result =
     (let total_posonly = as_usize (posonlyargcount c);
          total_pos = as_usize (argcount c)
      in if total_pos < total_posonly then Inl (Err ''argcount is smaller than posonlyargcount'')
         else
           let total_positional = total_pos - total_posonly;
               total_kwonly = as_usize (kwonlyargcount c);
               locals = localsplusnames c
           in if 2 ^ 64 \<le> total_pos + total_kwonly then Inl (Panic ''attempt to add with overflow'')
              else if length locals < total_pos + total_kwonly
              then Inl (Err ''localsplusnames too short for args'')
              else
                let idx = total_pos + total_kwonly;
                    result = result\<lparr>posonly_params := take total_posonly locals,
                       params := take total_positional (drop total_posonly locals),
                       kwonly_params := take total_kwonly (drop total_pos locals)\<rparr>;
                    (result, idx) =
                      (if flags c AND 0x0004 \<noteq> 0 \<and> idx < length locals
                       then (result\<lparr>vararg := Some (locals ! idx)\<rparr>, idx + 1) else (result, idx));
                    result =
                      (if flags c AND 0x0008 \<noteq> 0 \<and> idx < length locals
                       then result\<lparr>kwarg := Some (locals ! idx)\<rparr> else result)
                in Inr result)"

section \<open>Interning\<close>

definition intern_name :: "rstring \<Rightarrow> Translator \<Rightarrow> u32 \<times> Translator" where
  "intern_name n t =
     (case t_name_index t n of
        Some idx \<Rightarrow> (idx, t)
      | None \<Rightarrow>
          let idx = of_nat (length (t_names t))
          in (idx, t\<lparr>t_names := t_names t @ [n], t_name_index := (t_name_index t)(n \<mapsto> idx)\<rparr>))"

definition t_add_const :: "Value \<Rightarrow> Translator \<Rightarrow> u32 \<times> Translator" where
  "t_add_const v t =
     (let t' = t\<lparr>t_constants := t_constants t @ [v]\<rparr> in (of_nat (length (t_constants t') - 1), t'))"

definition map_name :: "CpythonCode \<Rightarrow> u32 \<Rightarrow> Translator \<Rightarrow> (u32 \<times> Translator) res" where
  "map_name c index t =
     (let idx = unat index in
      if length (t_names_map t) \<le> idx then Inl (Err ''name index out of range'')
      else case t_names_map t ! idx of
          Some mapped \<Rightarrow> Inr (mapped, t)
        | None \<Rightarrow>
            if length (names c) \<le> idx then Inl (Err ''name index out of range'')
            else let (interned, t) = intern_name (names c ! idx) t
                 in Inr (interned, t\<lparr>t_names_map := (t_names_map t)[idx := Some interned]\<rparr>))"

definition map_local :: "CpythonCode \<Rightarrow> u32 \<Rightarrow> Translator \<Rightarrow> (u32 \<times> Translator) res" where
  "map_local c index t =
     (let idx = unat index in
      if length (t_locals_map t) \<le> idx then Inl (Err ''local index out of range'')
      else case t_locals_map t ! idx of
          Some mapped \<Rightarrow> Inr (mapped, t)
        | None \<Rightarrow>
            if length (localsplusnames c) \<le> idx then Inl (Err ''local index out of range'')
            else let (interned, t) = intern_name (localsplusnames c ! idx) t
                 in Inr (interned, t\<lparr>t_locals_map := (t_locals_map t)[idx := Some interned]\<rparr>))"

definition map_deref :: "u32 \<Rightarrow> Translator \<Rightarrow> (u32 \<times> Translator) res" where
  "map_deref index t =
     (let idx = unat index in
      case (if idx < length (t_deref_map t) then t_deref_map t ! idx else None) of
        Some mapped \<Rightarrow> Inr (mapped, t)
      | None \<Rightarrow> Inl (Err ''deref index out of range''))"

section \<open>Operators\<close>

definition bare :: "Opcode \<Rightarrow> Instruction" where
  "bare op = instruction_new op None"

definition op_error :: "string \<Rightarrow> u32 \<Rightarrow> nat \<Rightarrow> string" where
  "op_error what oparg idx = ''unsupported '' @ what @ '' arg '' @ decimal (unat oparg) @ '' at instruction '' @ decimal idx"

definition select_op :: "Opcode list \<Rightarrow> string \<Rightarrow> nat \<Rightarrow> nat \<Rightarrow> u32 \<Rightarrow> Instruction res" where
  "select_op ops what idx k oparg =
     (if k < length ops then Inr (bare (ops ! k)) else Inl (Err (op_error what oparg idx)))"

definition map_compare_op :: "nat \<Rightarrow> u32 \<Rightarrow> Instruction res" where
  "map_compare_op idx oparg =
     select_op [CompareLt, CompareLe, CompareEq, CompareNe, CompareGt, CompareGe] ''COMPARE_OP'' idx
       (unat (drop_bit 5 oparg)) oparg"

definition map_contains_op :: "nat \<Rightarrow> u32 \<Rightarrow> Instruction res" where
  "map_contains_op idx oparg = select_op [CompareIn, CompareNotIn] ''CONTAINS_OP'' idx (unat oparg) oparg"

definition map_is_op :: "nat \<Rightarrow> u32 \<Rightarrow> Instruction res" where
  "map_is_op idx oparg = select_op [CompareIs, CompareIsNot] ''IS_OP'' idx (unat oparg) oparg"

definition map_binary_op :: "nat \<Rightarrow> u32 \<Rightarrow> Instruction res" where
  "map_binary_op idx oparg =
     select_op [BinaryAdd, BinaryAnd, BinaryFloorDiv, BinaryLShift, BinaryMatMul, BinaryMul, BinaryMod, BinaryOr,
       BinaryPow, BinaryRShift, BinarySub, BinaryDiv, BinaryXor, InplaceAdd, BinaryAnd, BinaryFloorDiv,
       BinaryLShift, BinaryMatMul, BinaryMul, BinaryMod, BinaryOr, BinaryPow, BinaryRShift, BinarySub, BinaryDiv,
       BinaryXor, Subscript] ''BINARY_OP'' idx (unat oparg) oparg"

definition starts_with :: "string \<Rightarrow> string \<Rightarrow> bool" where
  "starts_with s p \<longleftrightarrow> take (length p) s = p"

fun contains_str :: "string \<Rightarrow> string \<Rightarrow> bool" where
  "contains_str [] p \<longleftrightarrow> p = []"
| "contains_str (c # s) p \<longleftrightarrow> starts_with (c # s) p \<or> contains_str s p"

definition inplace_names :: "(string list \<times> Opcode) list" where
  "inplace_names =
    [([''ADD''], InplaceAdd), ([''AND''], BinaryAnd), ([''SUBTRACT''], BinarySub), ([''LSHIFT''], BinaryLShift),
     ([''RSHIFT''], BinaryRShift), ([''MATRIX_MULTIPLY'', ''MATMULT''], BinaryMatMul), ([''MULTIPLY''], BinaryMul),
     ([''OR''], BinaryOr), ([''TRUE_DIVIDE''], BinaryDiv), ([''FLOOR_DIVIDE''], BinaryFloorDiv),
     ([''REMAINDER''], BinaryMod), ([''POWER''], BinaryPow), ([''XOR''], BinaryXor)]"

definition map_inplace_binary_op :: "nat \<Rightarrow> string \<Rightarrow> Instruction res" where
  "map_inplace_binary_op idx nm =
     (case find (\<lambda>(ps, _). \<exists>p \<in> set ps. contains_str nm p) inplace_names of
        Some (_, op) \<Rightarrow> Inr (bare op)
      | None \<Rightarrow> Inl (Err (''unsupported '' @ nm @ '' at instruction '' @ decimal idx)))"

section \<open>One instruction\<close>

text \<open>
  How the argument of the lowered instruction is computed from that of the CPython one.
  \<open>NameShift k\<close> keeps the low \<open>k\<close> bits and maps the rest as a name; \<open>TwoLocals\<close> packs two
  locals of four bits each.
\<close>

datatype Mode =
    NoArg | SameArg | FixedArg u32 | NameArg | LocalArg | DerefArg | NameShift nat | TwoLocals
  | Forward1 | Forward2 | Backward2 | Backward1 | ForIterArg

definition lower_arg :: "CpythonCode \<Rightarrow> nat \<Rightarrow> Mode \<Rightarrow> u32 \<Rightarrow> Translator \<Rightarrow> (u32 option \<times> Translator) res" where
  "lower_arg c idx mode a t =
     (let some = (\<lambda>m. bindr m (\<lambda>(v, t). Inr (Some v, t)));
          tgt = (\<lambda>m. bindr m (\<lambda>v. Inr (Some v, t)))
      in case mode of
           NoArg \<Rightarrow> Inr (None, t)
         | SameArg \<Rightarrow> Inr (Some a, t)
         | FixedArg v \<Rightarrow> Inr (Some v, t)
         | NameArg \<Rightarrow> some (map_name c a t)
         | LocalArg \<Rightarrow> some (map_local c a t)
         | DerefArg \<Rightarrow> some (map_deref a t)
         | NameShift k \<Rightarrow>
             bindr (map_name c (drop_bit k a) t) (\<lambda>(mapped, t).
             Inr (Some (push_bit k mapped OR (a AND mask k)), t))
         | TwoLocals \<Rightarrow>
             bindr (map_local c (drop_bit 4 a AND 0x0F) t) (\<lambda>(first, t).
             bindr (map_local c (a AND 0x0F) t) (\<lambda>(second, t).
             Inr (Some (push_bit 16 first OR second), t)))
         | Forward1 \<Rightarrow> tgt (relative_forward_target idx a)
         | Forward2 \<Rightarrow> tgt (relative_forward_target_plus_two idx a)
         | Backward2 \<Rightarrow> tgt (relative_backward_target idx a)
         | Backward1 \<Rightarrow> tgt (relative_backward_no_interrupt_target idx a)
         | ForIterArg \<Rightarrow> tgt (for_iter_target idx a))"

text \<open>The arms of the \<open>match\<close> that name an opcode, in the order of the source.\<close>

definition lower_basic :: "(string list \<times> Opcode \<times> Mode) list" where
  "lower_basic =
    [([''CACHE'', ''RESUME'', ''RESUME_CHECK'', ''NOP'', ''NOT_TAKEN'', ''EXTENDED_ARG'', ''RETURN_GENERATOR'',
       ''COPY_FREE_VARS'', ''END_SEND'', ''CLEANUP_THROW'', ''SETUP_WITH'', ''SETUP_FINALLY'', ''SETUP_CLEANUP'',
       ''INSTRUMENTED_INSTRUCTION'', ''INSTRUMENTED_NOT_TAKEN'', ''INSTRUMENTED_LINE'',
       ''ANNOTATIONS_PLACEHOLDER'', ''INTERPRETER_EXIT'', ''ENTER_EXECUTOR''], Nop, NoArg),
     ([''MAKE_CELL''], MakeCell, LocalArg),
     ([''POP_TOP''], PopTop, NoArg),
     ([''POP_ITER''], PopTop, NoArg),
     ([''INSTRUMENTED_POP_ITER''], PopTop, NoArg),
     ([''RETURN_VALUE''], ReturnValue, NoArg),
     ([''INSTRUMENTED_RETURN_VALUE''], ReturnValue, NoArg),
     ([''RETURN_CONST''], ReturnConst, SameArg),
     ([''LOAD_CONST'', ''LOAD_CONST_MORTAL'', ''LOAD_CONST_IMMORTAL''], LoadConst, SameArg),
     ([''SETUP_ANNOTATIONS''], SetupAnnotations, NoArg),
     ([''LOAD_NAME''], LoadName, NameArg),
     ([''LOAD_LOCALS''], LoadLocals, NoArg),
     ([''LOAD_FROM_DICT_OR_GLOBALS''], LoadFromDictOrGlobals, NameArg),
     ([''LOAD_FROM_DICT_OR_DEREF''], LoadFromDictOrDeref, DerefArg),
     ([''STORE_NAME''], StoreName, NameArg),
     ([''DELETE_NAME''], DeleteName, NameArg),
     ([''DELETE_FAST''], DeleteFast, LocalArg),
     ([''LOAD_DEREF''], LoadDeref, DerefArg),
     ([''STORE_DEREF''], StoreDeref, DerefArg),
     ([''LOAD_CLOSURE''], LoadClosure, DerefArg),
     ([''LOAD_GLOBAL'', ''LOAD_GLOBAL_ADAPTIVE'', ''LOAD_GLOBAL_BUILTIN'', ''LOAD_GLOBAL_MODULE''],
        LoadGlobal, NameShift 1)]"

definition lower_attributes :: "(string list \<times> Opcode \<times> Mode) list" where
  "lower_attributes =
    [([''STORE_GLOBAL''], StoreGlobal, NameArg),
     ([''LOAD_SUPER_ATTR''], LoadSuperAttr, NameShift 2),
     ([''LOAD_SPECIAL''], LoadSpecial, SameArg),
     ([''DELETE_ATTR''], DeleteAttr, NameArg),
     ([''LOAD_BUILD_CLASS''], LoadBuildClass, NoArg),
     ([''PUSH_NULL''], PushNull, NoArg),
     ([''GET_AWAITABLE''], GetAwaitable, NoArg),
     ([''MAKE_FUNCTION''], MakeFunctionStack, NoArg),
     ([''SET_FUNCTION_ATTRIBUTE''], SetFunctionAttribute, SameArg)]"

definition lower_calls_jumps :: "(string list \<times> Opcode \<times> Mode) list" where
  "lower_calls_jumps =
    [([''CALL_KW'', ''INSTRUMENTED_CALL_KW'', ''CALL_KW_BOUND_METHOD'', ''CALL_KW_NON_PY'', ''CALL_KW_PY''],
        CallCpythonKwStack, SameArg),
     ([''CALL_FUNCTION_EX''], CallFunctionEx, SameArg),
     ([''CALL_INTRINSIC_1''], CallIntrinsic1, SameArg),
     ([''CALL_INTRINSIC_2''], CallIntrinsic2, SameArg),
     ([''POP_JUMP_IF_FALSE''], JumpIfFalse, Forward2),
     ([''INSTRUMENTED_POP_JUMP_IF_FALSE''], JumpIfFalse, Forward2),
     ([''POP_JUMP_IF_TRUE''], JumpIfTrue, Forward2),
     ([''INSTRUMENTED_POP_JUMP_IF_TRUE''], JumpIfTrue, Forward2),
     ([''POP_JUMP_IF_NONE'', ''INSTRUMENTED_POP_JUMP_IF_NONE''], JumpIfNone, Forward2),
     ([''POP_JUMP_IF_NOT_NONE'', ''INSTRUMENTED_POP_JUMP_IF_NOT_NONE''], JumpIfNotNone, Forward2),
     ([''JUMP_FORWARD'', ''INSTRUMENTED_JUMP_FORWARD''], Jump, Forward1),
     ([''JUMP_BACKWARD'', ''JUMP_BACKWARD_NO_JIT'', ''JUMP_BACKWARD_JIT'', ''INSTRUMENTED_JUMP_BACKWARD''],
        Jump, Backward2),
     ([''JUMP_BACKWARD_NO_INTERRUPT''], Jump, Backward1),
     ([''JUMP'', ''JUMP_NO_INTERRUPT''], Jump, Forward1),
     ([''GET_ITER''], GetIter, NoArg),
     ([''GET_YIELD_FROM_ITER''], GetIter, NoArg),
     ([''GET_LEN''], GetLen, NoArg),
     ([''FOR_ITER''], ForIter, ForIterArg),
     ([''INSTRUMENTED_FOR_ITER'', ''FOR_ITER_GEN'', ''FOR_ITER_LIST'', ''FOR_ITER_RANGE'', ''FOR_ITER_TUPLE''],
        ForIter, ForIterArg),
     ([''SEND'', ''SEND_GEN''], Send, Forward2),
     ([''YIELD_VALUE''], YieldValue, NoArg),
     ([''INSTRUMENTED_YIELD_VALUE''], YieldValue, NoArg),
     ([''YIELD_FROM''], YieldFrom, NoArg),
     ([''END_FOR'', ''INSTRUMENTED_END_FOR''], EndFor, NoArg)]"

definition lower_builders :: "(string list \<times> Opcode \<times> Mode) list" where
  "lower_builders =
    [([''BUILD_LIST''], BuildList, SameArg),
     ([''BUILD_SET''], BuildSet, SameArg),
     ([''BUILD_TUPLE''], BuildTuple, SameArg),
     ([''BUILD_STRING''], BuildString, SameArg),
     ([''BUILD_INTERPOLATION''], BuildInterpolation, SameArg),
     ([''BUILD_TEMPLATE''], BuildTemplate, NoArg),
     ([''LIST_APPEND''], ListAppend, SameArg),
     ([''SET_ADD''], SetAdd, SameArg),
     ([''LIST_EXTEND''], ListExtend, SameArg),
     ([''SET_UPDATE''], SetUpdate, SameArg),
     ([''BUILD_MAP'', ''BUILD_DICT''], BuildDict, SameArg),
     ([''MAP_ADD''], MapAdd, SameArg),
     ([''DICT_UPDATE''], DictUpdate, SameArg),
     ([''DICT_MERGE''], DictMerge, SameArg),
     ([''BUILD_SLICE''], BuildSlice, SameArg),
     ([''COPY''], Copy, SameArg),
     ([''SWAP''], Swap, SameArg),
     ([''UNPACK_SEQUENCE'', ''UNPACK_SEQUENCE_LIST'', ''UNPACK_SEQUENCE_TUPLE'', ''UNPACK_SEQUENCE_TWO_TUPLE''],
        UnpackSequenceCpython, SameArg),
     ([''UNPACK_EX''], UnpackExCpython, SameArg),
     ([''IMPORT_NAME''], ImportNameCpython, NameArg),
     ([''IMPORT_FROM''], ImportFromCpython, NameArg),
     ([''UNARY_NEGATIVE''], UnaryNeg, NoArg),
     ([''UNARY_POSITIVE''], UnaryPos, NoArg),
     ([''UNARY_NOT''], UnaryNot, NoArg),
     ([''UNARY_INVERT''], UnaryInvert, NoArg),
     ([''CONVERT_VALUE''], ConvertValue, SameArg),
     ([''FORMAT_SIMPLE''], FormatSimple, NoArg),
     ([''FORMAT_WITH_SPEC''], FormatWithSpec, NoArg),
     ([''TO_BOOL'', ''TO_BOOL_ALWAYS_TRUE'', ''TO_BOOL_BOOL'', ''TO_BOOL_INT'', ''TO_BOOL_LIST'', ''TO_BOOL_NONE'',
       ''TO_BOOL_STR''], ToBool, NoArg)]"

definition lower_rest :: "(string list \<times> Opcode \<times> Mode) list" where
  "lower_rest =
    [([''STORE_SUBSCR'', ''STORE_SUBSCR_DICT'', ''STORE_SUBSCR_LIST_INT''], StoreSubscript, FixedArg 1),
     ([''STORE_SLICE''], StoreSlice, NoArg),
     ([''DELETE_SUBSCR''], DeleteSubscript, NoArg),
     ([''BINARY_SLICE''], BinarySlice, NoArg),
     ([''PUSH_EXC_INFO''], PushExcInfo, NoArg),
     ([''POP_EXCEPT''], PopExcept, NoArg),
     ([''WITH_EXCEPT_START''], WithExceptStart, NoArg),
     ([''RERAISE''], Reraise, SameArg),
     ([''RAISE_VARARGS''], Raise, SameArg),
     ([''CHECK_EXC_MATCH''], CheckExcMatch, NoArg),
     ([''POP_BLOCK''], Nop, NoArg)]"

definition lower_exact :: "(string list \<times> Opcode \<times> Mode) list" where
  "lower_exact = lower_basic @ lower_attributes @ lower_calls_jumps @ lower_builders @ lower_rest"

text \<open>
  The arms guarded by \<open>starts_with\<close>, in the order of the source. No name of an exact arm
  starts with one of these prefixes, so that the exact arms may be tried first.
\<close>

definition lower_fast :: "string \<Rightarrow> (Opcode \<times> Mode) option" where
  "lower_fast nm =
     (if starts_with nm ''LOAD_FAST'' then
        Some (if nm = ''LOAD_FAST_LOAD_FAST'' \<or> nm = ''LOAD_FAST_BORROW_LOAD_FAST_BORROW''
              then (LoadFast2, TwoLocals)
              else if nm = ''LOAD_FAST_AND_CLEAR'' then (LoadFastAndClear, LocalArg)
              else (LoadFast, LocalArg))
      else if starts_with nm ''STORE_FAST'' then
        Some (if nm = ''STORE_FAST_LOAD_FAST'' then (StoreFastLoadFast, TwoLocals)
              else if nm = ''STORE_FAST_STORE_FAST'' then (StoreFastStoreFast, TwoLocals)
              else (StoreFast, LocalArg))
      else if starts_with nm ''LOAD_ATTR'' then Some (LoadAttr, NameShift 1)
      else if starts_with nm ''STORE_ATTR'' then Some (StoreAttrCpython, NameArg)
      else None)"

definition lower_prefixes :: "(string list \<times> Opcode \<times> Mode) list" where
  "lower_prefixes =
    [([''BINARY_OP_ADD''], BinaryAdd, NoArg),
     ([''BINARY_OP_SUBTRACT''], BinarySub, NoArg),
     ([''BINARY_OP_MULTIPLY''], BinaryMul, NoArg),
     ([''BINARY_OP_MATRIX_MULTIPLY'', ''BINARY_OP_MATMULT''], BinaryMatMul, NoArg),
     ([''BINARY_OP_TRUE_DIVIDE''], BinaryDiv, NoArg),
     ([''BINARY_OP_FLOOR_DIVIDE''], BinaryFloorDiv, NoArg),
     ([''BINARY_OP_REMAINDER''], BinaryMod, NoArg),
     ([''BINARY_OP_POWER''], BinaryPow, NoArg),
     ([''BINARY_OP_LSHIFT''], BinaryLShift, NoArg),
     ([''BINARY_OP_RSHIFT''], BinaryRShift, NoArg),
     ([''BINARY_OP_AND''], BinaryAnd, NoArg),
     ([''BINARY_OP_XOR''], BinaryXor, NoArg),
     ([''BINARY_OP_OR''], BinaryOr, NoArg),
     ([''BINARY_OP_SUBSCR''], Subscript, NoArg),
     ([''MATCH_CLASS''], MatchClass, SameArg),
     ([''MATCH_KEYS''], MatchKeys, NoArg),
     ([''MATCH_MAPPING''], MatchMapping, NoArg),
     ([''MATCH_SEQUENCE''], MatchSequence, NoArg)]"

definition common_constant :: "u32 \<Rightarrow> heap \<Rightarrow> Value \<times> heap" where
  "common_constant a h =
     (if a = 0 then (ExceptionType ''AssertionError'', h)
      else if a = 1 then (ExceptionType ''NotImplementedError'', h)
      else if a = 2 then (let (addr, h) = alloc (TupleCell []) h in (TupleVal addr, h))
      else if a = 3 then (Builtin ''All'', h)
      else if a = 4 then (Builtin ''Any'', h)
      else (NoneVal, h))"

definition plain_call_names :: "string list" where
  "plain_call_names =
    [''CALL'', ''INSTRUMENTED_CALL'', ''CALL_ALLOC_AND_ENTER_INIT'', ''CALL_BOUND_METHOD_EXACT_ARGS'',
     ''CALL_BOUND_METHOD_GENERAL'', ''CALL_BUILTIN_CLASS'', ''CALL_BUILTIN_FAST'',
     ''CALL_BUILTIN_FAST_WITH_KEYWORDS'', ''CALL_BUILTIN_O'', ''CALL_ISINSTANCE'', ''CALL_LEN'',
     ''CALL_LIST_APPEND'', ''CALL_METHOD_DESCRIPTOR_FAST'', ''CALL_METHOD_DESCRIPTOR_FAST_WITH_KEYWORDS'',
     ''CALL_METHOD_DESCRIPTOR_NOARGS'', ''CALL_METHOD_DESCRIPTOR_O'', ''CALL_NON_PY_GENERAL'',
     ''CALL_PY_EXACT_ARGS'', ''CALL_PY_GENERAL'', ''CALL_STR_1'', ''CALL_TUPLE_1'', ''CALL_TYPE_1'']"

definition kw_names_follower :: "string \<Rightarrow> bool" where
  "kw_names_follower nm \<longleftrightarrow> nm \<in> set
    [''CALL'', ''CALL_KW'', ''INSTRUMENTED_CALL'', ''INSTRUMENTED_CALL_KW'', ''CALL_ALLOC_AND_ENTER_INIT'',
     ''CALL_BOUND_METHOD_EXACT_ARGS'', ''CALL_BOUND_METHOD_GENERAL'', ''CALL_BUILTIN_CLASS'', ''CALL_BUILTIN_FAST'',
     ''CALL_BUILTIN_FAST_WITH_KEYWORDS'', ''CALL_BUILTIN_O'', ''CALL_ISINSTANCE'', ''CALL_KW_BOUND_METHOD'',
     ''CALL_KW_NON_PY'', ''CALL_KW_PY'', ''CALL_LEN'', ''CALL_LIST_APPEND'', ''CALL_METHOD_DESCRIPTOR_FAST'',
     ''CALL_METHOD_DESCRIPTOR_FAST_WITH_KEYWORDS'', ''CALL_METHOD_DESCRIPTOR_NOARGS'', ''CALL_METHOD_DESCRIPTOR_O'',
     ''CALL_NON_PY_GENERAL'', ''CALL_PY_EXACT_ARGS'', ''CALL_PY_GENERAL'', ''CALL_STR_1'', ''CALL_TUPLE_1'',
     ''CALL_TYPE_1'', ''CACHE'', ''RESUME'', ''RESUME_CHECK'', ''NOP'', ''NOT_TAKEN'', ''EXTENDED_ARG'']"

definition lower_with :: "CpythonCode \<Rightarrow> nat \<Rightarrow> Opcode \<Rightarrow> Mode \<Rightarrow> u32 \<Rightarrow> Translator \<Rightarrow> (Instruction \<times> Translator) res" where
  "lower_with c idx op mode a t = bindr (lower_arg c idx mode a t) (\<lambda>(v, t). Inr (instruction_new op v, t))"

text \<open>Every arm that leaves the pending keyword names alone.\<close>

definition lower_instruction ::
  "CpythonCode \<Rightarrow> nat \<Rightarrow> bool \<Rightarrow> string \<Rightarrow> u32 \<Rightarrow> Translator \<Rightarrow> (Instruction \<times> Translator) res" where
  "lower_instruction c idx prev_was_return_generator nm a t =
     (if nm = ''POP_TOP'' \<and> prev_was_return_generator then Inr (bare Nop, t)
      else if nm = ''LOAD_SMALL_INT'' then
        (let (k, t) = t_add_const (IntVal (ucast a)) t in Inr (instruction_new LoadConst (Some k), t))
      else if nm = ''LOAD_COMMON_CONSTANT'' then
        (let (v, h) = common_constant a (t_heap t);
             (k, t) = t_add_const v (t\<lparr>t_heap := h\<rparr>)
         in Inr (instruction_new LoadConst (Some k), t))
      else if nm \<in> {''COMPARE_OP'', ''COMPARE_OP_FLOAT'', ''COMPARE_OP_INT'', ''COMPARE_OP_STR''} then
        bindr (map_compare_op idx a) (\<lambda>i. Inr (i, t))
      else if nm \<in> {''CONTAINS_OP'', ''CONTAINS_OP_DICT'', ''CONTAINS_OP_SET''} then
        bindr (map_contains_op idx a) (\<lambda>i. Inr (i, t))
      else if nm = ''IS_OP'' then bindr (map_is_op idx a) (\<lambda>i. Inr (i, t))
      else if nm = ''BINARY_OP'' then bindr (map_binary_op idx a) (\<lambda>i. Inr (i, t))
      else case find (\<lambda>(ns, _). nm \<in> set ns) lower_exact of
          Some (_, op, mode) \<Rightarrow> lower_with c idx op mode a t
        | None \<Rightarrow>
            (case lower_fast nm of
               Some (op, mode) \<Rightarrow> lower_with c idx op mode a t
             | None \<Rightarrow>
                 if starts_with nm ''BINARY_OP_INPLACE'' then
                   bindr (map_inplace_binary_op idx nm) (\<lambda>i. Inr (i, t))
                 else case find (\<lambda>(ps, _). \<exists>p \<in> set ps. starts_with nm p) lower_prefixes of
                     Some (_, op, mode) \<Rightarrow> lower_with c idx op mode a t
                   | None \<Rightarrow>
                       Inl (Err (''unsupported CPython opcode '' @ [CHR 0x27] @ nm @ [CHR 0x27] @ '' (arg='' @
                         decimal (unat a) @ '') at instruction '' @ decimal idx))))"

section \<open>The instruction stream\<close>

fun translate_loop ::
  "CpythonCode \<Rightarrow> nat \<Rightarrow> u16 option \<Rightarrow> bool \<Rightarrow> CpInstr list \<Rightarrow> Translator \<Rightarrow>
   (Instruction list \<times> u16 option \<times> Translator) res" where
  "translate_loop c idx pending prev [] t = Inr ([], pending, t)"
| "translate_loop c idx pending prev (cp # rest) t =
     (let nm = cp_name cp; a = cp_arg cp in
      if pending \<noteq> None \<and> \<not> kw_names_follower nm then
        Inl (Err (''KW_NAMES at instruction '' @ decimal (idx - 1) @ '' is not followed by CALL''))
      else
        bindr
          (if nm = ''KW_NAMES'' then Inr (bare Nop, Some (ucast a), t)
           else if nm \<in> set plain_call_names then
             (let kw_idx = (case pending of Some k \<Rightarrow> k | None \<Rightarrow> - 1);
                  encoded = push_bit 16 (ucast kw_idx) OR (a AND 0xFFFF)
              in Inr (instruction_new CallCpython (Some encoded), None, t))
           else bindr (lower_instruction c idx prev nm a t) (\<lambda>(i, t). Inr (i, pending, t)))
          (\<lambda>(i, pending, t).
             bindr (translate_loop c (Suc idx) pending (nm = ''RETURN_GENERATOR'') rest t) (\<lambda>(is, pending, t).
             Inr (i # is, pending, t))))"

definition translate_instructions ::
  "(u8 \<rightharpoonup> string) \<Rightarrow> CpythonCode \<Rightarrow> Translator \<Rightarrow> (Instruction list \<times> Translator) res" where
  "translate_instructions opmap c t =
     bindr (decode_instructions (code c) opmap) (\<lambda>cps.
     bindr (validate_cpython_control_flow cps) (\<lambda>_.
     bindr (translate_loop c 0 None False cps t) (\<lambda>(result, pending, t).
     if pending \<noteq> None then Inl (Err ''dangling KW_NAMES without CALL'')
     else bindr (validate_translated_code result) (\<lambda>_. Inr (result, t)))))"

end
