(* ===== verification/Linetable.thy ===== *)
theory Linetable
  imports Codetables
begin

text \<open>
  The compressed location table of a CPython code object, decoded by
  \<open>decode_cpython_linetable_locations\<close> of \<^verbatim>\<open>src/bytecode/cpython.rs\<close> into one location per
  instruction. An entry starts with a byte whose top bit is set; the next four bits select
  the form of the payload and the last three the number of instructions minus one.
\<close>

section \<open>Payload readers\<close>

definition read_byte_from_linetable :: "u8 list \<Rightarrow> nat \<Rightarrow> (int \<times> nat) res" where
  "read_byte_from_linetable linetable cursor =
     (if length linetable \<le> cursor
      then Inl (Err ''invalid linetable: truncated payload while reading byte'')
      else Inr (uint (linetable ! cursor), cursor + 1))"

text \<open>Six bits per byte, least significant first. A shift by 32 or more is an overflow.\<close>

function varint_loop :: "u8 list \<Rightarrow> nat \<Rightarrow> nat \<Rightarrow> u32 \<Rightarrow> (u32 \<times> nat) res" where
  "varint_loop linetable cursor shift v =
     (if length linetable \<le> cursor
      then Inl (Err ''invalid linetable: truncated payload while reading varint'')
      else let rd = linetable ! cursor
           in if 32 \<le> shift then Inl (Panic ''attempt to shift left with overflow'')
              else let v' = v OR push_bit shift (ucast (rd AND 0x3F))
                   in if rd AND 0x40 = 0 then Inr (v', cursor + 1)
                      else varint_loop linetable (cursor + 1) (shift + 6) v')"
  by pat_completeness auto
termination
  by (relation "measure (\<lambda>(linetable, cursor, shift, v). length linetable - cursor)") auto

declare varint_loop.simps [simp del]

definition read_varint_from_linetable :: "u8 list \<Rightarrow> nat \<Rightarrow> (int \<times> nat) res" where
  "read_varint_from_linetable linetable cursor =
     bindr (varint_loop linetable cursor 0 0) (\<lambda>(v, cursor). Inr (as_i32 v, cursor))"

definition read_signed_varint_from_linetable :: "u8 list \<Rightarrow> nat \<Rightarrow> (int \<times> nat) res" where
  "read_signed_varint_from_linetable linetable cursor =
     bindr (varint_loop linetable cursor 0 0) (\<lambda>(v, cursor).
     if v AND 1 = 1 then Inr (- as_i32 (drop_bit 1 v), cursor)
     else Inr (as_i32 (drop_bit 1 v), cursor))"

section \<open>Entries\<close>

definition PY_CODE_LOCATION_INFO_ONE_LINE0 :: nat where "PY_CODE_LOCATION_INFO_ONE_LINE0 = 10"
definition PY_CODE_LOCATION_INFO_ONE_LINE2 :: nat where "PY_CODE_LOCATION_INFO_ONE_LINE2 = 12"
definition PY_CODE_LOCATION_INFO_NO_COLUMNS :: nat where "PY_CODE_LOCATION_INFO_NO_COLUMNS = 13"
definition PY_CODE_LOCATION_INFO_LONG :: nat where "PY_CODE_LOCATION_INFO_LONG = 14"
definition PY_CODE_LOCATION_INFO_NONE :: nat where "PY_CODE_LOCATION_INFO_NONE = 15"

lemmas location_info_defs = PY_CODE_LOCATION_INFO_ONE_LINE0_def PY_CODE_LOCATION_INFO_ONE_LINE2_def
  PY_CODE_LOCATION_INFO_NO_COLUMNS_def PY_CODE_LOCATION_INFO_LONG_def PY_CODE_LOCATION_INFO_NONE_def

text \<open>
  The \<open>match\<close> on the form: the start line and column, the end line and column, the running
  line and the cursor after the payload.
\<close>

type_synonym span = "int \<times> int \<times> int \<times> int"

definition decode_payload :: "u8 list \<Rightarrow> nat \<Rightarrow> nat \<Rightarrow> int \<Rightarrow> (span \<times> int \<times> nat) res" where
  "decode_payload linetable info_kind cursor computed_line =
     (if info_kind = PY_CODE_LOCATION_INFO_NONE then Inr ((-1, -1, -1, -1), computed_line, cursor)
      else if info_kind = PY_CODE_LOCATION_INFO_LONG then
        bindr (read_signed_varint_from_linetable linetable cursor) (\<lambda>(line_delta, cursor).
        bindr (i32_ok (computed_line + line_delta)) (\<lambda>start_line.
        bindr (read_varint_from_linetable linetable cursor) (\<lambda>(end_line_delta, cursor).
        bindr (read_varint_from_linetable linetable cursor) (\<lambda>(sc, cursor).
        bindr (i32_ok (sc - 1)) (\<lambda>start_column.
        bindr (read_varint_from_linetable linetable cursor) (\<lambda>(ec, cursor).
        bindr (i32_ok (ec - 1)) (\<lambda>end_column.
        bindr (i32_ok (start_line + end_line_delta)) (\<lambda>end_line.
        Inr ((start_line, start_column, end_line, end_column), start_line, cursor)))))))))
      else if info_kind = PY_CODE_LOCATION_INFO_NO_COLUMNS then
        bindr (read_signed_varint_from_linetable linetable cursor) (\<lambda>(line_delta, cursor).
        bindr (i32_ok (computed_line + line_delta)) (\<lambda>computed_line.
        Inr ((computed_line, -1, computed_line, -1), computed_line, cursor)))
      else if PY_CODE_LOCATION_INFO_ONE_LINE0 \<le> info_kind \<and> info_kind \<le> PY_CODE_LOCATION_INFO_ONE_LINE2 then
        bindr (i32_ok (computed_line + (int info_kind - 10))) (\<lambda>computed_line.
        bindr (read_byte_from_linetable linetable cursor) (\<lambda>(start_column, cursor).
        bindr (read_byte_from_linetable linetable cursor) (\<lambda>(end_column, cursor).
        Inr ((computed_line, start_column, computed_line, end_column), computed_line, cursor))))
      else
        bindr (read_byte_from_linetable linetable cursor) (\<lambda>(second, cursor).
        if 128 \<le> second
        then Inl (Err ''invalid linetable: short-form payload overlaps entry marker'')
        else let start_column = 8 * int info_kind OR (second div 16);
                 end_column = start_column + second mod 16
             in Inr ((computed_line, start_column, computed_line, end_column), computed_line, cursor)))"

definition one_based :: "int \<Rightarrow> nat" where
  "one_based c = (if c < 0 then 0 else nat c + 1)"

definition span_location :: "span \<Rightarrow> Location" where
  "span_location = (\<lambda>(start_line, start_column, end_line, end_column).
     if start_line < 0 then location_unknown
     else location_with_end (nat (max start_line 0)) (one_based start_column)
            (nat (max end_line 0)) (one_based end_column))"

section \<open>The table\<close>

text \<open>\<open>for slot in &mut locations[from..to]\<close>\<close>

definition fill :: "nat \<Rightarrow> nat \<Rightarrow> 'a \<Rightarrow> 'a list \<Rightarrow> 'a list" where
  "fill i j x xs = take i xs @ replicate (j - i) x @ drop j xs"

function linetable_loop ::
  "u8 list \<Rightarrow> nat \<Rightarrow> nat \<Rightarrow> nat \<Rightarrow> int \<Rightarrow> Location list \<Rightarrow> Location list res" where
  "linetable_loop linetable instruction_count cursor instruction_index computed_line locs =
     (if cursor < length linetable \<and> instruction_index < instruction_count then
        (let first = linetable ! cursor in
         if first AND 0x80 = 0 then Inl (Err ''invalid linetable: expected entry marker byte'')
         else
           let code_units = unat (first AND 0x07) + 1;
               info_kind = unat (drop_bit 3 first AND 0x0F)
           in bindr (decode_payload linetable info_kind (cursor + 1) computed_line) (\<lambda>(sp, computed_line, cursor).
              let entry_end = min (instruction_index + code_units) instruction_count
              in linetable_loop linetable instruction_count cursor entry_end computed_line
                   (fill instruction_index entry_end (span_location sp) locs)))
      else Inr locs)"
  by pat_completeness auto
termination
proof (relation "measure (\<lambda>(linetable, n, cursor, i, line, locs). n - i)", goal_cases)
  case (2 linetable n cursor i)
  then show ?case by auto
qed simp

declare linetable_loop.simps [simp del]

definition decode_cpython_linetable_locations :: "u8 list \<Rightarrow> i32 \<Rightarrow> nat \<Rightarrow> Location list res" where
  "decode_cpython_linetable_locations linetable firstlineno instruction_count =
     linetable_loop linetable instruction_count 0 0 (sint firstlineno)
       (replicate instruction_count location_unknown)"

end
