(* ===== verification/Translate.thy ===== *)
theory Translate
  imports Translator Linetable
begin

text \<open>
  The translation of a whole CPython code object: conversion of the marshalled constants to
  runtime values, nested code objects included, and \<open>Translator::translate\<close>, which puts the
  tables, the lowered instructions, the locations and the exception handlers together. The
  opcode map, read from the opcode metadata, is a parameter.
\<close>

section \<open>Assembly of the code object\<close>

definition CO_FUTURE_ANNOTATIONS :: i32 where "CO_FUTURE_ANNOTATIONS = 0x1000000"

definition code_header :: "CpythonCode \<Rightarrow> Translator \<Rightarrow> Value CodeObject" where
  "code_header c t =
     (code_new NoneVal (name c) (filename c))
       \<lparr>first_line := nat (max (sint (firstlineno c)) 1),
        cellvars := t_cellvars t,
        freevars := t_freevars t,
        is_generator := (flags c AND 0x20 \<noteq> 0),
        is_coroutine := (flags c AND 0x80 \<noteq> 0),
        is_iterable_coroutine := (flags c AND 0x100 \<noteq> 0),
        is_async_generator := (flags c AND 0x200 \<noteq> 0),
        future_annotations_import := (flags c AND CO_FUTURE_ANNOTATIONS \<noteq> 0)\<rparr>"

text \<open>What \<open>translate\<close> does once the constants are converted.\<close>

definition translate_body ::
  "(u8 \<rightharpoonup> string) \<Rightarrow> CpythonCode \<Rightarrow> Value list \<Rightarrow> Translator \<Rightarrow> (Value CodeObject \<times> heap) res" where
  "translate_body opmap c vs t =
     (let t = t\<lparr>t_constants := vs\<rparr> in
      bindr (populate_params c (code_header c t)) (\<lambda>result.
      bindr (translate_instructions opmap c t) (\<lambda>(is, t).
      bindr (decode_cpython_linetable_locations (linetable c) (firstlineno c) (length is)) (\<lambda>locs.
      bindr (parse_exception_table (exceptiontable c) (length is)) (\<lambda>hs.
      Inr (rebuild_layout_indexes
             (result\<lparr>instructions := is, co_names := t_names t, locations := locs,
                     exception_handlers := hs, constants := t_constants t\<rparr>), t_heap t))))))"

section \<open>Constants\<close>

definition slice_bound :: "Value \<Rightarrow> i64 option res" where
  "slice_bound v =
     (case v of
        IntVal i \<Rightarrow> Inr (Some i)
      | BigIntVal b \<Rightarrow> Inr (to_i64 b)
      | NoneVal \<Rightarrow> Inr None
      | _ \<Rightarrow> Inl (Err ''slice expects int or None''))"

text \<open>Conversions thread the heap; the loops over items are \<open>convert_each\<close>.\<close>

type_synonym 'a action = "heap \<Rightarrow> ('a \<times> heap) res"

definition unit_action :: "'a \<Rightarrow> 'a action" where
  "unit_action v = (\<lambda>h. Inr (v, h))"

definition bind_action :: "'a action \<Rightarrow> ('a \<Rightarrow> 'b action) \<Rightarrow> 'b action" where
  "bind_action a f = (\<lambda>h. bindr (a h) (\<lambda>(v, h). f v h))"

definition alloc_value :: "(nat \<Rightarrow> Value) \<Rightarrow> Cell \<Rightarrow> Value action" where
  "alloc_value mk cell = (\<lambda>h. let (addr, h) = alloc cell h in Inr (mk addr, h))"

fun convert_each :: "'a action list \<Rightarrow> 'a list action" where
  "convert_each [] = unit_action []"
| "convert_each (a # as) = bind_action a (\<lambda>v. bind_action (convert_each as) (\<lambda>vs. unit_action (v # vs)))"

definition convert_bound :: "Value action option \<Rightarrow> i64 option action" where
  "convert_bound a =
     (case a of
        None \<Rightarrow> unit_action None
      | Some a \<Rightarrow> bind_action a (\<lambda>v h. bindr (slice_bound v) (\<lambda>b. Inr (b, h))))"

fun convert_object :: "(u8 \<rightharpoonup> string) \<Rightarrow> PyObject \<Rightarrow> Value action"
  and translate_code :: "(u8 \<rightharpoonup> string) \<Rightarrow> CpythonCode \<Rightarrow> Value CodeObject action" where
  "convert_object om NoneObj = unit_action NoneVal"
| "convert_object om StopIteration = unit_action (ExceptionType ''StopIteration'')"
| "convert_object om EllipsisObj = unit_action EllipsisVal"
| "convert_object om (Bool b) = unit_action (BoolVal b)"
| "convert_object om (IntObj i) = unit_action (IntVal i)"
| "convert_object om (BigIntObj b) =
     (case to_i64 b of Some i \<Rightarrow> unit_action (IntVal i) | None \<Rightarrow> unit_action (BigIntVal b))"
| "convert_object om (Float f) = unit_action (FloatVal f)"
| "convert_object om (Complex r i) = unit_action (ComplexVal r i)"
| "convert_object om (Str s) = unit_action (StrVal s)"
| "convert_object om (Tuple items) =
     bind_action (convert_each (map (convert_object om) items)) (\<lambda>vs. alloc_value TupleVal (TupleCell vs))"
| "convert_object om (ListObj items) =
     bind_action (convert_each (map (convert_object om) items)) (\<lambda>vs. alloc_value ListVal (ListCell vs))"
| "convert_object om (Dict entries) =
     bind_action
       (convert_each (map (\<lambda>(k, v). bind_action (convert_object om k) (\<lambda>k.
          bind_action (convert_object om v) (\<lambda>v. unit_action (k, v)))) entries))
       (\<lambda>vs. alloc_value DictVal (DictCell vs))"
| "convert_object om (SetObj items) =
     bind_action (convert_each (map (convert_object om) items)) (\<lambda>vs. alloc_value SetVal (SetCell vs))"
| "convert_object om (FrozenSet items) =
     bind_action (convert_each (map (convert_object om) items)) (\<lambda>vs. alloc_value FrozenSetVal (FrozenSetCell vs))"
| "convert_object om (Code c) =
     bind_action (translate_code om c) (\<lambda>co. alloc_value CodeVal (CodeCell co))"
| "convert_object om (Slice lower upper step) =
     bind_action (convert_bound (map_option (convert_object om) lower)) (\<lambda>l.
     bind_action (convert_bound (map_option (convert_object om) upper)) (\<lambda>u.
     bind_action (convert_bound (map_option (convert_object om) step)) (\<lambda>s.
     unit_action (SliceVal l u s))))"
| "convert_object om (Bytes bs) = alloc_value BytesVal (BytesCell bs)"
| "convert_object om Null = (\<lambda>h. Inl (Err ''unexpected null constant''))"
| "translate_code om (CpythonCode ac po kw ss fl cd cs ns lps lpk fn nm qn fl1 lt et) =
     (\<lambda>h. let c = CpythonCode ac po kw ss fl cd cs ns lps lpk fn nm qn fl1 lt et;
              t = build_deref_maps c (translator_new c h)
          in bindr (convert_each (map (convert_object om) cs) (t_heap t)) (\<lambda>(vs, h).
             translate_body om c vs (t\<lparr>t_heap := h\<rparr>)))"

declare translate_code.simps [simp del]

lemma translate_code_eq:
  "translate_code om c h =
     (let t = build_deref_maps c (translator_new c h) in
      bindr (convert_each (map (convert_object om) (code_consts c)) (t_heap t)) (\<lambda>(vs, h).
      translate_body om c vs (t\<lparr>t_heap := h\<rparr>)))"
  by (cases c) (simp add: translate_code.simps Let_def)

end
