(* ===== verification/Codetables_Spec.thy ===== *)
theory Codetables_Spec
  imports Codetables
begin

text \<open>
  What the decoders of a CPython code object guarantee: extended arguments are assembled
  from their prefixes, jump targets and exception handlers stay within the code, and the
  exception table is the inverse of the encoding CPython documents.
\<close>

section \<open>Words assembled from digits\<close>

lemma ucast_u8_u32_lt: "unat (ucast (b :: u8) :: u32) < 2 ^ 8"
  using u8_lt [of b] by simp

lemma unat_extend:
  fixes ext :: u32
  assumes "unat ext < 2 ^ 24"
  shows "unat (push_bit 8 ext OR ucast (a :: u8)) = unat ext * 256 + unat a"
proof -
  have "unat ext * 2 ^ 8 + unat a < 2 ^ 32" using assms u8_lt [of a] by simp
  then show ?thesis using unat_push_or [of "ucast a :: u32" 8 ext] ucast_u8_u32_lt [of a] by simp
qed

section \<open>The instruction stream\<close>

lemma length_decode_loop: "length (decode_loop opmap ext bytes) = length bytes div 2"
  by (induction opmap ext bytes rule: decode_loop.induct) (simp_all add: Let_def)

lemma decode_loop_append:
  "even (length xs) \<Longrightarrow> \<exists>ext'. decode_loop opmap ext (xs @ ys) = decode_loop opmap ext xs @ decode_loop opmap ext' ys"
  by (induction opmap ext xs rule: decode_loop.induct) (auto simp: Let_def)

text \<open>The encoding of an instruction with \<open>k\<close> extended-argument prefixes.\<close>

definition arg_byte :: "u32 \<Rightarrow> nat \<Rightarrow> u8" where
  "arg_byte a k = of_nat (unat a div 256 ^ k mod 256)"

fun encode_prefixes :: "u8 \<Rightarrow> u32 \<Rightarrow> nat \<Rightarrow> u8 list" where
  "encode_prefixes ext_op a 0 = []"
| "encode_prefixes ext_op a (Suc k) = [ext_op, arg_byte a (Suc k)] @ encode_prefixes ext_op a k"

definition encode_instruction :: "u8 \<Rightarrow> u8 \<Rightarrow> u32 \<Rightarrow> nat \<Rightarrow> u8 list" where
  "encode_instruction ext_op op a k = encode_prefixes ext_op a k @ [op, arg_byte a 0]"

lemma arg_step:
  fixes ext :: u32
  assumes "unat ext = unat a div 256 ^ Suc k" "k < 4"
  shows "unat (push_bit 8 ext OR ucast (arg_byte a k)) = unat a div 256 ^ k"
proof -
  have "unat ext \<le> unat a div 256" using assms(1) by (simp add: div_le_mono2 div_mult2_eq)
  then have "unat ext < 2 ^ 24" using u32_lt [of a] by simp
  then have "unat (push_bit 8 ext OR ucast (arg_byte a k)) = unat ext * 256 + unat (arg_byte a k)"
    by (rule unat_extend)
  also have "unat (arg_byte a k) = unat a div 256 ^ k mod 256" by (simp add: arg_byte_def unat_of_nat)
  also have "unat ext * 256 + unat a div 256 ^ k mod 256 = unat a div 256 ^ k"
    unfolding assms(1) by (simp add: div_mult2_eq mult.commute [of 256])
  finally show ?thesis .
qed

lemma decode_prefixes:
  assumes "opmap ext_op = Some ''EXTENDED_ARG''" "opmap op = Some n" "n \<noteq> ''EXTENDED_ARG''"
  shows "k < 4 \<Longrightarrow> unat ext = unat a div 256 ^ Suc k \<Longrightarrow>
    \<exists>ps. decode_loop opmap ext (encode_prefixes ext_op a k @ [op, arg_byte a 0] @ rest) =
      ps @ [\<lparr>cp_name = n, cp_arg = a\<rparr>] @ decode_loop opmap 0 rest \<and>
      length ps = k \<and> (\<forall>p \<in> set ps. cp_name p = ''EXTENDED_ARG'')"
proof (induction k arbitrary: ext)
  case 0
  have "push_bit 8 ext OR ucast (arg_byte a 0) = a"
    using arg_step [OF "0.prems"(2,1)] by (simp add: word_unat_eq_iff)
  with assms show ?case by simp
next
  case (Suc k)
  let ?e = "push_bit 8 ext OR ucast (arg_byte a (Suc k)) :: u32"
  have "unat ?e = unat a div 256 ^ Suc k" using arg_step [OF Suc.prems(2,1)] .
  with Suc.IH [of ?e] Suc.prems(1) obtain ps where
    "decode_loop opmap ?e (encode_prefixes ext_op a k @ [op, arg_byte a 0] @ rest) =
      ps @ [\<lparr>cp_name = n, cp_arg = a\<rparr>] @ decode_loop opmap 0 rest"
    "length ps = k" "\<forall>p \<in> set ps. cp_name p = ''EXTENDED_ARG''" by auto
  with assms(1) show ?case
    by (intro exI [of _ "\<lparr>cp_name = ''EXTENDED_ARG'', cp_arg = ?e\<rparr> # ps"]) simp
qed

section \<open>Control flow\<close>

lemma control_flow_loop_ok:
  "control_flow_loop len idx is = Inr () \<Longrightarrow> i < length is \<Longrightarrow>
   \<exists>t. jump_target (idx + i) (is ! i) = Inr t \<and> (\<forall>v. t = Some v \<longrightarrow> unat v \<le> len)"
proof (induction len idx "is" arbitrary: i rule: control_flow_loop.induct)
  case (2 len idx instr rest)
  from "2.prems"(1) obtain t where t: "jump_target idx instr = Inr t"
    and ok: "\<forall>v. t = Some v \<longrightarrow> unat v \<le> len" and r: "control_flow_loop len (Suc idx) rest = Inr ()"
    by (auto split: option.splits if_splits)
  show ?case
  proof (cases i)
    case 0
    with t ok show ?thesis by simp
  next
    case (Suc j)
    then have "\<exists>t. jump_target (Suc idx + j) (rest ! j) = Inr t \<and> (\<forall>v. t = Some v \<longrightarrow> unat v \<le> len)"
      using "2.IH" [OF t] r "2.prems"(2) ok by (cases t) (auto split: if_splits)
    with Suc show ?thesis by simp
  qed
qed simp

section \<open>The exception table\<close>

definition handler_ok :: "nat \<Rightarrow> ExceptionHandler \<Rightarrow> bool" where
  "handler_ok n h \<longleftrightarrow> h_start h < h_end h \<and> h_end h \<le> n \<and> h_target h \<le> n"

lemma parse_entry_ok: "parse_entry bytes n index = Inr (h, k) \<Longrightarrow> handler_ok n h"
  by (auto simp: parse_entry_def handler_ok_def Let_def split: if_splits)

lemma exception_loop_ok: "exception_loop bytes n index = Inr hs \<Longrightarrow> h \<in> set hs \<Longrightarrow> handler_ok n h"
proof (induction bytes n index arbitrary: hs rule: exception_loop.induct)
  case (1 bytes n index)
  show ?case
  proof (cases "index < length bytes")
    case True
    from "1.prems"(1) True obtain g k gs where g: "parse_entry bytes n index = Inr (g, k)"
        and gs: "exception_loop bytes n k = Inr gs" and hs: "hs = g # gs"
      by (auto simp: exception_loop.simps [of bytes n index])
    from "1.prems"(2) hs show ?thesis using parse_entry_ok [OF g] "1.IH" [OF True g refl gs] by auto
  next
    case False
    with "1.prems" show ?thesis by (simp add: exception_loop.simps [of bytes n index])
  qed
qed

text \<open>
  The varint of the exception table: digits in base 64, most significant first, all but the
  last with the continuation bit. The top bit of a byte is ignored by the reader (CPython
  sets it on the first byte of an entry).
\<close>

definition digit_byte :: "u8 \<Rightarrow> nat \<Rightarrow> bool \<Rightarrow> bool" where
  "digit_byte b d cont \<longleftrightarrow> unat (b AND 0x3F) = d \<and> (b AND 0x40 \<noteq> 0 \<longleftrightarrow> cont)"

fun varint_bytes :: "u8 list \<Rightarrow> nat list \<Rightarrow> bool" where
  "varint_bytes [b] [d] \<longleftrightarrow> digit_byte b d False"
| "varint_bytes (b # bs) (d # ds) \<longleftrightarrow> digit_byte b d True \<and> varint_bytes bs ds"
| "varint_bytes _ _ \<longleftrightarrow> False"

definition base64_val :: "nat \<Rightarrow> nat list \<Rightarrow> nat" where
  "base64_val v ds = foldl (\<lambda>a d. a * 64 + d) v ds"

lemma base64_simps [simp]: "base64_val v [] = v" "base64_val v (d # ds) = base64_val (v * 64 + d) ds"
  by (simp_all add: base64_val_def)

lemma base64_mono: "v \<le> base64_val v ds"
proof (induction ds arbitrary: v)
  case (Cons d ds)
  have "v \<le> v * 64 + d" by simp
  also have "\<dots> \<le> base64_val (v * 64 + d) ds" by (rule Cons)
  finally show ?case by simp
qed simp

lemma digit_lt: "unat ((b :: u8) AND 0x3F) < 64"
proof -
  have m: "(0x3F :: u8) = mask 6" by (simp add: mask_eq_exp_minus_1)
  show ?thesis unfolding m take_bit_eq_mask [symmetric] unsigned_take_bit_eq by (simp add: take_bit_eq_mod)
qed

lemma varint_tail_bytes:
  assumes "varint_bytes bs (d # ds)" "base64_val (unat v) ds < 2 ^ 32"
  shows "varint_tail (pre @ bs @ post) (length pre) v =
    Inr (of_nat (base64_val (unat v) ds), length pre + length bs)"
  using assms
proof (induction bs arbitrary: d ds pre v)
  case (Cons b bs)
  show ?case
  proof (cases bs)
    case Nil
    with Cons.prems(1) have "ds = []" "digit_byte b d False" by (cases ds; simp)+
    with Nil show ?thesis by (simp add: varint_tail.simps digit_byte_def)
  next
    case bs: (Cons b' bs')
    then obtain e es where ds: "ds = e # es" using Cons.prems(1) by (cases ds) simp_all
    have vb: "digit_byte b d True" "varint_bytes bs (e # es)" using Cons.prems(1) unfolding ds bs by simp_all
    let ?v = "push_bit 6 v OR ucast (b' AND 0x3F) :: u32"
    have e: "unat (b' AND 0x3F) = e"
      using vb(2) unfolding bs by (cases bs'; cases es) (simp_all add: digit_byte_def)
    have le: "unat v * 64 + e \<le> base64_val (unat v) ds" unfolding ds using base64_mono by simp
    have v: "unat ?v = unat v * 64 + e"
      using unat_push_or [of "ucast (b' AND 0x3F) :: u32" 6 v] digit_lt [of b'] e le Cons.prems(2) by simp
    have "varint_tail ((pre @ [b]) @ bs @ post) (length (pre @ [b])) ?v =
        Inr (of_nat (base64_val (unat ?v) es), length (pre @ [b]) + length bs)"
      using Cons.prems(2) v by (intro Cons.IH [OF vb(2)]) (simp add: ds)
    then show ?thesis
      using vb(1) by (simp add: varint_tail.simps [of _ "length pre"] digit_byte_def nth_append v ds bs)
  qed
qed simp

lemma parse_varint_bytes:
  assumes "varint_bytes bs ds" "base64_val 0 ds < 2 ^ 32"
  shows "parse_varint (pre @ bs @ post) (length pre) = Inr (of_nat (base64_val 0 ds), length pre + length bs)"
proof -
  from assms(1) obtain b bs' d ds' where bs: "bs = b # bs'" and ds: "ds = d # ds'"
    by (cases "(bs, ds)" rule: varint_bytes.cases) auto
  have d: "unat (ucast (b AND 0x3F) :: u32) = d"
    using assms(1) unfolding bs ds by (cases bs'; cases ds') (simp_all add: digit_byte_def)
  have "varint_tail (pre @ bs @ post) (length pre) (ucast (b AND 0x3F)) =
      Inr (of_nat (base64_val d ds'), length pre + length bs)"
    using varint_tail_bytes [of bs d ds' "ucast (b AND 0x3F)" pre post] assms d by (simp add: ds)
  then show ?thesis by (simp add: parse_varint_def bs ds nth_append)
qed

definition entry_bytes :: "u8 list \<Rightarrow> ExceptionHandler \<Rightarrow> bool" where
  "entry_bytes bs h \<longleftrightarrow> (\<exists>b1 b2 b3 b4 d1 d2 d3 d4. bs = b1 @ b2 @ b3 @ b4 \<and>
     varint_bytes b1 d1 \<and> varint_bytes b2 d2 \<and> varint_bytes b3 d3 \<and> varint_bytes b4 d4 \<and>
     base64_val 0 d1 = h_start h \<and> base64_val 0 d2 = h_end h - h_start h \<and> base64_val 0 d3 = h_target h \<and>
     base64_val 0 d4 = 2 * h_depth h + of_bool (h_push_lasti h))"

lemma entry_bytesI:
  "varint_bytes b1 d1 \<Longrightarrow> varint_bytes b2 d2 \<Longrightarrow> varint_bytes b3 d3 \<Longrightarrow> varint_bytes b4 d4 \<Longrightarrow>
   base64_val 0 d1 = h_start h \<Longrightarrow> base64_val 0 d2 = h_end h - h_start h \<Longrightarrow> base64_val 0 d3 = h_target h \<Longrightarrow>
   base64_val 0 d4 = 2 * h_depth h + of_bool (h_push_lasti h) \<Longrightarrow> entry_bytes (b1 @ b2 @ b3 @ b4) h"
  unfolding entry_bytes_def by blast

definition handler_fits :: "ExceptionHandler \<Rightarrow> bool" where
  "handler_fits h \<longleftrightarrow> h_end h < 2 ^ 32 \<and> h_target h < 2 ^ 32 \<and> h_depth h < 2 ^ 31"

lemma handler_eqI:
  "h_start g = h_start h \<Longrightarrow> h_end g = h_end h \<Longrightarrow> h_target g = h_target h \<Longrightarrow> h_depth g = h_depth h \<Longrightarrow>
   h_push_lasti g = h_push_lasti h \<Longrightarrow> g = (h :: ExceptionHandler)"
  by (cases g; cases h) simp

lemma parse_entry_bytes:
  assumes "entry_bytes bs h" "handler_ok n h" "handler_fits h"
  shows "parse_entry (pre @ bs @ post) n (length pre) = Inr (h, length pre + length bs)"
proof -
  from assms(1) obtain b1 b2 b3 b4 d1 d2 d3 d4 where bs: "bs = b1 @ b2 @ b3 @ b4" and
    vb: "varint_bytes b1 d1" "varint_bytes b2 d2" "varint_bytes b3 d3" "varint_bytes b4 d4" and
    v: "base64_val 0 d1 = h_start h" "base64_val 0 d2 = h_end h - h_start h" "base64_val 0 d3 = h_target h"
      "base64_val 0 d4 = 2 * h_depth h + of_bool (h_push_lasti h)"
    unfolding entry_bytes_def by blast
  have lt: "base64_val 0 d1 < 2 ^ 32" "base64_val 0 d2 < 2 ^ 32" "base64_val 0 d3 < 2 ^ 32" "base64_val 0 d4 < 2 ^ 32"
    using v assms(2,3) by (auto simp: handler_ok_def handler_fits_def)
  let ?all = "pre @ bs @ post"
  have p1: "parse_varint ?all (length pre) = Inr (of_nat (h_start h), length pre + length b1)"
    using parse_varint_bytes [OF vb(1) lt(1), of pre "b2 @ b3 @ b4 @ post"] v(1) by (simp add: bs)
  have p2: "parse_varint ?all (length pre + length b1) = Inr (of_nat (h_end h - h_start h), length pre + length b1 + length b2)"
    using parse_varint_bytes [OF vb(2) lt(2), of "pre @ b1" "b3 @ b4 @ post"] v(2) by (simp add: bs)
  have p3: "parse_varint ?all (length pre + length b1 + length b2) =
      Inr (of_nat (h_target h), length pre + length b1 + length b2 + length b3)"
    using parse_varint_bytes [OF vb(3) lt(3), of "pre @ b1 @ b2" "b4 @ post"] v(3) by (simp add: bs add.assoc)
  have p4: "parse_varint ?all (length pre + length b1 + length b2 + length b3) =
      Inr (of_nat (2 * h_depth h + of_bool (h_push_lasti h)), length pre + length bs)"
    using parse_varint_bytes [OF vb(4) lt(4), of "pre @ b1 @ b2 @ b3" post] v(4) by (simp only: bs append_assoc length_append add.assoc)
  have u: "unat (of_nat (h_start h) :: u32) = h_start h" "unat (of_nat (h_end h - h_start h) :: u32) = h_end h - h_start h"
      "unat (of_nat (h_target h) :: u32) = h_target h"
      "unat (of_nat (2 * h_depth h + of_bool (h_push_lasti h)) :: u32) = 2 * h_depth h + of_bool (h_push_lasti h)"
    using lt v by (simp_all add: unat_of_nat del: of_nat_add of_nat_mult)
  have s: "saturating_add (h_start h) (h_end h - h_start h) = h_end h"
    using assms(2,3) by (simp add: saturating_add_def handler_ok_def handler_fits_def)
  show ?thesis unfolding parse_entry_def
    using assms(2) by (simp only: p1 p2 p3 p4 bindr_simps case_prod_conv Let_def u s)
      (auto simp: handler_ok_def intro!: handler_eqI)
qed

lemma exception_loop_bytes:
  assumes "list_all2 entry_bytes bss hs" "\<forall>h \<in> set hs. handler_ok n h \<and> handler_fits h"
  shows "exception_loop (pre @ concat bss) n (length pre) = Inr hs"
  using assms
proof (induction bss hs arbitrary: pre rule: list_all2_induct)
  case Nil
  then show ?case by (simp add: exception_loop.simps)
next
  case (Cons bs bss h hs)
  have p: "parse_entry (pre @ bs @ concat bss) n (length pre) = Inr (h, length pre + length bs)"
    using Cons.hyps(1) Cons.prems by (intro parse_entry_bytes) simp_all
  then have "length pre < length (pre @ bs @ concat bss)" using parse_entry_progress [OF p] by simp
  moreover have "exception_loop ((pre @ bs) @ concat bss) n (length (pre @ bs)) = Inr hs"
    using Cons.prems by (intro Cons.IH) simp
  ultimately show ?case using p by (simp add: exception_loop.simps [of _ n "length pre"])
qed

section \<open>Properties\<close>

text \<open>
  C14. Extended arguments. An instruction written with up to three \<open>EXTENDED_ARG\<close> prefixes (and
  at least as many as its argument needs) is decoded to those prefixes followed by the
  instruction with its full 32-bit argument, and decoding goes on with a cleared prefix.
\<close>

theorem extended_args_decode:
  assumes "opmap ext_op = Some ''EXTENDED_ARG''" "opmap op = Some n" "n \<noteq> ''EXTENDED_ARG''"
    and "k < 4" "unat a < 256 ^ Suc k"
  shows "\<exists>ps. decode_loop opmap 0 (encode_instruction ext_op op a k @ rest) =
      ps @ [\<lparr>cp_name = n, cp_arg = a\<rparr>] @ decode_loop opmap 0 rest \<and>
      length ps = k \<and> (\<forall>p \<in> set ps. cp_name p = ''EXTENDED_ARG'')"
  using decode_prefixes [OF assms(1-3), of k 0 a rest] assms(4,5) by (simp add: encode_instruction_def)

theorem extended_args_decode_witness:
  "\<exists>ps. decode_loop [69 \<mapsto> ''EXTENDED_ARG'', 82 \<mapsto> ''LOAD_CONST''] 0 (encode_instruction 69 82 0x1234 1 @ []) =
      ps @ [\<lparr>cp_name = ''LOAD_CONST'', cp_arg = 0x1234\<rparr>] @
        decode_loop [69 \<mapsto> ''EXTENDED_ARG'', 82 \<mapsto> ''LOAD_CONST''] 0 [] \<and>
      length ps = 1 \<and> (\<forall>p \<in> set ps. cp_name p = ''EXTENDED_ARG'')"
  by (rule extended_args_decode) simp_all

text \<open>
  C15. Exception tables. A table in CPython's variable-length encoding of handlers that lie
  within the code is parsed to exactly these handlers, and whatever is accepted consists of
  non-empty ranges and targets within the code.
\<close>

theorem exception_table_decodes:
  "(list_all2 entry_bytes bss hs \<and> (\<forall>h \<in> set hs. handler_ok n h \<and> handler_fits h) \<longrightarrow>
     parse_exception_table (concat bss) n = Inr hs) \<and>
   (parse_exception_table bytes n = Inr gs \<longrightarrow> (\<forall>g \<in> set gs. handler_ok n g))"
proof (intro conjI impI ballI)
  assume a: "list_all2 entry_bytes bss hs \<and> (\<forall>h \<in> set hs. handler_ok n h \<and> handler_fits h)"
  then have "exception_loop (concat bss) n 0 = Inr hs" using exception_loop_bytes [of bss hs n "[]"] by simp
  moreover have "exception_loop [] n 0 = Inr []" by (simp add: exception_loop.simps)
  ultimately show "parse_exception_table (concat bss) n = Inr hs"
    by (cases "concat bss = []") (auto simp: parse_exception_table_def)
next
  fix g assume "parse_exception_table bytes n = Inr gs" "g \<in> set gs"
  then show "handler_ok n g" by (auto simp: parse_exception_table_def split: if_splits dest: exception_loop_ok)
qed

theorem exception_table_decodes_witness:
  "parse_exception_table [0x81, 0x41, 0x00, 0x03, 0x05] 100 =
     Inr [\<lparr>h_start = 1, h_end = 65, h_target = 3, h_depth = 2, h_push_lasti = True\<rparr>]"
proof -
  let ?h = "\<lparr>h_start = 1, h_end = 65, h_target = 3, h_depth = 2, h_push_lasti = True\<rparr>"
  have "entry_bytes [0x81, 0x41, 0x00, 0x03, 0x05] ?h"
    using entry_bytesI [of "[0x81]" "[1]" "[0x41, 0x00]" "[1, 0]" "[0x03]" "[3]" "[0x05]" "[5]" ?h]
    by (simp add: digit_byte_def)
  then show ?thesis
    using exception_table_decodes [of "[[0x81, 0x41, 0x00, 0x03, 0x05]]" "[?h]" 100 "[]" "[]"]
    by (simp add: handler_ok_def handler_fits_def)
qed



end
