(* ===== verification/Linetable_Spec.thy ===== *)
theory Linetable_Spec
  imports Linetable Codetables_Spec
begin

text \<open>
  The location table as CPython documents it, and the proof that the decoder inverts it. An
  entry covers a number of instructions and has one of five forms; the running line is
  carried from entry to entry.
\<close>

section \<open>The format\<close>

text \<open>
  \<open>LongForm\<close>: line delta, end line delta, start and end column plus one; \<open>OneLineForm\<close>: line delta
  of 0 to 2 and two columns of a byte; \<open>ShortForm\<close>: column group, offset in the group and
  width.
\<close>

datatype form =
    NoneForm
  | LongForm int nat nat nat
  | NoColumnsForm int
  | OneLineForm nat nat nat
  | ShortForm nat nat nat

fun varint :: "nat \<Rightarrow> u8 list" where
  "varint v = (if v < 64 then [of_nat v] else of_nat (64 + v mod 64) # varint (v div 64))"

declare varint.simps [simp del]

definition svarint :: "int \<Rightarrow> u8 list" where
  "svarint i = varint (if i < 0 then 2 * nat (- i) + 1 else 2 * nat i)"

fun form_kind :: "form \<Rightarrow> nat" where
  "form_kind NoneForm = 15"
| "form_kind (LongForm _ _ _ _) = 14"
| "form_kind (NoColumnsForm _) = 13"
| "form_kind (OneLineForm d _ _) = 10 + d"
| "form_kind (ShortForm g _ _) = g"

fun payload :: "form \<Rightarrow> u8 list" where
  "payload NoneForm = []"
| "payload (LongForm ld ed sc ec) = svarint ld @ varint ed @ varint sc @ varint ec"
| "payload (NoColumnsForm ld) = svarint ld"
| "payload (OneLineForm d sc ec) = [of_nat sc, of_nat ec]"
| "payload (ShortForm g off w) = [of_nat (16 * off + w)]"

definition encode_entry :: "nat \<times> form \<Rightarrow> u8 list" where
  "encode_entry = (\<lambda>(units, f). of_nat (128 + 8 * form_kind f + (units - 1)) # payload f)"

text \<open>The span of an entry and the running line after it.\<close>

fun form_span :: "int \<Rightarrow> form \<Rightarrow> span \<times> int" where
  "form_span line NoneForm = ((-1, -1, -1, -1), line)"
| "form_span line (LongForm ld ed sc ec) =
     ((line + ld, int sc - 1, line + ld + int ed, int ec - 1), line + ld)"
| "form_span line (NoColumnsForm ld) = ((line + ld, -1, line + ld, -1), line + ld)"
| "form_span line (OneLineForm d sc ec) = ((line + int d, int sc, line + int d, int ec), line + int d)"
| "form_span line (ShortForm g off w) = ((line, 8 * int g + int off, line, 8 * int g + int off + int w), line)"

definition i32_range :: "int \<Rightarrow> bool" where
  "i32_range i \<longleftrightarrow> - (2 ^ 31) \<le> i \<and> i < 2 ^ 31"

fun form_ok :: "int \<Rightarrow> form \<Rightarrow> bool" where
  "form_ok line NoneForm \<longleftrightarrow> True"
| "form_ok line (LongForm ld ed sc ec) \<longleftrightarrow> \<bar>ld\<bar> < 2 ^ 30 \<and> i32_range (line + ld) \<and> i32_range (line + ld + int ed) \<and>
     ed < 2 ^ 31 \<and> sc < 2 ^ 31 \<and> ec < 2 ^ 31"
| "form_ok line (NoColumnsForm ld) \<longleftrightarrow> \<bar>ld\<bar> < 2 ^ 30 \<and> i32_range (line + ld)"
| "form_ok line (OneLineForm d sc ec) \<longleftrightarrow> d \<le> 2 \<and> sc < 256 \<and> ec < 256 \<and> i32_range (line + int d)"
| "form_ok line (ShortForm g off w) \<longleftrightarrow> g < 10 \<and> off < 8 \<and> w < 16"

fun entries_ok :: "int \<Rightarrow> (nat \<times> form) list \<Rightarrow> bool" where
  "entries_ok line [] \<longleftrightarrow> True"
| "entries_ok line ((units, f) # es) \<longleftrightarrow>
     0 < units \<and> units \<le> 8 \<and> form_ok line f \<and> entries_ok (snd (form_span line f)) es"

fun entry_locations :: "int \<Rightarrow> (nat \<times> form) list \<Rightarrow> Location list" where
  "entry_locations line [] = []"
| "entry_locations line ((units, f) # es) =
     replicate units (span_location (fst (form_span line f))) @ entry_locations (snd (form_span line f)) es"

section \<open>Integers\<close>

lemma low_six: "unat (of_nat n AND 0x3F :: u8) = n mod 64" if "n < 128"
proof -
  have m: "(0x3F :: u8) = mask 6" by (simp add: mask_eq_exp_minus_1)
  show ?thesis using that unfolding m take_bit_eq_mask [symmetric] unsigned_take_bit_eq
    by (simp add: take_bit_eq_mod unat_of_nat)
qed

lemma bit_six: "(of_nat n AND 0x40 :: u8) = 0 \<longleftrightarrow> n < 64" if "n < 128"
proof -
  have "(0x40 :: u8) = push_bit 6 1" by simp
  then have "(of_nat n AND 0x40 :: u8) = 0 \<longleftrightarrow> \<not> bit (of_nat n :: u8) 6"
    by (simp add: bit_iff_and_push_bit_not_eq_0)
  also have "bit (of_nat n :: u8) 6 \<longleftrightarrow> bit (unat (of_nat n :: u8)) 6" by (simp add: bit_unsigned_iff)
  also have "(\<not> \<dots>) \<longleftrightarrow> even (n div 64)" using that by (simp add: bit_iff_odd unat_of_nat)
  also have "n div 64 = (if n < 64 then 0 else 1)" using that by (auto intro: div_nat_eqI)
  also have "even (if n < 64 then 0 else 1 :: nat) \<longleftrightarrow> n < 64" by simp
  finally show ?thesis .
qed

lemma word_of_nat_unat_eq: "of_nat (unat w) = (w :: u32)"
  by simp

lemma varint_loop_bytes:
  assumes "shift < 32" "v * 2 ^ shift < 2 ^ 32" "unat acc < 2 ^ shift"
  shows "varint_loop (pre @ varint v @ post) (length pre) shift acc =
    Inr (of_nat (unat acc + v * 2 ^ shift), length pre + length (varint v))"
  using assms
proof (induction v arbitrary: pre shift acc rule: varint.induct)
  case (1 v)
  define b :: u8 where "b = of_nat (if v < 64 then v else 64 + v mod 64)"
  define acc' :: u32 where "acc' = acc OR push_bit shift (ucast (b AND 0x3F))"
  have d: "unat (ucast (b AND 0x3F) :: u32) = v mod 64"
    using low_six [of "if v < 64 then v else 64 + v mod 64"] by (simp add: b_def)
  have p: "(2 :: nat) ^ 32 = 2 ^ (32 - shift) * 2 ^ shift" using "1.prems"(1) by (simp flip: power_add)
  have "v < 2 ^ (32 - shift)" using "1.prems"(2) unfolding p by simp
  then have "(v mod 64 + 1) * 2 ^ shift \<le> 2 ^ 32" unfolding p by (intro mult_le_mono1) (simp add: le_less_trans Suc_leI)
  then have lt: "v mod 64 * 2 ^ shift + unat acc < 2 ^ 32" using "1.prems"(3) by simp
  have acc: "unat acc' = v mod 64 * 2 ^ shift + unat acc"
    using unat_push_or [of acc shift "ucast (b AND 0x3F) :: u32"] "1.prems"(3) lt
    unfolding d acc'_def by (simp add: or.commute)
  show ?case
  proof (cases "v < 64")
    case True
    then have "unat acc + v * 2 ^ shift = unat acc'" using acc by simp
    then have "of_nat (unat acc + v * 2 ^ shift) = acc'" by (simp only: word_of_nat_unat_eq)
    then show ?thesis using True "1.prems"(1) bit_six [of v]
      by (simp add: varint.simps [of v] varint_loop.simps [of _ "length pre"] Let_def b_def acc'_def)
  next
    case False
    have eq: "v mod 64 * 2 ^ shift + (v div 64) * 2 ^ (shift + 6) = v * 2 ^ shift"
    proof -
      have "v mod 64 * 2 ^ shift + v div 64 * 2 ^ (shift + 6) = (v mod 64 + 64 * (v div 64)) * 2 ^ shift"
        by (simp only: power_add add_mult_distrib) simp
      then show ?thesis by simp
    qed
    have le6: "2 ^ (shift + 6) \<le> (v div 64) * 2 ^ (shift + 6)" using False by simp
    also have "\<dots> \<le> v * 2 ^ shift" using eq by (metis le_add2)
    finally have "2 ^ (shift + 6) < (2 :: nat) ^ 32" using "1.prems"(2) by (rule le_less_trans)
    then have s6: "shift + 6 < 32" by (rule power_less_imp_less_exp [rotated]) simp
    have "unat acc' < 2 ^ (shift + 6)"
    proof -
      have "v mod 64 * 2 ^ shift + unat acc < (v mod 64 + 1) * 2 ^ shift" using "1.prems"(3) by simp
      also have "\<dots> \<le> 64 * 2 ^ shift" by (intro mult_le_mono1) (simp add: Suc_leI)
      finally show ?thesis unfolding acc by (simp add: power_add)
    qed
    then have "varint_loop ((pre @ [b]) @ varint (v div 64) @ post) (length (pre @ [b])) (shift + 6) acc' =
        Inr (of_nat (unat acc' + v div 64 * 2 ^ (shift + 6)), length (pre @ [b]) + length (varint (v div 64)))"
      using False s6 eq "1.prems"(2) by (intro "1.IH") simp_all
    moreover have "unat acc' + v div 64 * 2 ^ (shift + 6) = unat acc + v * 2 ^ shift" using acc eq by simp
    moreover have "varint v = b # varint (v div 64)" "b AND 0x40 \<noteq> 0"
      using False bit_six [of "64 + v mod 64"] by (simp_all add: varint.simps [of v] b_def)
    ultimately show ?thesis using "1.prems"(1)
      by (simp add: varint_loop.simps [of _ "length pre"] Let_def flip: acc'_def)
  qed
qed

lemma sint_small: "n < 2 ^ 31 \<Longrightarrow> sint (of_nat n :: u32) = int n"
  by (simp add: signed_of_nat signed_take_bit_int_eq_self)

lemma unat_half: "n < 2 ^ 32 \<Longrightarrow> unat (drop_bit 1 (of_nat n :: u32)) = n div 2"
  by (simp add: unat_drop_bit_eq unat_of_nat) (simp add: drop_bit_eq_div)

lemma read_varint_bytes:
  assumes "v < 2 ^ 31"
  shows "read_varint_from_linetable (pre @ varint v @ post) (length pre) = Inr (int v, length pre + length (varint v))"
  using varint_loop_bytes [of 0 v 0 pre post] assms
  by (simp add: read_varint_from_linetable_def as_i32_def sint_small)

lemma read_svarint_bytes:
  assumes "\<bar>i\<bar> < 2 ^ 30"
  shows "read_signed_varint_from_linetable (pre @ svarint i @ post) (length pre) = Inr (i, length pre + length (svarint i))"
proof -
  let ?v = "if i < 0 then 2 * nat (- i) + 1 else 2 * nat i"
  have v: "?v < 2 ^ 31" using assms by auto
  have l: "varint_loop (pre @ varint ?v @ post) (length pre) 0 0 = Inr (of_nat ?v, length pre + length (varint ?v))"
    using varint_loop_bytes [of 0 ?v 0 pre post] v by simp
  have odd: "(of_nat ?v AND 1 :: u32) = 1 \<longleftrightarrow> i < 0"
    by (simp add: and_one_eq mod_2_eq_odd)
  have half: "drop_bit 1 (of_nat ?v :: u32) = of_nat (nat \<bar>i\<bar>)"
  proof -
    have "unat (drop_bit 1 (of_nat ?v :: u32)) = ?v div 2"
      using v by (intro unat_half) simp
    also have "\<dots> = nat \<bar>i\<bar>" by auto
    finally show ?thesis by (metis word_of_nat_unat_eq)
  qed
  have "sint (of_nat (nat \<bar>i\<bar>) :: u32) = \<bar>i\<bar>" using assms by (subst sint_small) auto
  then show ?thesis
    using l odd half unfolding svarint_def read_signed_varint_from_linetable_def as_i32_def by auto
qed

section \<open>Entries\<close>

lemma read_byte_at: "read_byte_from_linetable (pre @ b # post) (length pre) = Inr (uint b, length pre + 1)"
  by (simp add: read_byte_from_linetable_def)

lemma i32_ok_range: "i32_range i \<Longrightarrow> i32_ok i = Inr i"
  by (simp add: i32_range_def i32_ok_def)

lemma uint_small: "n < 256 \<Longrightarrow> uint (of_nat n :: u8) = int n"
  by (simp add: unsigned_of_nat take_bit_nat_eq_self)

lemma or_group: "off < 8 \<Longrightarrow> 8 * int g OR int off = 8 * int g + int off"
proof -
  assume "off < 8"
  then have "push_bit 3 g OR off = g * 2 ^ 3 + off" by (intro or_push_nat) simp
  then have "int (8 * g OR off) = 8 * int g + int off" by (simp add: push_bit_eq_mult mult.commute)
  then show ?thesis by (simp add: of_nat_or_eq)
qed

lemma payload_long:
  assumes "form_ok line (LongForm ld ed sc ec)"
  shows "decode_payload (pre @ payload (LongForm ld ed sc ec) @ post) 14 (length pre) line =
    Inr (fst (form_span line (LongForm ld ed sc ec)), line + ld, length pre + length (payload (LongForm ld ed sc ec)))"
proof -
  let ?a = "svarint ld" and ?b = "varint ed" and ?c = "varint sc" and ?d = "varint ec"
  let ?all = "pre @ ?a @ ?b @ ?c @ ?d @ post"
  have r: "read_signed_varint_from_linetable ?all (length pre) = Inr (ld, length pre + length ?a)"
    using assms by (intro read_svarint_bytes) simp
  have r1: "read_varint_from_linetable ?all (length pre + length ?a) = Inr (int ed, length pre + length ?a + length ?b)"
    using read_varint_bytes [of ed "pre @ ?a" "?c @ ?d @ post"] assms by simp
  have r2: "read_varint_from_linetable ?all (length pre + length ?a + length ?b) =
      Inr (int sc, length pre + length ?a + length ?b + length ?c)"
    using read_varint_bytes [of sc "pre @ ?a @ ?b" "?d @ post"] assms by (simp add: add.assoc)
  have r3: "read_varint_from_linetable ?all (length pre + length ?a + length ?b + length ?c) =
      Inr (int ec, length pre + length ?a + length ?b + length ?c + length ?d)"
    using read_varint_bytes [of ec "pre @ ?a @ ?b @ ?c" post] assms by (simp add: add.assoc)
  have k: "i32_ok (line + ld) = Inr (line + ld)" "i32_ok (line + ld + int ed) = Inr (line + ld + int ed)"
    "i32_ok (int sc - 1) = Inr (int sc - 1)" "i32_ok (int ec - 1) = Inr (int ec - 1)"
    using assms by (auto intro!: i32_ok_range simp: i32_range_def)
  have "decode_payload ?all 14 (length pre) line =
      Inr ((line + ld, int sc - 1, line + ld + int ed, int ec - 1), line + ld,
        length pre + length ?a + length ?b + length ?c + length ?d)"
    by (simp add: decode_payload_def location_info_defs r r1 r2 r3 k)
  then show ?thesis by (simp add: add.assoc)
qed

lemma decode_payload_form:
  assumes "form_ok line f"
  shows "decode_payload (pre @ payload f @ post) (form_kind f) (length pre) line =
    Inr (fst (form_span line f), snd (form_span line f), length pre + length (payload f))"
proof (cases f)
  case NoneForm
  then show ?thesis by (simp add: decode_payload_def location_info_defs)
next
  case (LongForm ld ed sc ec)
  then show ?thesis using payload_long [of line ld ed sc ec pre post] assms by simp
next
  case (NoColumnsForm ld)
  then show ?thesis using assms read_svarint_bytes [of ld pre post]
    by (simp add: decode_payload_def location_info_defs i32_ok_range)
next
  case (OneLineForm d sc ec)
  have "read_byte_from_linetable (pre @ of_nat sc # of_nat ec # post) (length pre) = Inr (int sc, length pre + 1)"
    "read_byte_from_linetable (pre @ of_nat sc # of_nat ec # post) (Suc (length pre)) = Inr (int ec, Suc (length pre) + 1)"
    using read_byte_at [of pre "of_nat sc" "of_nat ec # post"] read_byte_at [of "pre @ [of_nat sc]" "of_nat ec" post]
      assms OneLineForm by (simp_all add: uint_small)
  then show ?thesis using assms OneLineForm
    by (simp add: decode_payload_def location_info_defs i32_ok_range)
next
  case (ShortForm g off w)
  let ?n = "16 * off + w"
  have "uint (of_nat ?n :: u8) = int ?n" using assms ShortForm by (intro uint_small) simp
  then have "read_byte_from_linetable (pre @ of_nat ?n # post) (length pre) = Inr (int ?n, length pre + 1)"
    using read_byte_at [of pre "of_nat ?n" post] by simp
  moreover have "int ?n div 16 = int off" "int ?n mod 16 = int w" "int ?n < 128"
    using assms ShortForm by simp_all
  ultimately show ?thesis using assms ShortForm
    by (simp add: decode_payload_def location_info_defs or_group Let_def del: of_nat_add of_nat_mult)
qed

lemma first_byte:
  assumes "k < 16" "0 < u" "u \<le> 8"
  defines "b \<equiv> of_nat (128 + 8 * k + (u - 1)) :: u8"
  shows "b AND 0x80 \<noteq> 0 \<and> unat (b AND 0x07) = u - 1 \<and> unat (drop_bit 3 b AND 0x0F) = k"
proof -
  have ub: "unat b = 128 + 8 * k + (u - 1)" using assms(1-3) unfolding b_def by (subst unat_of_nat) simp
  have m: "(0x07 :: u8) = mask 3" "(0x0F :: u8) = mask 4"
    by (simp_all add: mask_eq_exp_minus_1)
  have "b AND 0x80 \<noteq> 0 \<longleftrightarrow> bit (unat b) 7"
    using bit_iff_and_push_bit_not_eq_0 [of b 7] by (simp add: bit_unsigned_iff)
  moreover have "unat b div 128 = 1" using ub assms(1-3) by (intro div_nat_eqI) simp_all
  moreover have "unat b mod 8 = u - 1" using ub assms(2,3) mod_mult_self2 [of "u - 1" 8 "16 + k"] by (simp add: add.commute)
  moreover have "unat b div 8 = 16 + k" using ub assms(2,3) by (intro div_nat_eqI) simp_all
  ultimately show ?thesis
    using assms(1) unfolding m(1,2) take_bit_eq_mask [symmetric] unsigned_take_bit_eq
    by (simp add: bit_iff_odd take_bit_eq_mod unat_drop_bit_eq) (simp add: drop_bit_eq_div)
qed

lemma form_kind_lt: "form_ok line f \<Longrightarrow> form_kind f < 16"
  by (cases f) auto

section \<open>The table\<close>

lemma fill_next:
  assumes "k \<le> n" "k = length done"
  shows "fill k (min (k + u) n) x (done @ replicate (n - k) y) =
    (let d = take n (done @ replicate u x) in d @ replicate (n - length d) y)"
  using assms by (auto simp: fill_def Let_def min_def)

lemma linetable_loop_entries:
  assumes "entries_ok line es" "length done \<le> n"
  shows "linetable_loop (pre @ concat (map encode_entry es)) n (length pre) (length done) line
      (done @ replicate (n - length done) location_unknown) =
    Inr (take n (done @ entry_locations line es @ replicate n location_unknown))"
  using assms
proof (induction es arbitrary: pre "done" line)
  case Nil
  then show ?case by (simp add: linetable_loop.simps)
next
  case (Cons e es)
  obtain u f where e: "e = (u, f)" by fastforce
  have ok: "0 < u" "u \<le> 8" "form_ok line f" "entries_ok (snd (form_span line f)) es"
    using Cons.prems(1) by (simp_all add: e)
  let ?rest = "concat (map encode_entry es)"
  define b :: u8 where "b = of_nat (128 + 8 * form_kind f + (u - 1))"
  have enc: "pre @ concat (map encode_entry (e # es)) = (pre @ [b]) @ payload f @ ?rest"
    by (simp add: encode_entry_def e b_def)
  show ?case
  proof (cases "length done < n")
    case False
    then show ?thesis using Cons.prems(2) by (simp add: linetable_loop.simps)
  next
    case True
    have fb: "b AND 0x80 \<noteq> 0" "unat (b AND 0x07) + 1 = u" "unat (drop_bit 3 b AND 0x0F) = form_kind f"
      using first_byte [of "form_kind f" u] form_kind_lt [OF ok(3)] ok(1,2) by (simp_all add: b_def)
    let ?sp = "span_location (fst (form_span line f))"
    define d where "d = take n (done @ replicate u ?sp)"
    have len: "min (length done + u) n = length d" by (simp add: d_def)
    have fl: "fill (length done) (length d) ?sp (done @ replicate (n - length done) location_unknown) =
        d @ replicate (n - length d) location_unknown"
      using fill_next [of "length done" n "done" u ?sp location_unknown] Cons.prems(2)
      unfolding len by (simp add: Let_def d_def)
    have dp: "decode_payload ((pre @ [b]) @ payload f @ ?rest) (form_kind f) (length pre + 1) line =
        Inr (fst (form_span line f), snd (form_span line f), length ((pre @ [b]) @ payload f))"
      using decode_payload_form [OF ok(3), of "pre @ [b]" ?rest] by simp
    have IH: "linetable_loop (((pre @ [b]) @ payload f) @ ?rest) n (length ((pre @ [b]) @ payload f)) (length d)
        (snd (form_span line f)) (d @ replicate (n - length d) location_unknown) =
        Inr (take n (d @ entry_locations (snd (form_span line f)) es @ replicate n location_unknown))"
      by (rule Cons.IH [OF ok(4)]) (simp add: d_def)
    have nth: "((pre @ [b]) @ payload f @ ?rest) ! length pre = b" by simp
    have "linetable_loop ((pre @ [b]) @ payload f @ ?rest) n (length pre) (length done) line
        (done @ replicate (n - length done) location_unknown) =
        Inr (take n (d @ entry_locations (snd (form_span line f)) es @ replicate n location_unknown))"
      using IH fb(1) True
      by (subst linetable_loop.simps) (simp only: nth Let_def fb(2,3) dp len, simp add: fl)
    moreover have "take n (d @ xs) = take n ((done @ replicate u ?sp) @ xs)" for xs
      by (cases "n \<le> length (done @ replicate u ?sp)") (simp_all add: d_def)
    ultimately show ?thesis unfolding enc by (simp only: e entry_locations.simps append_assoc)
  qed
qed

lemma linetable_loop_length:
  "linetable_loop lt n cursor i line locs = Inr locs' \<Longrightarrow> i \<le> n \<Longrightarrow> length locs = n \<Longrightarrow> length locs' = n"
proof (induction "n - i" arbitrary: cursor i line locs rule: less_induct)
  case less
  show ?case
  proof (cases "cursor < length lt \<and> i < n")
    case False
    with less.prems show ?thesis by (subst (asm) linetable_loop.simps) simp
  next
    case True
    let ?stop = "min (i + (unat (lt ! cursor AND 7) + 1)) n"
    from True less.prems(1) obtain sp line' cur' where
      L: "linetable_loop lt n cur' ?stop line' (fill i ?stop (span_location sp) locs) = Inr locs'"
      by (subst (asm) linetable_loop.simps) (auto simp: Let_def split: if_splits)
    have "length (fill i ?stop (span_location sp) locs) = n"
      using less.prems(2,3) by (simp add: fill_def min_def)
    moreover have "n - ?stop < n - i" using True by auto
    ultimately show ?thesis using less.hyps [OF _ L] by simp
  qed
qed

lemma linetable_length: "decode_cpython_linetable_locations lt l n = Inr locs \<Longrightarrow> length locs = n"
  using linetable_loop_length [of lt n 0 0] by (simp add: decode_cpython_linetable_locations_def)

section \<open>Properties\<close>

text \<open>
  C21. Location tables. A table written in CPython's format from entries of any of the five
  forms is decoded to the location of each entry repeated for the instructions it covers,
  cut at the number of instructions and filled up with unknown locations.
\<close>

theorem linetable_decodes:
  assumes "entries_ok (sint firstlineno) es"
  shows "decode_cpython_linetable_locations (concat (map encode_entry es)) firstlineno n =
    Inr (take n (entry_locations (sint firstlineno) es @ replicate n location_unknown))"
  using linetable_loop_entries [OF assms, of "[]" n "[]"]
  by (simp add: decode_cpython_linetable_locations_def)

theorem linetable_decodes_witness:
  "decode_cpython_linetable_locations (concat (map encode_entry
      [(2, LongForm (-3) 1 5 9), (1, NoColumnsForm 100), (1, OneLineForm 2 4 8), (3, ShortForm 3 2 7), (1, NoneForm)])) 10 9 =
    Inr (take 9 (entry_locations 10
      [(2, LongForm (-3) 1 5 9), (1, NoColumnsForm 100), (1, OneLineForm 2 4 8), (3, ShortForm 3 2 7), (1, NoneForm)] @
      replicate 9 location_unknown))"
  using linetable_decodes [of 10 "[(2, LongForm (-3) 1 5 9), (1, NoColumnsForm 100), (1, OneLineForm 2 4 8),
    (3, ShortForm 3 2 7), (1, NoneForm)]" 9]
  by (simp add: i32_range_def)

end
