(* ===== verification/Translate_Spec.thy ===== *)
theory Translate_Spec
  imports Translate Bytecode_Spec Codetables_Spec Linetable_Spec
begin

text \<open>
  What the translation of CPython code objects guarantees: the tables of the translator stay
  consistent, the operands of lowered instructions name what the operands of the source
  named, and the assembled code object is well formed.
\<close>

section \<open>The tables of the translator\<close>

definition names_ok :: "Translator \<Rightarrow> bool" where
  "names_ok t \<longleftrightarrow> distinct (t_names t) \<and>
     t_name_index t = (\<lambda>n. map_option of_nat (index_names (t_names t) n))"

lemma intern_name_cases:
  "names_ok t \<Longrightarrow>
   (n \<in> set (t_names t) \<and> snd (intern_name n t) = t \<and>
      (\<exists>i < length (t_names t). t_names t ! i = n \<and> fst (intern_name n t) = of_nat i)) \<or>
   (n \<notin> set (t_names t) \<and> fst (intern_name n t) = of_nat (length (t_names t)) \<and>
      snd (intern_name n t) = t\<lparr>t_names := t_names t @ [n],
        t_name_index := (t_name_index t)(n \<mapsto> of_nat (length (t_names t)))\<rparr>)"
  using index_names_None_iff [of "t_names t" n] index_names_Some [of "t_names t" n]
  by (cases "index_names (t_names t) n") (auto simp: names_ok_def intern_name_def Let_def)

interpretation translator_names: name_table t_names intern_name names_ok
proof (unfold_locales, goal_cases)
  case (1 s)
  then show ?case by (simp add: names_ok_def)
next
  case (2 s n)
  then show ?case using intern_name_cases [OF 2, of n] by auto
next
  case (3 s n)
  then show ?case using intern_name_cases [OF 3, of n]
    by (auto simp: names_ok_def index_names_snoc fun_eq_iff)
next
  case (4 s n)
  then show ?case using intern_name_cases [OF 4(1), of n] by (auto simp: unat_of_nat)
qed

lemma intern_name_frame:
  "names_ok t \<Longrightarrow> \<exists>ns ix. snd (intern_name n t) = t\<lparr>t_names := ns, t_name_index := ix\<rparr>"
proof -
  have "t = t\<lparr>t_names := t_names t, t_name_index := t_name_index t\<rparr>" by simp
  then show "names_ok t \<Longrightarrow> ?thesis" using intern_name_cases [of t n] by metis
qed

text \<open>\<open>named ns src k i\<close>: index \<open>i\<close> of the table \<open>ns\<close> holds the name with index \<open>k\<close> in the source.\<close>

definition named :: "rstring list \<Rightarrow> rstring list \<Rightarrow> nat \<Rightarrow> u32 \<Rightarrow> bool" where
  "named ns src k i \<longleftrightarrow> k < length src \<and> unat i < length ns \<and> ns ! unat i = src ! k"

lemma named_extend: "named ns src k i \<Longrightarrow> named (ns @ ext) src k i"
  by (simp add: named_def nth_append)

definition map_ok :: "rstring list \<Rightarrow> rstring list \<Rightarrow> u32 option list \<Rightarrow> bool" where
  "map_ok ns src mp \<longleftrightarrow> length mp = length src \<and> (\<forall>k i. k < length mp \<longrightarrow> mp ! k = Some i \<longrightarrow> named ns src k i)"

lemma map_ok_extend: "map_ok ns src mp \<Longrightarrow> map_ok (ns @ ext) src mp"
  by (auto simp: map_ok_def named_extend)

lemma map_ok_update: "map_ok ns src mp \<Longrightarrow> named ns src k i \<Longrightarrow> map_ok ns src (mp[k := Some i])"
  by (auto simp: map_ok_def nth_list_update named_def split: if_splits)

definition tables_ok :: "CpythonCode \<Rightarrow> Translator \<Rightarrow> bool" where
  "tables_ok c t \<longleftrightarrow> names_ok t \<and> set (t_names t) \<subseteq> set (names c) \<union> set (localsplusnames c) \<and>
     map_ok (t_names t) (names c) (t_names_map t) \<and> map_ok (t_names t) (localsplusnames c) (t_locals_map t)"

text \<open>The tables are indexed by 32-bit integers.\<close>

definition fits :: "CpythonCode \<Rightarrow> bool" where
  "fits c \<longleftrightarrow> length (names c) + length (localsplusnames c) < 2 ^ 32"

lemma tables_length:
  assumes "tables_ok c t" "fits c"
  shows "length (t_names t) < 2 ^ 32"
proof -
  have "length (t_names t) = card (set (t_names t))"
    using assms(1) by (simp add: tables_ok_def names_ok_def distinct_card)
  also have "\<dots> \<le> card (set (names c) \<union> set (localsplusnames c))"
    using assms(1) by (intro card_mono) (auto simp: tables_ok_def)
  also have "\<dots> \<le> length (names c) + length (localsplusnames c)"
    by (meson card_Un_le card_length add_mono order_trans)
  finally show ?thesis using assms(2) by (simp add: fits_def)
qed

text \<open>\<open>grows t t'\<close>: the state goes on from \<open>t\<close>, with old names, cells and constants in place.\<close>

definition grows :: "Translator \<Rightarrow> Translator \<Rightarrow> bool" where
  "grows t t' \<longleftrightarrow> (\<exists>ext. t_names t' = t_names t @ ext) \<and> (\<exists>ext. t_constants t' = t_constants t @ ext) \<and>
     (\<exists>ext. t_heap t' = t_heap t @ ext) \<and> t_deref_map t' = t_deref_map t \<and>
     t_cellvars t' = t_cellvars t \<and> t_freevars t' = t_freevars t"

lemma grows_refl [simp]: "grows t t"
  by (simp add: grows_def)

lemma grows_trans: "grows t t' \<Longrightarrow> grows t' t'' \<Longrightarrow> grows t t''"
  by (auto simp: grows_def)

lemma tables_new: "tables_ok c (translator_new c h)"
  by (simp add: tables_ok_def translator_new_def names_ok_def map_ok_def)

lemma intern_name_ok:
  assumes "tables_ok c t" "fits c" "n \<in> set (names c) \<union> set (localsplusnames c)"
  shows "tables_ok c (snd (intern_name n t)) \<and> grows t (snd (intern_name n t)) \<and>
    unat (fst (intern_name n t)) < length (t_names (snd (intern_name n t))) \<and>
    t_names (snd (intern_name n t)) ! unat (fst (intern_name n t)) = n"
proof -
  have inv: "names_ok t" using assms(1) by (simp add: tables_ok_def)
  obtain ns ix where fr: "snd (intern_name n t) = t\<lparr>t_names := ns, t_name_index := ix\<rparr>"
    using intern_name_frame [OF inv] by blast
  obtain ext where ext: "t_names (snd (intern_name n t)) = t_names t @ ext"
    using translator_names.intern_prefix [OF inv] by blast
  then have ns: "ns = t_names t @ ext" by (simp add: fr)
  have "set ns \<subseteq> set (names c) \<union> set (localsplusnames c)"
    using translator_names.intern_set [OF inv, of n] assms(1,3) by (auto simp: fr tables_ok_def)
  moreover have "names_ok (t\<lparr>t_names := ns, t_name_index := ix\<rparr>)"
    using translator_names.intern_inv [OF inv, of n] by (simp add: fr)
  ultimately have "tables_ok c (snd (intern_name n t))"
    using assms(1) by (simp add: fr tables_ok_def ns map_ok_extend)
  moreover have "grows t (snd (intern_name n t))" by (simp add: fr ns grows_def)
  ultimately show ?thesis
    using translator_names.intern_at [OF inv tables_length [OF assms(1,2)], of n] by blast
qed

lemma map_name_ok:
  assumes "tables_ok c t" "fits c" "map_name c k t = Inr (i, t')"
  shows "tables_ok c t' \<and> grows t t' \<and> named (t_names t') (names c) (unat k) i"
proof (cases "t_names_map t ! unat k")
  case (Some j)
  then show ?thesis using assms by (auto simp: map_name_def Let_def tables_ok_def map_ok_def split: if_splits)
next
  case None
  let ?r = "intern_name (names c ! unat k) t"
  from assms(3) None have k: "unat k < length (names c)" and i: "i = fst ?r"
    and t': "t' = (snd ?r)\<lparr>t_names_map := (t_names_map (snd ?r))[unat k := Some i]\<rparr>"
    by (auto simp: map_name_def Let_def split: if_splits prod.splits)
  have r: "tables_ok c (snd ?r)" "grows t (snd ?r)" "named (t_names (snd ?r)) (names c) (unat k) i"
    using intern_name_ok [OF assms(1,2), of "names c ! unat k"] k i by (simp_all add: named_def)
  have "tables_ok c t'" using r(1,3) by (simp add: t' tables_ok_def map_ok_update names_ok_def)
  then show ?thesis using r(2,3) by (simp add: t' grows_def)
qed

lemma map_local_ok:
  assumes "tables_ok c t" "fits c" "map_local c k t = Inr (i, t')"
  shows "tables_ok c t' \<and> grows t t' \<and> named (t_names t') (localsplusnames c) (unat k) i"
proof (cases "t_locals_map t ! unat k")
  case (Some j)
  then show ?thesis using assms by (auto simp: map_local_def Let_def tables_ok_def map_ok_def split: if_splits)
next
  case None
  let ?r = "intern_name (localsplusnames c ! unat k) t"
  from assms(3) None have k: "unat k < length (localsplusnames c)" and i: "i = fst ?r"
    and t': "t' = (snd ?r)\<lparr>t_locals_map := (t_locals_map (snd ?r))[unat k := Some i]\<rparr>"
    by (auto simp: map_local_def Let_def split: if_splits prod.splits)
  have r: "tables_ok c (snd ?r)" "grows t (snd ?r)" "named (t_names (snd ?r)) (localsplusnames c) (unat k) i"
    using intern_name_ok [OF assms(1,2), of "localsplusnames c ! unat k"] k i by (simp_all add: named_def)
  have "tables_ok c t'" using r(1,3) by (simp add: t' tables_ok_def map_ok_update names_ok_def)
  then show ?thesis using r(2,3) by (simp add: t' grows_def)
qed

lemma map_deref_ok:
  "map_deref k t = Inr (i, t') \<Longrightarrow> t' = t \<and> unat k < length (t_deref_map t) \<and> t_deref_map t ! unat k = Some i"
  by (auto simp: map_deref_def Let_def split: option.splits if_splits)

section \<open>Operands\<close>

text \<open>What the operand of a lowered instruction means, by the mode of its arm.\<close>

definition resolves :: "CpythonCode \<Rightarrow> Translator \<Rightarrow> nat \<Rightarrow> Mode \<Rightarrow> u32 \<Rightarrow> u32 option \<Rightarrow> bool" where
  "resolves c t idx mode a v =
     (case mode of
        NoArg \<Rightarrow> v = None
      | SameArg \<Rightarrow> v = Some a
      | FixedArg w \<Rightarrow> v = Some w
      | NameArg \<Rightarrow> (\<exists>i. v = Some i \<and> named (t_names t) (names c) (unat a) i)
      | LocalArg \<Rightarrow> (\<exists>i. v = Some i \<and> named (t_names t) (localsplusnames c) (unat a) i)
      | DerefArg \<Rightarrow> unat a < length (t_deref_map t) \<and> v \<noteq> None \<and> t_deref_map t ! unat a = v
      | NameShift k \<Rightarrow> (\<exists>i. v = Some (push_bit k i OR (a AND mask k)) \<and> named (t_names t) (names c) (unat (drop_bit k a)) i)
      | TwoLocals \<Rightarrow> (\<exists>i j. v = Some (push_bit 16 i OR j) \<and>
          named (t_names t) (localsplusnames c) (unat (drop_bit 4 a AND 0x0F)) i \<and>
          named (t_names t) (localsplusnames c) (unat (a AND 0x0F)) j)
      | Forward1 \<Rightarrow> (\<exists>i. v = Some i \<and> relative_forward_target idx a = Inr i)
      | Forward2 \<Rightarrow> (\<exists>i. v = Some i \<and> relative_forward_target_plus_two idx a = Inr i)
      | Backward2 \<Rightarrow> (\<exists>i. v = Some i \<and> relative_backward_target idx a = Inr i)
      | Backward1 \<Rightarrow> (\<exists>i. v = Some i \<and> relative_backward_no_interrupt_target idx a = Inr i)
      | ForIterArg \<Rightarrow> (\<exists>i. v = Some i \<and> for_iter_target idx a = Inr i))"

lemma named_grows: "grows t t' \<Longrightarrow> named (t_names t) src k i \<Longrightarrow> named (t_names t') src k i"
  by (auto simp: grows_def named_extend)

lemma resolves_grows: "grows t t' \<Longrightarrow> resolves c t idx mode a v \<Longrightarrow> resolves c t' idx mode a v"
proof -
  assume g: "grows t t'" and r: "resolves c t idx mode a v"
  have "t_deref_map t' = t_deref_map t" using g by (simp add: grows_def)
  then show ?thesis using r named_grows [OF g] by (cases mode) (simp_all add: resolves_def, blast+)
qed

lemma lower_arg_ok:
  assumes t: "tables_ok c t" and f: "fits c" and l: "lower_arg c idx mode a t = Inr (v, t')"
  shows "tables_ok c t' \<and> grows t t' \<and> resolves c t' idx mode a v"
proof (cases mode)
  case TwoLocals
  with l obtain i u j where i: "map_local c (drop_bit 4 a AND 0x0F) t = Inr (i, u)"
    and j: "map_local c (a AND 0x0F) u = Inr (j, t')" and v: "v = Some (push_bit 16 i OR j)"
    by (auto simp: lower_arg_def)
  note I = map_local_ok [OF t f i]
  note J = map_local_ok [OF conjunct1 [OF I] f j]
  have "named (t_names t') (localsplusnames c) (unat (drop_bit 4 a AND 0x0F)) i" using I J named_grows by blast
  then show ?thesis using I J grows_trans v TwoLocals by (auto simp: resolves_def)
qed (use t l in \<open>auto simp: lower_arg_def resolves_def
       dest: map_name_ok [OF t f] map_local_ok [OF t f] map_deref_ok\<close>)

lemma lower_with_ok:
  assumes "tables_ok c t" "fits c" "lower_with c idx op mode a t = Inr (i, t')"
  shows "tables_ok c t' \<and> grows t t' \<and> opcode i = op \<and> resolves c t' idx mode a (instr_arg i)"
  using assms lower_arg_ok [OF assms(1,2)] by (auto simp: lower_with_def instruction_new_def)

section \<open>Instructions\<close>

lemma t_add_const_ok:
  "tables_ok c t \<Longrightarrow> t_add_const v t = (k, t') \<Longrightarrow> tables_ok c t' \<and> grows t t'"
  by (auto simp: t_add_const_def Let_def tables_ok_def names_ok_def grows_def)

lemma common_constant_heap: "common_constant a h = (v, h') \<Longrightarrow> \<exists>ext. h' = h @ ext"
  by (auto simp: common_constant_def alloc_def split: if_splits)

lemma set_heap_ok: "tables_ok c t \<Longrightarrow> t_heap t = h \<Longrightarrow> h' = h @ ext \<Longrightarrow> tables_ok c (t\<lparr>t_heap := h'\<rparr>) \<and> grows t (t\<lparr>t_heap := h'\<rparr>)"
  by (simp add: tables_ok_def names_ok_def grows_def)

text \<open>The arms with a code of their own, apart from the tables.\<close>

definition special_names :: "string list" where
  "special_names = [''POP_TOP'', ''LOAD_SMALL_INT'', ''LOAD_COMMON_CONSTANT'', ''COMPARE_OP'', ''COMPARE_OP_FLOAT'',
     ''COMPARE_OP_INT'', ''COMPARE_OP_STR'', ''CONTAINS_OP'', ''CONTAINS_OP_DICT'', ''CONTAINS_OP_SET'', ''IS_OP'',
     ''BINARY_OP'', ''KW_NAMES'']"

definition table_arm :: "string \<Rightarrow> (Opcode \<times> Mode) option" where
  "table_arm nm =
     (if nm \<in> set special_names \<or> nm \<in> set plain_call_names then None
      else case find (\<lambda>(ns, _). nm \<in> set ns) lower_exact of
          Some (_, op, mode) \<Rightarrow> Some (op, mode)
        | None \<Rightarrow>
            (case lower_fast nm of
               Some (op, mode) \<Rightarrow> Some (op, mode)
             | None \<Rightarrow>
                 if starts_with nm ''BINARY_OP_INPLACE'' then None
                 else map_option snd (find (\<lambda>(ps, _). \<exists>p \<in> set ps. starts_with nm p) lower_prefixes)))"

lemma lower_instruction_arm:
  assumes "tables_ok c t" "fits c" "lower_instruction c idx prev nm a t = Inr (i, t')" "table_arm nm = Some (op, mode)"
  shows "tables_ok c t' \<and> grows t t' \<and> opcode i = op \<and> resolves c t' idx mode a (instr_arg i)"
proof -
  have "lower_with c idx op mode a t = Inr (i, t')"
    using assms(3,4)
    by (auto simp: lower_instruction_def table_arm_def special_names_def split: if_splits option.splits prod.splits)
  with lower_with_ok [OF assms(1,2)] show ?thesis by blast
qed

text \<open>\<open>carries c t m\<close>: whatever state the computation \<open>m\<close> returns goes on from \<open>t\<close>.\<close>

definition carries :: "CpythonCode \<Rightarrow> Translator \<Rightarrow> ('i \<times> Translator) res \<Rightarrow> bool" where
  "carries c t m \<longleftrightarrow> (\<forall>i t'. m = Inr (i, t') \<longrightarrow> tables_ok c t' \<and> grows t t')"

lemma carries_intros:
  "carries c t (Inl e)"
  "tables_ok c t \<Longrightarrow> carries c t (Inr (i, t))"
  "tables_ok c t \<Longrightarrow> carries c t (bindr m (\<lambda>i. Inr (i, t)))"
  "tables_ok c t \<Longrightarrow> fits c \<Longrightarrow> carries c t (lower_with c idx op mode a t)"
  by (auto simp: carries_def dest: lower_with_ok)

lemma carries_const:
  "tables_ok c t \<Longrightarrow> carries c t (let (k, t) = t_add_const v t in Inr (f k, t))"
  by (auto simp: carries_def split_beta Let_def dest: t_add_const_ok [where v = v and k = "fst (t_add_const v t)" and t' = "snd (t_add_const v t)"])

lemma carries_common:
  assumes t: "tables_ok c t"
  shows "carries c t (let (v, h) = common_constant a (t_heap t);
                        (k, t) = t_add_const v (t\<lparr>t_heap := h\<rparr>) in Inr (f k, t))"
proof -
  obtain v h where cc: "common_constant a (t_heap t) = (v, h)" by fastforce
  obtain k t' where ac: "t_add_const v (t\<lparr>t_heap := h\<rparr>) = (k, t')" by fastforce
  obtain ext where "h = t_heap t @ ext" using common_constant_heap [OF cc] by blast
  then have "tables_ok c (t\<lparr>t_heap := h\<rparr>)" "grows t (t\<lparr>t_heap := h\<rparr>)" using set_heap_ok [OF t] by blast+
  then have "tables_ok c t' \<and> grows t t'" using t_add_const_ok [OF _ ac] grows_trans by blast
  then show ?thesis by (simp add: carries_def cc ac)
qed

lemma carries_if: "carries c t m \<Longrightarrow> carries c t m' \<Longrightarrow> carries c t (if b then m else m')"
  by simp

lemma carries_option: "carries c t m \<Longrightarrow> (\<And>x. carries c t (f x)) \<Longrightarrow> carries c t (case x of None \<Rightarrow> m | Some x \<Rightarrow> f x)"
  by (cases x) simp_all

lemma carries_prod: "(\<And>x y. carries c t (f x y)) \<Longrightarrow> carries c t (case p of (x, y) \<Rightarrow> f x y)"
  by (cases p) simp

lemma lower_instruction_carries: "tables_ok c t \<Longrightarrow> fits c \<Longrightarrow> carries c t (lower_instruction c idx prev nm a t)"
  unfolding lower_instruction_def
  by (intro carries_if carries_const carries_common carries_option carries_prod carries_intros; assumption)

section \<open>The instruction stream\<close>

text \<open>One step of the loop: the pending keyword names and the lowered instruction.\<close>

lemma translate_loop_step:
  assumes "translate_loop c idx pending prev (cp # rest) t = Inr (is, pending', t')"
  obtains i p u js where "is = i # js" "translate_loop c (Suc idx) p (cp_name cp = ''RETURN_GENERATOR'') rest u = Inr (js, pending', t')"
    "if cp_name cp = ''KW_NAMES'' then i = bare Nop \<and> u = t
     else if cp_name cp \<in> set plain_call_names then opcode i = CallCpython \<and> u = t
     else lower_instruction c idx prev (cp_name cp) (cp_arg cp) t = Inr (i, u)"
  using assms
  by (auto simp: Let_def instruction_new_def split: if_splits)

lemma translate_step_ok:
  assumes "tables_ok c t" "fits c"
    and "if cp_name cp = ''KW_NAMES'' then i = bare Nop \<and> u = t
     else if cp_name cp \<in> set plain_call_names then opcode i = CallCpython \<and> u = t
     else lower_instruction c idx prev (cp_name cp) (cp_arg cp) t = Inr (i, u)"
  shows "tables_ok c u \<and> grows t u \<and>
    (\<forall>op mode. table_arm (cp_name cp) = Some (op, mode) \<longrightarrow> opcode i = op \<and> resolves c u idx mode (cp_arg cp) (instr_arg i))"
  using assms lower_instruction_carries [OF assms(1,2), of idx prev "cp_name cp" "cp_arg cp"]
    lower_instruction_arm [OF assms(1,2), of idx prev "cp_name cp" "cp_arg cp" i u]
  by (auto simp: carries_def table_arm_def special_names_def split: if_splits)

lemma translate_loop_ok:
  assumes "tables_ok c t" "fits c" "translate_loop c idx pending prev cps t = Inr (is, pending', t')"
  shows "tables_ok c t' \<and> grows t t' \<and> length is = length cps \<and>
    (\<forall>k < length cps. \<forall>op mode. table_arm (cp_name (cps ! k)) = Some (op, mode) \<longrightarrow>
       opcode (is ! k) = op \<and> resolves c t' (idx + k) mode (cp_arg (cps ! k)) (instr_arg (is ! k)))"
  using assms(1,3)
proof (induction cps arbitrary: idx pending prev t "is")
  case (Cons cp rest)
  from Cons.prems(2) obtain i p u js where "is": "is = i # js"
    and l: "translate_loop c (Suc idx) p (cp_name cp = ''RETURN_GENERATOR'') rest u = Inr (js, pending', t')"
    and st: "if cp_name cp = ''KW_NAMES'' then i = bare Nop \<and> u = t
     else if cp_name cp \<in> set plain_call_names then opcode i = CallCpython \<and> u = t
     else lower_instruction c idx prev (cp_name cp) (cp_arg cp) t = Inr (i, u)"
    by (rule translate_loop_step)
  note S = translate_step_ok [OF Cons.prems(1) assms(2) st]
  note IH = Cons.IH [OF conjunct1 [OF S] l]
  have g: "grows u t'" using IH by blast
  have "tables_ok c t' \<and> grows t t' \<and> length is = length (cp # rest)"
    using S IH grows_trans "is" by auto
  moreover have "opcode (is ! k) = op \<and> resolves c t' (idx + k) mode (cp_arg ((cp # rest) ! k)) (instr_arg (is ! k))"
    if "k < length (cp # rest)" "table_arm (cp_name ((cp # rest) ! k)) = Some (op, mode)" for k op mode
    using that S IH resolves_grows [OF g] "is" by (cases k) auto
  ultimately show ?case by blast
qed simp

section \<open>Cells\<close>

definition is_cell :: "CpythonCode \<Rightarrow> nat \<Rightarrow> bool" where
  "is_cell c idx \<longleftrightarrow> idx < length (localspluskinds c) \<and> localspluskinds c ! idx AND 0x40 \<noteq> 0"

definition is_free :: "CpythonCode \<Rightarrow> nat \<Rightarrow> bool" where
  "is_free c idx \<longleftrightarrow> idx < length (localspluskinds c) \<and> localspluskinds c ! idx AND 0x80 \<noteq> 0"

lemma deref_step_eq:
  "deref_step c (idx, nm) t =
     (let cs = t_cellvars t @ (if is_cell c idx then [nm] else []);
          fs = t_freevars t @ (if is_free c idx then [nm] else [])
      in t\<lparr>t_cellvars := cs, t_freevars := fs,
           t_deref_map := t_deref_map t @
             [if is_free c idx then Some (of_nat (length cs + length fs - 1))
              else if is_cell c idx then Some (of_nat (length cs - 1)) else None]\<rparr>)"
  by (simp add: deref_step_def is_cell_def is_free_def Let_def)

text \<open>The indexes of the first \<open>n\<close> positions that satisfy a predicate.\<close>

definition picks :: "(nat \<Rightarrow> bool) \<Rightarrow> nat \<Rightarrow> nat list" where
  "picks P n = filter P [0..<n]"

lemma picks_Suc: "picks P (Suc n) = picks P n @ (if P n then [n] else [])"
  by (simp add: picks_def)

lemma picks_0 [simp]: "picks P 0 = []"
  by (simp add: picks_def)

lemma picks_nth: "P k \<Longrightarrow> k < n \<Longrightarrow> length (picks P k) < length (picks P n) \<and> picks P n ! length (picks P k) = k"
  by (induction n) (auto simp: picks_Suc nth_append less_Suc_eq)

lemma picks_mono: "k \<le> n \<Longrightarrow> (\<And>j. k \<le> j \<Longrightarrow> j < n \<Longrightarrow> \<not> P j) \<Longrightarrow> picks P n = picks P k"
  by (induction n) (auto simp: picks_Suc le_Suc_eq)

lemma length_picks: "length (picks P n) \<le> n"
  unfolding picks_def by (metis length_filter_le length_upt diff_zero)

definition deref_entry :: "CpythonCode \<Rightarrow> nat \<Rightarrow> u32 option" where
  "deref_entry c k =
     (if is_free c k then Some (of_nat (length (picks (is_cell c) (Suc k)) + length (picks (is_free c) (Suc k)) - 1))
      else if is_cell c k then Some (of_nat (length (picks (is_cell c) (Suc k)) - 1)) else None)"

lemma build_deref_loop:
  assumes "t_cellvars t = []" "t_freevars t = []" "t_deref_map t = []"
  shows "fold (deref_step c) (enumerate 0 ns) t =
     t\<lparr>t_cellvars := map ((!) ns) (picks (is_cell c) (length ns)),
       t_freevars := map ((!) ns) (picks (is_free c) (length ns)),
       t_deref_map := map (deref_entry c) [0..<length ns]\<rparr>"
proof (induction ns rule: rev_induct)
  case Nil
  then show ?case using assms by simp
next
  case (snoc n ns)
  have "map ((!) (ns @ [n])) (picks P (length ns)) = map ((!) ns) (picks P (length ns))" for P
    by (auto simp: picks_def nth_append)
  then show ?case
    using snoc.IH by (simp add: enumerate_append_eq deref_step_eq Let_def picks_Suc deref_entry_def)
qed

lemma build_deref_maps_eq:
  "build_deref_maps c (translator_new c h) = (translator_new c h)
     \<lparr>t_cellvars := map ((!) (localsplusnames c)) (picks (is_cell c) (length (localsplusnames c))),
      t_freevars := map ((!) (localsplusnames c)) (picks (is_free c) (length (localsplusnames c))),
      t_deref_map := map (deref_entry c) [0..<length (localsplusnames c)]\<rparr>"
  unfolding build_deref_maps_def by (rule build_deref_loop) (simp_all add: translator_new_def)

lemma tables_deref: "tables_ok c (build_deref_maps c (translator_new c h))"
  using tables_new [of c h] by (simp add: build_deref_maps_eq tables_ok_def names_ok_def)

text \<open>In the layout of CPython the free variables follow all cells.\<close>

definition frees_last :: "CpythonCode \<Rightarrow> bool" where
  "frees_last c \<longleftrightarrow> (\<forall>i j. is_free c i \<longrightarrow> is_cell c j \<longrightarrow> j \<le> i)"

lemma deref_entry_names:
  assumes "frees_last c" "k < n" "deref_entry c k = Some i" "n < 2 ^ 31"
  shows "(picks (is_cell c) n @ picks (is_free c) n) ! unat i = k \<and>
    unat i < length (picks (is_cell c) n @ picks (is_free c) n)"
proof -
  let ?C = "picks (is_cell c)" let ?F = "picks (is_free c)"
  have bounds: "length (?C (Suc k)) < 2 ^ 31" "length (?F (Suc k)) < 2 ^ 31"
    using length_picks [of "is_cell c" "Suc k"] length_picks [of "is_free c" "Suc k"] assms(2,4) by linarith+
  show ?thesis
  proof (cases "is_free c k")
    case True
    have C: "?C n = ?C (Suc k)" using assms(1,2) True by (intro picks_mono) (fastforce simp: frees_last_def)+
    have "i = of_nat (length (?C (Suc k)) + length (?F (Suc k)) - 1)"
      using assms(3) True by (simp add: deref_entry_def)
    then have "unat i = length (?C (Suc k)) + length (?F (Suc k)) - 1"
      using bounds by (simp only:) (subst unat_of_nat, simp)
    then have "unat i = length (?C (Suc k)) + length (?F k)" using True by (simp add: picks_Suc)
    then show ?thesis using picks_nth [of "is_free c" k n] True assms(2) C by (simp add: nth_append)
  next
    case False
    then have "is_cell c k" using assms(3) by (simp add: deref_entry_def split: if_splits)
    moreover from this False have "unat i = length (?C k)"
      using assms(3) bounds by (auto simp: deref_entry_def picks_Suc unat_of_nat)
    ultimately show ?thesis using picks_nth [of "is_cell c" k n] assms(2) by (simp add: nth_append)
  qed
qed

section \<open>Whole code objects\<close>

lemma translate_instructions_grows:
  assumes "tables_ok c t" "fits c" "translate_instructions om c t = Inr (is, t')"
  shows "\<exists>cps. decode_instructions (code c) om = Inr cps \<and> validate_translated_code is = Inr () \<and>
    tables_ok c t' \<and> grows t t' \<and> length is = length cps \<and>
    (\<forall>k < length cps. \<forall>op mode. table_arm (cp_name (cps ! k)) = Some (op, mode) \<longrightarrow>
       opcode (is ! k) = op \<and> resolves c t' k mode (cp_arg (cps ! k)) (instr_arg (is ! k)))"
proof -
  from assms(3) obtain cps p where d: "decode_instructions (code c) om = Inr cps"
    and l: "translate_loop c 0 None False cps t = Inr (is, p, t')" and v: "validate_translated_code is = Inr ()"
    by (auto simp: translate_instructions_def split: if_splits)
  with translate_loop_ok [OF assms(1,2) l] show ?thesis by auto
qed

definition handlers_ok :: "'v CodeObject \<Rightarrow> bool" where
  "handlers_ok co \<longleftrightarrow> (\<forall>g \<in> set (exception_handlers co). handler_ok (length (instructions co)) g)"

lemma translate_code_parts:
  assumes "translate_code om c h = Inr (co, h')"
  obtains vs h1 result t where
    "populate_params c (code_header c ((build_deref_maps c (translator_new c h))\<lparr>t_heap := h1, t_constants := vs\<rparr>)) = Inr result"
    "translate_instructions om c ((build_deref_maps c (translator_new c h))\<lparr>t_heap := h1, t_constants := vs\<rparr>) =
       Inr (instructions co, t)"
    "decode_cpython_linetable_locations (linetable c) (firstlineno c) (length (instructions co)) = Inr (locations co)"
    "parse_exception_table (exceptiontable c) (length (instructions co)) = Inr (exception_handlers co)"
    "co_names co = t_names t" "name_to_index co = index_names (t_names t)" "constants co = t_constants t"
  using assms unfolding translate_code_eq translate_body_def rebuild_layout_indexes_def Let_def
  by (auto simp: Let_def split: prod.splits)

lemma tables_start: "tables_ok c ((build_deref_maps c (translator_new c h))\<lparr>t_heap := h1, t_constants := vs\<rparr>)"
  using tables_deref [of c h] by (simp add: tables_ok_def names_ok_def)

text \<open>A module that stores a constant in \<open>x\<close> and returns it, used in the witnesses.\<close>

definition sample_opmap :: "u8 \<rightharpoonup> string" where
  "sample_opmap = [1 \<mapsto> ''RESUME'', 2 \<mapsto> ''LOAD_CONST'', 3 \<mapsto> ''STORE_NAME'', 4 \<mapsto> ''RETURN_CONST'']"

definition sample_code :: CpythonCode where
  "sample_code = CpythonCode 0 0 0 1 0 [1, 0, 2, 0, 3, 0, 4, 0] [NoneObj] [[120]] [[99], [102]] [0x40, 0x80]
     [109] [109] [109] 1 [0xFA, 0x81, 0x12] []"

definition sample_result :: "(Value CodeObject \<times> heap) res" where
  "sample_result = translate_code sample_opmap sample_code []"

lemma sample_instructions:
  "\<exists>is t. translate_instructions sample_opmap sample_code
      ((build_deref_maps sample_code (translator_new sample_code []))\<lparr>t_constants := [NoneVal]\<rparr>) =
      Inr (is, t) \<and> length is = 4"
proof -
  have "case translate_instructions sample_opmap sample_code
      ((build_deref_maps sample_code (translator_new sample_code []))\<lparr>t_constants := [NoneVal]\<rparr>) of
      Inl _ \<Rightarrow> False | Inr (is, t) \<Rightarrow> length is = 4" by code_simp
  then show ?thesis by (simp split: sum.splits prod.splits)
qed

lemma sample_ok: "\<exists>co h. sample_result = Inr (co, h)"
proof -
  let ?t = "(build_deref_maps sample_code (translator_new sample_code []))\<lparr>t_constants := [NoneVal]\<rparr>"
  obtain "is" t where ti: "translate_instructions sample_opmap sample_code ?t = Inr (is, t)" "length is = 4"
    using sample_instructions by blast
  have "\<not> isl (decode_cpython_linetable_locations (linetable sample_code) (firstlineno sample_code) 4)" by code_simp
  then obtain locs where lt: "decode_cpython_linetable_locations (linetable sample_code) (firstlineno sample_code) 4 = Inr locs"
    by (metis isl_def obj_sumE)
  have pp: "\<exists>co'. populate_params sample_code co = Inr co'" for co :: "Value CodeObject"
    by (simp add: populate_params_def sample_code_def as_usize_def Let_def)
  then obtain co where co: "populate_params sample_code (code_header sample_code ?t) = Inr co" by blast
  have parts: "code_consts sample_code = [NoneObj]" "exceptiontable sample_code = []"
    by (simp_all add: sample_code_def)
  have h: "t_heap (build_deref_maps sample_code (translator_new sample_code [])) = []"
    unfolding build_deref_maps_eq by (simp add: translator_new_def)
  show ?thesis
    unfolding sample_result_def translate_code_eq translate_body_def
    using ti lt co by (simp add: Let_def parts h unit_action_def bind_action_def parse_exception_table_def)
qed

lemma sample_fits: "fits sample_code"
  by (simp add: fits_def sample_code_def)

section \<open>Properties\<close>

text \<open>
  C22. Translated code objects are well formed. Whatever \<open>translate_code\<close> returns has one
  instruction per code unit and one location per instruction, exception handlers and jumps
  within the code, instructions accepted by the validator, distinct names, and an index of
  names that inverts the name table.
\<close>

theorem translation_wellformed:
  assumes "translate_code om c h = Inr (co, h')" "fits c"
  shows "2 * length (instructions co) = length (code c) \<and> length (locations co) = length (instructions co) \<and>
    (\<forall>g \<in> set (exception_handlers co). handler_ok (length (instructions co)) g) \<and>
    validate_translated_code (instructions co) = Inr () \<and>
    distinct (co_names co) \<and>
    (\<forall>n i. name_to_index co n = Some i \<longleftrightarrow> i < length (co_names co) \<and> co_names co ! i = n)"
proof -
  from assms(1) obtain vs h1 t where
    ti: "translate_instructions om c ((build_deref_maps c (translator_new c h))\<lparr>t_heap := h1, t_constants := vs\<rparr>) =
       Inr (instructions co, t)" and
    lt: "decode_cpython_linetable_locations (linetable c) (firstlineno c) (length (instructions co)) = Inr (locations co)" and
    et: "parse_exception_table (exceptiontable c) (length (instructions co)) = Inr (exception_handlers co)" and
    ns: "co_names co = t_names t" "name_to_index co = index_names (t_names t)"
    by (rule translate_code_parts)
  from translate_instructions_grows [OF tables_start assms(2) ti] obtain cps where
    d: "decode_instructions (code c) om = Inr cps" and v: "validate_translated_code (instructions co) = Inr ()" and
    t: "tables_ok c t" and len: "length (instructions co) = length cps" by blast
  have "2 * length (instructions co) = length (code c)"
    using d len by (auto simp: decode_instructions_def length_decode_loop split: if_splits)
  moreover have "distinct (t_names t)" using t by (simp add: tables_ok_def names_ok_def)
  moreover have "\<forall>g \<in> set (exception_handlers co). handler_ok (length (instructions co)) g"
    using et by (auto simp: parse_exception_table_def split: if_splits dest: exception_loop_ok)
  ultimately show ?thesis
    using linetable_length [OF lt] v by (simp add: ns index_names_distinct)
qed

theorem translation_wellformed_witness:
  "\<exists>co h. sample_result = Inr (co, h) \<and> 2 * length (instructions co) = length (code sample_code) \<and>
     length (locations co) = length (instructions co) \<and> validate_translated_code (instructions co) = Inr ()"
proof -
  obtain co h where r: "sample_result = Inr (co, h)" using sample_ok by blast
  show ?thesis
    using translation_wellformed [OF r [unfolded sample_result_def] sample_fits] r by blast
qed




lemma sample_kinds: "is_cell sample_code i \<longleftrightarrow> i = 0" "is_free sample_code i \<longleftrightarrow> i = 1"
  by (auto simp: is_cell_def is_free_def sample_code_def less_Suc_eq)

lemma picks_two: "picks P 2 = (if P 0 then [0] else []) @ (if P 1 then [1] else [])"
  using picks_Suc [of P 1] picks_Suc [of P 0] by (simp add: numeral_2_eq_2)


lemma as_usize_nonneg: "0 \<le> sint v \<Longrightarrow> as_usize v = nat (sint v)"
proof -
  assume "0 \<le> sint v"
  moreover have "sint v < 2 ^ 64" using sint_lt [of v] by simp
  ultimately have "sint v mod 2 ^ 64 = sint v" by simp
  moreover have "(scast v :: u64) = word_of_int (sint v)" by simp
  ultimately show ?thesis unfolding as_usize_def by (simp add: unsigned_of_int take_bit_eq_mod del: of_int_sint)
qed

text \<open>
  Parameters. \<open>populate_params\<close> splits the leading local names into positional-only,
  positional and keyword-only parameters of the declared numbers, takes the names after
  them for \<open>*args\<close> and \<open>**kwargs\<close> when the flags are set and a name is left, and fails exactly
  when the counts are inconsistent or exceed the names (a negative count is a huge one).
\<close>

theorem params_split:
  fixes co :: "'v CodeObject"
  assumes counts: "0 \<le> sint (posonlyargcount c)" "0 \<le> sint (argcount c)" "0 \<le> sint (kwonlyargcount c)"
    and fresh: "vararg co = None" "kwarg co = None"
  defines "po \<equiv> nat (sint (posonlyargcount c))" and "pos \<equiv> nat (sint (argcount c))"
    and "kw \<equiv> nat (sint (kwonlyargcount c))"
  shows "(isl (populate_params c co) \<longleftrightarrow> pos < po \<or> length (localsplusnames c) < pos + kw) \<and>
    (\<forall>co'. populate_params c co = Inr co' \<longrightarrow>
       posonly_params co' @ params co' @ kwonly_params co' = take (pos + kw) (localsplusnames c) \<and>
       length (posonly_params co') = po \<and> length (params co') = pos - po \<and> length (kwonly_params co') = kw \<and>
       vararg co' = (if flags c AND 4 \<noteq> 0 \<and> pos + kw < length (localsplusnames c)
                     then Some (localsplusnames c ! (pos + kw)) else None) \<and>
       kwarg co' = (let i = pos + kw + of_bool (vararg co' \<noteq> None) in
                     if flags c AND 8 \<noteq> 0 \<and> i < length (localsplusnames c)
                     then Some (localsplusnames c ! i) else None))"
proof -
  let ?L = "localsplusnames c"
  have u: "as_usize (posonlyargcount c) = po" "as_usize (argcount c) = pos" "as_usize (kwonlyargcount c) = kw"
    using counts by (simp_all add: po_def pos_def kw_def as_usize_nonneg)
  have lt: "pos + kw < 2 ^ 64" using sint_lt [of "argcount c"] sint_lt [of "kwonlyargcount c"] counts
    by (simp add: pos_def kw_def)
  have split: "take po ?L @ take (pos - po) (drop po ?L) @ take kw (drop pos ?L) = take (pos + kw) ?L" if "po \<le> pos"
  proof -
    have "take po ?L @ take (pos - po) (drop po ?L) = take pos ?L"
      using that by (metis le_add_diff_inverse take_add)
    then show ?thesis by (metis append_assoc take_add)
  qed
  have err: "isl (populate_params c co) \<longleftrightarrow> pos < po \<or> length ?L < pos + kw"
    using lt by (simp add: populate_params_def u Let_def)
  show ?thesis
  proof (cases "pos < po \<or> length ?L < pos + kw")
    case True
    with err show ?thesis by auto
  next
    case False
    then show ?thesis using err lt split fresh
      by (auto simp: populate_params_def u Let_def)
  qed
qed

definition sample_params :: CpythonCode where
  "sample_params = CpythonCode 3 1 1 1 12 [] [] [] [[97], [98], [99], [100], [101], [102]] [] [109] [109] [109] 1 [] []"

theorem params_split_witness:
  "\<exists>co. populate_params sample_params (code_new NoneVal [109] [109]) = Inr co \<and>
     posonly_params co @ params co @ kwonly_params co = [[97], [98], [99], [100]] \<and>
     vararg co = Some [101] \<and> kwarg co = Some [102]"
proof -
  let ?co = "code_new NoneVal [109] [109] :: Value CodeObject"
  have counts: "sint (posonlyargcount sample_params) = 1" "sint (argcount sample_params) = 3"
    "sint (kwonlyargcount sample_params) = 1" "flags sample_params = 12"
    "localsplusnames sample_params = [[97], [98], [99], [100], [101], [102]]"
    by (simp_all add: sample_params_def)
  have fresh: "vararg ?co = None" "kwarg ?co = None" by (simp_all add: code_new_def)
  note P = params_split [of sample_params ?co, unfolded counts fresh]
  from P have "\<not> isl (populate_params sample_params ?co)" by simp
  then obtain co where co: "populate_params sample_params ?co = Inr co" by (metis isl_def obj_sumE)
  with P have "posonly_params co @ params co @ kwonly_params co = [[97], [98], [99], [100]]" by simp
  moreover have v: "vararg co = Some [101]" using P co by simp
  moreover have "kwarg co = Some [102]" using P co v by simp
  ultimately show ?thesis using co by blast
qed

text \<open>
  Keyword names. The stream is rejected when \<open>KW_NAMES\<close> is not consumed: an instruction
  other than a call or a no-op directly after it is an error, and so is the end of the
  code; a call takes the pending index into the upper half of its operand.
\<close>

theorem kw_names_consumed:
  "(\<not> kw_names_follower nm \<longrightarrow>
      isl (translate_loop c idx None prev (\<lparr>cp_name = ''KW_NAMES'', cp_arg = k\<rparr> # \<lparr>cp_name = nm, cp_arg = a\<rparr> # rest) t)) \<and>
   (nm \<in> set plain_call_names \<longrightarrow>
      translate_loop c idx None prev [\<lparr>cp_name = ''KW_NAMES'', cp_arg = k\<rparr>, \<lparr>cp_name = nm, cp_arg = a\<rparr>] t =
      Inr ([bare Nop, instruction_new CallCpython (Some (push_bit 16 (ucast (ucast k :: u16)) OR (a AND 0xFFFF)))], None, t)) \<and>
   translate_loop c idx None prev [\<lparr>cp_name = ''KW_NAMES'', cp_arg = k\<rparr>] t = Inr ([bare Nop], Some (ucast k), t)"
proof -
  have follow: "kw_names_follower nm" "nm \<noteq> ''KW_NAMES''" if "nm \<in> set plain_call_names"
    using that by (auto simp: plain_call_names_def kw_names_follower_def)
  show ?thesis using follow by (auto simp: Let_def)
qed

theorem kw_names_consumed_witness:
  "isl (translate_loop sample_code 0 None False
      [\<lparr>cp_name = ''KW_NAMES'', cp_arg = 1\<rparr>, \<lparr>cp_name = ''POP_TOP'', cp_arg = 0\<rparr>] (translator_new sample_code []))"
proof -
  have "\<not> kw_names_follower ''POP_TOP''" by code_simp
  then show ?thesis using kw_names_consumed [of "''POP_TOP''"] by blast
qed

text \<open>
  In-place operators. The name test for \<open>OR\<close> comes before those for \<open>XOR\<close> and
  \<open>FLOOR_DIVIDE\<close>, whose names contain it: both specialised in-place instructions are lowered
  to the bitwise or.
\<close>

theorem inplace_xor_is_or:
  "map_inplace_binary_op idx ''BINARY_OP_INPLACE_XOR'' = Inr (bare BinaryOr) \<and>
   map_inplace_binary_op idx ''BINARY_OP_INPLACE_FLOOR_DIVIDE'' = Inr (bare BinaryOr) \<and>
   map_binary_op idx 25 = Inr (bare BinaryXor) \<and> map_binary_op idx 15 = Inr (bare BinaryFloorDiv)"
  by (intro conjI)
     (simp_all add: map_inplace_binary_op_def inplace_names_def starts_with_def map_binary_op_def select_op_def)

end
