(* ===== verification/Dict_Backend.thy ===== *)
theory Dict_Backend
  imports Prelude
begin

text \<open>
  The hash table behind dictionaries, \<^verbatim>\<open>src/runtime/dict_backend.rs\<close>: dense entries in insertion
  order and a table of slots with open addressing and perturbed probing. The key operations
  \<open>value_lookup_hash\<close> and \<open>value_key_equal\<close>, which depend on all runtime values, are a record of
  parameters. Indexes are natural numbers; an index outside a vector is a panic.
\<close>

section \<open>State\<close>

record 'k keyops =
  value_lookup_hash :: "'k \<Rightarrow> u64 option"
  value_key_equal :: "'k \<Rightarrow> 'k \<Rightarrow> bool"

definition PERTURB_SHIFT :: nat where "PERTURB_SHIFT = 5"
definition MIN_TABLE_SIZE :: nat where "MIN_TABLE_SIZE = 8"
definition LOAD_NUMERATOR :: nat where "LOAD_NUMERATOR = 2"
definition LOAD_DENOMINATOR :: nat where "LOAD_DENOMINATOR = 3"
definition MAX_PERTURB_ROUNDS :: nat where "MAX_PERTURB_ROUNDS = 64 div PERTURB_SHIFT + 2"

text \<open>The sentinel \<open>NO_SLOT\<close>, the largest \<open>usize\<close>, is \<open>None\<close>: no table has a slot with that index.\<close>

datatype DictSlot = Empty | Dummy | Occupied u64 nat

record ('k, 'v) DictBackend =
  d_entries :: "('k \<times> 'v) list"
  d_hashes :: "u64 option list"
  d_entry_slots :: "nat option list"
  d_slots :: "DictSlot list"
  d_used :: nat
  d_filled :: nat

datatype SlotLookup = Found nat | Vacant nat

definition backend_empty :: "('k, 'v) DictBackend" where
  "backend_empty = \<lparr>d_entries = [], d_hashes = [], d_entry_slots = [], d_slots = [], d_used = 0, d_filled = 0\<rparr>"

definition clear :: "('k, 'v) DictBackend \<Rightarrow> ('k, 'v) DictBackend" where
  "clear d = d\<lparr>d_entries := [], d_hashes := [], d_entry_slots := [], d_slots := [], d_used := 0, d_filled := 0\<rparr>"

definition nth_res :: "'a list \<Rightarrow> nat \<Rightarrow> 'a res" where
  "nth_res xs i = (if i < length xs then Inr (xs ! i) else Inl (Panic ''index out of bounds''))"

definition backend_len :: "('k, 'v) DictBackend \<Rightarrow> nat" where
  "backend_len d = length (d_entries d)"

definition backend_is_empty :: "('k, 'v) DictBackend \<Rightarrow> bool" where
  "backend_is_empty d \<longleftrightarrow> d_entries d = []"

definition to_vec :: "('k, 'v) DictBackend \<Rightarrow> ('k \<times> 'v) list" where
  "to_vec d = d_entries d"

definition entry_at :: "('k, 'v) DictBackend \<Rightarrow> nat \<Rightarrow> ('k \<times> 'v) res" where
  "entry_at d i = nth_res (d_entries d) i"

definition set_value_at :: "nat \<Rightarrow> 'v \<Rightarrow> ('k, 'v) DictBackend \<Rightarrow> ('k, 'v) DictBackend res" where
  "set_value_at i v d =
     bindr (nth_res (d_entries d) i) (\<lambda>(k, _). Inr (d\<lparr>d_entries := (d_entries d)[i := (k, v)]\<rparr>))"

section \<open>Probing\<close>

text \<open>The first slot, and the next one with the wrapping additions of \<open>usize\<close>; \<open>n\<close> is the table size.\<close>

definition first_slot :: "nat \<Rightarrow> u64 \<Rightarrow> nat" where
  "first_slot n hash = unat (hash AND of_nat (n - 1))"

definition next_slot :: "nat \<Rightarrow> nat \<Rightarrow> u64 \<Rightarrow> nat" where
  "next_slot n slot perturb = unat ((of_nat (slot * 5) + perturb + 1) AND of_nat (n - 1) :: u64)"

definition next_perturb :: "u64 \<Rightarrow> u64" where
  "next_perturb perturb = drop_bit PERTURB_SHIFT perturb"

definition unwrap_or :: "'a option \<Rightarrow> 'a \<Rightarrow> 'a" where
  "unwrap_or x d = (case x of Some v \<Rightarrow> v | None \<Rightarrow> d)"

definition first_of :: "'a option \<Rightarrow> 'a \<Rightarrow> 'a option" where
  "first_of x v = (case x of None \<Rightarrow> Some v | Some w \<Rightarrow> Some w)"

text \<open>The loop of \<open>lookup_slot\<close>; the first argument is the number of rounds left.\<close>

fun lookup_loop ::
  "nat \<Rightarrow> 'k keyops \<Rightarrow> ('k, 'v) DictBackend \<Rightarrow> 'k \<Rightarrow> u64 \<Rightarrow> nat \<Rightarrow> u64 \<Rightarrow> nat option \<Rightarrow> SlotLookup res" where
  "lookup_loop 0 ko d key hash slot perturb first_dummy = Inr (Vacant (unwrap_or first_dummy slot))"
| "lookup_loop (Suc r) ko d key hash slot perturb first_dummy =
     (let continue = lookup_loop r ko d key hash
            (next_slot (length (d_slots d)) slot perturb) (next_perturb perturb)
      in bindr (nth_res (d_slots d) slot) (\<lambda>s.
         case s of
           Empty \<Rightarrow> Inr (Vacant (unwrap_or first_dummy slot))
         | Dummy \<Rightarrow> continue (first_of first_dummy slot)
         | Occupied slot_hash entry \<Rightarrow>
             if slot_hash = hash then
               bindr (nth_res (d_entries d) entry) (\<lambda>(k, _).
               if value_key_equal ko k key then Inr (Found entry) else continue first_dummy)
             else continue first_dummy))"

definition rounds :: "('k, 'v) DictBackend \<Rightarrow> nat" where
  "rounds d = length (d_slots d) + MAX_PERTURB_ROUNDS"

definition no_slots :: fault where
  "no_slots = Panic ''attempt to subtract with overflow''"

definition lookup_slot :: "'k keyops \<Rightarrow> ('k, 'v) DictBackend \<Rightarrow> 'k \<Rightarrow> u64 \<Rightarrow> SlotLookup res" where
  "lookup_slot ko d key hash =
     (if d_slots d = [] then Inl no_slots
      else lookup_loop (rounds d) ko d key hash (first_slot (length (d_slots d)) hash) hash None)"

fun vacant_loop :: "nat \<Rightarrow> DictSlot list \<Rightarrow> nat \<Rightarrow> u64 \<Rightarrow> nat option \<Rightarrow> nat res" where
  "vacant_loop 0 ss slot perturb first_dummy = Inr (unwrap_or first_dummy slot)"
| "vacant_loop (Suc r) ss slot perturb first_dummy =
     (let continue = vacant_loop r ss (next_slot (length ss) slot perturb) (next_perturb perturb)
      in bindr (nth_res ss slot) (\<lambda>s.
         case s of
           Empty \<Rightarrow> Inr (unwrap_or first_dummy slot)
         | Dummy \<Rightarrow> continue (first_of first_dummy slot)
         | Occupied _ _ \<Rightarrow> continue first_dummy))"

definition lookup_vacant_slot :: "DictSlot list \<Rightarrow> u64 \<Rightarrow> nat res" where
  "lookup_vacant_slot ss hash =
     (if ss = [] then Inl no_slots
      else vacant_loop (length ss + MAX_PERTURB_ROUNDS) ss (first_slot (length ss) hash) hash None)"

fun candidate_loop :: "nat \<Rightarrow> DictSlot list \<Rightarrow> u64 \<Rightarrow> nat \<Rightarrow> u64 \<Rightarrow> nat list res" where
  "candidate_loop 0 ss hash slot perturb = Inr []"
| "candidate_loop (Suc r) ss hash slot perturb =
     (let continue = candidate_loop r ss hash (next_slot (length ss) slot perturb) (next_perturb perturb)
      in bindr (nth_res ss slot) (\<lambda>s.
         case s of
           Empty \<Rightarrow> Inr []
         | Dummy \<Rightarrow> continue
         | Occupied slot_hash entry \<Rightarrow>
             if slot_hash = hash then bindr continue (\<lambda>rest. Inr (entry # rest)) else continue))"

definition candidate_indices_for_hash :: "'k keyops \<Rightarrow> ('k, 'v) DictBackend \<Rightarrow> u64 \<Rightarrow> nat list res" where
  "candidate_indices_for_hash ko d hash =
     (if d_entries d = [] then Inr []
      else if d_slots d = [] then
        Inr (map fst (filter (\<lambda>(i, k, v). value_lookup_hash ko k = Some hash) (enumerate 0 (d_entries d))))
      else candidate_loop (rounds d) (d_slots d) hash (first_slot (length (d_slots d)) hash) hash)"

section \<open>Lookup\<close>

text \<open>\<open>Iterator::position\<close>\<close>

fun position :: "('a \<Rightarrow> bool) \<Rightarrow> 'a list \<Rightarrow> nat option" where
  "position P [] = None"
| "position P (x # xs) = (if P x then Some 0 else map_option Suc (position P xs))"

definition scan :: "'k keyops \<Rightarrow> ('k, 'v) DictBackend \<Rightarrow> 'k \<Rightarrow> nat option" where
  "scan ko d key = position (\<lambda>(stored, _). value_key_equal ko stored key) (d_entries d)"

definition find_index_with_hash :: "'k keyops \<Rightarrow> ('k, 'v) DictBackend \<Rightarrow> 'k \<Rightarrow> u64 \<Rightarrow> nat option res" where
  "find_index_with_hash ko d key hash =
     (if d_slots d \<noteq> [] then
        bindr (lookup_slot ko d key hash) (\<lambda>l. Inr (case l of Found entry \<Rightarrow> Some entry | Vacant _ \<Rightarrow> None))
      else Inr (scan ko d key))"

definition find_index :: "'k keyops \<Rightarrow> ('k, 'v) DictBackend \<Rightarrow> 'k \<Rightarrow> nat option res" where
  "find_index ko d key =
     (case value_lookup_hash ko key of
        Some hash \<Rightarrow> find_index_with_hash ko d key hash
      | None \<Rightarrow> Inr (scan ko d key))"

definition value_at :: "('k, 'v) DictBackend \<Rightarrow> nat option \<Rightarrow> 'v option res" where
  "value_at d i = (case i of None \<Rightarrow> Inr None | Some i \<Rightarrow> bindr (nth_res (d_entries d) i) (\<lambda>(_, v). Inr (Some v)))"

definition dict_find :: "'k keyops \<Rightarrow> ('k, 'v) DictBackend \<Rightarrow> 'k \<Rightarrow> 'v option res" where
  "dict_find ko d key = bindr (find_index ko d key) (value_at d)"

definition find_with_hash :: "'k keyops \<Rightarrow> ('k, 'v) DictBackend \<Rightarrow> 'k \<Rightarrow> u64 \<Rightarrow> 'v option res" where
  "find_with_hash ko d key hash = bindr (find_index_with_hash ko d key hash) (value_at d)"

definition contains_key :: "'k keyops \<Rightarrow> ('k, 'v) DictBackend \<Rightarrow> 'k \<Rightarrow> bool res" where
  "contains_key ko d key = bindr (find_index ko d key) (\<lambda>i. Inr (i \<noteq> None))"

definition contains_key_with_hash :: "'k keyops \<Rightarrow> ('k, 'v) DictBackend \<Rightarrow> 'k \<Rightarrow> u64 \<Rightarrow> bool res" where
  "contains_key_with_hash ko d key hash = bindr (find_index_with_hash ko d key hash) (\<lambda>i. Inr (i \<noteq> None))"

section \<open>Resizing\<close>

fun power_at_least :: "nat \<Rightarrow> nat \<Rightarrow> nat \<Rightarrow> nat" where
  "power_at_least 0 p v = p"
| "power_at_least (Suc f) p v = (if v \<le> p then p else power_at_least f (2 * p) v)"

text \<open>\<open>usize::next_power_of_two\<close>; doubling 64 times exceeds every \<open>usize\<close>.\<close>

definition next_power_of_two :: "nat \<Rightarrow> nat" where
  "next_power_of_two v = (if v \<le> 1 then 1 else power_at_least 64 1 v)"

text \<open>
  A vector may not exceed \<open>isize::MAX\<close> bytes and a slot takes 24 bytes: among the powers of two,
  \<open>2^58\<close> slots are the most that can be allocated.
\<close>

definition alloc_slots :: "nat \<Rightarrow> DictSlot list res" where
  "alloc_slots n = (if int n \<le> 2 ^ 58 then Inr (replicate n Empty) else Inl (Panic ''capacity overflow''))"

text \<open>The entries from index \<open>entry\<close> on are placed into the new slots.\<close>

fun place_loop :: "'k keyops \<Rightarrow> nat \<Rightarrow> nat \<Rightarrow> ('k, 'v) DictBackend \<Rightarrow> ('k, 'v) DictBackend res" where
  "place_loop ko 0 entry d = Inr d"
| "place_loop ko (Suc n) entry d =
     bindr (nth_res (d_entries d) entry) (\<lambda>(k, _).
     let stored = (if entry < length (d_hashes d) then d_hashes d ! entry else None);
         hash = (if stored = None then value_lookup_hash ko k else stored)
     in bindr (if stored = None
               then bindr (nth_res (d_hashes d) entry) (\<lambda>_. Inr (d\<lparr>d_hashes := (d_hashes d)[entry := hash]\<rparr>))
               else Inr d) (\<lambda>d.
        case hash of
          None \<Rightarrow> place_loop ko n (Suc entry) d
        | Some hash \<Rightarrow>
            bindr (lookup_vacant_slot (d_slots d) hash) (\<lambda>slot.
            bindr (nth_res (d_slots d) slot) (\<lambda>_.
            place_loop ko n (Suc entry)
              (d\<lparr>d_slots := (d_slots d)[slot := Occupied hash entry],
                 d_entry_slots := (d_entry_slots d)[entry := Some slot],
                 d_filled := d_filled d + 1\<rparr>)))))"

definition resize_slots :: "'k keyops \<Rightarrow> nat \<Rightarrow> ('k, 'v) DictBackend \<Rightarrow> ('k, 'v) DictBackend res" where
  "resize_slots ko target d =
     bindr (alloc_slots (next_power_of_two (max target MIN_TABLE_SIZE))) (\<lambda>ss.
     place_loop ko (length (d_entries d)) 0
       (d\<lparr>d_slots := ss, d_entry_slots := replicate (length (d_entries d)) None, d_filled := 0,
          d_used := length (d_entries d)\<rparr>))"

definition rebuild_slots :: "'k keyops \<Rightarrow> ('k, 'v) DictBackend \<Rightarrow> ('k, 'v) DictBackend res" where
  "rebuild_slots ko d =
     (if d_entries d = [] then Inr (clear d)
      else resize_slots ko (max (length (d_entries d)) MIN_TABLE_SIZE) d)"

definition maybe_resize_after_remove :: "'k keyops \<Rightarrow> ('k, 'v) DictBackend \<Rightarrow> ('k, 'v) DictBackend res" where
  "maybe_resize_after_remove ko d =
     (if d_entries d = [] then Inr (clear d)
      else
        let dummy_count = d_filled d - d_used d in
        if d_used d < dummy_count then resize_slots ko (max (length (d_slots d)) MIN_TABLE_SIZE) d
        else if length (d_slots d) \<le> MIN_TABLE_SIZE then Inr d
        else if d_used d * 8 \<le> length (d_slots d) then resize_slots ko (length (d_slots d) div 2) d
        else Inr d)"

section \<open>Insertion\<close>

definition place_new :: "'k \<Rightarrow> 'v \<Rightarrow> u64 \<Rightarrow> nat \<Rightarrow> ('k, 'v) DictBackend \<Rightarrow> ('k, 'v) DictBackend res" where
  "place_new key val hash slot d =
     bindr (nth_res (d_slots d) slot) (\<lambda>s.
     let entry = length (d_entries d) in
     Inr (d\<lparr>d_entries := d_entries d @ [(key, val)],
            d_hashes := d_hashes d @ [Some hash],
            d_entry_slots := d_entry_slots d @ [Some slot],
            d_used := d_used d + 1,
            d_filled := (if s = Empty then d_filled d + 1 else d_filled d),
            d_slots := (d_slots d)[slot := Occupied hash entry]\<rparr>))"

definition insert_with_hash ::
  "'k keyops \<Rightarrow> 'k \<Rightarrow> 'v \<Rightarrow> u64 \<Rightarrow> ('k, 'v) DictBackend \<Rightarrow> ('k, 'v) DictBackend res" where
  "insert_with_hash ko key val hash d =
     bindr (if d_slots d = [] then resize_slots ko MIN_TABLE_SIZE d else Inr d) (\<lambda>d.
     bindr (lookup_slot ko d key hash) (\<lambda>l.
     case l of
       Found entry \<Rightarrow>
         bindr (set_value_at entry val d) (\<lambda>d.
         bindr (nth_res (d_hashes d) entry) (\<lambda>_. Inr (d\<lparr>d_hashes := (d_hashes d)[entry := Some hash]\<rparr>)))
     | Vacant slot \<Rightarrow>
         let usable_slots = length (d_slots d) * LOAD_NUMERATOR div LOAD_DENOMINATOR in
         if usable_slots < d_filled d + 1 then
           bindr (resize_slots ko (length (d_slots d) * 2) d) (\<lambda>d.
           bindr (lookup_vacant_slot (d_slots d) hash) (\<lambda>slot. place_new key val hash slot d))
         else place_new key val hash slot d))"

definition dict_insert :: "'k keyops \<Rightarrow> 'k \<Rightarrow> 'v \<Rightarrow> ('k, 'v) DictBackend \<Rightarrow> ('k, 'v) DictBackend res" where
  "dict_insert ko key val d =
     (case value_lookup_hash ko key of
        None \<Rightarrow>
          bindr (find_index ko d key) (\<lambda>i.
          case i of
            Some index \<Rightarrow> set_value_at index val d
          | None \<Rightarrow>
              Inr (d\<lparr>d_entries := d_entries d @ [(key, val)], d_hashes := d_hashes d @ [None],
                     d_entry_slots := d_entry_slots d @ [None], d_used := length (d_entries d) + 1\<rparr>))
      | Some hash \<Rightarrow> insert_with_hash ko key val hash d)"

fun insert_all :: "'k keyops \<Rightarrow> ('k \<times> 'v) list \<Rightarrow> ('k, 'v) DictBackend \<Rightarrow> ('k, 'v) DictBackend res" where
  "insert_all ko [] d = Inr d"
| "insert_all ko ((key, val) # rest) d = bindr (dict_insert ko key val d) (insert_all ko rest)"

definition backend_new :: "'k keyops \<Rightarrow> ('k \<times> 'v) list \<Rightarrow> ('k, 'v) DictBackend res" where
  "backend_new ko initial_entries = insert_all ko initial_entries backend_empty"

section \<open>Removal\<close>

definition remove_slot_for_entry :: "nat \<Rightarrow> nat \<Rightarrow> DictSlot list \<Rightarrow> DictSlot list" where
  "remove_slot_for_entry expected_entry slot_index ss =
     (if slot_index < length ss then
        (case ss ! slot_index of
           Occupied h entry \<Rightarrow> if entry = expected_entry then ss[slot_index := Dummy] else ss
         | _ \<Rightarrow> ss)
      else ss)"

definition adjust_slot :: "nat \<Rightarrow> nat option \<Rightarrow> DictSlot list \<Rightarrow> DictSlot list" where
  "adjust_slot removed_index slot_index ss =
     (case slot_index of
        None \<Rightarrow> ss
      | Some slot_index \<Rightarrow>
          if slot_index < length ss then
            (case ss ! slot_index of
               Occupied h entry \<Rightarrow>
                 if removed_index < entry then ss[slot_index := Occupied h (entry - 1)] else ss
             | _ \<Rightarrow> ss)
          else ss)"

definition adjust_slot_indices_after_remove :: "nat \<Rightarrow> nat option list \<Rightarrow> DictSlot list \<Rightarrow> DictSlot list" where
  "adjust_slot_indices_after_remove removed_index entry_slots ss =
     fold (adjust_slot removed_index) (drop removed_index entry_slots) ss"

definition delete_nth :: "nat \<Rightarrow> 'a list \<Rightarrow> 'a list" where
  "delete_nth i xs = take i xs @ drop (Suc i) xs"

definition dict_remove :: "'k keyops \<Rightarrow> nat \<Rightarrow> ('k, 'v) DictBackend \<Rightarrow> (('k \<times> 'v) \<times> ('k, 'v) DictBackend) res" where
  "dict_remove ko index d =
     bindr (nth_res (d_entry_slots d) index) (\<lambda>removed_slot.
     bindr (nth_res (d_entries d) index) (\<lambda>removed.
     bindr (nth_res (d_hashes d) index) (\<lambda>_.
     let es = delete_nth index (d_entry_slots d);
         ss = (case removed_slot of
                 None \<Rightarrow> d_slots d
               | Some slot \<Rightarrow>
                   adjust_slot_indices_after_remove index es (remove_slot_for_entry index slot (d_slots d)))
     in bindr (maybe_resize_after_remove ko
          (d\<lparr>d_entries := delete_nth index (d_entries d), d_hashes := delete_nth index (d_hashes d),
             d_entry_slots := es, d_slots := ss, d_used := length (d_entries d) - 1\<rparr>)) (\<lambda>d.
        Inr (removed, d)))))"

definition remove_found ::
  "'k keyops \<Rightarrow> nat option \<Rightarrow> ('k, 'v) DictBackend \<Rightarrow> (('k \<times> 'v) option \<times> ('k, 'v) DictBackend) res" where
  "remove_found ko i d =
     (case i of
        None \<Rightarrow> Inr (None, d)
      | Some index \<Rightarrow> bindr (dict_remove ko index d) (\<lambda>(kv, d). Inr (Some kv, d)))"

definition remove_key ::
  "'k keyops \<Rightarrow> 'k \<Rightarrow> ('k, 'v) DictBackend \<Rightarrow> (('k \<times> 'v) option \<times> ('k, 'v) DictBackend) res" where
  "remove_key ko key d = bindr (find_index ko d key) (\<lambda>i. remove_found ko i d)"

definition remove_key_with_hash ::
  "'k keyops \<Rightarrow> 'k \<Rightarrow> u64 \<Rightarrow> ('k, 'v) DictBackend \<Rightarrow> (('k \<times> 'v) option \<times> ('k, 'v) DictBackend) res" where
  "remove_key_with_hash ko key hash d =
     bindr (find_index_with_hash ko d key hash) (\<lambda>i. remove_found ko i d)"

definition retain ::
  "'k keyops \<Rightarrow> ('k \<times> 'v \<Rightarrow> bool) \<Rightarrow> ('k, 'v) DictBackend \<Rightarrow> ('k, 'v) DictBackend res" where
  "retain ko f d =
     (let kept = filter (\<lambda>(e, h). f e) (zip (d_entries d) (d_hashes d))
      in rebuild_slots ko (d\<lparr>d_entries := map fst kept, d_hashes := map snd kept\<rparr>))"

end
