(* ===== verification/Dict_Probe.thy ===== *)
theory Dict_Probe
  imports Dict_Backend
begin

text \<open>
  The probe sequence of the dictionary. Once the perturbation has been shifted out, after 13
  rounds, the slots follow \<open>x \<mapsto> 5x + 1\<close> modulo a power of two, a generator of full period:
  the rounds the loops are given visit every slot of the table.
\<close>

section \<open>A generator of full period\<close>

definition geom :: "nat \<Rightarrow> nat" where
  "geom k = (\<Sum>i<k. 5 ^ i)"

lemma geom_Suc [simp]: "geom 0 = 0" "geom (Suc k) = 5 * geom k + 1"
proof -
  show "geom (Suc k) = 5 * geom k + 1"
    unfolding geom_def by (subst sum.lessThan_Suc_shift) (simp add: sum_distrib_left)
qed (simp add: geom_def)

lemma four_geom: "4 * geom k + 1 = 5 ^ k"
  by (induction k) auto

lemma geom_double: "geom (2 * k) = geom k * (5 ^ k + 1)"
proof -
  have "4 * geom (2 * k) + 1 = (4 * geom k + 1) * (4 * geom k + 1)"
    using four_geom [of "2 * k"] four_geom [of k] by (simp add: power_add mult_2)
  then have "4 * geom (2 * k) = 4 * (geom k * (4 * geom k + 2))" by (simp add: algebra_simps)
  moreover have "5 ^ k + 1 = 4 * geom k + 2" using four_geom [of k] by linarith
  ultimately show ?thesis by simp
qed

lemma odd_geom: "odd (geom k) \<longleftrightarrow> odd k"
  by (induction k) auto

lemma geom_dvd: "2 ^ b dvd geom k \<longleftrightarrow> 2 ^ b dvd k"
proof (induction b arbitrary: k)
  case (Suc b)
  show ?case
  proof (cases "even k")
    case False
    then show ?thesis using odd_geom [of k] by (auto dest: dvd_mult_left)
  next
    case True
    then obtain j where k: "k = 2 * j" by blast
    obtain m where m: "5 ^ j + 1 = 2 * (2 * m + 1 :: nat)"
    proof
      show "5 ^ j + 1 = 2 * (2 * geom j + 1)" unfolding four_geom [of j, symmetric] by simp
    qed
    have "geom k = 2 * (geom j * (2 * m + 1))" unfolding k geom_double m by simp
    then have "2 ^ Suc b dvd geom k \<longleftrightarrow> 2 ^ b dvd geom j * (2 * m + 1)"
      by (simp only: power_Suc nat_mult_dvd_cancel_disj) simp
    also have "\<dots> \<longleftrightarrow> 2 ^ b dvd geom j" by (intro coprime_dvd_mult_left_iff) simp
    finally show ?thesis using Suc.IH [of j] by (simp add: k)
  qed
qed simp

fun lcg :: "nat \<Rightarrow> nat \<Rightarrow> nat \<Rightarrow> nat" where
  "lcg n x 0 = x"
| "lcg n x (Suc k) = (5 * lcg n x k + 1) mod n"

lemma lcg_closed: "lcg n x k mod n = (5 ^ k * x + geom k) mod n"
proof (induction k)
  case (Suc k)
  have "lcg n x (Suc k) mod n = (5 * (lcg n x k mod n) + 1) mod n"
    by (simp only: lcg.simps mod_mod_trivial) (metis mod_add_left_eq mod_mult_right_eq)
  also have "\<dots> = (5 * (5 ^ k * x + geom k) + 1) mod n"
    unfolding Suc by (metis mod_add_left_eq mod_mult_right_eq)
  finally show ?case by (simp add: algebra_simps)
qed simp

lemma lcg_add: "lcg n x (j + k) = lcg n (lcg n x j) k"
  by (induction k) simp_all

lemma lcg_return:
  assumes "lcg (2 ^ b) x k mod 2 ^ b = x mod 2 ^ b"
  shows "2 ^ b dvd k"
proof -
  have e: "5 ^ k * x + geom k = x + geom k * (4 * x + 1)"
    using four_geom [of k] by (simp add: algebra_simps flip: four_geom [of k])
  have "(x + geom k * (4 * x + 1)) mod 2 ^ b = x mod 2 ^ b" using assms unfolding lcg_closed e .
  then have "2 ^ b dvd x + geom k * (4 * x + 1) - x" by (metis mod_eq_dvd_iff_nat le_add1)
  then have "2 ^ b dvd geom k * (4 * x + 1)" by simp
  moreover have "coprime (2 ^ b) (4 * x + 1)" by simp
  ultimately have "2 ^ b dvd geom k" using coprime_dvd_mult_left_iff by blast
  then show ?thesis by (simp add: geom_dvd)
qed

lemma lcg_lt: "0 < n \<Longrightarrow> x < n \<Longrightarrow> lcg n x k < n"
  by (cases k) simp_all

lemma lcg_inj:
  assumes "x < 2 ^ b"
  shows "inj_on (lcg (2 ^ b) x) {..<2 ^ b}"
proof (rule linorder_inj_onI)
  fix i j :: nat
  assume ij: "i < j" "j \<in> {..<2 ^ b}"
  let ?y = "lcg (2 ^ b) x i"
  show "lcg (2 ^ b) x i \<noteq> lcg (2 ^ b) x j"
  proof
    assume "lcg (2 ^ b) x i = lcg (2 ^ b) x j"
    then have "lcg (2 ^ b) ?y (j - i) = ?y" using lcg_add [of "2 ^ b" x i "j - i"] ij(1) by simp
    then have "2 ^ b dvd j - i" by (intro lcg_return [where x = ?y]) simp
    with ij show False by (auto dest: dvd_imp_le)
  qed
qed auto

lemma lcg_covers:
  assumes "x < 2 ^ b" "s < 2 ^ b"
  shows "\<exists>k < 2 ^ b. lcg (2 ^ b) x k = s"
proof -
  have "lcg (2 ^ b) x ` {..<2 ^ b} \<subseteq> {..<2 ^ b}" using lcg_lt [OF _ assms(1)] by auto
  moreover have "card (lcg (2 ^ b) x ` {..<2 ^ b}) = 2 ^ b" using card_image [OF lcg_inj [OF assms(1)]] by simp
  ultimately have "lcg (2 ^ b) x ` {..<2 ^ b} = {..<2 ^ b}" by (intro card_subset_eq) simp_all
  with assms(2) show ?thesis by (metis imageE lessThan_iff)
qed

section \<open>The probe sequence\<close>

definition table_size :: "nat \<Rightarrow> bool" where
  "table_size n \<longleftrightarrow> (\<exists>b. 3 \<le> b \<and> b \<le> 58 \<and> n = 2 ^ b)"

fun probe_state :: "nat \<Rightarrow> u64 \<Rightarrow> nat \<Rightarrow> nat \<times> u64" where
  "probe_state n h 0 = (first_slot n h, h)"
| "probe_state n h (Suc i) = (let (s, p) = probe_state n h i in (next_slot n s p, next_perturb p))"

definition probe :: "nat \<Rightarrow> u64 \<Rightarrow> nat \<Rightarrow> nat" where
  "probe n h i = fst (probe_state n h i)"

lemma and_table: 
  assumes "table_size n"
  shows "unat (x AND of_nat (n - 1) :: u64) = unat x mod n"
proof -
  obtain b where b: "b \<le> 58" "n = 2 ^ b" using assms by (auto simp: table_size_def)
  have "(of_nat (n - 1) :: u64) = mask b" by (simp add: b mask_eq_exp_minus_1 of_nat_diff)
  then show ?thesis by (simp add: unsigned_take_bit_eq b flip: take_bit_eq_mask) (simp add: take_bit_eq_mod)
qed

lemma table_size_pos: "table_size n \<Longrightarrow> 8 \<le> n"
  unfolding table_size_def using power_increasing [of 3 _ "2 :: nat"] by fastforce

lemma table_size_le: "table_size n \<Longrightarrow> n \<le> 2 ^ 58"
  unfolding table_size_def using power_increasing [of _ 58 "2 :: nat"] by fastforce

lemma probe_lt: "table_size n \<Longrightarrow> probe n h i < n"
  using table_size_pos [of n]
  by (cases i) (simp_all only: probe_def first_slot_def next_slot_def and_table split_beta Let_def probe_state.simps fst_conv, simp_all)

lemma perturb_shift: "snd (probe_state n h i) = drop_bit (5 * i) h"
  by (induction i) (simp_all add: next_perturb_def PERTURB_SHIFT_def split_beta Let_def drop_bit_drop_bit add.commute)

lemma perturb_gone: "13 \<le> i \<Longrightarrow> snd (probe_state n h i) = 0"
  unfolding perturb_shift by (rule drop_bit_word_beyond) simp

lemma unat_small: "m < 2 ^ 64 \<Longrightarrow> unat (of_nat m :: u64) = m"
  by (simp add: unat_of_nat)

lemma probe_tail:
  assumes "table_size n"
  shows "probe n h (13 + k) = lcg n (probe n h 13) k"
proof (induction k)
  case (Suc k)
  let ?s = "probe n h (13 + k)"
  have s: "?s < n" "n \<le> 2 ^ 58" using probe_lt [OF assms] table_size_le [OF assms] by blast+
  then have "unat (of_nat (?s * 5 + 1) :: u64) = ?s * 5 + 1" by (intro unat_small) simp
  then have "unat (of_nat (?s * 5) + 0 + 1 :: u64) = ?s * 5 + 1" by (simp add: add.commute)
  moreover have "probe n h (13 + Suc k) = next_slot n ?s 0"
    using perturb_gone [of "13 + k" n h]
    by (simp only: add_Suc_right probe_def probe_state.simps split_beta Let_def fst_conv)
  ultimately have "probe n h (13 + Suc k) = (5 * ?s + 1) mod n"
    by (simp only: next_slot_def and_table [OF assms]) (simp add: mult.commute)
  then show ?case using Suc by simp
qed simp

lemma probe_covers:
  assumes "table_size n" "s < n"
  shows "\<exists>i < n + MAX_PERTURB_ROUNDS. probe n h i = s"
proof -
  obtain b where b: "n = 2 ^ b" using assms(1) by (auto simp: table_size_def)
  obtain k where k: "k < n" "lcg n (probe n h 13) k = s"
    using lcg_covers [of "probe n h 13" b s] probe_lt [OF assms(1)] assms(2) b by auto
  then have "probe n h (13 + k) = s" "13 + k < n + MAX_PERTURB_ROUNDS"
    using probe_tail [OF assms(1)] by (simp_all add: MAX_PERTURB_ROUNDS_def PERTURB_SHIFT_def)
  then show ?thesis by blast
qed

end
