(* ===== verification/Dict_Proofs.thy ===== *)
theory Dict_Proofs
  imports Dict_Probe
begin

text \<open>
  The invariant of the hash table and its preservation. The core is a partial invariant,
  \<open>placed\<close>, that holds while a table is filled entry by entry; every write of a slot goes
  through one lemma on it.
\<close>

section \<open>Lookups without a match\<close>

definition reaches :: "DictSlot list \<Rightarrow> u64 \<Rightarrow> nat \<Rightarrow> bool" where
  "reaches ss h s \<longleftrightarrow> (\<exists>r < length ss + MAX_PERTURB_ROUNDS. probe (length ss) h r = s \<and>
     (\<forall>q < r. ss ! probe (length ss) h q \<noteq> Empty))"

definition vacant :: "DictSlot \<Rightarrow> bool" where
  "vacant s \<longleftrightarrow> s = Empty \<or> s = Dummy"

lemma vacant_simps [simp]: "vacant Empty" "vacant Dummy" "\<not> vacant (Occupied h e)"
  by (simp_all add: vacant_def)

lemma reaches_mono:
  assumes "reaches ss h s" "length ss' = length ss" "\<And>k. ss' ! k = Empty \<Longrightarrow> ss ! k = Empty"
  shows "reaches ss' h s"
  using assms unfolding reaches_def by metis

lemma probe_start: "probe n h 0 = first_slot n h" "snd (probe_state n h 0) = h"
  by (simp_all add: probe_def)

lemma probe_step:
  "next_slot n (probe n h i) (snd (probe_state n h i)) = probe n h (Suc i)"
  "next_perturb (snd (probe_state n h i)) = snd (probe_state n h (Suc i))"
  by (simp_all add: probe_def split_beta Let_def)

lemma nth_res_Inr [simp]: "i < length xs \<Longrightarrow> nth_res xs i = Inr (xs ! i)"
  by (simp add: nth_res_def)

lemma vacant_loop_spec:
  assumes "table_size (length ss)" "i + r = length ss + MAX_PERTURB_ROUNDS"
    and "\<forall>q < i. ss ! probe (length ss) h q \<noteq> Empty"
    and "case fd of None \<Rightarrow> \<forall>q < i. ss ! probe (length ss) h q \<noteq> Dummy
         | Some s \<Rightarrow> ss ! s = Dummy \<and> (\<exists>q < i. probe (length ss) h q = s)"
  shows "\<exists>s. vacant_loop r ss (probe (length ss) h i) (snd (probe_state (length ss) h i)) fd = Inr s \<and> s < length ss \<and>
    ((\<exists>k < length ss. vacant (ss ! k)) \<longrightarrow> vacant (ss ! s) \<and> reaches ss h s)"
  using assms(2-4)
proof (induction r arbitrary: i fd)
  case 0
  show ?case
  proof (cases fd)
    case None
    then have "\<not> vacant (ss ! k)" if "k < length ss" for k
      using "0.prems" probe_covers [OF assms(1) that, of h] by (auto simp: vacant_def)
    then show ?thesis using None probe_lt [OF assms(1)] by (auto simp: unwrap_or_def)
  next
    case (Some s)
    then have "ss ! s = Dummy" "reaches ss h s" "s < length ss"
      using "0.prems" probe_lt [OF assms(1)] unfolding reaches_def by auto
    then show ?thesis using Some by (simp add: unwrap_or_def)
  qed
next
  case (Suc r)
  let ?n = "length ss" let ?s = "probe (length ss) h i"
  have s: "?s < ?n" using probe_lt [OF assms(1)] .
  have i: "i < ?n + MAX_PERTURB_ROUNDS" using Suc.prems(1) by simp
  have here: "reaches ss h ?s" unfolding reaches_def using i Suc.prems(2) by blast
  have fd: "reaches ss h w \<and> w < ?n \<and> ss ! w = Dummy" if fw: "fd = Some w" for w
  proof -
    obtain q where q: "q < i" "probe ?n h q = w" and w: "ss ! w = Dummy" using Suc.prems(3) fw by auto
    have "\<forall>q' < q. ss ! probe ?n h q' \<noteq> Empty" using Suc.prems(2) q(1) by simp
    then have "reaches ss h w" unfolding reaches_def using q i by (intro exI [of _ q]) simp
    then show ?thesis using q(2) w probe_lt [OF assms(1), of h q] by simp
  qed
  show ?case
  proof (cases "ss ! ?s")
    case Empty
    then show ?thesis using s here fd by (cases fd) (auto simp: unwrap_or_def)
  next
    case Dummy
    have "\<exists>s. vacant_loop r ss (probe ?n h (Suc i)) (snd (probe_state ?n h (Suc i))) (first_of fd ?s) = Inr s \<and> s < ?n \<and>
        ((\<exists>k < ?n. vacant (ss ! k)) \<longrightarrow> vacant (ss ! s) \<and> reaches ss h s)"
      using Suc.prems Dummy by (intro Suc.IH) (auto simp: first_of_def less_Suc_eq split: option.splits)
    then show ?thesis using Dummy s by (simp add: Let_def probe_step del: probe_state.simps)
  next
    case (Occupied h' e)
    have "\<exists>s. vacant_loop r ss (probe ?n h (Suc i)) (snd (probe_state ?n h (Suc i))) fd = Inr s \<and> s < ?n \<and>
        ((\<exists>k < ?n. vacant (ss ! k)) \<longrightarrow> vacant (ss ! s) \<and> reaches ss h s)"
      using Suc.prems Occupied by (intro Suc.IH) (auto simp: less_Suc_eq split: option.splits)
    then show ?thesis using Occupied s by (simp add: Let_def probe_step del: probe_state.simps)
  qed
qed

lemma lookup_vacant_spec:
  assumes "table_size (length ss)"
  shows "\<exists>s. lookup_vacant_slot ss h = Inr s \<and> s < length ss \<and>
    ((\<exists>k < length ss. vacant (ss ! k)) \<longrightarrow> vacant (ss ! s) \<and> reaches ss h s)"
  using vacant_loop_spec [OF assms, of 0 _ h None] table_size_pos [OF assms]
  by (auto simp: lookup_vacant_slot_def probe_start)

text \<open>A lookup that meets no equal key behaves like the search for a vacant slot.\<close>

definition no_match :: "'k keyops \<Rightarrow> ('k, 'v) DictBackend \<Rightarrow> 'k \<Rightarrow> u64 \<Rightarrow> bool" where
  "no_match ko d key hash \<longleftrightarrow> (\<forall>s < length (d_slots d). \<forall>e. d_slots d ! s = Occupied hash e \<longrightarrow>
     e < length (d_entries d) \<and> \<not> value_key_equal ko (fst (d_entries d ! e)) key)"

lemma lookup_loop_no_match:
  assumes "no_match ko d key hash"
  shows "lookup_loop r ko d key hash slot perturb fd =
    bindr (vacant_loop r (d_slots d) slot perturb fd) (\<lambda>s. Inr (Vacant s))"
proof (induction r arbitrary: slot perturb fd)
  case (Suc r)
  show ?case
  proof (cases "slot < length (d_slots d)")
    case True
    then show ?thesis using assms Suc
      by (cases "d_slots d ! slot") (auto simp: Let_def no_match_def split_beta)
  qed (simp add: Let_def nth_res_def)
qed simp

lemma lookup_slot_no_match:
  "no_match ko d key hash \<Longrightarrow>
   lookup_slot ko d key hash = bindr (lookup_vacant_slot (d_slots d) hash) (\<lambda>s. Inr (Vacant s))"
  by (simp add: lookup_slot_def lookup_vacant_slot_def lookup_loop_no_match rounds_def)

text \<open>A lookup with a single reachable match finds it.\<close>

lemma lookup_loop_match:
  assumes "table_size (length (d_slots d))"
    and match: "\<forall>s < length (d_slots d). \<forall>e'. d_slots d ! s = Occupied hash e' \<longrightarrow>
      e' < length (d_entries d) \<and> (value_key_equal ko (fst (d_entries d ! e')) key \<longleftrightarrow> e' = e)"
    and t: "d_slots d ! probe (length (d_slots d)) hash t = Occupied hash e"
      "\<forall>q < t. d_slots d ! probe (length (d_slots d)) hash q \<noteq> Empty"
    and "i \<le> t" "t < i + r"
  shows "lookup_loop r ko d key hash (probe (length (d_slots d)) hash i) (snd (probe_state (length (d_slots d)) hash i)) fd =
    Inr (Found e)"
  using assms(5,6)
proof (induction r arbitrary: i fd)
  case (Suc r)
  let ?n = "length (d_slots d)" let ?s = "probe ?n hash i"
  have s: "?s < ?n" using probe_lt [OF assms(1)] .
  show ?case
  proof (cases "i = t")
    case True
    then have "e < length (d_entries d)" "value_key_equal ko (fst (d_entries d ! e)) key"
      using match s t(1) by blast+
    then show ?thesis using t(1) True s by (simp add: Let_def split_beta)
  next
    case False
    have IH: "lookup_loop r ko d key hash (probe ?n hash (Suc i)) (snd (probe_state ?n hash (Suc i))) fd' = Inr (Found e)" for fd'
      using Suc.prems False by (intro Suc.IH) simp_all
    show ?thesis
    proof (cases "d_slots d ! ?s")
      case Empty
      then show ?thesis using t(2) Suc.prems False by simp
    next
      case Dummy
      then show ?thesis using IH s by (simp add: Let_def probe_step del: probe_state.simps)
    next
      case (Occupied h' e')
      then show ?thesis using IH s match
        by (auto simp: Let_def probe_step split_beta simp del: probe_state.simps)
    qed
  qed
qed simp

section \<open>The invariant\<close>

definition keys_ok :: "'k keyops \<Rightarrow> bool" where
  "keys_ok ko \<longleftrightarrow> (\<forall>a. value_key_equal ko a a) \<and>
     (\<forall>a b. value_key_equal ko a b \<longrightarrow> value_key_equal ko b a) \<and>
     (\<forall>a b c. value_key_equal ko a b \<longrightarrow> value_key_equal ko b c \<longrightarrow> value_key_equal ko a c) \<and>
     (\<forall>a b. value_key_equal ko a b \<longrightarrow> value_lookup_hash ko a = value_lookup_hash ko b)"

lemma keys_okD:
  assumes "keys_ok ko"
  shows "value_key_equal ko a a" "value_key_equal ko a b \<Longrightarrow> value_key_equal ko b a"
    "value_key_equal ko a b \<Longrightarrow> value_key_equal ko b c \<Longrightarrow> value_key_equal ko a c"
    "value_key_equal ko a b \<Longrightarrow> value_lookup_hash ko a = value_lookup_hash ko b"
  using assms unfolding keys_ok_def by blast+

definition nonempty :: "DictSlot list \<Rightarrow> nat set" where
  "nonempty ss = {s. s < length ss \<and> ss ! s \<noteq> Empty}"

lemma finite_nonempty [simp]: "finite (nonempty ss)"
  by (simp add: nonempty_def)

lemma card_nonempty_le: "card (nonempty ss) \<le> length ss"
proof -
  have "nonempty ss \<subseteq> {..<length ss}" by (auto simp: nonempty_def)
  then show ?thesis by (metis card_lessThan card_mono finite_lessThan)
qed

lemma nonempty_update:
  assumes "k < length ss" "x \<noteq> Empty"
  shows "card (nonempty (ss[k := x])) = card (nonempty ss) + (if ss ! k = Empty then 1 else 0)"
proof -
  have "nonempty (ss[k := x]) = Set.insert k (nonempty ss)"
    using assms by (auto simp: nonempty_def nth_list_update)
  then show ?thesis using assms by (simp add: card_insert_if nonempty_def)
qed

lemma vacant_if_few: "card (nonempty ss) < length ss \<Longrightarrow> \<exists>k < length ss. vacant (ss ! k)"
proof (rule ccontr)
  assume "card (nonempty ss) < length ss" "\<not> (\<exists>k < length ss. vacant (ss ! k))"
  then have "nonempty ss = {..<length ss}" by (auto simp: nonempty_def)
  with \<open>card (nonempty ss) < length ss\<close> show False by simp
qed

text \<open>Every entry has a stored hash, that of its key, and no two keys are equal.\<close>

definition entries_ok :: "'k keyops \<Rightarrow> ('k, 'v) DictBackend \<Rightarrow> bool" where
  "entries_ok ko d \<longleftrightarrow> length (d_hashes d) = length (d_entries d) \<and>
     (\<forall>e < length (d_entries d). \<exists>h. d_hashes d ! e = Some h \<and> value_lookup_hash ko (fst (d_entries d ! e)) = Some h) \<and>
     (\<forall>i j. i < length (d_entries d) \<longrightarrow> j < length (d_entries d) \<longrightarrow>
        value_key_equal ko (fst (d_entries d ! i)) (fst (d_entries d ! j)) \<longrightarrow> i = j)"

definition placed_at :: "('k, 'v) DictBackend \<Rightarrow> nat \<Rightarrow> bool" where
  "placed_at d e \<longleftrightarrow> (\<exists>s. d_entry_slots d ! e = Some s \<and> s < length (d_slots d) \<and>
     d_slots d ! s = Occupied (the (d_hashes d ! e)) e \<and> reaches (d_slots d) (the (d_hashes d ! e)) s)"

text \<open>The first \<open>m\<close> entries, and only they, are in the table.\<close>

definition placed :: "('k, 'v) DictBackend \<Rightarrow> nat \<Rightarrow> bool" where
  "placed d m \<longleftrightarrow> table_size (length (d_slots d)) \<and> m \<le> length (d_entries d) \<and>
     length (d_entry_slots d) = length (d_entries d) \<and> (\<forall>e < m. placed_at d e) \<and>
     (\<forall>s < length (d_slots d). \<forall>h e. d_slots d ! s = Occupied h e \<longrightarrow> e < m \<and> d_entry_slots d ! e = Some s) \<and>
     d_filled d = card (nonempty (d_slots d))"

definition table_ok :: "'k keyops \<Rightarrow> ('k, 'v) DictBackend \<Rightarrow> bool" where
  "table_ok ko d \<longleftrightarrow> entries_ok ko d \<and> placed d (length (d_entries d)) \<and> d_used d = length (d_entries d)"

definition dict_inv :: "'k keyops \<Rightarrow> ('k, 'v) DictBackend \<Rightarrow> bool" where
  "dict_inv ko d \<longleftrightarrow> keys_ok ko \<and> (d = backend_empty \<or> table_ok ko d)"

lemma placed_slot: "placed d m \<Longrightarrow> s < length (d_slots d) \<Longrightarrow> d_slots d ! s = Occupied h e \<Longrightarrow>
    e < m \<and> d_entry_slots d ! e = Some s \<and> h = the (d_hashes d ! e)"
  unfolding placed_def placed_at_def by (metis DictSlot.inject option.inject)

lemma placed_vacant:
  assumes "placed d m" "m < length (d_slots d)"
  shows "\<exists>k < length (d_slots d). vacant (d_slots d ! k)"
proof (rule ccontr)
  assume none: "\<not> ?thesis"
  define ent where "ent s = (THE e. \<exists>h. d_slots d ! s = Occupied h e)" for s
  have occ: "\<exists>h. d_slots d ! s = Occupied h (ent s)" if "s < length (d_slots d)" for s
    using none that unfolding ent_def by (cases "d_slots d ! s") auto
  have "inj_on ent {..<length (d_slots d)}"
  proof (rule inj_onI)
    fix s s'
    assume "s \<in> {..<length (d_slots d)}" "s' \<in> {..<length (d_slots d)}" "ent s = ent s'"
    then show "s = s'" using occ [of s] occ [of s'] placed_slot [OF assms(1)] by (metis lessThan_iff option.inject)
  qed
  moreover have "ent ` {..<length (d_slots d)} \<subseteq> {..<m}" using occ placed_slot [OF assms(1)] by fastforce
  ultimately have "length (d_slots d) \<le> m" by (metis card_inj_on_le card_lessThan finite_lessThan)
  with assms(2) show False by simp
qed

lemma placed_bound:
  assumes "placed d m"
  shows "m \<le> length (d_slots d)"
proof -
  let ?s = "\<lambda>e. the (d_entry_slots d ! e)"
  have at: "d_slots d ! ?s e = Occupied (the (d_hashes d ! e)) e \<and> ?s e < length (d_slots d)" if "e < m" for e
    using assms that unfolding placed_def placed_at_def by auto
  have "inj_on ?s {..<m}" using at by (intro inj_onI) (metis DictSlot.inject lessThan_iff)
  moreover have "?s ` {..<m} \<subseteq> {..<length (d_slots d)}" using at by auto
  ultimately show ?thesis by (metis card_inj_on_le card_lessThan finite_lessThan)
qed

text \<open>Writing the next entry into a vacant slot on its probe path.\<close>

lemma placed_write:
  assumes p: "placed d m" and m: "m < length (d_entries d)" and s: "s < length (d_slots d)"
    and v: "vacant (d_slots d ! s)" and r: "reaches (d_slots d) h s" and h: "d_hashes d ! m = Some h"
  defines "d' \<equiv> d\<lparr>d_slots := (d_slots d)[s := Occupied h m], d_entry_slots := (d_entry_slots d)[m := Some s],
    d_filled := d_filled d + (if d_slots d ! s = Empty then 1 else 0)\<rparr>"
  shows "placed d' (Suc m)"
proof -
  have len: "length (d_entry_slots d) = length (d_entries d)" using p by (simp add: placed_def)
  have keep: "reaches (d_slots d') g k" if "reaches (d_slots d) g k" for g k
  proof (rule reaches_mono [OF that])
    show "d_slots d' ! k = Empty \<Longrightarrow> d_slots d ! k = Empty" for k using s by (cases "k = s") (simp_all add: d'_def)
  qed (simp add: d'_def)
  have old: "placed_at d' e" if em: "e < m" for e
  proof -
    obtain k where k: "d_entry_slots d ! e = Some k" "k < length (d_slots d)"
        "d_slots d ! k = Occupied (the (d_hashes d ! e)) e" "reaches (d_slots d) (the (d_hashes d ! e)) k"
      using p em unfolding placed_def placed_at_def by blast
    moreover from k(3) v have "k \<noteq> s" by auto
    ultimately show ?thesis using keep [OF k(4)] em unfolding placed_at_def by (simp add: d'_def)
  qed
  have new: "placed_at d' m"
    using keep [OF r] s m len h unfolding placed_at_def by (simp add: d'_def)
  have conv: "e < Suc m \<and> d_entry_slots d' ! e = Some k" if "k < length (d_slots d')" "d_slots d' ! k = Occupied g e" for k g e
  proof (cases "k = s")
    case True
    then show ?thesis using that s m len by (simp add: d'_def)
  next
    case False
    then have "e < m \<and> d_entry_slots d ! e = Some k" using that placed_slot [OF p] by (simp add: d'_def)
    then show ?thesis by (simp add: d'_def)
  qed
  have "d_filled d' = card (nonempty (d_slots d'))"
    using p nonempty_update [OF s, of "Occupied h m"] by (simp add: d'_def placed_def)
  then show ?thesis using p m old new conv
    unfolding placed_def by (simp add: d'_def less_Suc_eq)
qed

section \<open>Resizing\<close>

lemma power_at_least_spec:
  "v \<le> 2 ^ (k + f) \<Longrightarrow> \<exists>b. k \<le> b \<and> power_at_least f (2 ^ k) v = 2 ^ b \<and> v \<le> 2 ^ b \<and> (b = k \<or> 2 ^ b < 2 * v)"
proof (induction f arbitrary: k)
  case (Suc f)
  show ?case
  proof (cases "v \<le> 2 ^ k")
    case False
    obtain b where b: "Suc k \<le> b" "power_at_least f (2 ^ Suc k) v = 2 ^ b" "v \<le> 2 ^ b" "b = Suc k \<or> 2 ^ b < 2 * v"
      using Suc.IH [of "Suc k"] Suc.prems by auto
    then have "2 ^ b < 2 * v" using False by auto
    then show ?thesis using b False by (intro exI [of _ b]) simp
  qed auto
qed auto

lemma next_power_spec:
  assumes "8 \<le> v" "v \<le> 2 ^ 64"
  shows "\<exists>b. 3 \<le> b \<and> next_power_of_two v = 2 ^ b \<and> v \<le> 2 ^ b \<and> 2 ^ b < 2 * v"
proof -
  obtain b where b: "next_power_of_two v = 2 ^ b" "v \<le> 2 ^ b" "b = 0 \<or> 2 ^ b < 2 * v"
    using power_at_least_spec [of v 0 64] assms by (auto simp: next_power_of_two_def)
  then have "b \<noteq> 0" using assms(1) by (intro notI) simp
  moreover have "(2 :: nat) ^ 3 \<le> 2 ^ b" using b(2) assms(1) by simp
  then have "3 \<le> b" by (rule power_le_imp_le_exp [rotated]) simp
  ultimately show ?thesis using b by blast
qed

lemma next_power_exact: "3 \<le> b \<Longrightarrow> b \<le> 64 \<Longrightarrow> next_power_of_two (2 ^ b) = 2 ^ b"
proof -
  assume b: "3 \<le> b" "b \<le> 64"
  have "(2 :: nat) ^ 3 \<le> 2 ^ b" "(2 :: nat) ^ b \<le> 2 ^ 64" using b by (intro power_increasing; simp)+
  then obtain c where c: "next_power_of_two (2 ^ b) = 2 ^ c" "2 ^ b \<le> (2 :: nat) ^ c" "(2 :: nat) ^ c < 2 * 2 ^ b"
    using next_power_spec [of "2 ^ b"] by auto
  have "b \<le> c" using c(2) by (rule power_le_imp_le_exp [rotated]) simp
  moreover have "(2 :: nat) ^ c < 2 ^ Suc b" using c(3) by simp
  then have "c < Suc b" by (rule power_less_imp_less_exp [rotated]) simp
  ultimately show ?thesis using c(1) by simp
qed

lemma entries_ok_cong: "d_entries d' = d_entries d \<Longrightarrow> d_hashes d' = d_hashes d \<Longrightarrow> entries_ok ko d' = entries_ok ko d"
  by (simp add: entries_ok_def)

lemma entries_okD:
  "entries_ok ko d \<Longrightarrow> e < length (d_entries d) \<Longrightarrow>
   \<exists>h. d_hashes d ! e = Some h \<and> value_lookup_hash ko (fst (d_entries d ! e)) = Some h"
  by (simp add: entries_ok_def)

lemma place_loop_spec:
  assumes "entries_ok ko d" "placed d m" "m + n = length (d_entries d)" "length (d_entries d) \<le> length (d_slots d)"
    and "\<forall>s < length (d_slots d). d_slots d ! s \<noteq> Dummy"
  shows "\<exists>d'. place_loop ko n m d = Inr d' \<and> placed d' (length (d_entries d)) \<and> d_entries d' = d_entries d \<and>
    d_hashes d' = d_hashes d \<and> d_used d' = d_used d \<and> length (d_slots d') = length (d_slots d)"
  using assms
proof (induction n arbitrary: m d)
  case 0
  then show ?case by simp
next
  case (Suc n)
  have m: "m < length (d_entries d)" "m < length (d_slots d)" using Suc.prems(3,4) by simp_all
  obtain h where h: "d_hashes d ! m = Some h" using entries_okD [OF Suc.prems(1) m(1)] by blast
  have mh: "m < length (d_hashes d)" using Suc.prems(1) m(1) by (simp add: entries_ok_def)
  have ts: "table_size (length (d_slots d))" using Suc.prems(2) by (simp add: placed_def)
  obtain s where s: "lookup_vacant_slot (d_slots d) h = Inr s" "s < length (d_slots d)"
      "vacant (d_slots d ! s)" "reaches (d_slots d) h s"
    using lookup_vacant_spec [OF ts, of h] placed_vacant [OF Suc.prems(2) m(2)] by blast
  have e: "d_slots d ! s = Empty" using s(2,3) Suc.prems(5) by (auto simp: vacant_def)
  let ?d = "d\<lparr>d_slots := (d_slots d)[s := Occupied h m], d_entry_slots := (d_entry_slots d)[m := Some s],
    d_filled := d_filled d + 1\<rparr>"
  have w: "placed ?d (Suc m)" using placed_write [OF Suc.prems(2) m(1) s(2-4) h] e by simp
  have nd: "\<forall>k < length (d_slots ?d). d_slots ?d ! k \<noteq> Dummy"
    using Suc.prems(5) s(2) by (auto simp: nth_list_update)
  have "\<exists>d'. place_loop ko n (Suc m) ?d = Inr d' \<and> placed d' (length (d_entries ?d)) \<and> d_entries d' = d_entries ?d \<and>
      d_hashes d' = d_hashes ?d \<and> d_used d' = d_used ?d \<and> length (d_slots d') = length (d_slots ?d)"
    using Suc.prems(3,4) by (intro Suc.IH [OF _ w _ _ nd] entries_ok_cong [THEN iffD2, OF _ _ Suc.prems(1)]) simp_all
  then show ?case using m h mh s by (simp add: split_beta)
qed

lemma placed_fresh:
  "table_size n \<Longrightarrow> placed (d\<lparr>d_slots := replicate n Empty, d_entry_slots := replicate (length (d_entries d)) None,
     d_filled := 0, d_used := u\<rparr>) 0"
  by (simp add: placed_def nonempty_def cong: conj_cong)

lemma resize_spec:
  assumes "entries_ok ko d" "length (d_entries d) \<le> max target 8" "target \<le> 2 ^ 64"
  defines "n \<equiv> next_power_of_two (max target 8)"
  shows "(n \<le> 2 ^ 58 \<longrightarrow> (\<exists>d'. resize_slots ko target d = Inr d' \<and> table_ok ko d' \<and> d_entries d' = d_entries d \<and>
      length (d_slots d') = n)) \<and>
    (2 ^ 58 < n \<longrightarrow> resize_slots ko target d = Inl (Panic ''capacity overflow''))"
proof -
  obtain b where b: "3 \<le> b" "n = 2 ^ b" "max target 8 \<le> 2 ^ b"
    using next_power_spec [of "max target 8"] assms(3) unfolding n_def by auto
  show ?thesis
  proof (cases "n \<le> 2 ^ 58")
    case False
    then show ?thesis by (simp add: resize_slots_def alloc_slots_def MIN_TABLE_SIZE_def n_def)
  next
    case True
    then have "b \<le> 58" unfolding b(2) by (rule power_le_imp_le_exp [rotated]) simp
    then have ts: "table_size n" using b by (auto simp: table_size_def)
    let ?d = "d\<lparr>d_slots := replicate n Empty, d_entry_slots := replicate (length (d_entries d)) None,
      d_filled := 0, d_used := length (d_entries d)\<rparr>"
    have "\<exists>d'. place_loop ko (length (d_entries ?d)) 0 ?d = Inr d' \<and> placed d' (length (d_entries ?d)) \<and>
        d_entries d' = d_entries ?d \<and> d_hashes d' = d_hashes ?d \<and> d_used d' = d_used ?d \<and>
        length (d_slots d') = length (d_slots ?d)"
      using order_trans [OF assms(2) b(3)] b(2) placed_fresh [OF ts, where d = d and u = "length (d_entries d)"]
      by (intro place_loop_spec entries_ok_cong [THEN iffD2, OF _ _ assms(1)]) simp_all
    then obtain d' where d': "place_loop ko (length (d_entries d)) 0 ?d = Inr d'" "placed d' (length (d_entries d))"
        "d_entries d' = d_entries d" "d_hashes d' = d_hashes d" "d_used d' = length (d_entries d)" "length (d_slots d') = n"
      by auto
    have "table_ok ko d'" using entries_ok_cong [OF d'(3,4)] assms(1) d' by (simp add: table_ok_def)
    then show ?thesis using True d'
      by (simp add: resize_slots_def alloc_slots_def MIN_TABLE_SIZE_def flip: n_def)
  qed
qed

end
