(* ===== verification/Dict_Refine.thy ===== *)
theory Dict_Refine
  imports Dict_Proofs
begin

text \<open>
  The operations of the hash table refine those of an association list in insertion order:
  a lookup is a linear search, an insertion replaces the value of an equal key or appends,
  a removal deletes the entry and keeps the order of the others.
\<close>

section \<open>The association list\<close>

definition match_at :: "'k keyops \<Rightarrow> 'k \<Rightarrow> ('k \<times> 'v) list \<Rightarrow> nat option" where
  "match_at ko k es = position (\<lambda>(stored, _). value_key_equal ko stored k) es"

definition alist_find :: "'k keyops \<Rightarrow> 'k \<Rightarrow> ('k \<times> 'v) list \<Rightarrow> 'v option" where
  "alist_find ko k es = map_option (\<lambda>i. snd (es ! i)) (match_at ko k es)"

definition alist_insert :: "'k keyops \<Rightarrow> 'k \<Rightarrow> 'v \<Rightarrow> ('k \<times> 'v) list \<Rightarrow> ('k \<times> 'v) list" where
  "alist_insert ko k v es =
     (case match_at ko k es of None \<Rightarrow> es @ [(k, v)] | Some i \<Rightarrow> es[i := (fst (es ! i), v)])"

definition alist_remove :: "'k keyops \<Rightarrow> 'k \<Rightarrow> ('k \<times> 'v) list \<Rightarrow> ('k \<times> 'v) list" where
  "alist_remove ko k es = (case match_at ko k es of None \<Rightarrow> es | Some i \<Rightarrow> delete_nth i es)"

lemma position_Some: "position P xs = Some i \<longleftrightarrow> i < length xs \<and> P (xs ! i) \<and> (\<forall>j < i. \<not> P (xs ! j))"
proof (induction xs arbitrary: i)
  case (Cons x xs)
  show ?case
  proof (cases i)
    case (Suc k)
    then show ?thesis using Cons.IH [of k] by (auto simp: less_Suc_eq_0_disj)
  qed auto
qed simp

lemma position_None: "position P xs = None \<longleftrightarrow> (\<forall>i < length xs. \<not> P (xs ! i))"
  by (induction xs) (auto simp: less_Suc_eq_0_disj nth_Cons')

lemma match_at_Some:
  "match_at ko k es = Some i \<Longrightarrow> i < length es \<and> value_key_equal ko (fst (es ! i)) k"
  by (auto simp: match_at_def position_Some split_beta)

lemma match_at_None:
  "match_at ko k es = None \<longleftrightarrow> (\<forall>i < length es. \<not> value_key_equal ko (fst (es ! i)) k)"
  by (simp add: match_at_def position_None split_beta)

lemma scan_match: "scan ko d key = match_at ko key (d_entries d)"
  by (simp add: scan_def match_at_def)

section \<open>Lookup\<close>

lemma table_okD:
  assumes "table_ok ko d"
  shows "entries_ok ko d" "placed d (length (d_entries d))" "table_size (length (d_slots d))" "d_slots d \<noteq> []"
    "length (d_hashes d) = length (d_entries d)" "length (d_entry_slots d) = length (d_entries d)"
    "d_used d = length (d_entries d)" "d_filled d = card (nonempty (d_slots d))"
proof -
  show e: "entries_ok ko d" and p: "placed d (length (d_entries d))" and "d_used d = length (d_entries d)"
    using assms by (simp_all add: table_ok_def)
  show "length (d_hashes d) = length (d_entries d)" using e unfolding entries_ok_def by blast
  show ts: "table_size (length (d_slots d))" and "length (d_entry_slots d) = length (d_entries d)"
    and "d_filled d = card (nonempty (d_slots d))" using p by (simp_all add: placed_def)
  show "d_slots d \<noteq> []" using table_size_pos [OF ts] by auto
qed

lemma table_slot:
  assumes "table_ok ko d" "s < length (d_slots d)" "d_slots d ! s = Occupied h e"
  shows "e < length (d_entries d) \<and> d_entry_slots d ! e = Some s \<and> value_lookup_hash ko (fst (d_entries d ! e)) = Some h"
  using placed_slot [OF table_okD(2) [OF assms(1)] assms(2,3)] entries_okD [OF table_okD(1) [OF assms(1)]] by fastforce

lemma table_distinct:
  "table_ok ko d \<Longrightarrow> i < length (d_entries d) \<Longrightarrow> j < length (d_entries d) \<Longrightarrow>
   value_key_equal ko (fst (d_entries d ! i)) (fst (d_entries d ! j)) \<Longrightarrow> i = j"
  by (simp add: table_ok_def entries_ok_def)

lemma lookup_found:
  assumes t: "table_ok ko d" and k: "keys_ok ko" and h: "value_lookup_hash ko key = Some h"
    and m: "match_at ko key (d_entries d) = Some e"
  shows "lookup_slot ko d key h = Inr (Found e)"
proof -
  have e: "e < length (d_entries d)" "value_key_equal ko (fst (d_entries d ! e)) key"
    using match_at_Some [OF m] by blast+
  have he: "d_hashes d ! e = Some h"
    using entries_okD [OF table_okD(1) [OF t] e(1)] keys_okD(4) [OF k e(2)] h by auto
  obtain s where s: "s < length (d_slots d)" "d_slots d ! s = Occupied h e" "reaches (d_slots d) h s"
    using table_okD(2) [OF t] e(1) he unfolding placed_def placed_at_def by auto
  have "\<forall>s < length (d_slots d). \<forall>e'. d_slots d ! s = Occupied h e' \<longrightarrow>
      e' < length (d_entries d) \<and> (value_key_equal ko (fst (d_entries d ! e')) key \<longleftrightarrow> e' = e)"
    using table_slot [OF t] table_distinct [OF t _ e(1)] keys_okD(2,3) [OF k] e(2) by metis
  moreover obtain r where "r < rounds d" "probe (length (d_slots d)) h r = s"
      "\<forall>q < r. d_slots d ! probe (length (d_slots d)) h q \<noteq> Empty"
    using s(3) by (auto simp: reaches_def rounds_def)
  ultimately show ?thesis
    using lookup_loop_match [OF table_okD(3) [OF t], of h ko key e r 0 "rounds d" None] s(2) table_okD(4) [OF t]
    by (simp add: lookup_slot_def probe_start)
qed

lemma lookup_missing:
  assumes t: "table_ok ko d" and m: "match_at ko key (d_entries d) = None"
  shows "\<exists>s. lookup_slot ko d key h = Inr (Vacant s) \<and> s < length (d_slots d) \<and>
    ((\<exists>k < length (d_slots d). vacant (d_slots d ! k)) \<longrightarrow> vacant (d_slots d ! s) \<and> reaches (d_slots d) h s)"
proof -
  have "no_match ko d key h" using m table_slot [OF t] by (auto simp: no_match_def match_at_None)
  then show ?thesis
    using lookup_vacant_spec [OF table_okD(3) [OF t], of h] by (auto simp: lookup_slot_no_match)
qed

lemma find_index_table:
  assumes "table_ok ko d" "keys_ok ko" "value_lookup_hash ko key = Some h"
  shows "find_index_with_hash ko d key h = Inr (match_at ko key (d_entries d))"
proof (cases "match_at ko key (d_entries d)")
  case None
  then show ?thesis using lookup_missing [OF assms(1) None, of h] table_okD(4) [OF assms(1)]
    by (auto simp: find_index_with_hash_def)
next
  case (Some e)
  then show ?thesis using lookup_found [OF assms Some] table_okD(4) [OF assms(1)]
    by (simp add: find_index_with_hash_def)
qed

lemma find_index_spec:
  "dict_inv ko d \<Longrightarrow> find_index ko d key = Inr (match_at ko key (d_entries d))"
  "dict_inv ko d \<Longrightarrow> value_lookup_hash ko key = Some h \<Longrightarrow>
   find_index_with_hash ko d key h = Inr (match_at ko key (d_entries d))"
proof -
  show w: "find_index_with_hash ko d key h = Inr (match_at ko key (d_entries d))"
    if "dict_inv ko d" "value_lookup_hash ko key = Some h" for h
    using that find_index_table [of ko d key h]
    by (auto simp: dict_inv_def backend_empty_def find_index_with_hash_def scan_match)
  show "dict_inv ko d \<Longrightarrow> find_index ko d key = Inr (match_at ko key (d_entries d))"
    using w by (cases "value_lookup_hash ko key") (simp_all add: find_index_def scan_match)
qed

lemma value_at_match: "value_at d (match_at ko key (d_entries d)) = Inr (alist_find ko key (d_entries d))"
  by (cases "match_at ko key (d_entries d)")
     (auto simp: value_at_def alist_find_def split_beta dest: match_at_Some)

lemma dict_find_spec:
  "dict_inv ko d \<Longrightarrow> dict_find ko d key = Inr (alist_find ko key (d_entries d))"
  by (simp add: dict_find_def find_index_spec value_at_match)

section \<open>Insertion\<close>

text \<open>Appending an entry, before it is placed in the table.\<close>

lemma entries_append:
  assumes "entries_ok ko d" "keys_ok ko" "match_at ko key (d_entries d) = None" "value_lookup_hash ko key = Some h"
    and "d_entries d' = d_entries d @ [(key, v)]" "d_hashes d' = d_hashes d @ [Some h]"
  shows "entries_ok ko d'"
proof -
  let ?n = "length (d_entries d)"
  have len: "length (d_hashes d) = ?n" using assms(1) by (simp add: entries_ok_def)
  have "\<exists>g. d_hashes d' ! e = Some g \<and> value_lookup_hash ko (fst (d_entries d' ! e)) = Some g" if "e < Suc ?n" for e
    using that entries_okD [OF assms(1), of e] assms(4) len by (auto simp: assms(5,6) nth_append less_Suc_eq)
  moreover have "i = j" if "i < Suc ?n" "j < Suc ?n" "value_key_equal ko (fst (d_entries d' ! i)) (fst (d_entries d' ! j))" for i j
  proof -
    have none: "\<not> value_key_equal ko (fst (d_entries d ! e)) key" if "e < ?n" for e
      using assms(3) that by (simp add: match_at_None)
    consider "i < ?n" "j < ?n" | "i < ?n" "j = ?n" | "i = ?n" "j < ?n" | "i = j"
      using \<open>i < Suc ?n\<close> \<open>j < Suc ?n\<close> by linarith
    then show ?thesis
    proof cases
      case 1
      then show ?thesis using that(3) assms(1) by (simp add: assms(5) nth_append entries_ok_def)
    next
      case 2
      then show ?thesis using that(3) none [of i] by (simp add: assms(5) nth_append)
    next
      case 3
      then show ?thesis using keys_okD(2) [OF assms(2) that(3)] none [of j] by (simp add: assms(5) nth_append)
    qed
  qed
  ultimately show ?thesis using len by (simp add: entries_ok_def assms(5,6))
qed

lemma placed_append:
  assumes "placed d (length (d_entries d))" "d_slots d' = d_slots d" "d_filled d' = d_filled d"
    and "d_entries d' = d_entries d @ [kv]" "d_entry_slots d' = d_entry_slots d @ [x]"
    and "d_hashes d' = d_hashes d @ [y]" "length (d_hashes d) = length (d_entries d)"
  shows "placed d' (length (d_entries d))"
  using assms(1) assms(7) unfolding placed_def placed_at_def
  by (auto simp: assms(2-6) nth_append)

lemma place_new_spec:
  assumes t: "table_ok ko d" and k: "keys_ok ko" and m: "match_at ko key (d_entries d) = None"
    and h: "value_lookup_hash ko key = Some h"
    and s: "s < length (d_slots d)" "vacant (d_slots d ! s)" "reaches (d_slots d) h s"
  shows "\<exists>d'. place_new key v h s d = Inr d' \<and> table_ok ko d' \<and> d_entries d' = d_entries d @ [(key, v)] \<and>
    length (d_slots d') = length (d_slots d)"
proof -
  let ?n = "length (d_entries d)"
  let ?a = "d\<lparr>d_entries := d_entries d @ [(key, v)], d_hashes := d_hashes d @ [Some h],
    d_entry_slots := d_entry_slots d @ [None], d_used := d_used d + 1\<rparr>"
  let ?d = "?a\<lparr>d_slots := (d_slots ?a)[s := Occupied h ?n], d_entry_slots := (d_entry_slots ?a)[?n := Some s],
    d_filled := d_filled ?a + (if d_slots ?a ! s = Empty then 1 else 0)\<rparr>"
  note T = table_okD [OF t]
  have "placed ?a ?n" by (rule placed_append [OF T(2)]) (simp_all add: T(5))
  then have "placed ?d (Suc ?n)" using s T(5) by (intro placed_write) (simp_all add: nth_append)
  moreover have "entries_ok ko ?d" by (rule entries_append [OF T(1) k m h]) simp_all
  ultimately have "table_ok ko ?d" using T(7) by (simp add: table_ok_def)
  moreover have "place_new key v h s d = Inr ?d" using s(1) T(6) by (simp add: place_new_def Let_def list_update_append)
  ultimately show ?thesis by (intro exI [of _ ?d]) simp
qed

lemma placed_cong:
  assumes "placed d m" "d_slots d' = d_slots d" "d_filled d' = d_filled d" "length (d_entries d') = length (d_entries d)"
    "d_entry_slots d' = d_entry_slots d" "d_hashes d' = d_hashes d"
  shows "placed d' m"
  using assms(1) unfolding placed_def placed_at_def by (simp add: assms(2-6))

lemma set_value_spec:
  assumes "table_ok ko d" "i < length (d_entries d)"
  shows "\<exists>d'. set_value_at i v d = Inr d' \<and> table_ok ko d' \<and> d_entries d' = (d_entries d)[i := (fst (d_entries d ! i), v)] \<and>
    d_hashes d' = d_hashes d \<and> length (d_slots d') = length (d_slots d)"
proof -
  let ?d = "d\<lparr>d_entries := (d_entries d)[i := (fst (d_entries d ! i), v)]\<rparr>"
  have "fst ((d_entries d)[i := (fst (d_entries d ! i), v)] ! j) = fst (d_entries d ! j)" for j
    by (cases "i = j"; cases "i < length (d_entries d)") (simp_all add: list_update_beyond)
  then have "entries_ok ko ?d" using table_okD(1) [OF assms(1)] by (simp add: entries_ok_def)
  moreover have "placed ?d (length (d_entries d))" by (rule placed_cong [OF table_okD(2) [OF assms(1)]]) simp_all
  ultimately have "table_ok ko ?d" using table_okD(7) [OF assms(1)] by (simp add: table_ok_def)
  then show ?thesis using assms(2) by (intro exI [of _ ?d]) (simp add: set_value_at_def split_beta)
qed

text \<open>
  An insertion succeeds with the entries of the association list, or the table would have to
  grow beyond what can be allocated.
\<close>

definition inserted ::
  "'k keyops \<Rightarrow> 'k \<Rightarrow> 'v \<Rightarrow> ('k, 'v) DictBackend \<Rightarrow> ('k, 'v) DictBackend res \<Rightarrow> bool" where
  "inserted ko key v d r \<longleftrightarrow>
     (\<exists>d'. r = Inr d' \<and> table_ok ko d' \<and> d_entries d' = alist_insert ko key v (d_entries d)) \<or>
     (r = Inl (Panic ''capacity overflow'') \<and> length (d_slots d) = 2 ^ 58)"

definition grow_and_place ::
  "'k keyops \<Rightarrow> 'k \<Rightarrow> 'v \<Rightarrow> u64 \<Rightarrow> ('k, 'v) DictBackend \<Rightarrow> ('k, 'v) DictBackend res" where
  "grow_and_place ko key v h d =
     bindr (resize_slots ko (length (d_slots d) * 2) d) (\<lambda>d.
     bindr (lookup_vacant_slot (d_slots d) h) (\<lambda>slot. place_new key v h slot d))"

lemma grow_and_place_spec:
  assumes t: "table_ok ko d" and k: "keys_ok ko" and m: "match_at ko key (d_entries d) = None"
    and h: "value_lookup_hash ko key = Some h"
  shows "inserted ko key v d (grow_and_place ko key v h d)"
proof -
  let ?n = "length (d_slots d)"
  note T = table_okD [OF t]
  obtain b where b: "3 \<le> b" "b \<le> 58" "?n = 2 ^ b" using T(3) by (auto simp: table_size_def)
  have n: "8 \<le> ?n" "?n \<le> 2 ^ 58" "length (d_entries d) \<le> ?n"
    using table_size_pos [OF T(3)] table_size_le [OF T(3)] placed_bound [OF T(2)] by blast+
  have "next_power_of_two (2 ^ Suc b) = 2 ^ Suc b" using b by (intro next_power_exact) simp_all
  then have np: "next_power_of_two (max (?n * 2) 8) = ?n * 2" using b n by (simp add: max_def mult.commute)
  note R = resize_spec [OF T(1), of "?n * 2", unfolded np]
  show ?thesis
  proof (cases "?n * 2 \<le> 2 ^ 58")
    case True
    obtain d2 where d2: "resize_slots ko (?n * 2) d = Inr d2" "table_ok ko d2" "d_entries d2 = d_entries d"
        "length (d_slots d2) = ?n * 2"
      using R n True by auto
    obtain s where s: "lookup_vacant_slot (d_slots d2) h = Inr s" "s < length (d_slots d2)"
        "vacant (d_slots d2 ! s)" "reaches (d_slots d2) h s"
      using lookup_vacant_spec [OF table_okD(3) [OF d2(2)], of h] placed_vacant [OF table_okD(2) [OF d2(2)]] d2 n by auto
    have "match_at ko key (d_entries d2) = None" using m d2(3) by simp
    from place_new_spec [OF d2(2) k this h s(2-4), of v] show ?thesis
      using d2 s(1) m by (auto simp: grow_and_place_def inserted_def alist_insert_def)
  next
    case False
    have "b = 58"
    proof (rule ccontr)
      assume "b \<noteq> 58"
      then have "(2 :: nat) ^ Suc b \<le> 2 ^ 58" using b(2) by (intro power_increasing) simp_all
      then show False using False b(3) by simp
    qed
    then show ?thesis using R n False b(3) by (simp add: grow_and_place_def inserted_def)
  qed
qed

lemma insert_table:
  assumes t: "table_ok ko d" and k: "keys_ok ko" and h: "value_lookup_hash ko key = Some h"
  shows "inserted ko key v d (insert_with_hash ko key v h d)"
proof -
  let ?n = "length (d_slots d)"
  note T = table_okD [OF t]
  show ?thesis
  proof (cases "match_at ko key (d_entries d)")
    case (Some e)
    have e: "e < length (d_entries d)" "value_key_equal ko (fst (d_entries d ! e)) key"
      using match_at_Some [OF Some] by blast+
    have "d_hashes d ! e = Some h" using entries_okD [OF T(1) e(1)] keys_okD(4) [OF k e(2)] h by auto
    moreover obtain d' where d': "set_value_at e v d = Inr d'" "table_ok ko d'" "d_hashes d' = d_hashes d"
        "d_entries d' = (d_entries d)[e := (fst (d_entries d ! e), v)]"
      using set_value_spec [OF t e(1), of v] by blast
    ultimately have "insert_with_hash ko key v h d = Inr d'"
      using lookup_found [OF t k h Some] T(4,5) e(1) list_update_id [of "d_hashes d" e]
      by (simp add: insert_with_hash_def)
    then show ?thesis using d' Some by (simp add: inserted_def alist_insert_def)
  next
    case None
    obtain s where s: "lookup_slot ko d key h = Inr (Vacant s)" "s < ?n"
        "(\<exists>k < ?n. vacant (d_slots d ! k)) \<longrightarrow> vacant (d_slots d ! s) \<and> reaches (d_slots d) h s"
      using lookup_missing [OF t None, of h] by blast
    show ?thesis
    proof (cases "?n * LOAD_NUMERATOR div LOAD_DENOMINATOR < d_filled d + 1")
      case True
      then have "insert_with_hash ko key v h d = grow_and_place ko key v h d"
        using s(1) T(4) by (simp add: insert_with_hash_def grow_and_place_def)
      then show ?thesis using grow_and_place_spec [OF t k None h, of v] by simp
    next
      case False
      then have "d_filled d < ?n" using table_size_pos [OF T(3)]
        by (simp add: LOAD_NUMERATOR_def LOAD_DENOMINATOR_def)
      then have "vacant (d_slots d ! s)" "reaches (d_slots d) h s" using s(3) vacant_if_few T(8) by auto
      from place_new_spec [OF t k None h s(2) this, of v] show ?thesis
        using s(1) T(4) False None by (auto simp: insert_with_hash_def inserted_def alist_insert_def)
    qed
  qed
qed

lemma empty_entries_ok: "entries_ok ko backend_empty"
  by (simp add: entries_ok_def backend_empty_def)

lemma insert_with_hash_spec:
  assumes "dict_inv ko d" and h: "value_lookup_hash ko key = Some h"
  shows "inserted ko key v d (insert_with_hash ko key v h d)"
proof (cases "table_ok ko d")
  case True
  then show ?thesis using insert_table [OF True _ h] assms(1) by (simp add: dict_inv_def)
next
  case False
  then have d: "d = backend_empty" and k: "keys_ok ko" using assms(1) by (auto simp: dict_inv_def)
  have np: "next_power_of_two (max MIN_TABLE_SIZE 8) = 8"
    using next_power_exact [of 3] by (simp add: MIN_TABLE_SIZE_def)
  obtain d1 where d1: "resize_slots ko MIN_TABLE_SIZE backend_empty = Inr (d1 :: ('a, 'b) DictBackend)"
      "table_ok ko d1" "d_entries d1 = d_entries (backend_empty :: ('a, 'b) DictBackend)" "length (d_slots d1) = 8"
    using resize_spec [OF empty_entries_ok, of MIN_TABLE_SIZE ko] unfolding np
    by (auto simp: backend_empty_def MIN_TABLE_SIZE_def)
  have "insert_with_hash ko key v h d = insert_with_hash ko key v h d1"
    using d d1 table_okD(4) [OF d1(2)] by (simp add: insert_with_hash_def) (simp add: backend_empty_def)
  then show ?thesis using insert_table [OF d1(2) k h, of v] d1(3,4) d by (auto simp: inserted_def)
qed

lemma dict_insert_spec:
  assumes "dict_inv ko d" "value_lookup_hash ko key \<noteq> None"
  shows "(\<exists>d'. dict_insert ko key v d = Inr d' \<and> dict_inv ko d' \<and> d_entries d' = alist_insert ko key v (d_entries d)) \<or>
    (dict_insert ko key v d = Inl (Panic ''capacity overflow'') \<and> length (d_slots d) = 2 ^ 58)"
proof -
  obtain h where h: "value_lookup_hash ko key = Some h" using assms(2) by blast
  have k: "keys_ok ko" using assms(1) by (simp add: dict_inv_def)
  show ?thesis
    using insert_with_hash_spec [OF assms(1) h, of v] k unfolding inserted_def
    by (auto simp: dict_insert_def h dict_inv_def)
qed

section \<open>Removal\<close>

lemma delete_nth_length: "i < length xs \<Longrightarrow> length (delete_nth i xs) = length xs - 1"
  by (simp add: delete_nth_def)

lemma delete_nth_nth: "i < length xs \<Longrightarrow> j < length xs - 1 \<Longrightarrow> delete_nth i xs ! j = xs ! (if j < i then j else Suc j)"
  by (auto simp: delete_nth_def nth_append min_def)

text \<open>What the removal does to a slot.\<close>

fun shifted :: "nat \<Rightarrow> DictSlot \<Rightarrow> DictSlot" where
  "shifted i (Occupied h e) = (if e = i then Dummy else if i < e then Occupied h (e - 1) else Occupied h e)"
| "shifted i s = s"

fun lowered :: "nat \<Rightarrow> DictSlot \<Rightarrow> DictSlot" where
  "lowered i (Occupied h e) = (if i < e then Occupied h (e - 1) else Occupied h e)"
| "lowered i s = s"

lemma list_update_same: "xs ! i = x \<Longrightarrow> xs[i := x] = xs"
  by (metis list_update_id)

lemma adjust_slot_nth:
  "adjust_slot i (Some s) ss = ss[s := lowered i (ss ! s)]"
  by (cases "s < length ss"; cases "ss ! s") (simp_all add: adjust_slot_def list_update_beyond list_update_same)

lemma fold_adjust:
  "distinct xs \<Longrightarrow> length (fold (adjust_slot i) (map Some xs) ss) = length ss \<and>
   (\<forall>s < length ss. fold (adjust_slot i) (map Some xs) ss ! s = (if s \<in> set xs then lowered i (ss ! s) else ss ! s))"
proof (induction xs arbitrary: ss)
  case (Cons x xs)
  let ?ss = "ss[x := lowered i (ss ! x)]"
  have "?ss ! s = (if s = x then lowered i (ss ! x) else ss ! s)" if "s < length ss" for s using that by simp
  then show ?case using Cons.IH [of ?ss] Cons.prems by (auto simp: adjust_slot_nth)
qed simp

lemma removed_slots:
  assumes t: "table_ok ko d" and i: "i < length (d_entries d)" and s: "d_entry_slots d ! i = Some s"
  defines "ss \<equiv> adjust_slot_indices_after_remove i (delete_nth i (d_entry_slots d)) (remove_slot_for_entry i s (d_slots d))"
  shows "length ss = length (d_slots d) \<and> (\<forall>k < length (d_slots d). ss ! k = shifted i (d_slots d ! k))"
proof -
  note T = table_okD [OF t]
  have at: "\<exists>s. d_entry_slots d ! e = Some s \<and> s < length (d_slots d) \<and> d_slots d ! s = Occupied (the (d_hashes d ! e)) e"
    if "e < length (d_entries d)" for e
    using T(2) that unfolding placed_def placed_at_def by blast
  define xs where "xs = map the (drop (Suc i) (d_entry_slots d))"
  have "x \<noteq> None" if x: "x \<in> set (drop (Suc i) (d_entry_slots d))" for x
  proof -
    obtain j where j: "j < length (d_entry_slots d) - Suc i" "x = d_entry_slots d ! (Suc i + j)"
      using x by (auto simp: in_set_conv_nth)
    then have "Suc i + j < length (d_entries d)" using T(6) by simp
    from at [OF this] show ?thesis using j(2) by auto
  qed
  then have "map Some xs = drop (Suc i) (d_entry_slots d)" unfolding xs_def by (simp add: map_idI)
  moreover have "drop i (delete_nth i (d_entry_slots d)) = drop (Suc i) (d_entry_slots d)"
    using i T(6) by (simp add: delete_nth_def)
  moreover have "remove_slot_for_entry i s (d_slots d) = (d_slots d)[s := Dummy]"
    using at [OF i] s by (auto simp: remove_slot_for_entry_def)
  ultimately have ss: "ss = fold (adjust_slot i) (map Some xs) ((d_slots d)[s := Dummy])"
    by (simp add: ss_def adjust_slot_indices_after_remove_def)
  have nth: "xs ! j = the (d_entry_slots d ! (Suc i + j))" "Suc i + j < length (d_entries d)" if "j < length xs" for j
    using that T(6) by (simp_all add: xs_def)
  have "distinct xs"
    unfolding distinct_conv_nth
  proof (intro allI impI)
    fix j k
    assume "j < length xs" "k < length xs" "j \<noteq> k"
    then show "xs ! j \<noteq> xs ! k" using nth at by (metis DictSlot.inject add_left_cancel option.sel)
  qed
  note F = fold_adjust [OF this, of i "(d_slots d)[s := Dummy]", folded ss]
  have "ss ! k = shifted i (d_slots d ! k)" if k: "k < length (d_slots d)" for k
  proof (cases "d_slots d ! k")
    case (Occupied h e)
    have e: "e < length (d_entries d)" "d_entry_slots d ! e = Some k" using table_slot [OF t k Occupied] by blast+
    have "k \<in> set xs \<longleftrightarrow> i < e"
    proof
      assume "k \<in> set xs"
      then obtain j where j: "j < length xs" "xs ! j = k" by (auto simp: in_set_conv_nth)
      then have "e = Suc i + j" using nth [OF j(1)] at [of "Suc i + j"] Occupied by auto
      then show "i < e" by simp
    next
      assume "i < e"
      then have "xs ! (e - Suc i) = k" "e - Suc i < length xs" using e T(6) by (simp_all add: xs_def)
      then show "k \<in> set xs" by (metis nth_mem)
    qed
    moreover have "k = s \<longleftrightarrow> e = i" using e s at [OF i] Occupied by auto
    ultimately show ?thesis using F k Occupied by (auto simp: nth_list_update)
  next
    case Empty
    then have "k \<noteq> s" using at [OF i] s by auto
    then show ?thesis using F k Empty by auto
  next
    case Dummy
    then show ?thesis using F k by (cases "k = s") auto
  qed
  then show ?thesis using F by simp
qed

lemma removed_table:
  assumes t: "table_ok ko d" and i: "i < length (d_entries d)"
    and ss: "length ss = length (d_slots d)" "\<forall>k < length (d_slots d). ss ! k = shifted i (d_slots d ! k)"
  shows "table_ok ko (d\<lparr>d_entries := delete_nth i (d_entries d), d_hashes := delete_nth i (d_hashes d),
    d_entry_slots := delete_nth i (d_entry_slots d), d_slots := ss, d_used := length (d_entries d) - 1\<rparr>)" (is "table_ok ko ?d")
proof -
  note T = table_okD [OF t]
  let ?up = "\<lambda>e. if e < i then e else Suc e"
  let ?n = "length (d_entries d)"
  have nth: "d_entries ?d ! e = d_entries d ! ?up e" "d_hashes ?d ! e = d_hashes d ! ?up e"
    "d_entry_slots ?d ! e = d_entry_slots d ! ?up e" "?up e < ?n" if "e < ?n - 1" for e
    using that i T(5,6) by (simp_all add: delete_nth_nth) arith
  have len: "length (d_entries ?d) = ?n - 1" "length (d_hashes ?d) = ?n - 1" "length (d_entry_slots ?d) = ?n - 1"
    using i T(5,6) by (simp_all add: delete_nth_length)
  have up_inj: "?up e = ?up f \<Longrightarrow> e = f" for e f by (auto split: if_splits)
  have ent: "entries_ok ko ?d"
    unfolding entries_ok_def len
  proof (intro conjI allI impI)
    fix e
    assume "e < ?n - 1"
    then show "\<exists>h. d_hashes ?d ! e = Some h \<and> value_lookup_hash ko (fst (d_entries ?d ! e)) = Some h"
      using nth(1,2) [of e] entries_okD [OF T(1) nth(4) [of e]] by simp
  next
    fix e f
    assume "e < ?n - 1" "f < ?n - 1" "value_key_equal ko (fst (d_entries ?d ! e)) (fst (d_entries ?d ! f))"
    then have "value_key_equal ko (fst (d_entries d ! ?up e)) (fst (d_entries d ! ?up f))" "?up e < ?n" "?up f < ?n"
      using nth(1,4) [of e] nth(1,4) [of f] by simp_all
    then show "e = f" using table_distinct [OF t] up_inj by blast
  qed simp
  have keep: "reaches ss h s" if rs: "reaches (d_slots d) h s" for h s
  proof -
    obtain r where r: "r < length (d_slots d) + MAX_PERTURB_ROUNDS" "probe (length (d_slots d)) h r = s"
        "\<forall>q < r. d_slots d ! probe (length (d_slots d)) h q \<noteq> Empty" using rs by (auto simp: reaches_def)
    have "shifted i x = Empty \<longleftrightarrow> x = Empty" for x by (cases x) auto
    then have "\<forall>q < r. ss ! probe (length (d_slots d)) h q \<noteq> Empty"
      using r(3) ss(2) probe_lt [OF T(3)] by metis
    then show ?thesis using r ss(1) unfolding reaches_def by auto
  qed
  have at: "placed_at ?d e" if e: "e < ?n - 1" for e
  proof -
    have "placed_at d (?up e)" using T(2) nth(4) [OF e] by (simp add: placed_def)
    then obtain s where s: "d_entry_slots d ! ?up e = Some s" "s < length (d_slots d)"
        "d_slots d ! s = Occupied (the (d_hashes d ! ?up e)) (?up e)" "reaches (d_slots d) (the (d_hashes d ! ?up e)) s"
      unfolding placed_at_def by blast
    have "ss ! s = Occupied (the (d_hashes d ! ?up e)) e" using ss(2) s(2,3) by auto
    then show ?thesis using s(1,2) keep [OF s(4)] ss(1) nth(2,3) [OF e] unfolding placed_at_def by simp
  qed
  have conv: "e < ?n - 1 \<and> d_entry_slots ?d ! e = Some s" if s: "s < length ss" "ss ! s = Occupied h e" for s h e
  proof -
    obtain e' where e': "d_slots d ! s = Occupied h e'" "e' \<noteq> i" "e = (if i < e' then e' - 1 else e')"
      using s ss by (cases "d_slots d ! s") (auto split: if_splits)
    have f: "e' < ?n" "d_entry_slots d ! e' = Some s" using table_slot [OF t _ e'(1)] s(1) ss(1) by auto
    have e: "e < ?n - 1" "?up e = e'" using e'(2,3) f(1) i by auto
    then show ?thesis using f(2) nth(3) [OF e(1)] by simp
  qed
  have "nonempty ss = nonempty (d_slots d)"
  proof -
    have "shifted i x = Empty \<longleftrightarrow> x = Empty" for x by (cases x) auto
    then show ?thesis using ss by (auto simp: nonempty_def)
  qed
  then have "placed ?d (?n - 1)"
    unfolding placed_def using T(3,8) ss(1) len at conv by simp
  then show ?thesis using ent len by (simp add: table_ok_def)
qed

lemma clear_empty: "clear d = (backend_empty :: ('k, 'v) DictBackend)"
  by (simp add: clear_def backend_empty_def)

lemma resize_fits:
  assumes e: "entries_ok ko d" and "length (d_entries d) \<le> max target 8" and n: "table_size n" and "target \<le> n"
  shows "\<exists>d'. resize_slots ko target d = Inr d' \<and> table_ok ko d' \<and> d_entries d' = d_entries d"
proof -
  obtain b where b: "3 \<le> b" "b \<le> 58" "n = 2 ^ b" using n by (auto simp: table_size_def)
  have le: "max target 8 \<le> 2 ^ b" "target \<le> 2 ^ 58"
    using assms(4) b(3) table_size_pos [OF n] table_size_le [OF n] by auto
  obtain c where c: "next_power_of_two (max target 8) = 2 ^ c" "2 ^ c < 2 * max target 8"
    using next_power_spec [of "max target 8"] le(2) by auto
  note c(2)
  also have "2 * max target 8 \<le> 2 * 2 ^ b" by (rule mult_le_mono2 [OF le(1)])
  finally have "(2 :: nat) ^ c < 2 ^ Suc b" by simp
  then have "c < Suc b" by (rule power_less_imp_less_exp [rotated]) simp
  then have "(2 :: nat) ^ c \<le> 2 ^ 58" using b(2) by (intro power_increasing) simp_all
  then show ?thesis using resize_spec [OF e assms(2)] le(2) c(1) by auto
qed

lemma shrink_spec:
  assumes "table_ok ko d" "length (d_entries d) \<le> max target 8" "target \<le> length (d_slots d)"
  shows "\<exists>d'. resize_slots ko target d = Inr d' \<and> table_ok ko d' \<and> d_entries d' = d_entries d"
  using resize_fits assms table_okD(1,3) by blast

lemma maybe_resize_spec:
  assumes t: "table_ok ko d" and k: "keys_ok ko"
  shows "\<exists>d'. maybe_resize_after_remove ko d = Inr d' \<and> dict_inv ko d' \<and> d_entries d' = d_entries d"
proof -
  note T = table_okD [OF t]
  have le: "length (d_entries d) \<le> length (d_slots d)" "8 \<le> length (d_slots d)"
    using placed_bound [OF T(2)] table_size_pos [OF T(3)] by auto
  have inv: "dict_inv ko d'" if "table_ok ko d'" for d' using that k by (simp add: dict_inv_def)
  have m: "max (length (d_slots d)) MIN_TABLE_SIZE = length (d_slots d)" using le(2) by (simp add: MIN_TABLE_SIZE_def)
  have same: "\<exists>d'. resize_slots ko (length (d_slots d)) d = Inr d' \<and> table_ok ko d' \<and> d_entries d' = d_entries d"
    using le by (intro shrink_spec [OF t]) simp_all
  have half: "\<exists>d'. resize_slots ko (length (d_slots d) div 2) d = Inr d' \<and> table_ok ko d' \<and> d_entries d' = d_entries d"
    if "d_used d * 8 \<le> length (d_slots d)"
    using that T(7) by (intro shrink_spec [OF t]) simp_all
  show ?thesis
  proof (cases "d_entries d = []")
    case True
    have "dict_inv ko (clear d)" unfolding clear_empty using k by (simp add: dict_inv_def)
    then show ?thesis using True by (simp add: maybe_resize_after_remove_def clear_def)
  next
    case False
    then show ?thesis using same half inv t m
      by (auto simp: maybe_resize_after_remove_def Let_def)
  qed
qed

lemma dict_remove_spec:
  assumes "dict_inv ko d" "i < length (d_entries d)"
  shows "\<exists>d'. dict_remove ko i d = Inr (d_entries d ! i, d') \<and> dict_inv ko d' \<and> d_entries d' = delete_nth i (d_entries d)"
proof -
  have t: "table_ok ko d" and k: "keys_ok ko" using assms by (auto simp: dict_inv_def backend_empty_def)
  note T = table_okD [OF t]
  obtain s where s: "d_entry_slots d ! i = Some s" using T(2) assms(2) unfolding placed_def placed_at_def by blast
  let ?ss = "adjust_slot_indices_after_remove i (delete_nth i (d_entry_slots d)) (remove_slot_for_entry i s (d_slots d))"
  let ?d = "d\<lparr>d_entries := delete_nth i (d_entries d), d_hashes := delete_nth i (d_hashes d),
    d_entry_slots := delete_nth i (d_entry_slots d), d_slots := ?ss, d_used := length (d_entries d) - 1\<rparr>"
  have "table_ok ko ?d" using removed_slots [OF t assms(2) s] by (intro removed_table [OF t assms(2)]) simp_all
  from maybe_resize_spec [OF this k] obtain d' where
    "maybe_resize_after_remove ko ?d = Inr d'" "dict_inv ko d'" "d_entries d' = delete_nth i (d_entries d)" by auto
  then show ?thesis using assms(2) s T(5,6) by (simp add: dict_remove_def Let_def)
qed

lemma remove_key_spec:
  assumes "dict_inv ko d"
  shows "\<exists>d'. remove_key ko key d = Inr (map_option (\<lambda>i. d_entries d ! i) (match_at ko key (d_entries d)), d') \<and>
    dict_inv ko d' \<and> d_entries d' = alist_remove ko key (d_entries d)"
proof (cases "match_at ko key (d_entries d)")
  case None
  then show ?thesis using assms by (simp add: remove_key_def find_index_spec remove_found_def alist_remove_def)
next
  case (Some i)
  obtain d' where "dict_remove ko i d = Inr (d_entries d ! i, d')" "dict_inv ko d'" "d_entries d' = delete_nth i (d_entries d)"
    using dict_remove_spec [OF assms] match_at_Some [OF Some] by blast
  then show ?thesis using assms Some by (simp add: remove_key_def find_index_spec remove_found_def alist_remove_def)
qed

section \<open>Filtering\<close>

lemma zip_filter_fst: "length xs = length ys \<Longrightarrow> map fst (filter (\<lambda>(x, y). P x) (zip xs ys)) = filter P xs"
  by (induction xs ys rule: list_induct2) auto

lemma filter_indices:
  "\<exists>js. sorted_wrt (<) js \<and> set js \<subseteq> {..<length xs} \<and> filter P xs = map ((!) xs) js"
proof -
  let ?js = "filter (\<lambda>i. P (xs ! i)) [0..<length xs]"
  have "filter P xs = filter P (map ((!) xs) [0..<length xs])" by (simp add: map_nth)
  also have "\<dots> = map ((!) xs) ?js" by (simp add: filter_map o_def)
  finally have "filter P xs = map ((!) xs) ?js" .
  moreover have "sorted_wrt (<) ?js" by (intro sorted_wrt_filter) simp
  ultimately show ?thesis by (intro exI [of _ ?js]) auto
qed

lemma entries_ok_filter:
  assumes "entries_ok ko d"
    and es: "d_entries d' = map fst (filter (\<lambda>(x, y). P x) (zip (d_entries d) (d_hashes d)))"
    and hs: "d_hashes d' = map snd (filter (\<lambda>(x, y). P x) (zip (d_entries d) (d_hashes d)))"
  shows "entries_ok ko d'"
proof -
  let ?zs = "zip (d_entries d) (d_hashes d)"
  let ?fs = "filter (\<lambda>(x, y). P x) ?zs"
  have len: "length (d_hashes d) = length (d_entries d)" using assms(1) by (simp add: entries_ok_def)
  obtain js where js: "sorted_wrt (<) js" "set js \<subseteq> {..<length ?zs}" "?fs = map ((!) ?zs) js"
    using filter_indices by blast
  have nth: "d_entries d' ! e = d_entries d ! (js ! e)" "d_hashes d' ! e = d_hashes d ! (js ! e)" "js ! e < length (d_entries d)"
    if "e < length js" for e
  proof -
    have "js ! e \<in> {..<length ?zs}" using js(2) that nth_mem by blast
    then show "js ! e < length (d_entries d)" using len by simp
    then show "d_entries d' ! e = d_entries d ! (js ! e)" "d_hashes d' ! e = d_hashes d ! (js ! e)"
      using that len by (simp_all add: es hs js(3))
  qed
  have "distinct js" using js(1) strict_sorted_iff by blast
  then have "e = f" if "e < length js" "f < length js" "js ! e = js ! f" for e f
    using that nth_eq_iff_index_eq by blast
  then show ?thesis
    unfolding entries_ok_def using nth assms(1) by (auto simp: es hs js(3) entries_ok_def)
qed

lemma retain_spec:
  assumes "dict_inv ko d"
  shows "\<exists>d'. retain ko f d = Inr d' \<and> dict_inv ko d' \<and> d_entries d' = filter f (d_entries d)"
proof -
  define kept where "kept = filter (\<lambda>(e, h). f e) (zip (d_entries d) (d_hashes d))"
  let ?d = "d\<lparr>d_entries := map fst kept, d_hashes := map snd kept\<rparr>"
  have k: "keys_ok ko" using assms by (simp add: dict_inv_def)
  have r: "retain ko f d = rebuild_slots ko ?d" by (simp add: retain_def kept_def Let_def)
  show ?thesis
  proof (cases "kept = []")
    case True
    moreover have "length (d_hashes d) = length (d_entries d)"
      using assms table_okD(5) by (auto simp: dict_inv_def backend_empty_def)
    ultimately have "filter f (d_entries d) = []" using zip_filter_fst [of "d_entries d" "d_hashes d" f] by (simp add: kept_def)
    then show ?thesis using True k by (simp add: r rebuild_slots_def clear_empty dict_inv_def) (simp add: backend_empty_def)
  next
    case False
    then have t: "table_ok ko d" using assms by (auto simp: dict_inv_def kept_def backend_empty_def)
    note T = table_okD [OF t]
    have fst: "map fst kept = filter f (d_entries d)" unfolding kept_def using T(5) by (simp add: zip_filter_fst)
    have "entries_ok ko ?d" using T(1) by (rule entries_ok_filter [where P = f]) (simp_all add: kept_def)
    moreover have "length (map fst kept) \<le> length (d_slots d)"
      unfolding fst using placed_bound [OF T(2)] length_filter_le le_trans by blast
    ultimately have "\<exists>d'. resize_slots ko (max (length kept) 8) ?d = Inr d' \<and> table_ok ko d' \<and> d_entries d' = map fst kept"
      using resize_fits [of ko ?d "max (length kept) 8" "length (d_slots d)"] T(3) table_size_pos [OF T(3)] by simp
    moreover have "map fst kept \<noteq> []" using False by simp
    ultimately show ?thesis using k by (auto simp: r rebuild_slots_def MIN_TABLE_SIZE_def dict_inv_def simp flip: fst)
  qed
qed

section \<open>Candidates\<close>

definition before_empty :: "DictSlot list \<Rightarrow> u64 \<Rightarrow> nat \<Rightarrow> nat \<Rightarrow> bool" where
  "before_empty ss h i q \<longleftrightarrow> (\<forall>j. i \<le> j \<and> j < q \<longrightarrow> ss ! probe (length ss) h j \<noteq> Empty)"

lemma before_empty_step:
  "before_empty ss h i i"
  "i < q \<Longrightarrow> before_empty ss h i q \<longleftrightarrow> ss ! probe (length ss) h i \<noteq> Empty \<and> before_empty ss h (Suc i) q"
proof -
  show "before_empty ss h i i" by (auto simp: before_empty_def)
  have "i \<le> j \<and> j < q \<longleftrightarrow> j = i \<or> Suc i \<le> j \<and> j < q" if "i < q" for j using that by auto
  then show "before_empty ss h i q \<longleftrightarrow> ss ! probe (length ss) h i \<noteq> Empty \<and> before_empty ss h (Suc i) q" if "i < q"
    unfolding before_empty_def using that by simp blast
qed

lemma candidate_loop_spec:
  assumes n: "table_size (length ss)"
  shows "\<exists>es. candidate_loop r ss h (probe (length ss) h i) (snd (probe_state (length ss) h i)) = Inr es \<and>
    set es = {e. \<exists>q. i \<le> q \<and> q < i + r \<and> ss ! probe (length ss) h q = Occupied h e \<and> before_empty ss h i q}"
proof (induction r arbitrary: i)
  case (Suc r)
  let ?s = "ss ! probe (length ss) h i"
  let ?E = "\<lambda>i r. {e. \<exists>q. i \<le> q \<and> q < i + r \<and> ss ! probe (length ss) h q = Occupied h e \<and> before_empty ss h i q}"
  obtain es where es: "candidate_loop r ss h (probe (length ss) h (Suc i)) (snd (probe_state (length ss) h (Suc i))) = Inr es"
    "set es = ?E (Suc i) r" using Suc.IH [of "Suc i"] by auto
  have "(\<exists>q. i \<le> q \<and> q < i + Suc r \<and> P q) \<longleftrightarrow> P i \<or> (\<exists>q. Suc i \<le> q \<and> q < Suc i + r \<and> P q)" for P
    by (auto simp: Suc_le_eq) (metis le_neq_implies_less, metis less_imp_le)
  then have E: "?E i (Suc r) = {e. ?s = Occupied h e} \<union> (if ?s = Empty then {} else ?E (Suc i) r)"
    using before_empty_step [where i = i] by (auto simp: Suc_le_eq)
  show ?case
    using probe_lt [OF n] unfolding E by (cases ?s) (simp_all add: es Let_def probe_step del: probe_state.simps)
qed simp

lemma candidates_spec:
  assumes "dict_inv ko d"
  shows "\<exists>es. candidate_indices_for_hash ko d h = Inr es \<and>
    set es = {e. e < length (d_entries d) \<and> value_lookup_hash ko (fst (d_entries d ! e)) = Some h}"
proof (cases "d_entries d = []")
  case False
  then have t: "table_ok ko d" using assms by (auto simp: dict_inv_def backend_empty_def)
  note T = table_okD [OF t]
  let ?n = "length (d_slots d)"
  obtain es where es: "candidate_loop (rounds d) (d_slots d) h (first_slot ?n h) h = Inr es"
    "set es = {e. \<exists>q < rounds d. d_slots d ! probe ?n h q = Occupied h e \<and> before_empty (d_slots d) h 0 q}"
    using candidate_loop_spec [OF T(3), of "rounds d" h 0] by (auto simp: probe_start)
  have "e < length (d_entries d) \<and> value_lookup_hash ko (fst (d_entries d ! e)) = Some h"
    if "d_slots d ! probe ?n h q = Occupied h e" for e q
    using table_slot [OF t probe_lt [OF T(3)] that] by simp
  moreover have "\<exists>q < rounds d. d_slots d ! probe ?n h q = Occupied h e \<and> before_empty (d_slots d) h 0 q"
    if e: "e < length (d_entries d)" "value_lookup_hash ko (fst (d_entries d ! e)) = Some h" for e
  proof -
    have "the (d_hashes d ! e) = h" using entries_okD [OF T(1) e(1)] e(2) by auto
    then show ?thesis
      using T(2) e(1) unfolding placed_def placed_at_def reaches_def before_empty_def rounds_def by fastforce
  qed
  ultimately have "set es = {e. e < length (d_entries d) \<and> value_lookup_hash ko (fst (d_entries d ! e)) = Some h}"
    unfolding es(2) by blast
  then show ?thesis using es(1) False T(4) by (simp add: candidate_indices_for_hash_def)
qed (simp add: candidate_indices_for_hash_def)

end
