(* ===== verification/Dict_Object.thy ===== *)
theory Dict_Object
  imports Dict_Refine
begin

text \<open>
  \<open>DictObject\<close> of \<^verbatim>\<open>src/runtime/mod.rs\<close>: the dictionary object around the hash table, with its
  read-only mark and the mark \<open>legacy_hash_fallback\<close>, which tells lookups by an externally
  computed hash that some entry was stored under the internal one.
\<close>

record ('k, 'v) DictObject =
  do_backend :: "('k, 'v) DictBackend"
  do_readonly :: bool
  do_legacy_hash_fallback :: bool

definition dictobj_new :: "'k keyops \<Rightarrow> ('k \<times> 'v) list \<Rightarrow> ('k, 'v) DictObject res" where
  "dictobj_new ko entries =
     bindr (backend_new ko entries) (\<lambda>b.
     Inr \<lparr>do_backend = b, do_readonly = False, do_legacy_hash_fallback = entries \<noteq> []\<rparr>)"

definition dictobj_new_readonly :: "'k keyops \<Rightarrow> ('k \<times> 'v) list \<Rightarrow> ('k, 'v) DictObject res" where
  "dictobj_new_readonly ko entries =
     bindr (backend_new ko entries) (\<lambda>b.
     Inr \<lparr>do_backend = b, do_readonly = True, do_legacy_hash_fallback = entries \<noteq> []\<rparr>)"

definition dictobj_len :: "('k, 'v) DictObject \<Rightarrow> nat" where
  "dictobj_len o1 = backend_len (do_backend o1)"

definition dictobj_is_empty :: "('k, 'v) DictObject \<Rightarrow> bool" where
  "dictobj_is_empty o1 = backend_is_empty (do_backend o1)"

definition dictobj_clear :: "('k, 'v) DictObject \<Rightarrow> ('k, 'v) DictObject" where
  "dictobj_clear o1 = o1\<lparr>do_backend := clear (do_backend o1), do_legacy_hash_fallback := False\<rparr>"

definition dictobj_to_vec :: "('k, 'v) DictObject \<Rightarrow> ('k \<times> 'v) list" where
  "dictobj_to_vec o1 = to_vec (do_backend o1)"

text \<open>The mark is dropped when a removal leaves the dictionary empty.\<close>

definition drop_fallback :: "('k, 'v) DictBackend \<Rightarrow> ('k, 'v) DictObject \<Rightarrow> ('k, 'v) DictObject" where
  "drop_fallback b o1 =
     o1\<lparr>do_backend := b,
        do_legacy_hash_fallback := (if backend_is_empty b then False else do_legacy_hash_fallback o1)\<rparr>"

definition dictobj_remove ::
  "'k keyops \<Rightarrow> nat \<Rightarrow> ('k, 'v) DictObject \<Rightarrow> (('k \<times> 'v) \<times> ('k, 'v) DictObject) res" where
  "dictobj_remove ko index o1 =
     bindr (dict_remove ko index (do_backend o1)) (\<lambda>(removed, b). Inr (removed, drop_fallback b o1))"

definition dictobj_retain ::
  "'k keyops \<Rightarrow> ('k \<times> 'v \<Rightarrow> bool) \<Rightarrow> ('k, 'v) DictObject \<Rightarrow> ('k, 'v) DictObject res" where
  "dictobj_retain ko f o1 = bindr (retain ko f (do_backend o1)) (\<lambda>b. Inr (drop_fallback b o1))"

definition dictobj_find :: "'k keyops \<Rightarrow> ('k, 'v) DictObject \<Rightarrow> 'k \<Rightarrow> 'v option res" where
  "dictobj_find ko o1 key = dict_find ko (do_backend o1) key"

definition dictobj_find_with_hash :: "'k keyops \<Rightarrow> ('k, 'v) DictObject \<Rightarrow> 'k \<Rightarrow> u64 \<Rightarrow> 'v option res" where
  "dictobj_find_with_hash ko o1 key hash = find_with_hash ko (do_backend o1) key hash"

fun entries_at :: "('k, 'v) DictBackend \<Rightarrow> nat list \<Rightarrow> (nat \<times> 'k \<times> 'v) list res" where
  "entries_at b [] = Inr []"
| "entries_at b (index # rest) =
     bindr (entry_at b index) (\<lambda>(key, val).
     bindr (entries_at b rest) (\<lambda>es. Inr ((index, key, val) # es)))"

definition candidate_entries_with_hash ::
  "'k keyops \<Rightarrow> ('k, 'v) DictObject \<Rightarrow> u64 \<Rightarrow> (nat \<times> 'k \<times> 'v) list res" where
  "candidate_entries_with_hash ko o1 hash =
     bindr (candidate_indices_for_hash ko (do_backend o1) hash) (entries_at (do_backend o1))"

definition dictobj_entry_at :: "('k, 'v) DictObject \<Rightarrow> nat \<Rightarrow> ('k \<times> 'v) option res" where
  "dictobj_entry_at o1 index =
     (if dictobj_len o1 \<le> index then Inr None
      else bindr (entry_at (do_backend o1) index) (\<lambda>e. Inr (Some e)))"

definition dictobj_contains_key :: "'k keyops \<Rightarrow> ('k, 'v) DictObject \<Rightarrow> 'k \<Rightarrow> bool res" where
  "dictobj_contains_key ko o1 key = contains_key ko (do_backend o1) key"

definition dictobj_contains_key_with_hash :: "'k keyops \<Rightarrow> ('k, 'v) DictObject \<Rightarrow> 'k \<Rightarrow> u64 \<Rightarrow> bool res" where
  "dictobj_contains_key_with_hash ko o1 key hash = contains_key_with_hash ko (do_backend o1) key hash"

definition dictobj_insert :: "'k keyops \<Rightarrow> 'k \<Rightarrow> 'v \<Rightarrow> ('k, 'v) DictObject \<Rightarrow> ('k, 'v) DictObject res" where
  "dictobj_insert ko key val o1 =
     bindr (dict_insert ko key val (do_backend o1)) (\<lambda>b.
     Inr (o1\<lparr>do_backend := b, do_legacy_hash_fallback := True\<rparr>))"

definition dictobj_push :: "'k keyops \<Rightarrow> 'k \<times> 'v \<Rightarrow> ('k, 'v) DictObject \<Rightarrow> ('k, 'v) DictObject res" where
  "dictobj_push ko pair o1 = dictobj_insert ko (fst pair) (snd pair) o1"

definition dictobj_insert_with_hash ::
  "'k keyops \<Rightarrow> 'k \<Rightarrow> 'v \<Rightarrow> u64 \<Rightarrow> ('k, 'v) DictObject \<Rightarrow> ('k, 'v) DictObject res" where
  "dictobj_insert_with_hash ko key val hash o1 =
     bindr (insert_with_hash ko key val hash (do_backend o1)) (\<lambda>b. Inr (o1\<lparr>do_backend := b\<rparr>))"

definition dictobj_set_value_at :: "nat \<Rightarrow> 'v \<Rightarrow> ('k, 'v) DictObject \<Rightarrow> (bool \<times> ('k, 'v) DictObject) res" where
  "dictobj_set_value_at index val o1 =
     (if dictobj_len o1 \<le> index then Inr (False, o1)
      else bindr (set_value_at index val (do_backend o1)) (\<lambda>b. Inr (True, o1\<lparr>do_backend := b\<rparr>)))"

definition after_remove ::
  "('k \<times> 'v) option \<times> ('k, 'v) DictBackend \<Rightarrow> ('k, 'v) DictObject \<Rightarrow> (('k \<times> 'v) option \<times> ('k, 'v) DictObject) res" where
  "after_remove r o1 =
     (let (removed, b) = r
      in Inr (removed, if removed \<noteq> None then drop_fallback b o1 else o1\<lparr>do_backend := b\<rparr>))"

definition dictobj_remove_key ::
  "'k keyops \<Rightarrow> 'k \<Rightarrow> ('k, 'v) DictObject \<Rightarrow> (('k \<times> 'v) option \<times> ('k, 'v) DictObject) res" where
  "dictobj_remove_key ko key o1 = bindr (remove_key ko key (do_backend o1)) (\<lambda>r. after_remove r o1)"

definition dictobj_remove_key_with_hash ::
  "'k keyops \<Rightarrow> 'k \<Rightarrow> u64 \<Rightarrow> ('k, 'v) DictObject \<Rightarrow> (('k \<times> 'v) option \<times> ('k, 'v) DictObject) res" where
  "dictobj_remove_key_with_hash ko key hash o1 =
     bindr (remove_key_with_hash ko key hash (do_backend o1)) (\<lambda>r. after_remove r o1)"

text \<open>\<open>PartialEq\<close>: the comparison of the values is the equality of the runtime, a parameter.\<close>

fun all_found ::
  "'k keyops \<Rightarrow> ('v \<Rightarrow> 'v \<Rightarrow> bool) \<Rightarrow> ('k \<times> 'v) list \<Rightarrow> ('k, 'v) DictObject \<Rightarrow> bool res" where
  "all_found ko eq [] other = Inr True"
| "all_found ko eq ((key, val) # rest) other =
     bindr (dictobj_find ko other key) (\<lambda>x.
     case x of
       Some other_value \<Rightarrow> if eq other_value val then all_found ko eq rest other else Inr False
     | None \<Rightarrow> Inr False)"

definition dictobj_eq ::
  "'k keyops \<Rightarrow> ('v \<Rightarrow> 'v \<Rightarrow> bool) \<Rightarrow> ('k, 'v) DictObject \<Rightarrow> ('k, 'v) DictObject \<Rightarrow> bool res" where
  "dictobj_eq ko eq o1 o2 =
     (if dictobj_len o1 \<noteq> dictobj_len o2 then Inr False
      else all_found ko eq (dictobj_to_vec o1) o2)"

end
