(* ===== verification/Dict_Spec.thy ===== *)
theory Dict_Spec
  imports Dict_Object
begin

text \<open>
  What a dictionary promises. The interface \<open>ordered_dict\<close> states the laws of lookup, insertion and
  removal against an association list in insertion order; the hash table and the dictionary object
  are interpretations of it, and the properties are the interface's lemmas at those operations.
\<close>

section \<open>How far the table fills\<close>

lemma place_loop_filled: "place_loop ko n e d = Inr d' \<Longrightarrow> d_filled d' \<le> d_filled d + n"
proof (induction n arbitrary: e d)
  case (Suc n)
  from Suc.prems show ?case
    by (auto simp: Let_def split_beta split: if_splits option.splits dest!: Suc.IH)
qed simp

lemma resize_filled: "resize_slots ko t d = Inr d' \<Longrightarrow> d_filled d' \<le> length (d_entries d)"
  by (auto simp: resize_slots_def dest!: place_loop_filled)

lemma entries_le_filled:
  assumes "table_ok ko d"
  shows "length (d_entries d) \<le> d_filled d"
proof -
  note T = table_okD [OF assms]
  let ?s = "\<lambda>e. the (d_entry_slots d ! e)"
  have at: "d_slots d ! ?s e = Occupied (the (d_hashes d ! e)) e \<and> ?s e < length (d_slots d)"
    if "e < length (d_entries d)" for e
    using T(2) that unfolding placed_def placed_at_def by auto
  have "inj_on ?s {..<length (d_entries d)}" using at by (intro inj_onI) (metis DictSlot.inject lessThan_iff)
  moreover have "?s ` {..<length (d_entries d)} \<subseteq> nonempty (d_slots d)" using at by (auto simp: nonempty_def)
  ultimately show ?thesis unfolding T(8) by (metis card_inj_on_le card_lessThan finite_nonempty)
qed

lemma inv_filled: "dict_inv ko d \<Longrightarrow> length (d_entries d) \<le> d_filled d"
  using entries_le_filled by (auto simp: dict_inv_def backend_empty_def)

lemma place_new_filled: "place_new k v h s d = Inr d' \<Longrightarrow> d_filled d' \<le> d_filled d + 1"
  by (auto simp: place_new_def Let_def)

lemma set_value_filled: "set_value_at i v d = Inr d' \<Longrightarrow> d_filled d' = d_filled d"
  by (auto simp: set_value_at_def split_beta)

lemma insert_filled:
  assumes i: "dict_inv ko d" and r: "insert_with_hash ko key v h d = Inr d'"
  shows "d_filled d' \<le> d_filled d + 1"
proof -
  from r obtain d1 l where d1: "(if d_slots d = [] then resize_slots ko MIN_TABLE_SIZE d else Inr d) = Inr d1"
    and l: "lookup_slot ko d1 key h = Inr l"
    and rest: "(case l of
       Found entry \<Rightarrow>
         bindr (set_value_at entry v d1) (\<lambda>d.
         bindr (nth_res (d_hashes d) entry) (\<lambda>_. Inr (d\<lparr>d_hashes := (d_hashes d)[entry := Some h]\<rparr>)))
     | Vacant slot \<Rightarrow>
         let usable_slots = length (d_slots d1) * LOAD_NUMERATOR div LOAD_DENOMINATOR in
         if usable_slots < d_filled d1 + 1 then
           bindr (resize_slots ko (length (d_slots d1) * 2) d1) (\<lambda>d.
           bindr (lookup_vacant_slot (d_slots d) h) (\<lambda>slot. place_new key v h slot d))
         else place_new key v h slot d1) = Inr d'"
    by (auto simp: insert_with_hash_def)
  have le: "d_filled d1 \<le> d_filled d" "length (d_entries d1) \<le> d_filled d"
  proof -
    have "d_filled d1 \<le> d_filled d \<and> d_entries d1 = d_entries d"
    proof (cases "d_slots d = []")
      case True
      then have "d = backend_empty" using i table_okD(4) by (auto simp: dict_inv_def)
      then show ?thesis using d1 True resize_filled [of ko MIN_TABLE_SIZE d d1]
        by (auto simp: resize_slots_def backend_empty_def)
    qed (use d1 in simp)
    then show "d_filled d1 \<le> d_filled d" "length (d_entries d1) \<le> d_filled d" using inv_filled [OF i] by auto
  qed
  show ?thesis
  proof (cases l)
    case (Found e)
    then show ?thesis using rest le set_value_filled by (fastforce simp: split_beta)
  next
    case (Vacant s)
    then show ?thesis using rest le
      by (auto simp: Let_def split: if_splits dest!: place_new_filled resize_filled)
  qed
qed

lemma remove_filled:
  assumes "dict_inv ko d" "dict_remove ko i d = Inr (kv, d')"
  shows "d_filled d' \<le> d_filled d"
  using assms(2) inv_filled [OF assms(1)]
  by (auto simp: dict_remove_def maybe_resize_after_remove_def Let_def clear_def nth_res_def delete_nth_length
      split: if_splits dest!: resize_filled)

lemma remove_key_filled:
  "dict_inv ko d \<Longrightarrow> remove_key ko k d = Inr (x, d') \<Longrightarrow> d_filled d' \<le> d_filled d"
  by (auto simp: remove_key_def remove_found_def split: option.splits dest: remove_filled)

text \<open>As long as the load stays below a third of the largest table, an insertion cannot overflow.\<close>

definition fill_limit :: nat where "fill_limit = 2 ^ 57"

lemma insert_no_grow:
  assumes t: "table_ok ko d" and k: "keys_ok ko" and h: "value_lookup_hash ko key = Some h"
    and "d_filled d + 1 \<le> length (d_slots d) * 2 div 3"
  shows "\<exists>d'. insert_with_hash ko key v h d = Inr d'"
proof (cases "match_at ko key (d_entries d)")
  case None
  from lookup_missing [OF t None, of h] obtain s where "lookup_slot ko d key h = Inr (Vacant s)" "s < length (d_slots d)" by blast
  then show ?thesis using assms(4) table_okD(4) [OF t]
    by (simp add: insert_with_hash_def place_new_def Let_def LOAD_NUMERATOR_def LOAD_DENOMINATOR_def)
next
  case (Some e)
  then show ?thesis using lookup_found [OF t k h Some] table_okD(4,5) [OF t] match_at_Some [OF Some]
    by (auto simp: insert_with_hash_def set_value_at_def split_beta)
qed

lemma insert_below_limit:
  assumes i: "dict_inv ko d" and h: "value_lookup_hash ko key \<noteq> None" and f: "d_filled d < fill_limit"
  shows "\<exists>d'. dict_insert ko key v d = Inr d' \<and> dict_inv ko d' \<and> d_entries d' = alist_insert ko key v (d_entries d) \<and>
    d_filled d' \<le> d_filled d + 1"
proof -
  obtain hash where hash: "value_lookup_hash ko key = Some hash" using h by blast
  have "dict_insert ko key v d \<noteq> Inl (Panic ''capacity overflow'') \<or> length (d_slots d) \<noteq> 2 ^ 58"
  proof (rule ccontr)
    assume c: "\<not> ?thesis"
    then have "d_slots d \<noteq> []" by auto
    then have "table_ok ko d" "keys_ok ko" using i by (auto simp: dict_inv_def backend_empty_def)
    moreover have "d_filled d + 1 \<le> length (d_slots d) * 2 div 3" using f c by (simp add: fill_limit_def)
    ultimately show False using insert_no_grow [OF _ _ hash, of d v] c by (auto simp: dict_insert_def hash)
  qed
  then obtain d' where "dict_insert ko key v d = Inr d'" "dict_inv ko d'" "d_entries d' = alist_insert ko key v (d_entries d)"
    using dict_insert_spec [OF i h, of v] by blast
  moreover from this(1) have "d_filled d' \<le> d_filled d + 1"
    using insert_filled [OF i, of key v hash d'] by (simp add: dict_insert_def hash)
  ultimately show ?thesis by blast
qed

section \<open>The association list\<close>

definition distinct_keys :: "'k keyops \<Rightarrow> ('k \<times> 'v) list \<Rightarrow> bool" where
  "distinct_keys ko es \<longleftrightarrow> (\<forall>i < length es. \<forall>j < length es. value_key_equal ko (fst (es ! i)) (fst (es ! j)) \<longrightarrow> i = j)"

lemma inv_distinct: "dict_inv ko d \<Longrightarrow> distinct_keys ko (d_entries d)"
  using table_distinct by (fastforce simp: dict_inv_def distinct_keys_def backend_empty_def)

lemma match_at_cong:
  "keys_ok ko \<Longrightarrow> value_key_equal ko k k' \<Longrightarrow> match_at ko k es = match_at ko k' es"
  unfolding match_at_def by (metis keys_okD(2,3))

lemma position_keys: "map fst es = map fst es' \<Longrightarrow> match_at ko k es = match_at ko k es'"
  unfolding match_at_def
proof (induction es arbitrary: es')
  case (Cons e es)
  then show ?case by (cases es') (auto simp: split_beta)
qed simp

lemma position_append:
  "position P (xs @ [x]) =
     (case position P xs of Some i \<Rightarrow> Some i | None \<Rightarrow> if P x then Some (length xs) else None)"
  by (induction xs) (auto split: option.splits)

lemma match_at_insert:
  "match_at ko k' (alist_insert ko k v es) =
     (case match_at ko k es of
        Some _ \<Rightarrow> match_at ko k' es
      | None \<Rightarrow> case match_at ko k' es of Some i \<Rightarrow> Some i | None \<Rightarrow> if value_key_equal ko k k' then Some (length es) else None)"
proof (cases "match_at ko k es")
  case (Some i)
  then have "map fst (es[i := (fst (es ! i), v)]) = map fst es"
    using match_at_Some [OF Some] by (simp add: map_update list_update_same)
  then show ?thesis using Some position_keys by (fastforce simp: alist_insert_def)
qed (simp add: alist_insert_def match_at_def position_append)

lemma alist_find_insert:
  assumes k: "keys_ok ko"
  shows "alist_find ko k' (alist_insert ko k v es) = (if value_key_equal ko k k' then Some v else alist_find ko k' es)"
proof (cases "match_at ko k es")
  case None
  have "match_at ko k' es = None" if "value_key_equal ko k k'" using match_at_cong [OF k that] None by metis
  then show ?thesis using match_at_Some [of ko k' es]
    unfolding alist_find_def match_at_insert
    by (auto simp: None alist_insert_def nth_append split: option.splits)
next
  case (Some i)
  have f: "alist_find ko k' (alist_insert ko k v es) =
      map_option (\<lambda>j. snd (es[i := (fst (es ! i), v)] ! j)) (match_at ko k' es)"
    unfolding alist_find_def match_at_insert by (simp add: Some alist_insert_def)
  show ?thesis
  proof (cases "value_key_equal ko k k'")
    case True
    then have "match_at ko k' es = Some i" using match_at_cong [OF k True] Some by metis
    then show ?thesis using True match_at_Some [OF Some] by (simp add: f)
  next
    case False
    then have "match_at ko k' es \<noteq> Some i"
      using match_at_Some [OF Some] match_at_Some [of ko k' es i] keys_okD(2,3) [OF k] by blast
    then have "map_option (\<lambda>j. snd (es[i := (fst (es ! i), v)] ! j)) (match_at ko k' es) = alist_find ko k' es"
      unfolding alist_find_def by (intro option.map_cong0) auto
    then show ?thesis using False f by simp
  qed
qed

lemma alist_find_iff:
  assumes "keys_ok ko" "distinct_keys ko es"
  shows "alist_find ko k es = Some v \<longleftrightarrow> (\<exists>i < length es. value_key_equal ko (fst (es ! i)) k \<and> snd (es ! i) = v)"
proof
  assume "alist_find ko k es = Some v"
  then show "\<exists>i < length es. value_key_equal ko (fst (es ! i)) k \<and> snd (es ! i) = v"
    using match_at_Some by (fastforce simp: alist_find_def)
next
  assume "\<exists>i < length es. value_key_equal ko (fst (es ! i)) k \<and> snd (es ! i) = v"
  then obtain i where i: "i < length es" "value_key_equal ko (fst (es ! i)) k" "snd (es ! i) = v" by blast
  then obtain j where j: "match_at ko k es = Some j" using match_at_None by fastforce
  with i have "j = i" using match_at_Some [OF j] assms keys_okD(2,3) unfolding distinct_keys_def by metis
  then show "alist_find ko k es = Some v" using j i(3) by (simp add: alist_find_def)
qed

lemma delete_nth_ex:
  assumes "i < length xs"
  shows "(\<exists>j < length (delete_nth i xs). P (delete_nth i xs ! j)) \<longleftrightarrow> (\<exists>j < length xs. j \<noteq> i \<and> P (xs ! j))"
proof
  assume "\<exists>j < length (delete_nth i xs). P (delete_nth i xs ! j)"
  then obtain j where "j < length xs - 1" "P (xs ! (if j < i then j else Suc j))"
    using assms by (auto simp: delete_nth_length delete_nth_nth)
  then show "\<exists>j < length xs. j \<noteq> i \<and> P (xs ! j)" by (intro exI [of _ "if j < i then j else Suc j"]) auto
next
  assume "\<exists>j < length xs. j \<noteq> i \<and> P (xs ! j)"
  then obtain j where j: "j < length xs" "j \<noteq> i" "P (xs ! j)" by blast
  define e where "e = (if j < i then j else j - 1)"
  have "e < length xs - 1" "(if e < i then e else Suc e) = j" using j(1,2) assms by (auto simp: e_def)
  then show "\<exists>j < length (delete_nth i xs). P (delete_nth i xs ! j)"
    using j(3) assms by (intro exI [of _ e]) (simp add: delete_nth_length delete_nth_nth)
qed

lemma distinct_delete_nth:
  assumes "distinct_keys ko es" "i < length es"
  shows "distinct_keys ko (delete_nth i es)"
  unfolding distinct_keys_def
proof (intro allI impI)
  fix a b
  let ?up = "\<lambda>j. if j < i then j else Suc j"
  assume a: "a < length (delete_nth i es)" "b < length (delete_nth i es)"
    "value_key_equal ko (fst (delete_nth i es ! a)) (fst (delete_nth i es ! b))"
  then have "?up a < length es" "?up b < length es" "value_key_equal ko (fst (es ! ?up a)) (fst (es ! ?up b))"
    using assms(2) by (auto simp: delete_nth_length delete_nth_nth)
  then have "?up a = ?up b" using assms(1) unfolding distinct_keys_def by blast
  then show "a = b" by (auto split: if_splits)
qed

lemma alist_find_remove:
  assumes k: "keys_ok ko" and d: "distinct_keys ko es"
  shows "alist_find ko k' (alist_remove ko k es) = (if value_key_equal ko k k' then None else alist_find ko k' es)"
proof (cases "match_at ko k es")
  case None
  then have "match_at ko k' es = None" if "value_key_equal ko k k'" using match_at_cong [OF k that] by metis
  then show ?thesis using None by (simp add: alist_find_def alist_remove_def)
next
  case (Some i)
  note m = match_at_Some [OF Some]
  have d': "distinct_keys ko (delete_nth i es)" using distinct_delete_nth [OF d] m by blast
  have other: "j \<noteq> i \<and> value_key_equal ko (fst (es ! j)) k' \<longleftrightarrow> \<not> value_key_equal ko k k' \<and> value_key_equal ko (fst (es ! j)) k'"
    if "j < length es" for j
    using m d that keys_okD(2,3) [OF k] unfolding distinct_keys_def by metis
  have "alist_find ko k' (delete_nth i es) = Some v \<longleftrightarrow> \<not> value_key_equal ko k k' \<and> alist_find ko k' es = Some v" for v
    unfolding alist_find_iff [OF k d] alist_find_iff [OF k d'] using m other
    by (subst delete_nth_ex [where P = "\<lambda>e. value_key_equal ko (fst e) k' \<and> snd e = v"]) blast+
  then have "alist_find ko k' (delete_nth i es) = (if value_key_equal ko k k' then None else alist_find ko k' es)"
    by (metis not_None_eq)
  then show ?thesis using Some by (simp add: alist_remove_def)
qed

section \<open>Sequences of operations\<close>

datatype ('k, 'v) dict_op = Put 'k 'v | Del 'k | Get 'k

fun hashable_op :: "'k keyops \<Rightarrow> ('k, 'v) dict_op \<Rightarrow> bool" where
  "hashable_op ko (Put k v) \<longleftrightarrow> value_lookup_hash ko k \<noteq> None"
| "hashable_op ko _ \<longleftrightarrow> True"

text \<open>A run of operations returns what each of them observes: the value found or removed.\<close>

fun run_ops ::
  "('s \<Rightarrow> 'k \<Rightarrow> 'v option res) \<Rightarrow> ('k \<Rightarrow> 'v \<Rightarrow> 's \<Rightarrow> 's res) \<Rightarrow> ('k \<Rightarrow> 's \<Rightarrow> (('k \<times> 'v) option \<times> 's) res) \<Rightarrow>
   ('k, 'v) dict_op list \<Rightarrow> 's \<Rightarrow> ('v option list \<times> 's) res" where
  "run_ops lookup store discard [] s = Inr ([], s)"
| "run_ops lookup store discard (Put k v # ops) s =
     bindr (store k v s) (\<lambda>s. bindr (run_ops lookup store discard ops s) (\<lambda>(obs, s). Inr (None # obs, s)))"
| "run_ops lookup store discard (Del k # ops) s =
     bindr (discard k s) (\<lambda>(x, s). bindr (run_ops lookup store discard ops s) (\<lambda>(obs, s). Inr (map_option snd x # obs, s)))"
| "run_ops lookup store discard (Get k # ops) s =
     bindr (lookup s k) (\<lambda>x. bindr (run_ops lookup store discard ops s) (\<lambda>(obs, s). Inr (x # obs, s)))"

fun spec_ops :: "'k keyops \<Rightarrow> ('k, 'v) dict_op list \<Rightarrow> ('k \<times> 'v) list \<Rightarrow> 'v option list \<times> ('k \<times> 'v) list" where
  "spec_ops ko [] es = ([], es)"
| "spec_ops ko (Put k v # ops) es = apfst (Cons None) (spec_ops ko ops (alist_insert ko k v es))"
| "spec_ops ko (Del k # ops) es = apfst (Cons (alist_find ko k es)) (spec_ops ko ops (alist_remove ko k es))"
| "spec_ops ko (Get k # ops) es = apfst (Cons (alist_find ko k es)) (spec_ops ko ops es)"

section \<open>The interface\<close>

locale ordered_dict =
  fixes inv :: "'k keyops \<Rightarrow> 's \<Rightarrow> bool" and contents :: "'s \<Rightarrow> ('k \<times> 'v) list" and fill :: "'s \<Rightarrow> nat"
    and lookup :: "'k keyops \<Rightarrow> 's \<Rightarrow> 'k \<Rightarrow> 'v option res"
    and store :: "'k keyops \<Rightarrow> 'k \<Rightarrow> 'v \<Rightarrow> 's \<Rightarrow> 's res"
    and discard :: "'k keyops \<Rightarrow> 'k \<Rightarrow> 's \<Rightarrow> (('k \<times> 'v) option \<times> 's) res"
  assumes inv_keys: "inv ko s \<Longrightarrow> keys_ok ko"
    and inv_distinct: "inv ko s \<Longrightarrow> distinct_keys ko (contents s)"
    and lookup_law: "inv ko s \<Longrightarrow> lookup ko s k = Inr (alist_find ko k (contents s))"
    and store_law: "inv ko s \<Longrightarrow> value_lookup_hash ko k \<noteq> None \<Longrightarrow> fill s < fill_limit \<Longrightarrow>
      \<exists>s'. store ko k v s = Inr s' \<and> inv ko s' \<and> contents s' = alist_insert ko k v (contents s) \<and> fill s' \<le> fill s + 1"
    and discard_law: "inv ko s \<Longrightarrow>
      \<exists>x s'. discard ko k s = Inr (x, s') \<and> map_option snd x = alist_find ko k (contents s) \<and> inv ko s' \<and>
        contents s' = alist_remove ko k (contents s) \<and> fill s' \<le> fill s"
begin

lemma store_lookup:
  assumes "inv ko s" "value_lookup_hash ko k \<noteq> None" "fill s < fill_limit"
  shows "\<exists>s'. store ko k v s = Inr s' \<and> inv ko s' \<and>
    (\<forall>k'. lookup ko s' k' = (if value_key_equal ko k k' then Inr (Some v) else lookup ko s k'))"
proof -
  obtain s' where "store ko k v s = Inr s'" "inv ko s'" "contents s' = alist_insert ko k v (contents s)"
    using store_law [OF assms] by blast
  then show ?thesis using assms(1) by (simp add: lookup_law alist_find_insert [OF inv_keys [OF assms(1)]])
qed

lemma discard_lookup:
  assumes "inv ko s"
  shows "\<exists>x s'. discard ko k s = Inr (x, s') \<and> Inr (map_option snd x) = lookup ko s k \<and> inv ko s' \<and>
    (\<forall>k'. lookup ko s' k' = (if value_key_equal ko k k' then Inr None else lookup ko s k'))"
proof -
  obtain x s' where "discard ko k s = Inr (x, s')" "map_option snd x = alist_find ko k (contents s)" "inv ko s'"
    "contents s' = alist_remove ko k (contents s)"
    using discard_law [OF assms] by blast
  then show ?thesis using assms by (simp add: lookup_law alist_find_remove [OF inv_keys [OF assms] inv_distinct [OF assms]])
qed

lemma runs:
  assumes "inv ko s" "list_all (hashable_op ko) ops" "fill s + length ops \<le> fill_limit"
  shows "\<exists>s'. run_ops (lookup ko) (store ko) (discard ko) ops s = Inr (fst (spec_ops ko ops (contents s)), s') \<and>
    inv ko s' \<and> contents s' = snd (spec_ops ko ops (contents s))"
  using assms
proof (induction ops arbitrary: s)
  case (Cons op ops)
  show ?case
  proof (cases op)
    case (Put k v)
    obtain s1 where s1: "store ko k v s = Inr s1" "inv ko s1" "contents s1 = alist_insert ko k v (contents s)" "fill s1 \<le> fill s + 1"
      using store_law [of ko s k v] Cons.prems Put by auto
    then show ?thesis using Cons.IH [OF s1(2)] Cons.prems Put by fastforce
  next
    case (Del k)
    obtain x s1 where s1: "discard ko k s = Inr (x, s1)" "map_option snd x = alist_find ko k (contents s)" "inv ko s1"
      "contents s1 = alist_remove ko k (contents s)" "fill s1 \<le> fill s"
      using discard_law [of ko s k] Cons.prems by auto
    then show ?thesis using Cons.IH [OF s1(3)] Cons.prems Del by fastforce
  next
    case (Get k)
    then show ?thesis using Cons.IH [OF Cons.prems(1)] Cons.prems lookup_law by fastforce
  qed
qed simp

end

interpretation backend: ordered_dict dict_inv d_entries d_filled dict_find dict_insert remove_key
proof unfold_locales
  fix ko :: "'a keyops" and s :: "('a, 'b) DictBackend" and k :: 'a and v :: 'b
  assume i: "dict_inv ko s"
  show "keys_ok ko" using i by (simp add: dict_inv_def)
  show "distinct_keys ko (d_entries s)" by (rule inv_distinct [OF i])
  show "dict_find ko s k = Inr (alist_find ko k (d_entries s))" by (rule dict_find_spec [OF i])
  show "\<exists>s'. dict_insert ko k v s = Inr s' \<and> dict_inv ko s' \<and> d_entries s' = alist_insert ko k v (d_entries s) \<and>
    d_filled s' \<le> d_filled s + 1" if "value_lookup_hash ko k \<noteq> None" "d_filled s < fill_limit"
    by (rule insert_below_limit [OF i that])
  from remove_key_spec [OF i, of k] obtain s' where
    "remove_key ko k s = Inr (map_option (\<lambda>i. d_entries s ! i) (match_at ko k (d_entries s)), s')"
    "dict_inv ko s'" "d_entries s' = alist_remove ko k (d_entries s)" by blast
  then show "\<exists>x s'. remove_key ko k s = Inr (x, s') \<and> map_option snd x = alist_find ko k (d_entries s) \<and> dict_inv ko s' \<and>
    d_entries s' = alist_remove ko k (d_entries s) \<and> d_filled s' \<le> d_filled s"
    using remove_key_filled [OF i, of k] by (auto simp: alist_find_def option.map_comp o_def)
qed

section \<open>The dictionary object\<close>

definition dictobj_inv :: "'k keyops \<Rightarrow> ('k, 'v) DictObject \<Rightarrow> bool" where
  "dictobj_inv ko o1 \<longleftrightarrow> dict_inv ko (do_backend o1)"

definition dictobj_filled :: "('k, 'v) DictObject \<Rightarrow> nat" where
  "dictobj_filled o1 = d_filled (do_backend o1)"

lemmas dictobj_defs = dictobj_inv_def dictobj_filled_def dictobj_to_vec_def to_vec_def drop_fallback_def after_remove_def

interpretation object: ordered_dict dictobj_inv dictobj_to_vec dictobj_filled dictobj_find dictobj_insert dictobj_remove_key
proof unfold_locales
  fix ko :: "'a keyops" and s :: "('a, 'b) DictObject" and k :: 'a and v :: 'b
  assume "dictobj_inv ko s"
  then have i: "dict_inv ko (do_backend s)" by (simp add: dictobj_inv_def)
  show "keys_ok ko" by (rule backend.inv_keys [OF i])
  show "distinct_keys ko (dictobj_to_vec s)" using backend.inv_distinct [OF i] by (simp add: dictobj_defs)
  show "dictobj_find ko s k = Inr (alist_find ko k (dictobj_to_vec s))"
    using backend.lookup_law [OF i] by (simp add: dictobj_defs dictobj_find_def)
  show "\<exists>s'. dictobj_insert ko k v s = Inr s' \<and> dictobj_inv ko s' \<and>
    dictobj_to_vec s' = alist_insert ko k v (dictobj_to_vec s) \<and> dictobj_filled s' \<le> dictobj_filled s + 1"
    if "value_lookup_hash ko k \<noteq> None" "dictobj_filled s < fill_limit"
    using backend.store_law [OF i that(1), of v] that(2) by (auto simp: dictobj_defs dictobj_insert_def)
  show "\<exists>x s'. dictobj_remove_key ko k s = Inr (x, s') \<and> map_option snd x = alist_find ko k (dictobj_to_vec s) \<and>
    dictobj_inv ko s' \<and> dictobj_to_vec s' = alist_remove ko k (dictobj_to_vec s) \<and> dictobj_filled s' \<le> dictobj_filled s"
    using backend.discard_law [OF i, of k] by (auto simp: dictobj_defs dictobj_remove_key_def)
qed

text \<open>Building a dictionary from hashable pairs.\<close>

lemma insert_all_spec:
  assumes "dict_inv ko d" "\<forall>(k, v) \<in> set es. value_lookup_hash ko k \<noteq> None" "d_filled d + length es \<le> fill_limit"
  shows "\<exists>d'. insert_all ko es d = Inr d' \<and> dict_inv ko d' \<and> d_filled d' \<le> d_filled d + length es \<and>
    d_entries d' = fold (\<lambda>(k, v). alist_insert ko k v) es (d_entries d)"
  using assms
proof (induction es arbitrary: d)
  case (Cons kv es)
  obtain k v where kv: "kv = (k, v)" by (cases kv)
  obtain d1 where d1: "dict_insert ko k v d = Inr d1" "dict_inv ko d1" "d_entries d1 = alist_insert ko k v (d_entries d)"
      "d_filled d1 \<le> d_filled d + 1"
    using backend.store_law [OF Cons.prems(1), of k v] Cons.prems kv by auto
  then show ?case using Cons.IH [OF d1(2)] Cons.prems kv by fastforce
qed simp

lemma empty_inv: "keys_ok ko \<Longrightarrow> dict_inv ko backend_empty"
  by (simp add: dict_inv_def)

lemma dictobj_new_spec:
  assumes "keys_ok ko" "\<forall>(k, v) \<in> set es. value_lookup_hash ko k \<noteq> None" "length es \<le> fill_limit"
  shows "\<exists>o1. dictobj_new ko es = Inr o1 \<and> dictobj_inv ko o1 \<and> dictobj_filled o1 \<le> length es \<and>
    dictobj_to_vec o1 = fold (\<lambda>(k, v). alist_insert ko k v) es [] \<and> \<not> do_readonly o1"
  using insert_all_spec [OF empty_inv [OF assms(1)] assms(2)] assms(3)
  by (auto simp: dictobj_new_def backend_new_def dictobj_defs backend_empty_def)

lemma entries_at_spec:
  "\<forall>i \<in> set ids. i < length (d_entries b) \<Longrightarrow>
   entries_at b ids = Inr (map (\<lambda>i. (i, d_entries b ! i)) ids)"
  by (induction ids) (auto simp: entry_at_def split_beta)

subsection \<open>Equality\<close>

lemma all_found_spec:
  "dictobj_inv ko o2 \<Longrightarrow> all_found ko eq es o2 =
     Inr (\<forall>(k, v) \<in> set es. \<exists>w. alist_find ko k (dictobj_to_vec o2) = Some w \<and> eq w v)"
  by (induction es) (auto simp: object.lookup_law split: option.splits)

lemma cover_inj:
  assumes "keys_ok ko" "distinct_keys ko es"
    and "\<And>i. i < length es \<Longrightarrow> f i < length fs \<and> value_key_equal ko (fst (es ! i)) (fst (fs ! f i))"
  shows "inj_on f {..<length es}"
proof (rule inj_onI)
  fix i j
  assume "i \<in> {..<length es}" "j \<in> {..<length es}" "f i = f j"
  then have "value_key_equal ko (fst (es ! i)) (fst (es ! j))"
    using assms(3) keys_okD(2,3) [OF assms(1)] by (metis lessThan_iff)
  then show "i = j" using assms(2) \<open>i \<in> _\<close> \<open>j \<in> _\<close> by (simp add: distinct_keys_def)
qed

lemma same_length:
  assumes k: "keys_ok ko" and d: "distinct_keys ko es" and same: "\<And>k. alist_find ko k es = alist_find ko k fs"
  shows "length es \<le> length fs"
proof -
  have "\<exists>j < length fs. value_key_equal ko (fst (es ! i)) (fst (fs ! j))" if "i < length es" for i
  proof -
    have "alist_find ko (fst (es ! i)) es = Some (snd (es ! i))"
      using that keys_okD(1) [OF k] by (auto simp: alist_find_iff [OF k d])
    then have "alist_find ko (fst (es ! i)) fs = Some (snd (es ! i))" by (simp add: same)
    then obtain j where "match_at ko (fst (es ! i)) fs = Some j" by (auto simp: alist_find_def)
    from match_at_Some [OF this] show ?thesis using keys_okD(2) [OF k] by blast
  qed
  then obtain f where f: "\<And>i. i < length es \<Longrightarrow> f i < length fs \<and> value_key_equal ko (fst (es ! i)) (fst (fs ! f i))" by metis
  have "f ` {..<length es} \<subseteq> {..<length fs}" using f by auto
  then show ?thesis using cover_inj [OF k d f] card_inj_on_le by (metis card_lessThan finite_lessThan)
qed

lemma covered_same:
  assumes k: "keys_ok ko" and d: "distinct_keys ko es" "distinct_keys ko fs" and len: "length es = length fs"
    and cov: "\<And>i. i < length es \<Longrightarrow> alist_find ko (fst (es ! i)) fs = Some (snd (es ! i))"
  shows "alist_find ko k' es = alist_find ko k' fs"
proof -
  have "\<exists>j < length fs. value_key_equal ko (fst (es ! i)) (fst (fs ! j)) \<and> snd (fs ! j) = snd (es ! i)" if "i < length es" for i
    using cov [OF that] keys_okD(2) [OF k] by (auto simp: alist_find_iff [OF k d(2)])
  then obtain f where f: "\<And>i. i < length es \<Longrightarrow> f i < length fs \<and> value_key_equal ko (fst (es ! i)) (fst (fs ! f i))"
    and v: "\<And>i. i < length es \<Longrightarrow> snd (fs ! f i) = snd (es ! i)" by metis
  have "f ` {..<length es} = {..<length fs}"
    using cover_inj [OF k d(1) f] f len by (intro card_subset_eq) (auto simp: card_image)
  then have onto: "\<exists>i < length es. f i = j" if "j < length fs" for j using that by (metis imageE lessThan_iff)
  have eq: "value_key_equal ko (fst (es ! i)) k' \<longleftrightarrow> value_key_equal ko (fst (fs ! f i)) k'" if "i < length es" for i
    using f [OF that] keys_okD(2,3) [OF k] by blast
  have "alist_find ko k' es = Some x \<longleftrightarrow> alist_find ko k' fs = Some x" for x
  proof -
    have "(\<exists>i < length es. value_key_equal ko (fst (es ! i)) k' \<and> snd (es ! i) = x) \<longleftrightarrow>
        (\<exists>i < length es. value_key_equal ko (fst (fs ! f i)) k' \<and> snd (fs ! f i) = x)"
      using eq v by auto
    also have "\<dots> \<longleftrightarrow> (\<exists>j < length fs. value_key_equal ko (fst (fs ! j)) k' \<and> snd (fs ! j) = x)"
      using f onto by blast
    finally show ?thesis unfolding alist_find_iff [OF k d(1)] alist_find_iff [OF k d(2)] .
  qed
  then show ?thesis by (metis not_None_eq)
qed

subsection \<open>Removal keeps the order\<close>

lemma alist_remove_filter:
  assumes k: "keys_ok ko" and d: "distinct_keys ko es"
  shows "alist_remove ko k es = filter (\<lambda>(k', _). \<not> value_key_equal ko k' k) es"
proof (cases "match_at ko k es")
  case None
  then have "\<not> value_key_equal ko (fst e) k" if "e \<in> set es" for e
    using that by (auto simp: match_at_None in_set_conv_nth)
  then have "filter (\<lambda>(k', _). \<not> value_key_equal ko k' k) es = es" by (auto intro!: filter_True)
  then show ?thesis using None by (simp add: alist_remove_def)
next
  case (Some i)
  note m = match_at_Some [OF Some]
  have ne: "\<not> value_key_equal ko (fst (es ! j)) k" if "j < length es" "j \<noteq> i" for j
    using that m d keys_okD(2,3) [OF k] unfolding distinct_keys_def by metis
  have "\<not> value_key_equal ko (fst e) k" if "e \<in> set (take i es) \<union> set (drop (Suc i) es)" for e
    using that m ne by (auto simp: in_set_conv_nth)
  then have keep: "filter (\<lambda>(k', _). \<not> value_key_equal ko k' k) (take i es) = take i es"
    "filter (\<lambda>(k', _). \<not> value_key_equal ko k' k) (drop (Suc i) es) = drop (Suc i) es"
    by (auto simp: split_beta intro!: filter_True)
  have "filter (\<lambda>(k', _). \<not> value_key_equal ko k' k) (take i es @ es ! i # drop (Suc i) es) = delete_nth i es"
    using m keep by (simp add: delete_nth_def split_beta)
  then show ?thesis using Some m by (simp add: alist_remove_def flip: id_take_nth_drop)
qed

section \<open>Properties\<close>

text \<open>Keys for the examples: the numbers below 100, hashed with many collisions; the others are not hashable.\<close>

definition demo_keys :: "nat keyops" where
  "demo_keys = \<lparr>value_lookup_hash = (\<lambda>k. if k < 100 then Some (of_nat (k mod 3)) else None), value_key_equal = (=)\<rparr>"

lemma demo_keys_simps [simp]:
  "value_lookup_hash demo_keys k = (if k < 100 then Some (of_nat (k mod 3)) else None)" "value_key_equal demo_keys = (=)"
  by (simp_all add: demo_keys_def)

lemma demo_keys_ok: "keys_ok demo_keys"
  by (simp add: keys_ok_def)

definition demo_dict :: "(nat, nat) DictObject \<Rightarrow> bool" where
  "demo_dict o1 \<longleftrightarrow> dictobj_new demo_keys [(1, 10), (4, 40), (7, 70)] = Inr o1"

lemma demo_dict_ok:
  "\<exists>o1. demo_dict o1 \<and> dictobj_inv demo_keys o1 \<and> dictobj_filled o1 < fill_limit \<and>
    dictobj_to_vec o1 = [(1, 10), (4, 40), (7, 70)]"
  using dictobj_new_spec [OF demo_keys_ok, of "[(1, 10), (4, 40), (7, 70)] :: (nat \<times> nat) list"]
  by (auto simp: demo_dict_def fill_limit_def alist_insert_def match_at_def)

text \<open>
  C28. The probe sequence of the dictionary visits every slot: in a table of \<open>2^b\<close> slots, from the first slot of
  any hash, every slot is met within as many rounds as the loops of \<open>lookup_slot\<close> and \<open>lookup_vacant_slot\<close> make,
  so that a search never misses an entry or a free slot.
\<close>

theorem probe_visits_every_slot:
  assumes "3 \<le> b" "b \<le> 58" "s < 2 ^ b"
  shows "\<exists>i < 2 ^ b + MAX_PERTURB_ROUNDS.
    fst (((\<lambda>(s, p). (next_slot (2 ^ b) s p, next_perturb p)) ^^ i) (first_slot (2 ^ b) hash, hash)) = s"
proof -
  have "((\<lambda>(s, p). (next_slot n s p, next_perturb p)) ^^ i) (first_slot n hash, hash) = probe_state n hash i" for n i
    by (induction i) (simp_all add: split_beta Let_def)
  moreover have "table_size (2 ^ b)" using assms(1,2) by (auto simp: table_size_def)
  ultimately show ?thesis using probe_covers [of "2 ^ b" s hash] assms(3) by (simp add: probe_def)
qed

theorem probe_visits_every_slot_witness:
  "\<exists>i < 8 + MAX_PERTURB_ROUNDS.
    fst (((\<lambda>(s, p). (next_slot (2 ^ 3) s p, next_perturb p)) ^^ i) (first_slot (2 ^ 3) 4660, 4660)) = 5"
  using probe_visits_every_slot [of 3 5 4660] by simp



text \<open>
  Insertion into a dictionary object: below the load limit it succeeds, the key (and every equal key) is then
  found with the new value, every other lookup is unchanged, and the fallback mark is set.
\<close>

theorem dictobj_insert_find:
  assumes "dictobj_inv ko o1" "value_lookup_hash ko k \<noteq> None" "dictobj_filled o1 < fill_limit"
  shows "\<exists>o2. dictobj_insert ko k v o1 = Inr o2 \<and> dictobj_inv ko o2 \<and> do_legacy_hash_fallback o2 \<and>
    (\<forall>k'. dictobj_find ko o2 k' = (if value_key_equal ko k k' then Inr (Some v) else dictobj_find ko o1 k'))"
proof -
  obtain o2 where "dictobj_insert ko k v o1 = Inr o2" "dictobj_inv ko o2"
    "\<forall>k'. dictobj_find ko o2 k' = (if value_key_equal ko k k' then Inr (Some v) else dictobj_find ko o1 k')"
    using object.store_lookup [OF assms] by blast
  moreover from this(1) have "do_legacy_hash_fallback o2" by (auto simp: dictobj_insert_def)
  ultimately show ?thesis by blast
qed

theorem dictobj_insert_find_witness:
  "\<exists>o1 o2. demo_dict o1 \<and> dictobj_insert demo_keys 4 44 o1 = Inr o2 \<and>
    dictobj_find demo_keys o2 4 = Inr (Some 44) \<and> dictobj_find demo_keys o2 7 = Inr (Some 70)"
proof -
  obtain o1 where o1: "demo_dict o1" "dictobj_inv demo_keys o1" "dictobj_filled o1 < fill_limit"
    "dictobj_to_vec o1 = [(1, 10), (4, 40), (7, 70)]" using demo_dict_ok by blast
  then show ?thesis using dictobj_insert_find [OF o1(2), of 4 44]
    by (auto simp: object.lookup_law alist_find_def match_at_def)
qed

text \<open>
  Removal by key from a dictionary object returns the entry of that key, if there is one, keeps all other
  entries in their order and with their values, and drops the fallback mark when the last entry goes.
\<close>

theorem dictobj_remove_key_filters:
  assumes "dictobj_inv ko o1"
  shows "\<exists>x o2. dictobj_remove_key ko k o1 = Inr (x, o2) \<and> dictobj_inv ko o2 \<and>
    Inr (map_option snd x) = dictobj_find ko o1 k \<and>
    dictobj_to_vec o2 = filter (\<lambda>(k', _). \<not> value_key_equal ko k' k) (dictobj_to_vec o1) \<and>
    do_legacy_hash_fallback o2 = (do_legacy_hash_fallback o1 \<and> (x = None \<or> dictobj_to_vec o2 \<noteq> []))"
proof -
  obtain x o2 where "dictobj_remove_key ko k o1 = Inr (x, o2)" "dictobj_inv ko o2"
    "map_option snd x = alist_find ko k (dictobj_to_vec o1)" "dictobj_to_vec o2 = alist_remove ko k (dictobj_to_vec o1)"
    using object.discard_law [OF assms] by blast
  moreover from this(1) have "do_legacy_hash_fallback o2 = (do_legacy_hash_fallback o1 \<and> (x = None \<or> dictobj_to_vec o2 \<noteq> []))"
    by (auto simp: dictobj_remove_key_def dictobj_defs backend_is_empty_def split_beta Let_def split: if_splits)
  ultimately show ?thesis
    using assms by (simp add: object.lookup_law alist_remove_filter [OF object.inv_keys object.inv_distinct])
qed

theorem dictobj_remove_key_filters_witness:
  "\<exists>o1 x o2. demo_dict o1 \<and> dictobj_remove_key demo_keys 4 o1 = Inr (x, o2) \<and> dictobj_to_vec o2 = [(1, 10), (7, 70)]"
proof -
  obtain o1 where o1: "demo_dict o1" "dictobj_inv demo_keys o1" "dictobj_to_vec o1 = [(1, 10), (4, 40), (7, 70)]"
    using demo_dict_ok by blast
  then show ?thesis using dictobj_remove_key_filters [OF o1(2), of 4] by auto
qed

text \<open>
  \<open>retain\<close> keeps exactly the entries the predicate accepts, in order, rebuilds a table that satisfies the
  invariant, and drops the fallback mark when nothing is left.
\<close>

theorem dictobj_retain_filters:
  assumes "dictobj_inv ko o1"
  shows "\<exists>o2. dictobj_retain ko f o1 = Inr o2 \<and> dictobj_inv ko o2 \<and> dictobj_to_vec o2 = filter f (dictobj_to_vec o1) \<and>
    do_legacy_hash_fallback o2 = (do_legacy_hash_fallback o1 \<and> dictobj_to_vec o2 \<noteq> [])"
  using retain_spec [of ko "do_backend o1" f] assms
  by (auto simp: dictobj_retain_def dictobj_defs backend_is_empty_def)

theorem dictobj_retain_filters_witness:
  "\<exists>o1 o2. demo_dict o1 \<and> dictobj_retain demo_keys (\<lambda>(k, v). 4 \<le> k) o1 = Inr o2 \<and> dictobj_to_vec o2 = [(4, 40), (7, 70)]"
proof -
  obtain o1 where o1: "demo_dict o1" "dictobj_inv demo_keys o1" "dictobj_to_vec o1 = [(1, 10), (4, 40), (7, 70)]"
    using demo_dict_ok by blast
  then show ?thesis using dictobj_retain_filters [OF o1(2), of "\<lambda>(k, v). 4 \<le> k"] by auto
qed

text \<open>
  \<open>candidate_entries_with_hash\<close> returns exactly the entries whose key has the given hash, with their indexes:
  the probe loop stops at no entry too early and reports no other entry.
\<close>

theorem candidates_are_the_entries_with_hash:
  assumes "dictobj_inv ko o1"
  shows "\<exists>es. candidate_entries_with_hash ko o1 hash = Inr es \<and>
    set es = {(i, dictobj_to_vec o1 ! i) |i. i < dictobj_len o1 \<and> value_lookup_hash ko (fst (dictobj_to_vec o1 ! i)) = Some hash}"
proof -
  obtain ids where "candidate_indices_for_hash ko (do_backend o1) hash = Inr ids"
    "set ids = {e. e < length (d_entries (do_backend o1)) \<and> value_lookup_hash ko (fst (d_entries (do_backend o1) ! e)) = Some hash}"
    using candidates_spec [OF assms [unfolded dictobj_inv_def], of hash] by blast
  then show ?thesis
    by (auto simp: candidate_entries_with_hash_def entries_at_spec dictobj_defs dictobj_len_def backend_len_def)
qed

theorem candidates_are_the_entries_with_hash_witness:
  "\<exists>o1 es. demo_dict o1 \<and> candidate_entries_with_hash demo_keys o1 1 = Inr es \<and> (2, 7, 70) \<in> set es"
proof -
  obtain o1 where o1: "demo_dict o1" "dictobj_inv demo_keys o1" "dictobj_to_vec o1 = [(1, 10), (4, 40), (7, 70)]"
    using demo_dict_ok by blast
  then show ?thesis using candidates_are_the_entries_with_hash [OF o1(2), of 1]
    by (auto simp: dictobj_len_def backend_len_def dictobj_defs)
qed



text \<open>
  The restriction to hashable keys is needed: when a key without a hash was stored first, its removal leaves the
  indexes in the table as they were, and a later lookup of a key that is still there panics.
\<close>

theorem unhashable_removal_breaks_lookup:
  "bindr (backend_new demo_keys [(101, 5), (1, 6), (2, 7 :: nat)]) (\<lambda>d.
   bindr (remove_key demo_keys 101 d) (\<lambda>(removed, d).
   bindr (dict_find demo_keys d 1) (\<lambda>found.
   Inr (removed, to_vec d, found)))) = Inr (Some (101, 5), [(1, 6), (2, 7)], None) \<and>
   bindr (backend_new demo_keys [(101, 5), (1, 6), (2, 7 :: nat)]) (\<lambda>d.
   bindr (remove_key demo_keys 101 d) (\<lambda>(removed, d). dict_find demo_keys d 2)) =
   Inl (Panic ''index out of bounds'')"
  by code_simp

end
