(* ===== verification/Set_Object.thy ===== *)
theory Set_Object
  imports Dict_Proofs
begin

text \<open>
  \<open>SetObject\<close> of \<^verbatim>\<open>src/runtime/mod.rs\<close>: the members in a vector and, per hash, the bucket of their
  indexes. A value without a hash is in no bucket. Removal moves the last member into the hole.
\<close>

datatype IndexBucket = One nat | Many "nat list"

definition bucket_new :: "nat \<Rightarrow> IndexBucket" where
  "bucket_new index = One index"

fun bucket_push :: "nat \<Rightarrow> IndexBucket \<Rightarrow> IndexBucket" where
  "bucket_push index (One existing) = Many [existing, index]"
| "bucket_push index (Many indices) = Many (indices @ [index])"

text \<open>The predicate of \<open>find_index_with\<close> reads the members and so may panic.\<close>

fun find_first :: "(nat \<Rightarrow> bool res) \<Rightarrow> nat list \<Rightarrow> nat option res" where
  "find_first p [] = Inr None"
| "find_first p (index # rest) = bindr (p index) (\<lambda>b. if b then Inr (Some index) else find_first p rest)"

fun find_index_with :: "(nat \<Rightarrow> bool res) \<Rightarrow> IndexBucket \<Rightarrow> nat option res" where
  "find_index_with p (One index) = bindr (p index) (\<lambda>b. Inr (if b then Some index else None))"
| "find_index_with p (Many indices) = find_first p indices"

fun index_of :: "nat \<Rightarrow> nat list \<Rightarrow> nat option" where
  "index_of x [] = None"
| "index_of x (y # ys) = (if y = x then Some 0 else map_option Suc (index_of x ys))"

text \<open>\<open>Vec::swap_remove\<close> at an index in range.\<close>

definition swap_out :: "nat \<Rightarrow> 'a list \<Rightarrow> 'a list" where
  "swap_out i xs = butlast (xs[i := last xs])"

fun remove_index :: "nat \<Rightarrow> IndexBucket \<Rightarrow> IndexBucket" where
  "remove_index index (One existing) = (if existing = index then Many [] else One existing)"
| "remove_index index (Many indices) =
     (case index_of index indices of None \<Rightarrow> Many indices | Some pos \<Rightarrow> Many (swap_out pos indices))"

fun replace_index :: "nat \<Rightarrow> nat \<Rightarrow> IndexBucket \<Rightarrow> IndexBucket" where
  "replace_index old_index new_index (One index) = (if index = old_index then One new_index else One index)"
| "replace_index old_index new_index (Many indices) =
     (case index_of old_index indices of None \<Rightarrow> Many indices | Some pos \<Rightarrow> Many (indices[pos := new_index]))"

fun bucket_normalize :: "IndexBucket \<Rightarrow> IndexBucket" where
  "bucket_normalize (Many [index]) = One index"
| "bucket_normalize b = b"

definition bucket_is_empty :: "IndexBucket \<Rightarrow> bool" where
  "bucket_is_empty b \<longleftrightarrow> b = Many []"

record 'k SetObject =
  so_values :: "'k list"
  so_index :: "u64 \<Rightarrow> IndexBucket option"

definition set_empty :: "'k SetObject" where
  "set_empty = \<lparr>so_values = [], so_index = (\<lambda>_. None)\<rparr>"

definition setobj_len :: "'k SetObject \<Rightarrow> nat" where
  "setobj_len s = length (so_values s)"

definition setobj_clear :: "'k SetObject \<Rightarrow> 'k SetObject" where
  "setobj_clear s = s\<lparr>so_values := [], so_index := (\<lambda>_. None)\<rparr>"

definition same_key :: "'k keyops \<Rightarrow> 'k list \<Rightarrow> 'k \<Rightarrow> nat \<Rightarrow> bool res" where
  "same_key ko xs x index = bindr (nth_res xs index) (\<lambda>y. Inr (value_key_equal ko y x))"

definition setobj_contains :: "'k keyops \<Rightarrow> 'k SetObject \<Rightarrow> 'k \<Rightarrow> bool res" where
  "setobj_contains ko s x =
     (case value_lookup_hash ko x of
        Some hash \<Rightarrow>
          (case so_index s hash of
             Some bucket \<Rightarrow> bindr (find_index_with (same_key ko (so_values s) x) bucket) (\<lambda>i. Inr (i \<noteq> None))
           | None \<Rightarrow> Inr False)
      | None \<Rightarrow> Inr (list_ex (\<lambda>item. value_key_equal ko item x) (so_values s)))"

definition setobj_find_index :: "'k keyops \<Rightarrow> 'k SetObject \<Rightarrow> 'k \<Rightarrow> nat option res" where
  "setobj_find_index ko s x =
     (case Option.bind (value_lookup_hash ko x) (so_index s) of
        Some bucket \<Rightarrow> find_index_with (same_key ko (so_values s) x) bucket
      | None \<Rightarrow> Inr (position (\<lambda>item. value_key_equal ko item x) (so_values s)))"

definition index_push :: "u64 option \<Rightarrow> nat \<Rightarrow> (u64 \<Rightarrow> IndexBucket option) \<Rightarrow> u64 \<Rightarrow> IndexBucket option" where
  "index_push hash index m =
     (case hash of
        None \<Rightarrow> m
      | Some hash \<Rightarrow>
          m(hash \<mapsto> (case m hash of Some bucket \<Rightarrow> bucket_push index bucket | None \<Rightarrow> bucket_new index)))"

definition setobj_insert :: "'k keyops \<Rightarrow> 'k \<Rightarrow> 'k SetObject \<Rightarrow> (bool \<times> 'k SetObject) res" where
  "setobj_insert ko x s =
     bindr (setobj_find_index ko s x) (\<lambda>i.
     if i \<noteq> None then Inr (False, s)
     else Inr (True, s\<lparr>so_values := so_values s @ [x],
       so_index := index_push (value_lookup_hash ko x) (length (so_values s)) (so_index s)\<rparr>))"

fun setobj_insert_all :: "'k keyops \<Rightarrow> 'k list \<Rightarrow> 'k SetObject \<Rightarrow> 'k SetObject res" where
  "setobj_insert_all ko [] s = Inr s"
| "setobj_insert_all ko (x # xs) s = bindr (setobj_insert ko x s) (\<lambda>(_, s). setobj_insert_all ko xs s)"

definition setobj_new :: "'k keyops \<Rightarrow> 'k list \<Rightarrow> 'k SetObject res" where
  "setobj_new ko xs = setobj_insert_all ko xs set_empty"

definition remove_hash_index ::
  "u64 \<Rightarrow> nat \<Rightarrow> (u64 \<Rightarrow> IndexBucket option) \<Rightarrow> u64 \<Rightarrow> IndexBucket option" where
  "remove_hash_index hash entry_index m =
     (case m hash of
        None \<Rightarrow> m
      | Some bucket \<Rightarrow>
          (let bucket = bucket_normalize (remove_index entry_index bucket)
           in m(hash := (if bucket_is_empty bucket then None else Some bucket))))"

definition rename_moved ::
  "'k keyops \<Rightarrow> 'k list \<Rightarrow> nat \<Rightarrow> nat \<Rightarrow> (u64 \<Rightarrow> IndexBucket option) \<Rightarrow> u64 \<Rightarrow> IndexBucket option" where
  "rename_moved ko xs last_index index m =
     (if index < length xs then
        (case value_lookup_hash ko (xs ! index) of
           None \<Rightarrow> m
         | Some moved_hash \<Rightarrow>
             (case m moved_hash of
                None \<Rightarrow> m
              | Some bucket \<Rightarrow> m(moved_hash \<mapsto> replace_index last_index index bucket)))
      else m)"

definition setobj_remove :: "'k keyops \<Rightarrow> nat \<Rightarrow> 'k SetObject \<Rightarrow> ('k \<times> 'k SetObject) res" where
  "setobj_remove ko index s =
     (let last_index = length (so_values s) - 1
      in bindr (nth_res (so_values s) index) (\<lambda>removed.
         let xs = swap_out index (so_values s);
             m = (case value_lookup_hash ko removed of
                    None \<Rightarrow> so_index s
                  | Some hash \<Rightarrow> remove_hash_index hash index (so_index s))
         in Inr (removed, s\<lparr>so_values := xs, so_index := rename_moved ko xs last_index index m\<rparr>)))"

definition setobj_remove_value :: "'k keyops \<Rightarrow> 'k \<Rightarrow> 'k SetObject \<Rightarrow> (bool \<times> 'k SetObject) res" where
  "setobj_remove_value ko x s =
     bindr (setobj_find_index ko s x) (\<lambda>i.
     case i of
       None \<Rightarrow> Inr (False, s)
     | Some index \<Rightarrow> bindr (setobj_remove ko index s) (\<lambda>(_, s). Inr (True, s)))"

definition rebuild_index :: "'k keyops \<Rightarrow> 'k SetObject \<Rightarrow> 'k SetObject" where
  "rebuild_index ko s =
     s\<lparr>so_index := fold (\<lambda>(index, x). index_push (value_lookup_hash ko x) index)
         (enumerate 0 (so_values s)) (\<lambda>_. None)\<rparr>"

definition setobj_retain :: "'k keyops \<Rightarrow> ('k \<Rightarrow> bool) \<Rightarrow> 'k SetObject \<Rightarrow> 'k SetObject" where
  "setobj_retain ko f s = rebuild_index ko (s\<lparr>so_values := filter f (so_values s)\<rparr>)"

fun all_contained :: "'k keyops \<Rightarrow> 'k list \<Rightarrow> 'k SetObject \<Rightarrow> bool res" where
  "all_contained ko [] other = Inr True"
| "all_contained ko (x # xs) other =
     bindr (setobj_contains ko other x) (\<lambda>b. if b then all_contained ko xs other else Inr False)"

definition setobj_eq :: "'k keyops \<Rightarrow> 'k SetObject \<Rightarrow> 'k SetObject \<Rightarrow> bool res" where
  "setobj_eq ko s other =
     (if setobj_len s \<noteq> setobj_len other then Inr False else all_contained ko (so_values s) other)"

end
