(* ===== verification/Set_Spec.thy ===== *)
theory Set_Spec
  imports Set_Object Dict_Spec "HOL-Library.Multiset"
begin

text \<open>
  What the set object promises: the buckets list exactly the indexes of the members with their hash, so
  that membership, insertion and removal are those of a set of keys up to key equality. The interface
  \<open>key_set\<close> states the laws; the set object is its interpretation.
\<close>

section \<open>Buckets\<close>

fun bucket_list :: "IndexBucket \<Rightarrow> nat list" where
  "bucket_list (One i) = [i]"
| "bucket_list (Many is) = is"

definition members :: "(u64 \<Rightarrow> IndexBucket option) \<Rightarrow> u64 \<Rightarrow> nat list" where
  "members m h = (case m h of None \<Rightarrow> [] | Some b \<Rightarrow> bucket_list b)"

lemma bucket_push_list: "bucket_list (bucket_push i b) = bucket_list b @ [i]"
  by (cases b) simp_all

lemma members_push:
  "members (index_push (Some h) i m) h' = (if h' = h then members m h @ [i] else members m h')"
  "members (index_push None i m) h' = members m h'"
  by (auto simp: members_def index_push_def bucket_push_list bucket_new_def split: option.splits)

lemma index_of_Some: "index_of x ys = Some p \<Longrightarrow> p < length ys \<and> ys ! p = x"
  by (induction ys arbitrary: p) (auto split: if_splits)

lemma index_of_None: "index_of x ys = None \<longleftrightarrow> x \<notin> set ys"
  by (induction ys) auto

lemma swap_out_mset:
  assumes "i < length xs"
  shows "mset (swap_out i xs) = mset xs - {#xs ! i#}"
proof -
  let ?ys = "xs[i := last xs]"
  have ne: "?ys \<noteq> []" using assms by auto
  have "last ?ys = last xs" using assms by (subst last_list_update) auto
  moreover have "mset ?ys = add_mset (last xs) (mset xs - {#xs ! i#})" using assms by (simp add: mset_update)
  moreover have "mset ?ys = add_mset (last ?ys) (mset (butlast ?ys))"
    using ne by (metis append_butlast_last_id mset_append mset_single_iff union_mset_add_mset_right add_mset_add_single)
  ultimately show ?thesis by (simp add: swap_out_def)
qed

lemma swap_out_set:
  assumes "i < length xs" "distinct xs"
  shows "distinct (swap_out i xs) \<and> set (swap_out i xs) = set xs - {xs ! i}"
proof -
  have m: "mset (swap_out i xs) = mset_set (set xs) - {#xs ! i#}" using swap_out_mset assms by (simp add: mset_set_set)
  also have "\<dots> = mset_set (set xs - {xs ! i})" using assms(1) by (simp add: mset_set_Diff)
  finally have m: "mset (swap_out i xs) = mset_set (set xs - {xs ! i})" .
  then have "set (swap_out i xs) = set xs - {xs ! i}" by (metis finite_Diff finite_set_mset_mset_set finite_set set_mset_mset)
  moreover have "length (swap_out i xs) = card (set xs) - 1"
    using assms by (simp add: swap_out_def distinct_card)
  ultimately show ?thesis using assms by (simp add: card_distinct)
qed

lemma swap_out_nth:
  "i < length xs \<Longrightarrow> length (swap_out i xs) = length xs - 1"
  "i < length xs \<Longrightarrow> j < length xs - 1 \<Longrightarrow> swap_out i xs ! j = (if j = i then xs ! (length xs - 1) else xs ! j)"
proof -
  assume i: "i < length xs"
  then have "xs \<noteq> []" by auto
  then show "length (swap_out i xs) = length xs - 1" by (simp add: swap_out_def)
  show "swap_out i xs ! j = (if j = i then xs ! (length xs - 1) else xs ! j)" if "j < length xs - 1"
    using that i \<open>xs \<noteq> []\<close> by (auto simp: swap_out_def nth_butlast last_conv_nth)
qed

lemma remove_index_list:
  "distinct (bucket_list b) \<Longrightarrow>
   distinct (bucket_list (remove_index i b)) \<and> set (bucket_list (remove_index i b)) = set (bucket_list b) - {i}"
  by (cases b) (auto split: option.splits dest!: index_of_Some simp: index_of_None swap_out_set)

lemma replace_index_list:
  "distinct (bucket_list b) \<Longrightarrow> i \<notin> set (bucket_list b) \<Longrightarrow>
   distinct (bucket_list (replace_index n i b)) \<and>
   set (bucket_list (replace_index n i b)) =
     (if n \<in> set (bucket_list b) then Set.insert i (set (bucket_list b) - {n}) else set (bucket_list b))"
  by (cases b) (auto split: option.splits dest!: index_of_Some simp: index_of_None set_update_distinct intro!: distinct_list_update)

lemma normalize_list [simp]: "bucket_list (bucket_normalize b) = bucket_list b"
  by (cases b rule: bucket_normalize.cases) simp_all

lemma bucket_empty_iff: "bucket_is_empty (bucket_normalize b) \<longleftrightarrow> bucket_list b = []"
  by (cases b rule: bucket_normalize.cases) (simp_all add: bucket_is_empty_def)

section \<open>Invariant\<close>

definition index_rep :: "'k keyops \<Rightarrow> 'k list \<Rightarrow> (u64 \<Rightarrow> IndexBucket option) \<Rightarrow> bool" where
  "index_rep ko xs m \<longleftrightarrow> (\<forall>h. distinct (members m h) \<and>
     set (members m h) = {i. i < length xs \<and> value_lookup_hash ko (xs ! i) = Some h} \<and> m h \<noteq> Some (Many []))"

definition distinct_values :: "'k keyops \<Rightarrow> 'k list \<Rightarrow> bool" where
  "distinct_values ko xs \<longleftrightarrow> (\<forall>i < length xs. \<forall>j < length xs. value_key_equal ko (xs ! i) (xs ! j) \<longrightarrow> i = j)"

definition set_inv :: "'k keyops \<Rightarrow> 'k SetObject \<Rightarrow> bool" where
  "set_inv ko s \<longleftrightarrow> keys_ok ko \<and> distinct_values ko (so_values s) \<and> index_rep ko (so_values s) (so_index s)"

lemma index_rep_push:
  assumes "index_rep ko xs m"
  shows "index_rep ko (xs @ [x]) (index_push (value_lookup_hash ko x) (length xs) m)"
proof -
  have ne: "index_push (value_lookup_hash ko x) (length xs) m h \<noteq> Some (Many [])" for h
    using assms by (auto simp: index_rep_def index_push_def bucket_new_def elim!: bucket_push.elims split: option.splits)
  have "distinct (members (index_push (value_lookup_hash ko x) (length xs) m) h) \<and>
      set (members (index_push (value_lookup_hash ko x) (length xs) m) h) =
        {i. i < length (xs @ [x]) \<and> value_lookup_hash ko ((xs @ [x]) ! i) = Some h}" for h
    using assms by (cases "value_lookup_hash ko x") (auto simp: index_rep_def members_push nth_append less_Suc_eq)
  with ne show ?thesis by (simp add: index_rep_def)
qed

lemma rebuild_rep_aux:
  "index_rep ko xs m \<Longrightarrow>
   index_rep ko (xs @ ys) (fold (\<lambda>(i, x). index_push (value_lookup_hash ko x) i) (enumerate (length xs) ys) m)"
proof (induction ys arbitrary: xs m)
  case (Cons y ys)
  from Cons.IH [OF index_rep_push [OF Cons.prems, of y]] show ?case by simp
qed simp

lemma rebuild_rep: "index_rep ko (so_values s) (so_index (rebuild_index ko s))"
  using rebuild_rep_aux [of ko "[]" "\<lambda>_. None" "so_values s"]
  by (simp add: rebuild_index_def index_rep_def members_def)

lemma members_remove_hash:
  fixes h :: u64 and i :: nat
  assumes "\<And>h. distinct (members m h)" "\<And>h. m h \<noteq> Some (Many [])"
  defines "m' \<equiv> remove_hash_index h i m"
  shows "distinct (members m' h') \<and> set (members m' h') = (if h' = h then set (members m h) - {i} else set (members m h')) \<and>
    m' h' \<noteq> Some (Many [])"
proof (cases "m h")
  case None
  then show ?thesis using assms by (auto simp: m'_def remove_hash_index_def members_def)
next
  case (Some b)
  have "distinct (bucket_list b)" using assms(1) [of h] Some by (simp add: members_def)
  note r = remove_index_list [OF this, of i]
  let ?b = "bucket_normalize (remove_index i b)"
  have m': "m' = m(h := (if bucket_is_empty ?b then None else Some ?b))"
    using Some by (simp add: m'_def remove_hash_index_def Let_def)
  have "members m' h = bucket_list (remove_index i b)"
    using bucket_empty_iff [of "remove_index i b"] by (simp add: m' members_def)
  moreover have "m' h \<noteq> Some (Many [])" by (simp add: m' bucket_is_empty_def)
  moreover have "members m' h' = members m h' \<and> m' h' = m h'" if "h' \<noteq> h" using that by (simp add: m' members_def)
  moreover have "members m h = bucket_list b" using Some by (simp add: members_def)
  ultimately show ?thesis using r assms(1,2) by (cases "h' = h") simp_all
qed

lemma index_rep_remove:
  assumes rep: "index_rep ko xs m" and i: "i < length xs"
  defines "m1 \<equiv> (case value_lookup_hash ko (xs ! i) of None \<Rightarrow> m | Some h \<Rightarrow> remove_hash_index h i m)"
  shows "index_rep ko (swap_out i xs) (rename_moved ko (swap_out i xs) (length xs - 1) i m1)"
proof -
  define n where "n = length xs - 1"
  let ?ys = "swap_out i xs"
  have len: "length xs = Suc n" using i by (simp add: n_def)
  have sw: "length ?ys = n" "\<And>j. j < n \<Longrightarrow> ?ys ! j = (if j = i then xs ! n else xs ! j)"
    using swap_out_nth [OF i] by (simp_all add: len)
  have m1: "distinct (members m1 h)" "set (members m1 h) = {j. j < length xs \<and> j \<noteq> i \<and> value_lookup_hash ko (xs ! j) = Some h}"
    "m1 h \<noteq> Some (Many [])" for h
    using rep members_remove_hash [of m _ i h] unfolding m1_def index_rep_def
    by (auto split: option.splits if_splits)
  let ?goal = "index_rep ko ?ys (rename_moved ko ?ys n i m1)"
  have ?goal
  proof (cases "i < n")
    case False
    then have "i = n" using i len by simp
    moreover from this have "rename_moved ko ?ys n i m1 = m1" using sw(1) by (simp add: rename_moved_def)
    moreover have "{j. j < length xs \<and> j \<noteq> n \<and> value_lookup_hash ko (xs ! j) = Some h} =
      {j. j < n \<and> value_lookup_hash ko (?ys ! j) = Some h}" for h
      using \<open>i = n\<close> sw(2) len by (auto simp: less_Suc_eq)
    ultimately show ?goal using m1 sw(1) by (simp add: index_rep_def len)
  next
    case True
    have moved: "?ys ! i = xs ! n" using sw(2) [OF True] by simp
    have keep: "{j. j < n \<and> value_lookup_hash ko (?ys ! j) = Some h} =
      (if value_lookup_hash ko (xs ! n) = Some h then Set.insert i (set (members m1 h) - {n}) else set (members m1 h))" for h
      using True sw(2) len unfolding m1(2) by (auto simp: less_Suc_eq split: if_splits)
    show ?goal
    proof (cases "value_lookup_hash ko (xs ! n)")
      case None
      then show ?goal using m1(1,3) keep True sw(1) by (simp add: index_rep_def rename_moved_def moved)
    next
      case (Some h)
      have "n \<in> set (members m1 h)" using Some True by (auto simp: m1(2) len)
      then obtain b where b: "m1 h = Some b" "n \<in> set (bucket_list b)" by (cases "m1 h") (auto simp: members_def)
      have r: "rename_moved ko ?ys n i m1 = m1(h \<mapsto> replace_index n i b)"
        using True Some b(1) by (simp add: rename_moved_def sw(1) moved)
      have "distinct (bucket_list b)" "i \<notin> set (bucket_list b)" "set (members m1 h) = set (bucket_list b)"
        using m1(1,2) [of h] b(1) by (auto simp: members_def)
      from replace_index_list [OF this(1,2), of n] this(3) b(2)
      have l: "distinct (bucket_list (replace_index n i b))"
        "set (bucket_list (replace_index n i b)) = Set.insert i (set (members m1 h) - {n})" by simp_all
      then have "replace_index n i b \<noteq> Many []" by auto
      moreover have "members (m1(h \<mapsto> replace_index n i b)) h' =
        (if h' = h then bucket_list (replace_index n i b) else members m1 h')" for h' by (simp add: members_def)
      ultimately show ?goal using m1(1,3) keep l Some sw(1) by (simp add: index_rep_def r)
    qed
  qed
  then show ?thesis by (simp add: n_def)
qed

section \<open>Operations\<close>

definition has_value :: "'k keyops \<Rightarrow> 'k list \<Rightarrow> 'k \<Rightarrow> bool" where
  "has_value ko xs x \<longleftrightarrow> list_ex (\<lambda>y. value_key_equal ko y x) xs"

lemma has_value_nth: "has_value ko xs x \<longleftrightarrow> (\<exists>i < length xs. value_key_equal ko (xs ! i) x)"
  by (simp add: has_value_def list_ex_length)

lemma find_first_spec:
  "\<forall>i \<in> set ids. i < length xs \<Longrightarrow>
   \<exists>r. find_first (same_key ko xs x) ids = Inr r \<and>
     (case r of None \<Rightarrow> \<forall>i \<in> set ids. \<not> value_key_equal ko (xs ! i) x | Some i \<Rightarrow> i \<in> set ids \<and> value_key_equal ko (xs ! i) x)"
  by (induction ids) (auto simp: same_key_def split: option.splits)

lemma find_index_with_spec:
  assumes "\<forall>i \<in> set (bucket_list b). i < length xs"
  shows "\<exists>r. find_index_with (same_key ko xs x) b = Inr r \<and>
     (case r of None \<Rightarrow> \<forall>i \<in> set (bucket_list b). \<not> value_key_equal ko (xs ! i) x
      | Some i \<Rightarrow> i \<in> set (bucket_list b) \<and> value_key_equal ko (xs ! i) x)"
proof (cases b)
  case (One i)
  then show ?thesis using assms by (simp add: same_key_def)
next
  case (Many ids)
  show ?thesis using find_first_spec [of ids xs ko x] assms unfolding Many bucket_list.simps find_index_with.simps by blast
qed

lemma bucket_search:
  assumes "set_inv ko s" "value_lookup_hash ko x = Some h" "so_index s h = Some b"
  shows "\<exists>r. find_index_with (same_key ko (so_values s) x) b = Inr r \<and>
    (r = None \<longleftrightarrow> \<not> has_value ko (so_values s) x) \<and> (\<forall>i. r = Some i \<longrightarrow> i < length (so_values s) \<and> value_key_equal ko (so_values s ! i) x)"
proof -
  have b: "set (bucket_list b) = {i. i < length (so_values s) \<and> value_lookup_hash ko (so_values s ! i) = Some h}"
    using assms(1,3) unfolding set_inv_def index_rep_def by (metis members_def option.simps(5))
  have k: "keys_ok ko" using assms(1) by (simp add: set_inv_def)
  have "value_lookup_hash ko (so_values s ! i) = Some h" if "value_key_equal ko (so_values s ! i) x" for i
    using keys_okD(4) [OF k that] assms(2) by simp
  then have has: "has_value ko (so_values s) x \<longleftrightarrow> (\<exists>i \<in> set (bucket_list b). value_key_equal ko (so_values s ! i) x)"
    by (auto simp: b has_value_nth)
  obtain r where r: "find_index_with (same_key ko (so_values s) x) b = Inr r"
    "case r of None \<Rightarrow> \<forall>i \<in> set (bucket_list b). \<not> value_key_equal ko (so_values s ! i) x
      | Some i \<Rightarrow> i \<in> set (bucket_list b) \<and> value_key_equal ko (so_values s ! i) x"
    using find_index_with_spec [of b "so_values s" ko x] b by blast
  show ?thesis using r has by (cases r) (auto simp: b)
qed

lemma no_bucket:
  assumes "set_inv ko s" "value_lookup_hash ko x = Some h" "so_index s h = None"
  shows "\<not> has_value ko (so_values s) x"
proof -
  have k: "keys_ok ko" using assms(1) by (simp add: set_inv_def)
  have "{} = {i. i < length (so_values s) \<and> value_lookup_hash ko (so_values s ! i) = Some h}"
    using assms(1,3) unfolding set_inv_def index_rep_def by (metis members_def option.simps(4) list.set(1))
  then show ?thesis using keys_okD(4) [OF k] assms(2) by (fastforce simp: has_value_nth)
qed

lemma find_index_set:
  assumes "set_inv ko s"
  shows "\<exists>r. setobj_find_index ko s x = Inr r \<and>
    (r = None \<longleftrightarrow> \<not> has_value ko (so_values s) x) \<and> (\<forall>i. r = Some i \<longrightarrow> i < length (so_values s) \<and> value_key_equal ko (so_values s ! i) x)"
proof (cases "Option.bind (value_lookup_hash ko x) (so_index s)")
  case None
  have "position (\<lambda>item. value_key_equal ko item x) (so_values s) = None \<longleftrightarrow> \<not> has_value ko (so_values s) x"
    by (simp add: position_None has_value_nth)
  then show ?thesis using None by (auto simp: setobj_find_index_def position_Some)
next
  case (Some b)
  then show ?thesis using bucket_search [OF assms] by (auto simp: setobj_find_index_def bind_eq_Some_conv)
qed

lemma contains_set: "set_inv ko s \<Longrightarrow> setobj_contains ko s x = Inr (has_value ko (so_values s) x)"
proof (cases "value_lookup_hash ko x")
  case (Some h)
  assume i: "set_inv ko s"
  show ?thesis
  proof (cases "so_index s h")
    case None
    then show ?thesis using no_bucket [OF i Some] Some by (simp add: setobj_contains_def)
  next
    case (Some b)
    then show ?thesis using bucket_search [OF i \<open>value_lookup_hash ko x = Some h\<close> Some] \<open>value_lookup_hash ko x = Some h\<close>
      by (auto simp: setobj_contains_def)
  qed
qed (simp add: setobj_contains_def has_value_def)

lemma insert_set:
  assumes i: "set_inv ko s"
  shows "\<exists>s'. setobj_insert ko x s = Inr (\<not> has_value ko (so_values s) x, s') \<and> set_inv ko s' \<and>
    so_values s' = (if has_value ko (so_values s) x then so_values s else so_values s @ [x])"
proof (cases "has_value ko (so_values s) x")
  case True
  then show ?thesis using find_index_set [OF i, of x] i by (auto simp: setobj_insert_def)
next
  case False
  let ?s = "s\<lparr>so_values := so_values s @ [x], so_index := index_push (value_lookup_hash ko x) (length (so_values s)) (so_index s)\<rparr>"
  have k: "keys_ok ko" using i by (simp add: set_inv_def)
  have "distinct_values ko (so_values s @ [x])"
    unfolding distinct_values_def
  proof (intro allI impI)
    fix a b
    let ?xs = "so_values s"
    assume ab: "a < length (?xs @ [x])" "b < length (?xs @ [x])" "value_key_equal ko ((?xs @ [x]) ! a) ((?xs @ [x]) ! b)"
    have new: "\<not> value_key_equal ko (?xs ! j) x" "\<not> value_key_equal ko x (?xs ! j)" if "j < length ?xs" for j
      using that False keys_okD(2) [OF k] by (auto simp: has_value_nth)
    have old: "a = b" if "a < length ?xs" "b < length ?xs" "value_key_equal ko (?xs ! a) (?xs ! b)"
      using that i unfolding set_inv_def distinct_values_def by blast
    show "a = b"
      using ab new [of a] new [of b] old by (cases "a < length ?xs"; cases "b < length ?xs") (simp_all add: nth_append)
  qed
  then have "set_inv ko ?s" using i index_rep_push [of ko "so_values s" "so_index s" x] by (simp add: set_inv_def)
  then show ?thesis using find_index_set [OF i, of x] False by (auto simp: setobj_insert_def)
qed

lemma swap_out_distinct_values:
  assumes "distinct_values ko xs" "i < length xs"
  shows "distinct_values ko (swap_out i xs)"
  unfolding distinct_values_def
proof (intro allI impI)
  fix a b
  let ?up = "\<lambda>j. if j = i then length xs - 1 else j"
  assume ab: "a < length (swap_out i xs)" "b < length (swap_out i xs)"
    "value_key_equal ko (swap_out i xs ! a) (swap_out i xs ! b)"
  then have l: "a < length xs - 1" "b < length xs - 1" using swap_out_nth(1) [OF assms(2)] by simp_all
  have "swap_out i xs ! a = xs ! ?up a" "swap_out i xs ! b = xs ! ?up b"
    using swap_out_nth(2) [OF assms(2)] l by simp_all
  moreover have "?up a < length xs" "?up b < length xs" using l by auto
  ultimately have "?up a = ?up b" using assms(1) ab(3) unfolding distinct_values_def by presburger
  then show "a = b" using l by (auto split: if_splits)
qed

lemma remove_set:
  assumes i: "set_inv ko s" and l: "i < length (so_values s)"
  shows "\<exists>s'. setobj_remove ko i s = Inr (so_values s ! i, s') \<and> set_inv ko s' \<and> so_values s' = swap_out i (so_values s)"
  using i l index_rep_remove [of ko "so_values s" "so_index s" i] swap_out_distinct_values [of ko "so_values s" i]
  by (simp add: setobj_remove_def Let_def set_inv_def)

lemma others_differ:
  assumes "keys_ok ko" "distinct_values ko xs" "i < length xs" "value_key_equal ko (xs ! i) x"
  shows "mset (swap_out i xs) = mset (filter (\<lambda>y. \<not> value_key_equal ko y x) xs)"
proof -
  have "\<not> value_key_equal ko (xs ! j) x" if "j < length xs" "j \<noteq> i" for j
    using that assms keys_okD(2,3) [OF assms(1)] unfolding distinct_values_def by metis
  then have "\<forall>y \<in> set (take i xs) \<union> set (drop (Suc i) xs). \<not> value_key_equal ko y x"
    using assms(3) by (auto simp: in_set_conv_nth)
  then have keep: "filter (\<lambda>y. \<not> value_key_equal ko y x) (take i xs) = take i xs"
    "filter (\<lambda>y. \<not> value_key_equal ko y x) (drop (Suc i) xs) = drop (Suc i) xs" by simp_all
  have xs: "xs = take i xs @ xs ! i # drop (Suc i) xs" using assms(3) by (rule id_take_nth_drop)
  have "filter (\<lambda>y. \<not> value_key_equal ko y x) (take i xs @ xs ! i # drop (Suc i) xs) = take i xs @ drop (Suc i) xs"
    using assms(4) keep by simp
  moreover have "mset (take i xs @ xs ! i # drop (Suc i) xs) - {#xs ! i#} = mset (take i xs @ drop (Suc i) xs)" by simp
  ultimately show ?thesis using swap_out_mset [OF assms(3)] by (metis xs)
qed

lemma remove_value_set:
  assumes i: "set_inv ko s"
  shows "\<exists>s'. setobj_remove_value ko x s = Inr (has_value ko (so_values s) x, s') \<and> set_inv ko s' \<and>
    mset (so_values s') = mset (filter (\<lambda>y. \<not> value_key_equal ko y x) (so_values s))"
proof -
  obtain r where r: "setobj_find_index ko s x = Inr r" "r = None \<longleftrightarrow> \<not> has_value ko (so_values s) x"
    "\<forall>i. r = Some i \<longrightarrow> i < length (so_values s) \<and> value_key_equal ko (so_values s ! i) x"
    using find_index_set [OF i] by blast
  show ?thesis
  proof (cases r)
    case None
    then have "\<forall>y \<in> set (so_values s). \<not> value_key_equal ko y x" using r(2) by (auto simp: has_value_def list_ex_iff)
    then have "filter (\<lambda>y. \<not> value_key_equal ko y x) (so_values s) = so_values s" by simp
    then show ?thesis using r None i by (simp add: setobj_remove_value_def)
  next
    case (Some n)
    then have n: "n < length (so_values s)" "value_key_equal ko (so_values s ! n) x" using r(3) by blast+
    obtain s' where "setobj_remove ko n s = Inr (so_values s ! n, s')" "set_inv ko s'" "so_values s' = swap_out n (so_values s)"
      using remove_set [OF i n(1)] by blast
    then show ?thesis using r Some others_differ [OF _ _ n] i by (auto simp: setobj_remove_value_def set_inv_def)
  qed
qed

lemma retain_set:
  assumes "set_inv ko s"
  shows "set_inv ko (setobj_retain ko f s) \<and> so_values (setobj_retain ko f s) = filter f (so_values s)"
proof -
  obtain js where js: "sorted_wrt (<) js" "set js \<subseteq> {..<length (so_values s)}" "filter f (so_values s) = map ((!) (so_values s)) js"
    using filter_indices [of "so_values s" f] by blast
  have d: "distinct js" using js(1) strict_sorted_iff by blast
  have lt: "js ! a < length (so_values s)" if "a < length js" for a using js(2) nth_mem [OF that] by blast
  have "a = b" if "a < length js" "b < length js" "value_key_equal ko (so_values s ! (js ! a)) (so_values s ! (js ! b))" for a b
    using that assms lt nth_eq_iff_index_eq [OF d] unfolding set_inv_def distinct_values_def by metis
  then have "distinct_values ko (filter f (so_values s))" by (simp add: js(3) distinct_values_def)
  then show ?thesis using assms rebuild_rep [of ko "s\<lparr>so_values := filter f (so_values s)\<rparr>"]
    by (simp add: set_inv_def setobj_retain_def rebuild_index_def)
qed

section \<open>The interface\<close>

datatype 'k set_op = Add 'k | Discard 'k | Has 'k

fun run_set_ops ::
  "('s \<Rightarrow> 'k \<Rightarrow> bool res) \<Rightarrow> ('k \<Rightarrow> 's \<Rightarrow> (bool \<times> 's) res) \<Rightarrow> ('k \<Rightarrow> 's \<Rightarrow> (bool \<times> 's) res) \<Rightarrow>
   'k set_op list \<Rightarrow> 's \<Rightarrow> (bool list \<times> 's) res" where
  "run_set_ops mem add del [] s = Inr ([], s)"
| "run_set_ops mem add del (Add x # ops) s =
     bindr (add x s) (\<lambda>(b, s). bindr (run_set_ops mem add del ops s) (\<lambda>(obs, s). Inr (b # obs, s)))"
| "run_set_ops mem add del (Discard x # ops) s =
     bindr (del x s) (\<lambda>(b, s). bindr (run_set_ops mem add del ops s) (\<lambda>(obs, s). Inr (b # obs, s)))"
| "run_set_ops mem add del (Has x # ops) s =
     bindr (mem s x) (\<lambda>b. bindr (run_set_ops mem add del ops s) (\<lambda>(obs, s). Inr (b # obs, s)))"

text \<open>The specification works on a set of keys; membership is up to key equality.\<close>

definition key_in :: "'k keyops \<Rightarrow> 'k set \<Rightarrow> 'k \<Rightarrow> bool" where
  "key_in ko S x \<longleftrightarrow> (\<exists>y \<in> S. value_key_equal ko y x)"

fun spec_set_ops :: "'k keyops \<Rightarrow> 'k set_op list \<Rightarrow> 'k set \<Rightarrow> bool list \<times> 'k set" where
  "spec_set_ops ko [] S = ([], S)"
| "spec_set_ops ko (Add x # ops) S =
     apfst (Cons (\<not> key_in ko S x)) (spec_set_ops ko ops (if key_in ko S x then S else Set.insert x S))"
| "spec_set_ops ko (Discard x # ops) S =
     apfst (Cons (key_in ko S x)) (spec_set_ops ko ops {y \<in> S. \<not> value_key_equal ko y x})"
| "spec_set_ops ko (Has x # ops) S = apfst (Cons (key_in ko S x)) (spec_set_ops ko ops S)"

locale key_set =
  fixes inv :: "'k keyops \<Rightarrow> 's \<Rightarrow> bool" and elems :: "'s \<Rightarrow> 'k list"
    and mem :: "'k keyops \<Rightarrow> 's \<Rightarrow> 'k \<Rightarrow> bool res"
    and add :: "'k keyops \<Rightarrow> 'k \<Rightarrow> 's \<Rightarrow> (bool \<times> 's) res"
    and del :: "'k keyops \<Rightarrow> 'k \<Rightarrow> 's \<Rightarrow> (bool \<times> 's) res"
  assumes inv_distinct: "inv ko s \<Longrightarrow> distinct_values ko (elems s)"
    and inv_keys: "inv ko s \<Longrightarrow> keys_ok ko"
    and mem_law: "inv ko s \<Longrightarrow> mem ko s x = Inr (has_value ko (elems s) x)"
    and add_law: "inv ko s \<Longrightarrow> \<exists>s'. add ko x s = Inr (\<not> has_value ko (elems s) x, s') \<and> inv ko s' \<and>
      elems s' = (if has_value ko (elems s) x then elems s else elems s @ [x])"
    and del_law: "inv ko s \<Longrightarrow> \<exists>s'. del ko x s = Inr (has_value ko (elems s) x, s') \<and> inv ko s' \<and>
      mset (elems s') = mset (filter (\<lambda>y. \<not> value_key_equal ko y x) (elems s))"
begin

lemma key_in_elems: "key_in ko (set (elems s)) x \<longleftrightarrow> has_value ko (elems s) x"
  by (simp add: key_in_def has_value_def list_ex_iff)

lemma set_runs:
  "inv ko s \<Longrightarrow> \<exists>s'. run_set_ops (mem ko) (add ko) (del ko) ops s = Inr (fst (spec_set_ops ko ops (set (elems s))), s') \<and>
    inv ko s' \<and> set (elems s') = snd (spec_set_ops ko ops (set (elems s)))"
proof (induction ops arbitrary: s)
  case (Cons op ops)
  show ?case
  proof (cases op)
    case (Add x)
    obtain s1 where s1: "add ko x s = Inr (\<not> has_value ko (elems s) x, s1)" "inv ko s1"
      "elems s1 = (if has_value ko (elems s) x then elems s else elems s @ [x])" using add_law [OF Cons.prems] by blast
    then have "set (elems s1) = (if has_value ko (elems s) x then set (elems s) else Set.insert x (set (elems s)))" by simp
    then show ?thesis using s1(1) Cons.IH [OF s1(2)] by (auto simp: Add key_in_elems)
  next
    case (Discard x)
    obtain s1 where s1: "del ko x s = Inr (has_value ko (elems s) x, s1)" "inv ko s1"
      "mset (elems s1) = mset (filter (\<lambda>y. \<not> value_key_equal ko y x) (elems s))" using del_law [OF Cons.prems] by blast
    then have "set (elems s1) = {y \<in> set (elems s). \<not> value_key_equal ko y x}" by (metis mset_eq_setD set_filter)
    then show ?thesis using s1(1) Cons.IH [OF s1(2)] by (auto simp: Discard key_in_elems)
  next
    case (Has x)
    then show ?thesis using Cons.IH [OF Cons.prems] mem_law [OF Cons.prems] by (auto simp: key_in_elems)
  qed
qed simp

text \<open>Two sets of the same size are equal as sets of keys when one covers the other.\<close>

lemma same_elems:
  assumes s: "inv ko s" "inv ko t"
  shows "length (elems s) = length (elems t) \<and> (\<forall>x \<in> set (elems s). has_value ko (elems t) x) \<longleftrightarrow>
    (\<forall>x. has_value ko (elems s) x = has_value ko (elems t) x)"
proof -
  note k = inv_keys [OF s(1)]
  let ?u = "map (\<lambda>x. (x, ()))"
  have find: "alist_find ko x (?u ys) = (if has_value ko ys x then Some () else None)" for x ys
    using match_at_None [of ko x "?u ys"] by (auto simp: alist_find_def has_value_nth) 
  have d: "distinct_keys ko (?u (elems s))" "distinct_keys ko (?u (elems t))"
    using inv_distinct s by (simp_all add: distinct_keys_def distinct_values_def)
  have refl: "has_value ko (elems s) x" if "x \<in> set (elems s)" for x
    using that keys_okD(1) [OF k] by (auto simp: has_value_def list_ex_iff)
  show ?thesis
  proof
    assume a: "length (elems s) = length (elems t) \<and> (\<forall>x \<in> set (elems s). has_value ko (elems t) x)"
    have "alist_find ko x (?u (elems s)) = alist_find ko x (?u (elems t))" for x
      by (rule covered_same [OF k d]) (use a in \<open>simp_all add: find\<close>)
    then show "\<forall>x. has_value ko (elems s) x = has_value ko (elems t) x" by (metis find option.distinct(1))
  next
    assume a: "\<forall>x. has_value ko (elems s) x = has_value ko (elems t) x"
    then have "length (?u (elems s)) \<le> length (?u (elems t))" "length (?u (elems t)) \<le> length (?u (elems s))"
      by (intro same_length [OF k d(1)] same_length [OF k d(2)]; simp add: find)+
    then show "length (elems s) = length (elems t) \<and> (\<forall>x \<in> set (elems s). has_value ko (elems t) x)" using a refl by simp
  qed
qed

end

interpretation setobj: key_set set_inv so_values setobj_contains setobj_insert setobj_remove_value
  by unfold_locales (simp add: set_inv_def, simp add: set_inv_def, erule contains_set, erule insert_set, erule remove_value_set)

section \<open>Properties\<close>

lemma set_empty_inv: "keys_ok ko \<Longrightarrow> set_inv ko set_empty"
  by (simp add: set_inv_def set_empty_def distinct_values_def index_rep_def members_def)

lemma setobj_new_inv:
  "set_inv ko s \<Longrightarrow> \<exists>s'. setobj_insert_all ko xs s = Inr s' \<and> set_inv ko s' \<and>
     (\<forall>x. has_value ko (so_values s') x = (has_value ko (so_values s) x \<or> has_value ko xs x))"
proof (induction xs arbitrary: s)
  case (Cons y ys)
  have k: "keys_ok ko" using Cons.prems by (simp add: set_inv_def)
  obtain s1 where s1: "setobj_insert ko y s = Inr (\<not> has_value ko (so_values s) y, s1)" "set_inv ko s1"
    "so_values s1 = (if has_value ko (so_values s) y then so_values s else so_values s @ [y])"
    using insert_set [OF Cons.prems] by blast
  have "has_value ko zs x" if "has_value ko zs y" "value_key_equal ko y x" for zs x
    using that keys_okD(3) [OF k] by (auto simp: has_value_def list_ex_iff)
  then have "has_value ko (so_values s1) x \<longleftrightarrow> has_value ko (so_values s) x \<or> value_key_equal ko y x" for x
    using s1(3) by (auto simp: has_value_def)
  then show ?case using s1(1) Cons.IH [OF s1(2)] by (auto simp: has_value_def)
qed (simp add: has_value_def)



text \<open>
  The equality of set objects is extensional: it holds exactly when both contain the same keys, whatever the
  order of their members and the state of their buckets.
\<close>

theorem setobj_eq_extensional:
  assumes "set_inv ko s" "set_inv ko t"
  shows "setobj_eq ko s t = Inr (\<forall>x. setobj_contains ko s x = setobj_contains ko t x)"
proof -
  have "all_contained ko xs t = Inr (\<forall>x \<in> set xs. has_value ko (so_values t) x)" for xs
    by (induction xs) (simp_all add: contains_set [OF assms(2)])
  then show ?thesis using setobj.same_elems [OF assms] by (auto simp: setobj_eq_def setobj_len_def contains_set assms)
qed

theorem setobj_eq_extensional_witness:
  "\<exists>s t. setobj_new demo_keys [1, 4, 200] = Inr s \<and> setobj_new demo_keys [200, 4, 1, 4] = Inr t \<and>
    setobj_eq demo_keys s t = Inr True"
proof -
  obtain s where s: "setobj_new demo_keys [1, 4, 200] = Inr s" "set_inv demo_keys s"
    "\<forall>x. has_value demo_keys (so_values s) x = has_value demo_keys [1, 4, 200] x"
    using setobj_new_inv [OF set_empty_inv [OF demo_keys_ok], of "[1, 4, 200]"]
    by (auto simp: setobj_new_def set_empty_def has_value_def)
  obtain t where t: "setobj_new demo_keys [200, 4, 1, 4] = Inr t" "set_inv demo_keys t"
    "\<forall>x. has_value demo_keys (so_values t) x = has_value demo_keys [200, 4, 1, 4] x"
    using setobj_new_inv [OF set_empty_inv [OF demo_keys_ok], of "[200, 4, 1, 4]"]
    by (auto simp: setobj_new_def set_empty_def has_value_def)
  have "\<forall>x. setobj_contains demo_keys s x = setobj_contains demo_keys t x"
    using s(3) t(3) by (auto simp: contains_set [OF s(2)] contains_set [OF t(2)] has_value_def)
  then show ?thesis using s(1) t(1) setobj_eq_extensional [OF s(2) t(2)] by auto
qed

end
