(* ===== verification/Text_Repr.thy ===== *)
theory Text_Repr
  imports Unicode
begin

text \<open>
  How \<^verbatim>\<open>src/runtime/mod.rs\<close> writes a string as a Python literal (\<open>format_repr_string\<close>), and the
  hexadecimal formats it shares with the JSON writer.
\<close>

text \<open>\<open>str::splitn\<close> at a character\<close>

fun splitn :: "nat \<Rightarrow> rchar \<Rightarrow> rstring \<Rightarrow> rstring list" where
  "splitn 0 c s = []"
| "splitn (Suc 0) c s = [s]"
| "splitn (Suc (Suc n)) c s =
     (if c \<in> set s then takeWhile (\<lambda>x. x \<noteq> c) s # splitn (Suc n) c (tl (dropWhile (\<lambda>x. x \<noteq> c) s)) else [s])"

text \<open>\<open>char::is_control\<close>, the category Cc.\<close>

definition is_control :: "rchar \<Rightarrow> bool" where
  "is_control c \<longleftrightarrow> c < 0x20 \<or> 0x7F \<le> c \<and> c < 0xA0"

text \<open>\<open>{:0<w>x}\<close>: lower-case hexadecimal, padded with zeros.\<close>

definition hex_char :: "nat \<Rightarrow> rchar" where
  "hex_char d = (if d < 10 then 48 + d else 87 + d)"

fun hex_digits :: "nat \<Rightarrow> rstring" where
  "hex_digits n = (if n < 16 then [hex_char n] else hex_digits (n div 16) @ [hex_char (n mod 16)])"

declare hex_digits.simps [simp del]

definition format_hex :: "nat \<Rightarrow> nat \<Rightarrow> rstring" where
  "format_hex w n = (let ds = hex_digits n in replicate (w - length ds) 48 @ ds)"

definition append_python_char_escape :: "rstring \<Rightarrow> rchar \<Rightarrow> rstring" where
  "append_python_char_escape out ch =
     (if ch \<le> 0xFF then out @ [0x5C, chr CHR ''x''] @ format_hex 2 ch
      else if ch \<le> 0xFFFF then out @ [0x5C, chr CHR ''u''] @ format_hex 4 ch
      else out @ [0x5C, chr CHR ''U''] @ format_hex 8 ch)"

definition repr_char :: "rchar \<Rightarrow> rstring \<Rightarrow> rchar \<Rightarrow> rstring" where
  "repr_char quote out ch =
     (if ch = 0x5C then out @ [0x5C, 0x5C]
      else if ch = 0x27 \<and> quote = 0x27 then out @ [0x5C, 0x27]
      else if ch = 0x22 \<and> quote = 0x22 then out @ [0x5C, 0x22]
      else if ch = 10 then out @ [0x5C, chr CHR ''n'']
      else if ch = 13 then out @ [0x5C, chr CHR ''r'']
      else if ch = 9 then out @ [0x5C, chr CHR ''t'']
      else if is_control ch then append_python_char_escape out ch
      else out @ [ch])"

definition format_repr_string :: "rstring \<Rightarrow> rstring" where
  "format_repr_string val =
     (let quote = (if 0x27 \<in> set val \<and> 0x22 \<notin> set val then 0x22 else 0x27)
      in foldl (repr_char quote) [quote] val @ [quote])"

lemma format_hex_2:
  assumes "n < 256"
  shows "format_hex 2 n = [hex_char (n div 16), hex_char (n mod 16)]"
proof -
  have "hex_digits n = (if n < 16 then [hex_char n] else [hex_char (n div 16), hex_char (n mod 16)])"
    using assms by (auto simp: hex_digits.simps [of n] hex_digits.simps [of "n div 16"])
  then show ?thesis by (simp add: format_hex_def hex_char_def)
qed

lemma to_digit_hex_char: "d < 16 \<Longrightarrow> to_digit 16 (hex_char d) = Some d"
  by (auto simp: to_digit_def hex_char_def)

text \<open>The text of one character, apart from what was written before.\<close>

lemma repr_char_append: "repr_char quote out ch = out @ repr_char quote [] ch"
  by (simp add: repr_char_def append_python_char_escape_def)

lemma foldl_repr_char: "foldl (repr_char quote) out s = out @ concat (map (repr_char quote []) s)"
proof (induction s arbitrary: out)
  case (Cons c s)
  then show ?case by (metis append.assoc concat.simps(2) foldl_Cons list.map(2) repr_char_append)
qed simp

end
