(* ===== verification/Lexing.thy ===== *)
theory Lexing
  imports Text_Repr
begin

text \<open>
  The tokens of \<^verbatim>\<open>src/parser/token.rs\<close>, the Unicode name table of
  \<^verbatim>\<open>src/parser/unicode_names.rs\<close> and the lexer of \<^verbatim>\<open>src/parser/lexer.rs\<close>. The source text is
  split at the lexer's position into the characters before it, last one first, and those after
  it; the byte offset is the UTF-8 length of the former. The indentation stack has its top at the head.
\<close>

section \<open>Tokens\<close>

datatype Keyword =
    KwPass | KwIf | KwElse | KwWhile | KwTry | KwExcept | KwFinally | KwRaise | KwAssert | KwTrueLiteral
  | KwFalseLiteral | KwNoneLiteral | KwDef | KwClass | KwReturn | KwFor | KwIn | KwIs | KwBreak | KwContinue
  | KwAnd | KwOr | KwNot | KwElif | KwImport | KwFrom | KwGlobal | KwNonlocal | KwAs | KwLambda | KwWith
  | KwYield | KwAsync | KwAwait | KwDel | KwMatch | KwCase | KwType

datatype TokenKind =
    TkName | TkNumber | TkString | TkBytes | TkNewline | TkIndent | TkDedent | TkLParen | TkRParen
  | TkLBracket | TkRBracket | TkLBrace | TkRBrace | TkDot | TkEllipsis | TkColon | TkColonEqual | TkEqual
  | TkDoubleEqual | TkLess | TkLessEqual | TkGreater | TkGreaterEqual | TkNotEqual | TkComma | TkPlus
  | TkMinus | TkArrow | TkStar | TkDoubleStar | TkDoubleSlash | TkSlash | TkSlashEqual | TkPlusEqual
  | TkMinusEqual | TkStarEqual | TkDoubleStarEqual | TkDoubleSlashEqual | TkPercentEqual | TkPercent
  | TkPipe | TkPipeEqual | TkAmpersand | TkAmpersandEqual | TkCaret | TkCaretEqual | TkTilde
  | TkLeftShift | TkLeftShiftEqual | TkRightShift | TkRightShiftEqual | TkAt | TkAtEqual | TkSemicolon
  | TkFString | TkTemplateString | TkKeyword Keyword | TkEndMarker

record Token =
  tk_kind :: TokenKind
  tk_lexeme :: rstring
  tk_offset :: nat
  tk_line :: nat
  tk_column :: nat

text \<open>An error: message, offset, line and column.\<close>

datatype LexError = LexError rstring nat nat nat

type_synonym 'a lres = "LexError + 'a"

section \<open>Characters\<close>

definition is_ascii_digit :: "rchar \<Rightarrow> bool" where
  "is_ascii_digit c \<longleftrightarrow> 48 \<le> c \<and> c \<le> 57"

definition is_ascii_alphabetic :: "rchar \<Rightarrow> bool" where
  "is_ascii_alphabetic c \<longleftrightarrow> 65 \<le> c \<and> c \<le> 90 \<or> 97 \<le> c \<and> c \<le> 122"

definition digit_or_0 :: "nat \<Rightarrow> rchar \<Rightarrow> nat" where
  "digit_or_0 radix c = (case to_digit radix c of Some d \<Rightarrow> d | None \<Rightarrow> 0)"

definition is_ascii_hexdigit :: "rchar \<Rightarrow> bool" where
  "is_ascii_hexdigit c \<longleftrightarrow> to_digit 16 c \<noteq> None"

definition to_ascii_lowercase :: "rchar \<Rightarrow> rchar" where
  "to_ascii_lowercase c = (if 65 \<le> c \<and> c \<le> 90 then c + 32 else c)"

definition to_ascii_uppercase :: "rchar \<Rightarrow> rchar" where
  "to_ascii_uppercase c = (if 97 \<le> c \<and> c \<le> 122 then c - 32 else c)"

text \<open>\<open>char::is_whitespace\<close>, the White_Space property.\<close>

definition is_whitespace :: "rchar \<Rightarrow> bool" where
  "is_whitespace c \<longleftrightarrow> c \<in> {9..13} \<union> {0x20, 0x85, 0xA0, 0x1680, 0x2028, 0x2029, 0x202F, 0x205F, 0x3000} \<union> {0x2000..0x200A}"

text \<open>
  What the lexer depends on: the tables of the standard library for \<open>is_alphabetic\<close> and
  \<open>is_numeric\<close> beyond ASCII, and the text of the Unicode name file.
\<close>

record lexenv =
  le_alphabetic :: "rchar \<Rightarrow> bool"
  le_numeric :: "rchar \<Rightarrow> bool"
  le_names :: rstring

definition is_alphabetic :: "lexenv \<Rightarrow> rchar \<Rightarrow> bool" where
  "is_alphabetic env c \<longleftrightarrow> is_ascii_alphabetic c \<or> 127 < c \<and> le_alphabetic env c"

definition is_alphanumeric :: "lexenv \<Rightarrow> rchar \<Rightarrow> bool" where
  "is_alphanumeric env c \<longleftrightarrow> is_alphabetic env c \<or> is_ascii_digit c \<or> 127 < c \<and> le_numeric env c"

section \<open>Unicode names\<close>

datatype UnicodeNameEntry = EntryChar rchar | EntryNamedSequence

datatype UnicodeNameLookup = LookupChar rchar | LookupNamedSequence | LookupUnknown

text \<open>\<open>str::lines\<close>\<close>

fun split_on :: "rchar \<Rightarrow> rstring \<Rightarrow> rstring list" where
  "split_on c [] = [[]]"
| "split_on c (x # xs) = (if x = c then [] # split_on c xs else (x # hd (split_on c xs)) # tl (split_on c xs))"

definition text_lines :: "rstring \<Rightarrow> rstring list" where
  "text_lines s =
     (let ls = split_on 10 s; ls = (if last ls = [] then butlast ls else ls)
      in map (\<lambda>l. if l \<noteq> [] \<and> last l = 13 then butlast l else l) ls)"

definition u32_from_hex :: "rstring \<Rightarrow> nat option" where
  "u32_from_hex s =
     (let ds = (if s \<noteq> [] \<and> hd s = 43 then tl s else s) in
      if ds = [] \<or> \<not> list_all is_ascii_hexdigit ds then None
      else let v = foldl (\<lambda>v c. v * 16 + digit_or_0 16 c) 0 ds in if v < 2 ^ 32 then Some v else None)"

definition name_line :: "rstring \<Rightarrow> (rstring \<Rightarrow> UnicodeNameEntry option) \<Rightarrow> rstring \<Rightarrow> UnicodeNameEntry option" where
  "name_line line m =
     (if line = [] \<or> hd line = chr CHR ''#'' then m
      else case splitn 3 (chr CHR '';'') line of
          [kind, nm, payload] \<Rightarrow>
            if kind = str ''C'' \<or> kind = str ''A'' then
              (case Option.bind (u32_from_hex payload) char_from_u32 of
                 None \<Rightarrow> m
               | Some ch \<Rightarrow> m(nm \<mapsto> EntryChar ch))
            else if kind = str ''S'' then
              (if list_all is_whitespace payload then m else m(nm \<mapsto> EntryNamedSequence))
            else m
        | _ \<Rightarrow> m)"

definition build_unicode_name_table :: "rstring \<Rightarrow> rstring \<Rightarrow> UnicodeNameEntry option" where
  "build_unicode_name_table data = fold name_line (text_lines data) (\<lambda>_. None)"

definition lookup_unicode_name :: "rstring \<Rightarrow> rstring \<Rightarrow> UnicodeNameLookup" where
  "lookup_unicode_name data nm =
     (case build_unicode_name_table data (map to_ascii_uppercase nm) of
        Some (EntryChar ch) \<Rightarrow> LookupChar ch
      | Some EntryNamedSequence \<Rightarrow> LookupNamedSequence
      | None \<Rightarrow> LookupUnknown)"

section \<open>State and movement\<close>

record Lexer =
  lx_before :: rstring
  lx_after :: rstring
  lx_line :: nat
  lx_column :: nat
  lx_indent_stack :: "nat list"
  lx_at_line_start :: bool
  lx_paren_level :: nat

definition lexer_new :: "rstring \<Rightarrow> Lexer" where
  "lexer_new source =
     \<lparr>lx_before = [], lx_after = source, lx_line = 1, lx_column = 1, lx_indent_stack = [0],
      lx_at_line_start = True, lx_paren_level = 0\<rparr>"

definition lx_offset :: "Lexer \<Rightarrow> nat" where
  "lx_offset lx = byte_len (lx_before lx)"

definition peek_char :: "Lexer \<Rightarrow> rchar option" where
  "peek_char lx = (case lx_after lx of [] \<Rightarrow> None | c # _ \<Rightarrow> Some c)"

definition peek_char_at :: "nat \<Rightarrow> Lexer \<Rightarrow> rchar option" where
  "peek_char_at idx lx = (if idx < length (lx_after lx) then Some (lx_after lx ! idx) else None)"

definition peek_is :: "Lexer \<Rightarrow> char set \<Rightarrow> bool" where
  "peek_is lx cs = (case peek_char lx of None \<Rightarrow> False | Some c \<Rightarrow> c \<in> chr ` cs)"

definition advance :: "Lexer \<Rightarrow> Lexer" where
  "advance lx =
     (case lx_after lx of
        [] \<Rightarrow> lx
      | c # cs \<Rightarrow>
          lx\<lparr>lx_before := c # lx_before lx, lx_after := cs,
             lx_line := (if c = 10 then lx_line lx + 1 else lx_line lx),
             lx_column := (if c = 10 then 1 else lx_column lx + 1)\<rparr>)"

text \<open>Stepping back over the last character; the lexer only does this over the letter \<open>N\<close>, one byte.\<close>

definition retreat :: "Lexer \<Rightarrow> Lexer" where
  "retreat lx =
     (case lx_before lx of
        [] \<Rightarrow> lx
      | c # cs \<Rightarrow> lx\<lparr>lx_before := cs, lx_after := c # lx_after lx, lx_column := lx_column lx - 1\<rparr>)"

text \<open>The text read between two states.\<close>

definition slice_from :: "Lexer \<Rightarrow> Lexer \<Rightarrow> rstring" where
  "slice_from start lx = rev (take (length (lx_before lx) - length (lx_before start)) (lx_before lx))"

text \<open>Whatever the lexer reads, it moves by a number of characters.\<close>

definition moves :: "Lexer \<Rightarrow> Lexer \<Rightarrow> bool" where
  "moves lx lx' \<longleftrightarrow> (\<exists>n. lx' = (advance ^^ n) lx)"

abbreviation left_over :: "Lexer \<Rightarrow> nat" where
  "left_over lx \<equiv> length (lx_after lx)"

named_theorems lexer_moves \<open>movements of the operations of the lexer\<close>

lemma moves_refl [simp, intro]: "moves lx lx"
  unfolding moves_def by (rule exI [of _ 0]) simp

lemma moves_advance [simp, intro]: "moves lx (advance lx)"
  unfolding moves_def by (rule exI [of _ 1]) simp

lemma moves_trans [trans]: "moves a b \<Longrightarrow> moves b c \<Longrightarrow> moves a c"
  unfolding moves_def by (metis comp_apply funpow_add)

lemma moves_from_advance: "moves (advance a) b \<Longrightarrow> moves a b"
  using moves_advance moves_trans by blast

lemma moves_to_advance: "moves a b \<Longrightarrow> moves a (advance b)"
  using moves_advance moves_trans by blast

lemma after_advance: "lx_after (advance lx) = tl (lx_after lx)"
  by (simp add: advance_def split: list.split)

lemma left_advance: "peek_char lx = Some c \<Longrightarrow> left_over (advance lx) < left_over lx"
  by (simp add: peek_char_def after_advance split: list.splits)

lemma moves_left: "moves a b \<Longrightarrow> left_over b \<le> left_over a"
proof -
  assume "moves a b"
  then obtain n where "b = (advance ^^ n) a" by (auto simp: moves_def)
  moreover have "left_over ((advance ^^ n) a) \<le> left_over a"
    by (induction n) (auto simp: after_advance)
  ultimately show ?thesis by simp
qed

lemma moves_progress: "peek_char lx = Some c \<Longrightarrow> moves (advance lx) lx' \<Longrightarrow> left_over lx' < left_over lx"
  using moves_left left_advance by fastforce

lemma retreat_advance: "peek_char lx = Some c \<Longrightarrow> c \<noteq> 10 \<Longrightarrow> retreat (advance lx) = lx"
  by (simp add: retreat_def advance_def peek_char_def split: list.splits)

function consume_while :: "(rchar \<Rightarrow> bool) \<Rightarrow> Lexer \<Rightarrow> Lexer" where
  "consume_while P lx =
     (case peek_char lx of None \<Rightarrow> lx | Some ch \<Rightarrow> if P ch then consume_while P (advance lx) else lx)"
  by pat_completeness auto
termination
  by (relation "measure (\<lambda>(P, lx). length (lx_after lx))")
     (auto dest: left_advance)

declare consume_while.simps [simp del]

lemma consume_while_moves [lexer_moves]: "moves lx (consume_while P lx)"
  by (induction P lx rule: consume_while.induct, subst consume_while.simps)
     (auto intro: moves_from_advance split: option.splits)

section \<open>Numbers, names and comments\<close>

definition lex_error :: "string \<Rightarrow> Lexer \<Rightarrow> 'a lres" where
  "lex_error msg lx = Inl (LexError (str msg) (lx_offset lx) (lx_line lx) (lx_column lx))"

definition consume_comment :: "Lexer \<Rightarrow> Lexer" where
  "consume_comment lx = consume_while (\<lambda>ch. ch \<noteq> 10) lx"

definition consume_identifier :: "lexenv \<Rightarrow> Lexer \<Rightarrow> rstring \<times> Lexer" where
  "consume_identifier env lx =
     (let lx' = consume_while (\<lambda>ch. ch = chr CHR ''_'' \<or> is_alphanumeric env ch) lx in (slice_from lx lx', lx'))"

definition digits_run :: "Lexer \<Rightarrow> Lexer" where
  "digits_run lx = consume_while (\<lambda>ch. is_ascii_digit ch \<or> ch = chr CHR ''_'') lx"

definition exponent_part :: "Lexer \<Rightarrow> Lexer" where
  "exponent_part lx =
     (if peek_is lx {CHR ''e'', CHR ''E''} then
        (let lx = advance lx; lx = (if peek_is lx {CHR ''+'', CHR ''-''} then advance lx else lx) in digits_run lx)
      else lx)"

definition imaginary_suffix :: "Lexer \<Rightarrow> Lexer" where
  "imaginary_suffix lx = (if peek_is lx {CHR ''j'', CHR ''J''} then advance lx else lx)"

definition consume_number :: "Lexer \<Rightarrow> rstring \<times> Lexer" where
  "consume_number start =
     (let zero = peek_is start {CHR ''0''}; lx = (if zero then advance start else start) in
      if zero \<and> peek_is lx {CHR ''x'', CHR ''X'', CHR ''o'', CHR ''O'', CHR ''b'', CHR ''B''} then
        (let lx = consume_while (\<lambda>ch. ch = chr CHR ''_'' \<or> is_ascii_hexdigit ch) (advance lx);
             lx = imaginary_suffix lx
         in (slice_from start lx, lx))
      else
        let lx = digits_run lx;
            lx = (if peek_is lx {CHR ''.''} \<and> peek_char_at 1 lx \<noteq> Some (chr CHR ''.'')
                  then digits_run (advance lx) else lx);
            lx = imaginary_suffix (exponent_part lx)
        in (slice_from start lx, lx))"

definition consume_number_from_dot :: "Lexer \<Rightarrow> rstring \<times> Lexer" where
  "consume_number_from_dot start =
     (let lx = imaginary_suffix (exponent_part (digits_run (advance start))) in (slice_from start lx, lx))"

section \<open>Escape sequences\<close>

text \<open>Errors inside a string are reported at its opening quote, the state \<open>start\<close>.\<close>

definition unterminated_escape :: "Lexer \<Rightarrow> 'a lres" where
  "unterminated_escape start = lex_error ''unterminated escape sequence'' start"

definition hex_digit :: "Lexer \<Rightarrow> string \<Rightarrow> Lexer \<Rightarrow> (rchar \<times> Lexer) lres" where
  "hex_digit start msg lx =
     (case peek_char lx of
        None \<Rightarrow> unterminated_escape start
      | Some ch \<Rightarrow> if is_ascii_hexdigit ch then Inr (ch, advance lx) else lex_error msg start)"

fun octal_loop :: "nat \<Rightarrow> nat \<Rightarrow> Lexer \<Rightarrow> nat \<times> Lexer" where
  "octal_loop 0 val lx = (val, lx)"
| "octal_loop (Suc n) val lx =
     (case peek_char lx of
        Some next \<Rightarrow> if to_digit 8 next \<noteq> None then octal_loop n (val * 8 + digit_or_0 8 next) (advance lx) else (val, lx)
      | None \<Rightarrow> (val, lx))"

fun hex_loop :: "nat \<Rightarrow> Lexer \<Rightarrow> u32 \<Rightarrow> Lexer \<Rightarrow> (u32 \<times> Lexer) lres" where
  "hex_loop 0 start val lx = Inr (val, lx)"
| "hex_loop (Suc n) start val lx =
     bindr (hex_digit start ''invalid unicode escape'' lx) (\<lambda>(ch, lx).
     hex_loop n start (push_bit 4 val OR of_nat (digit_or_0 16 ch)) lx)"

function name_loop :: "Lexer \<Rightarrow> rstring \<Rightarrow> Lexer \<Rightarrow> (rstring \<times> Lexer) lres" where
  "name_loop start nm lx =
     (case peek_char lx of
        None \<Rightarrow> lex_error ''invalid unicode escape'' start
      | Some ch \<Rightarrow> if ch = chr CHR ''}'' then Inr (nm, advance lx) else name_loop start (nm @ [ch]) (advance lx))"
  by pat_completeness auto
termination
  by (relation "measure (\<lambda>(start, nm, lx). length (lx_after lx))")
     (auto dest: left_advance)

declare name_loop.simps [simp del]

text \<open>The escapes of one letter.\<close>

definition simple_escapes :: "(char \<times> nat) list" where
  "simple_escapes =
    [(CHR ''n'', 10), (CHR ''a'', 7), (CHR ''b'', 8), (CHR ''f'', 12), (CHR ''t'', 9), (CHR ''r'', 13),
     (CHR ''v'', 11), (CHR 0x5C, 0x5C), (CHR 0x27, 0x27), (CHR 0x22, 0x22)]"

definition simple_escape :: "rchar \<Rightarrow> rchar option" where
  "simple_escape ch = map_option snd (find (\<lambda>(c, _). chr c = ch) simple_escapes)"

definition consume_escaped_char :: "lexenv \<Rightarrow> Lexer \<Rightarrow> Lexer \<Rightarrow> (rchar option \<times> Lexer) lres" where
  "consume_escaped_char env start lx =
     (case peek_char lx of
        None \<Rightarrow> unterminated_escape start
      | Some ch \<Rightarrow>
          (case simple_escape ch of
             Some c \<Rightarrow> Inr (Some c, advance lx)
           | None \<Rightarrow>
               if ch = chr CHR ''x'' then
                 bindr (hex_digit start ''invalid hex escape'' (advance lx)) (\<lambda>(high, lx).
                 bindr (hex_digit start ''invalid hex escape'' lx) (\<lambda>(low, lx).
                 Inr (Some (digit_or_0 16 high * 16 + digit_or_0 16 low), lx)))
               else if to_digit 8 ch \<noteq> None then
                 (let (val, lx) = octal_loop 2 (digit_or_0 8 ch) (advance lx) in Inr (Some (val mod 256), lx))
               else if ch = chr CHR ''u'' \<or> ch = chr CHR ''U'' then
                 bindr (hex_loop (if ch = chr CHR ''u'' then 4 else 8) start 0 (advance lx)) (\<lambda>(val, lx).
                 case internal_char_from_codepoint (unat val) of
                   None \<Rightarrow> lex_error ''invalid unicode escape'' start
                 | Some c \<Rightarrow> Inr (Some c, lx))
               else if ch = chr CHR ''N'' then
                 (let lx = advance lx in
                  if \<not> peek_is lx {CHR ''{''} then Inr (Some 0x5C, retreat lx)
                  else bindr (name_loop start [] (advance lx)) (\<lambda>(nm, lx).
                    if nm = [] then lex_error ''invalid unicode escape'' start
                    else case lookup_unicode_name (le_names env) nm of
                        LookupChar c \<Rightarrow> Inr (Some c, lx)
                      | _ \<Rightarrow> lex_error ''invalid unicode escape'' start))
               else if ch = 10 then Inr (None, advance lx)
               else if ch = 13 then
                 (let lx = advance lx in Inr (None, if peek_char lx = Some 10 then advance lx else lx))
               else Inr (Some 0x5C, lx)))"

section \<open>Strings\<close>

definition advance3 :: "Lexer \<Rightarrow> Lexer" where
  "advance3 lx = advance (advance (advance lx))"

lemma moves_advance3: "moves (advance lx) (advance3 lx)"
  by (auto simp: advance3_def intro: moves_to_advance)

definition is_triple_quoted :: "rchar \<Rightarrow> Lexer \<Rightarrow> bool" where
  "is_triple_quoted quote lx \<longleftrightarrow> peek_char_at 1 lx = Some quote \<and> peek_char_at 2 lx = Some quote"

definition raw_quote_is_escaped :: "Lexer \<Rightarrow> bool" where
  "raw_quote_is_escaped lx \<longleftrightarrow> odd (length (takeWhile (\<lambda>c. c = 0x5C) (lx_before lx)))"

text \<open>After a backslash in a raw string a line break is copied too.\<close>

definition raw_line_break :: "rstring \<Rightarrow> Lexer \<Rightarrow> rstring \<times> Lexer" where
  "raw_line_break content lx =
     (if peek_char lx = Some 10 then (content @ [10], advance lx)
      else if peek_char lx = Some 13 then
        (let lx = advance lx; content = content @ [13]
         in if peek_char lx = Some 10 then (content @ [10], advance lx) else (content, lx))
      else (content, lx))"

lemma hex_digit_moves: "hex_digit start msg lx = Inr (ch, lx') \<Longrightarrow> moves lx lx'"
  by (auto simp: hex_digit_def unterminated_escape_def lex_error_def split: option.splits if_splits)

lemma octal_loop_moves: "octal_loop n val lx = (v, lx') \<Longrightarrow> moves lx lx'"
  by (induction n arbitrary: val lx) (auto intro: moves_from_advance split: option.splits if_splits)

lemma hex_loop_moves: "hex_loop n start val lx = Inr (v, lx') \<Longrightarrow> moves lx lx'"
  by (induction n arbitrary: val lx) (auto dest!: hex_digit_moves intro: moves_trans)

lemma name_loop_moves: "name_loop start nm lx = Inr (v, lx') \<Longrightarrow> moves lx lx'"
proof (induction start nm lx rule: name_loop.induct)
  case (1 start nm lx)
  from 1(2) show ?case
    by (subst (asm) name_loop.simps)
       (auto simp: lex_error_def split: option.splits if_splits intro: moves_from_advance dest: 1(1))
qed

lemma escaped_moves:
  assumes "consume_escaped_char env start lx = Inr (r, lx')"
  shows "moves lx lx'"
proof -
  have N: "chr CHR ''N'' \<noteq> 10" by (simp add: chr_def)
  show ?thesis
    using assms
    by (auto simp: consume_escaped_char_def Let_def lex_error_def unterminated_escape_def retreat_advance [OF _ N]
        split: option.splits if_splits prod.splits UnicodeNameLookup.splits
        intro: moves_from_advance moves_trans
        dest!: moves_from_advance hex_digit_moves octal_loop_moves hex_loop_moves name_loop_moves)
qed

lemma raw_line_break_moves: "moves lx (snd (raw_line_break content lx))"
  by (auto simp: raw_line_break_def Let_def intro: moves_to_advance split: if_splits)

text \<open>One round of a loop over the characters of a string: it is over, or it goes on.\<close>

datatype 's lstep = Done rstring Lexer | Continue Lexer 's

definition continue_with :: "Lexer \<times> 's \<Rightarrow> 's lstep lres" where
  "continue_with r = Inr (Continue (fst r) (snd r))"

fun step_lexer :: "'s lstep \<Rightarrow> Lexer" where
  "step_lexer (Done content lx) = lx"
| "step_lexer (Continue lx st) = lx"

definition string_step ::
  "lexenv \<Rightarrow> rchar \<Rightarrow> bool \<Rightarrow> bool \<Rightarrow> Lexer \<Rightarrow> rchar \<Rightarrow> Lexer \<Rightarrow> rstring \<Rightarrow> rstring lstep lres" where
  "string_step env quote raw triple start ch lx content =
     (if triple \<and> ch = quote \<and> is_triple_quoted quote lx then Inr (Done content (advance3 lx))
      else if \<not> triple \<and> ch = quote then
        (if raw \<and> raw_quote_is_escaped lx then continue_with (advance lx, content @ [ch])
         else Inr (Done content (advance lx)))
      else if ch = 10 \<and> \<not> triple then lex_error ''unterminated string literal'' start
      else if ch = 0x5C \<and> raw then
        (let r = raw_line_break (content @ [0x5C]) (advance lx) in continue_with (snd r, fst r))
      else if ch = 0x5C then
        bindr (consume_escaped_char env start (advance lx)) (\<lambda>(escaped, lx).
        continue_with (lx, case escaped of None \<Rightarrow> content | Some c \<Rightarrow> content @ [c]))
      else continue_with (advance lx, content @ [ch]))"

lemma string_step_moves:
  "string_step env quote raw triple start ch lx content = Inr r \<Longrightarrow> moves (advance lx) (step_lexer r)"
  by (auto simp: string_step_def continue_with_def Let_def lex_error_def moves_advance3 raw_line_break_moves
      split: if_splits dest!: escaped_moves)

function string_loop :: "lexenv \<Rightarrow> rchar \<Rightarrow> bool \<Rightarrow> bool \<Rightarrow> Lexer \<Rightarrow> rstring \<Rightarrow> Lexer \<Rightarrow> (rstring \<times> Lexer) lres" where
  "string_loop env quote raw triple start content lx =
     (case peek_char lx of
        None \<Rightarrow> lex_error ''unterminated string literal'' start
      | Some ch \<Rightarrow>
          bindr (string_step env quote raw triple start ch lx content) (\<lambda>r.
          case r of
            Done content lx \<Rightarrow> Inr (content, lx)
          | Continue lx content \<Rightarrow> string_loop env quote raw triple start content lx))"
  by pat_completeness auto
termination
  by (relation "measure (\<lambda>(env, quote, raw, triple, start, content, lx). left_over lx)")
     (force dest: moves_progress [OF _ string_step_moves])+

declare string_loop.simps [simp del]

lemma string_loop_moves:
  "string_loop env quote raw triple start content lx = Inr (c, lx') \<Longrightarrow> moves lx lx'"
proof (induction env quote raw triple start content lx rule: string_loop.induct)
  case (1 env quote raw triple start content lx)
  note loop = 1(2) [unfolded string_loop.simps [of env quote raw triple start content lx]]
  obtain ch r where ch: "peek_char lx = Some ch" and r: "string_step env quote raw triple start ch lx content = Inr r"
    and rest: "(case r of Done content lx \<Rightarrow> Inr (content, lx) | Continue lx content \<Rightarrow> string_loop env quote raw triple start content lx) = Inr (c, lx')"
    using loop by (auto simp: lex_error_def split: option.splits)
  have m: "moves (advance lx) (step_lexer r)" using string_step_moves [OF r] .
  show ?case
  proof (cases r)
    case (Done c' l)
    then show ?thesis using rest m by (auto intro: moves_from_advance)
  next
    case (Continue l s)
    then have "moves l lx'" using 1(1) [OF ch r Continue] rest by simp
    moreover have "moves lx l" using m Continue moves_from_advance by simp
    ultimately show ?thesis using moves_trans by blast
  qed
qed

definition open_quote :: "rchar \<Rightarrow> Lexer \<Rightarrow> bool \<times> Lexer" where
  "open_quote quote lx =
     (let triple = is_triple_quoted quote lx
      in (triple, if triple then advance3 lx else advance lx))"

definition consume_string :: "lexenv \<Rightarrow> rchar \<Rightarrow> bool \<Rightarrow> Lexer \<Rightarrow> (rstring \<times> Lexer) lres" where
  "consume_string env quote raw start =
     (let (triple, lx) = open_quote quote start in string_loop env quote raw triple start [] lx)"

end
