(* ===== verification/Tokenizer.thy ===== *)
theory Tokenizer
  imports Lexing
begin

text \<open>
  The rest of \<^verbatim>\<open>src/parser/lexer.rs\<close>: formatted strings, string prefixes, operators, indentation
  and the loop of \<open>tokenize\<close>.
\<close>

section \<open>Formatted strings\<close>

text \<open>
  The content read so far, the depth of braces, and within an expression: whether in its format
  specification, in a comment, in a string with which quote, triple or not, just after a backslash.
\<close>

record FState =
  fs_content :: rstring
  fs_depth :: nat
  fs_spec :: bool
  fs_comment :: bool
  fs_quote :: "rchar option"
  fs_triple :: bool
  fs_escaped :: bool

definition fstate_new :: FState where
  "fstate_new = \<lparr>fs_content = [], fs_depth = 0, fs_spec = False, fs_comment = False, fs_quote = None,
     fs_triple = False, fs_escaped = False\<rparr>"

definition push :: "rstring \<Rightarrow> FState \<Rightarrow> FState" where
  "push cs st = st\<lparr>fs_content := fs_content st @ cs\<rparr>"

text \<open>Inside a string of an expression.\<close>

definition quoted_step :: "rchar \<Rightarrow> rchar \<Rightarrow> Lexer \<Rightarrow> FState \<Rightarrow> Lexer \<times> FState" where
  "quoted_step q ch lx st =
     (if fs_triple st then
        (if ch = q \<and> is_triple_quoted q lx then
           (advance3 lx, (push [q, q, q] st)\<lparr>fs_quote := None, fs_triple := False, fs_escaped := False\<rparr>)
         else (advance lx, push [ch] st))
      else if fs_escaped st then (advance lx, (push [ch] st)\<lparr>fs_escaped := False\<rparr>)
      else if ch = 0x5C then (advance lx, (push [ch] st)\<lparr>fs_escaped := True\<rparr>)
      else if ch = q then (advance lx, (push [ch] st)\<lparr>fs_quote := None\<rparr>)
      else (advance lx, push [ch] st))"

text \<open>Inside an expression; \<open>None\<close> when the character is treated as outside.\<close>

definition expr_step :: "rchar \<Rightarrow> Lexer \<Rightarrow> FState \<Rightarrow> (Lexer \<times> FState) option" where
  "expr_step ch lx st =
     (if fs_comment st then Some (advance lx, (push [ch] st)\<lparr>fs_comment := \<not> (ch = 10 \<or> ch = 13)\<rparr>)
      else case fs_quote st of
          Some q \<Rightarrow> Some (quoted_step q ch lx st)
        | None \<Rightarrow>
            if ch = chr CHR '':'' \<and> fs_depth st = 1 \<and> \<not> fs_spec st then
              Some (advance lx, (push [ch] st)\<lparr>fs_spec := True\<rparr>)
            else if ch = chr CHR ''#'' \<and> (\<not> fs_spec st \<or> 1 < fs_depth st) then
              Some (advance lx, (push [ch] st)\<lparr>fs_comment := True\<rparr>)
            else if ch = 0x27 \<or> ch = 0x22 then
              (let triple = is_triple_quoted ch lx
               in Some (if triple then advance3 lx else advance lx,
                    (push (if triple then [ch, ch, ch] else [ch]) st)
                      \<lparr>fs_quote := Some ch, fs_triple := triple, fs_escaped := False\<rparr>))
            else None)"

definition open_brace :: "rchar \<Rightarrow> Lexer \<Rightarrow> FState \<Rightarrow> Lexer \<times> FState" where
  "open_brace ch lx st =
     (if fs_depth st = 0 \<and> peek_char_at 1 lx = Some ch then (advance (advance lx), push [ch, ch] st)
      else
        let depth = fs_depth st + 1
        in (advance lx, (push [ch] st)\<lparr>fs_depth := depth, fs_spec := (if depth = 1 then False else fs_spec st)\<rparr>))"

definition close_brace :: "rchar \<Rightarrow> Lexer \<Rightarrow> FState \<Rightarrow> Lexer \<times> FState" where
  "close_brace ch lx st =
     (if fs_depth st = 0 \<and> peek_char_at 1 lx = Some ch then (advance (advance lx), push [ch, ch] st)
      else
        let depth = fs_depth st - 1
        in (advance lx, (push [ch] st)\<lparr>fs_depth := depth, fs_spec := (if depth = 0 then False else fs_spec st)\<rparr>))"

definition backslash_step :: "lexenv \<Rightarrow> Lexer \<Rightarrow> Lexer \<Rightarrow> FState \<Rightarrow> FState lstep lres" where
  "backslash_step env start lx st =
     (if 0 < fs_depth st then
        (case peek_char lx of
           None \<Rightarrow> unterminated_escape start
         | Some next \<Rightarrow> continue_with (advance lx, push [0x5C, next] st))
      else
        bindr (consume_escaped_char env start lx) (\<lambda>(escaped, lx).
        continue_with (lx, case escaped of
            None \<Rightarrow> st
          | Some c \<Rightarrow> if c = chr CHR ''{'' \<or> c = chr CHR ''}'' then push [c, c] st else push [c] st)))"

definition outer_step ::
  "lexenv \<Rightarrow> rchar \<Rightarrow> bool \<Rightarrow> bool \<Rightarrow> Lexer \<Rightarrow> rchar \<Rightarrow> Lexer \<Rightarrow> FState \<Rightarrow> FState lstep lres" where
  "outer_step env quote raw triple start ch lx st =
     (if fs_depth st = 0 \<and> triple \<and> ch = quote \<and> is_triple_quoted quote lx then
        Inr (Done (fs_content st) (advance3 lx))
      else if fs_depth st = 0 \<and> \<not> triple \<and> ch = quote then
        (if raw \<and> raw_quote_is_escaped lx then continue_with (advance lx, push [ch] st)
         else Inr (Done (fs_content st) (advance lx)))
      else if ch = 10 \<and> \<not> triple \<and> fs_depth st = 0 then lex_error ''unterminated string literal'' start
      else if ch = chr CHR ''{'' then continue_with (open_brace ch lx st)
      else if ch = chr CHR ''}'' then continue_with (close_brace ch lx st)
      else if ch = 0x5C \<and> raw then
        (let r = raw_line_break (fs_content st @ [0x5C]) (advance lx)
         in continue_with (snd r, st\<lparr>fs_content := fst r\<rparr>))
      else if ch = 0x5C then backslash_step env start (advance lx) st
      else continue_with (advance lx, push [ch] st))"

definition fstring_step ::
  "lexenv \<Rightarrow> rchar \<Rightarrow> bool \<Rightarrow> bool \<Rightarrow> Lexer \<Rightarrow> rchar \<Rightarrow> Lexer \<Rightarrow> FState \<Rightarrow> FState lstep lres" where
  "fstring_step env quote raw triple start ch lx st =
     (case (if 0 < fs_depth st then expr_step ch lx st else None) of
        Some r \<Rightarrow> continue_with r
      | None \<Rightarrow> outer_step env quote raw triple start ch lx st)"

lemma quoted_step_moves: "moves (advance lx) (fst (quoted_step q ch lx st))"
  by (auto simp: quoted_step_def moves_advance3)

lemma expr_step_moves: "expr_step ch lx st = Some r \<Longrightarrow> moves (advance lx) (fst r)"
  by (auto simp: expr_step_def Let_def moves_advance3 quoted_step_moves split: if_splits option.splits)

lemma outer_step_moves:
  assumes "outer_step env quote raw triple start ch lx st = Inr r"
  shows "moves (advance lx) (step_lexer r)"
  using assms
  by (auto simp: outer_step_def backslash_step_def continue_with_def open_brace_def close_brace_def Let_def
      lex_error_def unterminated_escape_def moves_advance3 raw_line_break_moves
      split: if_splits option.splits dest!: escaped_moves)

lemma fstring_step_moves:
  "fstring_step env quote raw triple start ch lx st = Inr r \<Longrightarrow> moves (advance lx) (step_lexer r)"
  by (auto simp: fstring_step_def continue_with_def split: option.splits if_splits
      dest: outer_step_moves expr_step_moves)

function fstring_loop :: "lexenv \<Rightarrow> rchar \<Rightarrow> bool \<Rightarrow> bool \<Rightarrow> Lexer \<Rightarrow> Lexer \<Rightarrow> FState \<Rightarrow> (rstring \<times> Lexer) lres" where
  "fstring_loop env quote raw triple start lx st =
     (case peek_char lx of
        None \<Rightarrow> lex_error ''unterminated string literal'' start
      | Some ch \<Rightarrow>
          bindr (fstring_step env quote raw triple start ch lx st) (\<lambda>r.
          case r of
            Done content lx \<Rightarrow> Inr (content, lx)
          | Continue lx st \<Rightarrow> fstring_loop env quote raw triple start lx st))"
  by pat_completeness auto
termination
  by (relation "measure (\<lambda>(env, quote, raw, triple, start, lx, st). left_over lx)")
     (force dest: moves_progress [OF _ fstring_step_moves])+

declare fstring_loop.simps [simp del]

definition consume_fstring :: "lexenv \<Rightarrow> rchar \<Rightarrow> bool \<Rightarrow> Lexer \<Rightarrow> (rstring \<times> Lexer) lres" where
  "consume_fstring env quote raw start =
     (let (triple, lx) = open_quote quote start in fstring_loop env quote raw triple start lx fstate_new)"

section \<open>Prefixes\<close>

text \<open>The letters of a prefix are among \<open>rubft\<close> and differ.\<close>

fun prefix_letters :: "rchar set \<Rightarrow> rstring \<Rightarrow> bool" where
  "prefix_letters seen [] = True"
| "prefix_letters seen (ch # rest) =
     (let lowered = to_ascii_lowercase ch
      in lowered \<in> chr ` {CHR ''r'', CHR ''u'', CHR ''b'', CHR ''f'', CHR ''t''} \<and> lowered \<notin> seen \<and>
         prefix_letters (Set.insert lowered seen) rest)"

definition has_letter :: "char \<Rightarrow> rstring \<Rightarrow> bool" where
  "has_letter c cs \<longleftrightarrow> list_ex (\<lambda>ch. to_ascii_lowercase ch = chr c) cs"

definition string_prefix :: "Lexer \<Rightarrow> rstring" where
  "string_prefix lx = takeWhile is_ascii_alphabetic (take 2 (lx_after lx))"

definition consume_prefixed_string :: "lexenv \<Rightarrow> Lexer \<Rightarrow> (((TokenKind \<times> rstring) option) \<times> Lexer) lres" where
  "consume_prefixed_string env lx =
     (let cs = string_prefix lx in
      if cs = [] then Inr (None, lx)
      else case peek_char_at (length cs) lx of
          None \<Rightarrow> Inr (None, lx)
        | Some quote \<Rightarrow>
            if quote \<noteq> 0x27 \<and> quote \<noteq> 0x22 then Inr (None, lx)
            else if \<not> prefix_letters {} cs then Inr (None, lx)
            else
              let f = has_letter CHR ''f'' cs; r = has_letter CHR ''r'' cs; b = has_letter CHR ''b'' cs;
                  u = has_letter CHR ''u'' cs; t = has_letter CHR ''t'' cs
              in if t \<and> f then lex_error (CHR 0x27 # ''f'' @ CHR 0x27 # '' and '' @ CHR 0x27 # ''t'' @ CHR 0x27 # '' prefixes are incompatible'') lx
                 else if t \<and> b then lex_error (CHR 0x27 # ''b'' @ CHR 0x27 # '' and '' @ CHR 0x27 # ''t'' @ CHR 0x27 # '' prefixes are incompatible'') lx
                 else if t \<and> u then lex_error (CHR 0x27 # ''u'' @ CHR 0x27 # '' and '' @ CHR 0x27 # ''t'' @ CHR 0x27 # '' prefixes are incompatible'') lx
                 else if f \<and> b then lex_error ''bytes f-strings are not supported'' lx
                 else
                   let start = (advance ^^ length cs) lx
                   in bindr (if f \<or> t then consume_fstring env quote r start else consume_string env quote r start) (\<lambda>(content, lx).
                      Inr (Some (if f then TkFString else if t then TkTemplateString else if b then TkBytes else TkString, content), lx)))"

section \<open>Operators and delimiters\<close>

text \<open>A token that starts at the state \<open>start\<close>.\<close>

definition token_at :: "Lexer \<Rightarrow> TokenKind \<Rightarrow> rstring \<Rightarrow> Token" where
  "token_at start kind lexeme =
     \<lparr>tk_kind = kind, tk_lexeme = lexeme, tk_offset = lx_offset start, tk_line = lx_line start, tk_column = lx_column start\<rparr>"

text \<open>The arms with one character, with an optional equals sign, and with a doubled character.\<close>

definition single :: "TokenKind \<Rightarrow> string \<Rightarrow> Lexer \<Rightarrow> TokenKind \<times> string \<times> Lexer" where
  "single kind lexeme lx = (kind, lexeme, advance lx)"

definition maybe_equal :: "TokenKind \<Rightarrow> TokenKind \<Rightarrow> string \<Rightarrow> Lexer \<Rightarrow> TokenKind \<times> string \<times> Lexer" where
  "maybe_equal kind kind_eq lexeme lx =
     (let lx = advance lx
      in if peek_is lx {CHR ''=''} then (kind_eq, lexeme @ ''='', advance lx) else (kind, lexeme, lx))"

definition maybe_double ::
  "TokenKind \<Rightarrow> TokenKind \<Rightarrow> TokenKind \<Rightarrow> TokenKind \<Rightarrow> char \<Rightarrow> Lexer \<Rightarrow> TokenKind \<times> string \<times> Lexer" where
  "maybe_double kind kind_eq dbl dbl_eq c lx =
     (let lx = advance lx
      in if peek_is lx {c} then maybe_equal dbl dbl_eq [c, c] lx
         else if peek_is lx {CHR ''=''} then (kind_eq, [c, CHR ''=''], advance lx)
         else (kind, [c], lx))"

text \<open>The operators and delimiters that neither fail nor touch the nesting level.\<close>

definition operator_token :: "char \<Rightarrow> Lexer \<Rightarrow> (TokenKind \<times> string \<times> Lexer) option" where
  "operator_token c lx =
     (if c = CHR '';'' then Some (single TkSemicolon [c] lx)
      else if c = CHR '':'' then Some (maybe_equal TkColon TkColonEqual [c] lx)
      else if c = CHR ''='' then Some (maybe_equal TkEqual TkDoubleEqual [c] lx)
      else if c = CHR '','' then Some (single TkComma [c] lx)
      else if c = CHR ''<'' then Some (maybe_double TkLess TkLessEqual TkLeftShift TkLeftShiftEqual c lx)
      else if c = CHR ''>'' then Some (maybe_double TkGreater TkGreaterEqual TkRightShift TkRightShiftEqual c lx)
      else if c = CHR ''+'' then Some (maybe_equal TkPlus TkPlusEqual [c] lx)
      else if c = CHR ''-'' then
        Some (let lx' = advance lx
              in if peek_is lx' {CHR ''>''} then (TkArrow, ''->'', advance lx') else maybe_equal TkMinus TkMinusEqual [c] lx)
      else if c = CHR ''*'' then Some (maybe_double TkStar TkStarEqual TkDoubleStar TkDoubleStarEqual c lx)
      else if c = CHR ''/'' then Some (maybe_double TkSlash TkSlashEqual TkDoubleSlash TkDoubleSlashEqual c lx)
      else if c = CHR ''%'' then Some (maybe_equal TkPercent TkPercentEqual [c] lx)
      else if c = CHR ''&'' then Some (maybe_equal TkAmpersand TkAmpersandEqual [c] lx)
      else if c = CHR ''|'' then Some (maybe_equal TkPipe TkPipeEqual [c] lx)
      else if c = CHR ''^'' then Some (maybe_equal TkCaret TkCaretEqual [c] lx)
      else if c = CHR ''~'' then Some (single TkTilde [c] lx)
      else if c = CHR ''@'' then Some (maybe_equal TkAt TkAtEqual [c] lx)
      else None)"

definition open_bracket :: "Lexer \<Rightarrow> Lexer" where
  "open_bracket lx = (advance lx)\<lparr>lx_paren_level := lx_paren_level lx + 1\<rparr>"

definition close_bracket :: "Lexer \<Rightarrow> Lexer" where
  "close_bracket lx = (advance lx)\<lparr>lx_paren_level := lx_paren_level lx - 1\<rparr>"

definition bracket_token :: "char \<Rightarrow> Lexer \<Rightarrow> (TokenKind \<times> string \<times> Lexer) option" where
  "bracket_token c lx =
     (if c = CHR ''('' then Some (TkLParen, [c], open_bracket lx)
      else if c = CHR '')'' then Some (TkRParen, [c], close_bracket lx)
      else if c = CHR ''['' then Some (TkLBracket, [c], open_bracket lx)
      else if c = CHR '']'' then Some (TkRBracket, [c], close_bracket lx)
      else if c = CHR ''{'' then Some (TkLBrace, [c], open_bracket lx)
      else if c = CHR ''}'' then Some (TkRBrace, [c], close_bracket lx)
      else None)"

definition keyword_table :: "(string \<times> Keyword) list" where
  "keyword_table =
    [(''pass'', KwPass), (''if'', KwIf), (''else'', KwElse), (''while'', KwWhile), (''try'', KwTry),
     (''except'', KwExcept), (''finally'', KwFinally), (''raise'', KwRaise), (''assert'', KwAssert),
     (''True'', KwTrueLiteral), (''False'', KwFalseLiteral), (''None'', KwNoneLiteral), (''def'', KwDef),
     (''class'', KwClass), (''return'', KwReturn), (''for'', KwFor), (''in'', KwIn), (''is'', KwIs),
     (''break'', KwBreak), (''continue'', KwContinue), (''and'', KwAnd), (''or'', KwOr), (''not'', KwNot),
     (''elif'', KwElif), (''import'', KwImport), (''from'', KwFrom), (''global'', KwGlobal),
     (''nonlocal'', KwNonlocal), (''as'', KwAs), (''lambda'', KwLambda), (''with'', KwWith),
     (''yield'', KwYield), (''async'', KwAsync), (''await'', KwAwait), (''del'', KwDel)]"

definition name_kind :: "rstring \<Rightarrow> TokenKind" where
  "name_kind lexeme =
     (case find (\<lambda>(k, _). str k = lexeme) keyword_table of Some (_, kw) \<Rightarrow> TkKeyword kw | None \<Rightarrow> TkName)"

section \<open>One token\<close>

text \<open>The token at a character that is neither blank nor the start of a comment, in the order of the arms.\<close>

definition word_token :: "lexenv \<Rightarrow> Lexer \<Rightarrow> (Token list \<times> Lexer) lres" where
  "word_token env lx =
     bindr (consume_prefixed_string env lx) (\<lambda>(r, lx').
     case r of
       Some (kind, content) \<Rightarrow> Inr ([token_at lx kind content], lx')
     | None \<Rightarrow> (let (lexeme, lx') = consume_identifier env lx' in Inr ([token_at lx (name_kind lexeme) lexeme], lx')))"

definition dot_token :: "Lexer \<Rightarrow> Token list \<times> Lexer" where
  "dot_token lx =
     (if peek_char_at 1 lx = Some (chr CHR ''.'') \<and> peek_char_at 2 lx = Some (chr CHR ''.'') then
        ([token_at lx TkEllipsis (str ''...'')], advance3 lx)
      else if (case peek_char_at 1 lx of Some ch \<Rightarrow> is_ascii_digit ch | None \<Rightarrow> False) then
        (let (lexeme, lx') = consume_number_from_dot lx in ([token_at lx TkNumber lexeme], lx'))
      else ([token_at lx TkDot (str ''.'')], advance lx))"

definition newline_token :: "Lexer \<Rightarrow> Token list \<times> Lexer" where
  "newline_token lx =
     (let lx' = advance lx
      in if lx_paren_level lx' = 0 then ([token_at lx TkNewline [10]], lx'\<lparr>lx_at_line_start := True\<rparr>)
         else ([], lx'\<lparr>lx_at_line_start := False\<rparr>))"

definition simple_token :: "Lexer \<Rightarrow> TokenKind \<times> string \<times> Lexer \<Rightarrow> (Token list \<times> Lexer) lres" where
  "simple_token lx r = (case r of (kind, lexeme, lx') \<Rightarrow> Inr ([token_at lx kind (str lexeme)], lx'))"

definition lex_token :: "lexenv \<Rightarrow> rchar \<Rightarrow> Lexer \<Rightarrow> (Token list \<times> Lexer) lres" where
  "lex_token env ch lx =
     (let ascii = (if ch < 128 then Some (char_of ch :: char) else None) in
      if ch = 10 then Inr (newline_token lx)
      else if ch = 0x5C then
        (let lx' = advance lx
         in if peek_char lx' = Some 10 then Inr ([], (advance lx')\<lparr>lx_at_line_start := False\<rparr>)
            else lex_error (''unexpected character: '' @ [CHR 0x5C]) lx)
      else case Option.bind ascii (\<lambda>c. bracket_token c lx) of
        Some r \<Rightarrow> simple_token lx r
      | None \<Rightarrow>
      if ch = chr CHR ''.'' then Inr (dot_token lx)
      else case Option.bind ascii (\<lambda>c. operator_token c lx) of
        Some r \<Rightarrow> simple_token lx r
      | None \<Rightarrow>
      if ch = chr CHR ''!'' then
        (let lx' = advance lx
         in if peek_is lx' {CHR ''=''} then Inr ([token_at lx TkNotEqual (str ''!='')], advance lx')
            else lex_error ''unexpected character: !'' lx)
      else if ch = 0x27 \<or> ch = 0x22 then
        bindr (consume_string env ch False lx) (\<lambda>(lexeme, lx'). Inr ([token_at lx TkString lexeme], lx'))
      else if is_ascii_digit ch then
        (let (lexeme, lx') = consume_number lx in Inr ([token_at lx TkNumber lexeme], lx'))
      else if ch = chr CHR ''_'' \<or> is_alphabetic env ch then word_token env lx
      else Inl (LexError (str ''unexpected character: '' @ [ch]) (lx_offset lx) (lx_line lx) (lx_column lx)))"

section \<open>Indentation\<close>

function indent_loop :: "nat \<Rightarrow> Lexer \<Rightarrow> nat \<times> Lexer" where
  "indent_loop level lx =
     (case peek_char lx of
        None \<Rightarrow> (level, lx)
      | Some ch \<Rightarrow>
          if ch = chr CHR '' '' then indent_loop (level + 1) (advance lx)
          else if ch = 9 then indent_loop (level + (8 - level mod 8)) (advance lx)
          else if ch = 12 then indent_loop 0 (advance lx)
          else (level, lx))"
  by pat_completeness auto
termination
  by (relation "measure (\<lambda>(level, lx). left_over lx)") (auto dest: left_advance)

declare indent_loop.simps [simp del]

datatype IndentResult = Blank | IndentTo nat

text \<open>The position in the result is that of the returned state.\<close>

definition consume_indentation :: "Lexer \<Rightarrow> IndentResult \<times> Lexer" where
  "consume_indentation lx =
     (let (level, lx) = indent_loop 0 lx
      in (if peek_char lx = None \<or> peek_is lx {CHR 0x0A, CHR ''#''} then Blank else IndentTo level, lx))"

fun dedent_loop :: "nat \<Rightarrow> Lexer \<Rightarrow> nat list \<Rightarrow> Token list \<Rightarrow> (Token list \<times> nat list) lres" where
  "dedent_loop level lx [] tokens = lex_error ''indentation does not match any outer level'' lx"
| "dedent_loop level lx (current # stack) tokens =
     (if level = current then Inr (tokens, current # stack)
      else dedent_loop level lx stack (tokens @ [token_at lx TkDedent []]))"

definition emit_indent_tokens :: "nat \<Rightarrow> Lexer \<Rightarrow> (Token list \<times> Lexer) lres" where
  "emit_indent_tokens level lx =
     (let current = (case lx_indent_stack lx of [] \<Rightarrow> 0 | level # _ \<Rightarrow> level)
      in if level = current then Inr ([], lx)
         else if current < level then
           Inr ([token_at lx TkIndent []], lx\<lparr>lx_indent_stack := level # lx_indent_stack lx\<rparr>)
         else bindr (dedent_loop level lx (lx_indent_stack lx) []) (\<lambda>(tokens, stack).
           Inr (tokens, lx\<lparr>lx_indent_stack := stack\<rparr>)))"

text \<open>The start of a line outside brackets.\<close>

definition line_start :: "Lexer \<Rightarrow> (Token list \<times> Lexer) lres" where
  "line_start lx =
     (if lx_at_line_start lx \<and> lx_paren_level lx = 0 then
        (let (r, lx) = consume_indentation lx
         in case r of
              Blank \<Rightarrow> Inr ([], lx\<lparr>lx_at_line_start := False\<rparr>)
            | IndentTo level \<Rightarrow>
                bindr (emit_indent_tokens level lx) (\<lambda>(tokens, lx). Inr (tokens, lx\<lparr>lx_at_line_start := False\<rparr>)))
      else Inr ([], lx))"

section \<open>The loop\<close>

text \<open>A movement together with changes of the lexer's marks.\<close>

definition reads :: "Lexer \<Rightarrow> Lexer \<Rightarrow> bool" where
  "reads lx lx' \<longleftrightarrow> (\<exists>m. moves lx m \<and> lx_before lx' = lx_before m \<and> lx_after lx' = lx_after m \<and>
     lx_line lx' = lx_line m \<and> lx_column lx' = lx_column m)"

lemma moves_reads: "moves lx lx' \<Longrightarrow> reads lx lx'"
  by (auto simp: reads_def)

lemma reads_left: "reads a b \<Longrightarrow> left_over b \<le> left_over a"
  using moves_left by (auto simp: reads_def)

lemma reads_update:
  "reads a b \<Longrightarrow> reads a (b\<lparr>lx_at_line_start := x\<rparr>)" "reads a b \<Longrightarrow> reads a (b\<lparr>lx_indent_stack := y\<rparr>)"
  "reads a b \<Longrightarrow> reads a (b\<lparr>lx_paren_level := z\<rparr>)"
  by (auto simp: reads_def)

lemma identifier_moves: "moves lx (snd (consume_identifier env lx))"
  by (simp add: consume_identifier_def Let_def consume_while_moves)

lemma digits_moves: "moves lx (digits_run lx)"
  by (simp add: digits_run_def consume_while_moves)

lemma exponent_moves: "moves lx (exponent_part lx)"
  by (auto simp: exponent_part_def Let_def
      intro: moves_from_advance [OF digits_moves] moves_from_advance [OF moves_from_advance [OF digits_moves]])

lemma imaginary_moves: "moves lx (imaginary_suffix lx)"
  by (simp add: imaginary_suffix_def)

lemma fstring_loop_moves:
  "fstring_loop env quote raw triple start lx st = Inr (c, lx') \<Longrightarrow> moves lx lx'"
proof (induction env quote raw triple start lx st rule: fstring_loop.induct)
  case (1 env quote raw triple start lx st)
  note loop = 1(2) [unfolded fstring_loop.simps [of env quote raw triple start lx st]]
  obtain ch r where ch: "peek_char lx = Some ch" and r: "fstring_step env quote raw triple start ch lx st = Inr r"
    and rest: "(case r of Done content lx \<Rightarrow> Inr (content, lx) | Continue lx st \<Rightarrow> fstring_loop env quote raw triple start lx st) = Inr (c, lx')"
    using loop by (auto simp: lex_error_def split: option.splits)
  have m: "moves (advance lx) (step_lexer r)" using fstring_step_moves [OF r] .
  show ?case
  proof (cases r)
    case (Done c' l)
    then show ?thesis using rest m by (auto intro: moves_from_advance)
  next
    case (Continue l s)
    then have "moves l lx'" using 1(1) [OF ch r Continue] rest by simp
    moreover have "moves lx l" using m Continue moves_from_advance by simp
    ultimately show ?thesis using moves_trans by blast
  qed
qed

lemma open_quote_moves: "moves (advance lx) (snd (open_quote quote lx))"
  by (simp add: open_quote_def Let_def moves_advance3)

lemma string_moves:
  "consume_string env quote raw lx = Inr (c, lx') \<Longrightarrow> moves (advance lx) lx'"
  "consume_fstring env quote raw lx = Inr (c, lx') \<Longrightarrow> moves (advance lx) lx'"
  by (auto simp: consume_string_def consume_fstring_def split_beta
      intro: open_quote_moves moves_trans dest!: string_loop_moves fstring_loop_moves)

lemma moves_funpow: "moves lx ((advance ^^ n) lx)"
  by (auto simp: moves_def)

lemma prefixed_moves:
  assumes "consume_prefixed_string env lx = Inr (r, lx')"
  shows "moves lx lx' \<and> (r = None \<longrightarrow> lx' = lx) \<and> (r \<noteq> None \<longrightarrow> moves (advance lx) lx')"
proof -
  let ?cs = "string_prefix lx"
  show ?thesis
  proof (cases r)
    case None
    then have "lx' = lx" using assms
      by (auto simp: consume_prefixed_string_def Let_def lex_error_def split: if_splits option.splits)
    then show ?thesis using None by simp
  next
    case (Some kc)
    then have "?cs \<noteq> [] \<and> (\<exists>quote raw. consume_string env quote raw ((advance ^^ length ?cs) lx) = Inr (snd kc, lx') \<or>
       consume_fstring env quote raw ((advance ^^ length ?cs) lx) = Inr (snd kc, lx'))"
      using assms by (auto simp: consume_prefixed_string_def Let_def lex_error_def split: if_splits option.splits) blast+
    then have "moves (advance ((advance ^^ length ?cs) lx)) lx'" using string_moves by blast
    moreover have "advance ((advance ^^ length ?cs) lx) = (advance ^^ length ?cs) (advance lx)"
      by (simp add: funpow_swap1)
    ultimately have "moves (advance lx) lx'" using moves_funpow moves_trans by metis
    then show ?thesis using Some moves_from_advance by auto
  qed
qed

lemma single_char_moves:
  "operator_token c lx = Some (kind, lexeme, lx') \<Longrightarrow> moves (advance lx) lx'"
  by (auto simp: operator_token_def single_def maybe_equal_def maybe_double_def Let_def
      intro: moves_to_advance split: if_splits)

lemma bracket_reads:
  "bracket_token c lx = Some (kind, lexeme, lx') \<Longrightarrow> reads (advance lx) lx'"
  by (auto simp: bracket_token_def open_bracket_def close_bracket_def split: if_splits
      intro: reads_update moves_reads)

lemma number_moves:
  assumes "peek_char lx = Some ch" "is_ascii_digit ch"
  shows "moves (advance lx) (snd (consume_number lx))"
proof -
  have tail: "moves a (imaginary_suffix (exponent_part a))" for a
    using imaginary_moves exponent_moves moves_trans by blast
  have dot: "moves a (digits_run (advance a))" for a
    using digits_moves moves_from_advance by blast
  have run: "moves a (imaginary_suffix (exponent_part (if b then digits_run (advance (digits_run a)) else digits_run a)))" for a b
    using tail dot digits_moves moves_trans by (cases b) (simp_all, blast+)
  have "digits_run lx = digits_run (advance lx)"
    using assms unfolding digits_run_def by (subst consume_while.simps) simp
  moreover have "moves a (imaginary_suffix (consume_while P (advance a)))" for P a
    using imaginary_moves consume_while_moves moves_from_advance moves_trans by blast
  ultimately show ?thesis
    using run [of "advance lx" True] run [of "advance lx" False] by (auto simp: consume_number_def Let_def)
qed

lemma identifier_progress:
  assumes "peek_char lx = Some ch" "ch = chr CHR ''_'' \<or> is_alphabetic env ch"
  shows "moves (advance lx) (snd (consume_identifier env lx))"
proof -
  have "ch = chr CHR ''_'' \<or> is_alphanumeric env ch" using assms(2) by (auto simp: is_alphanumeric_def)
  then show ?thesis
    using assms(1) by (simp add: consume_identifier_def Let_def consume_while.simps [of _ lx] consume_while_moves)
qed

lemma lex_token_reads:
  assumes "lex_token env ch lx = Inr (tokens, lx')" "peek_char lx = Some ch"
  shows "reads (advance lx) lx'"
proof -
  have word: "moves (advance lx) l" if "word_token env lx = Inr (ts, l)" "ch = chr CHR ''_'' \<or> is_alphabetic env ch" for ts l
    using that prefixed_moves identifier_progress [OF assms(2) that(2)]
    by (fastforce simp: word_token_def split: option.splits prod.splits)
  have "moves (advance lx) (snd (dot_token lx))"
    by (auto simp: dot_token_def consume_number_from_dot_def Let_def moves_advance3
        intro: moves_trans [OF digits_moves moves_trans [OF exponent_moves imaginary_moves]])
  then have dot: "moves (advance lx) l" if "dot_token lx = (ts, l)" for ts l using that by simp
  have nl: "reads (advance lx) l" if "newline_token lx = (ts, l)" for ts l
    using that by (auto simp: newline_token_def Let_def moves_reads reads_update split: if_splits)
  have num: "moves (advance lx) l" if "is_ascii_digit ch" "consume_number lx = (ts, l)" for ts l
    using number_moves [OF assms(2) that(1)] that(2) by simp
  have op: "reads (advance lx) l" if "operator_token c lx = Some (k, s, l)" for c k s l
    using single_char_moves [OF that] by (rule moves_reads)
  have ws: "moves (advance lx) (advance (advance lx))" by simp
  show ?thesis
    using assms(1) unfolding lex_token_def Let_def simple_token_def
    by (auto simp: lex_error_def ws moves_reads reads_update bind_eq_Some_conv
        split: if_splits option.splits prod.splits
        dest: nl op bracket_reads moves_reads [OF dot] moves_reads [OF num] moves_reads [OF word]
          moves_reads [OF string_moves(1)])
qed

text \<open>Between the blanks and comments the loop of \<open>tokenize\<close> reads one token per round.\<close>

definition is_blank :: "rchar \<Rightarrow> bool" where
  "is_blank ch \<longleftrightarrow> ch = chr CHR '' '' \<or> ch = 9 \<or> ch = 13 \<or> ch = 12"

lemma indent_loop_moves: "moves lx (snd (indent_loop level lx))"
  by (induction level lx rule: indent_loop.induct, subst indent_loop.simps)
     (auto intro: moves_from_advance split: option.splits)

lemma line_start_reads: "line_start lx = Inr (tokens, lx') \<Longrightarrow> reads lx lx'"
  using indent_loop_moves [of lx 0]
  by (auto simp: line_start_def consume_indentation_def emit_indent_tokens_def Let_def lex_error_def
      intro: reads_update moves_reads split: if_splits IndentResult.splits prod.splits)

definition round_of ::
  "lexenv \<Rightarrow> rchar \<Rightarrow> Lexer \<Rightarrow> (Token list \<times> Lexer) lres" where
  "round_of env ch lx =
     (if is_blank ch then Inr ([], advance lx)
      else if ch = chr CHR ''#'' then Inr ([], consume_comment lx)
      else lex_token env ch lx)"

lemma round_of_reads:
  assumes "round_of env ch lx = Inr (tokens, lx')" "peek_char lx = Some ch"
  shows "reads (advance lx) lx'"
proof -
  have "moves (advance lx) (consume_comment lx)" if "ch = chr CHR ''#''"
    using that assms(2) by (simp add: consume_comment_def consume_while.simps [of _ lx] consume_while_moves chr_def)
  then show ?thesis using assms lex_token_reads
    by (auto simp: round_of_def moves_reads split: if_splits)
qed

function tokenize_loop :: "lexenv \<Rightarrow> Token list \<Rightarrow> Lexer \<Rightarrow> (Token list \<times> Lexer) lres" where
  "tokenize_loop env tokens lx =
     (case peek_char lx of
        None \<Rightarrow> Inr (tokens, lx)
      | Some _ \<Rightarrow>
          bindr (line_start lx) (\<lambda>(new, lx).
          case peek_char lx of
            None \<Rightarrow> Inr (tokens @ new, lx)
          | Some ch \<Rightarrow>
              bindr (round_of env ch lx) (\<lambda>(new', lx). tokenize_loop env (tokens @ new @ new') lx)))"
  by pat_completeness auto
termination
proof (relation "measure (\<lambda>(env, tokens, lx). left_over lx)", goal_cases)
  case (2 env tokens lx c r new lx1 ch r' new' lx2)
  then have "left_over lx1 \<le> left_over lx" "left_over lx2 \<le> left_over (advance lx1)" "left_over (advance lx1) < left_over lx1"
    using reads_left line_start_reads round_of_reads left_advance by blast+
  then show ?case by simp
qed simp

declare tokenize_loop.simps [simp del]

definition tokenize :: "lexenv \<Rightarrow> rstring \<Rightarrow> Token list lres" where
  "tokenize env source =
     bindr (tokenize_loop env [] (lexer_new source)) (\<lambda>(tokens, lx).
     Inr (tokens @ replicate (length (lx_indent_stack lx) - 1) (token_at lx TkDedent []) @ [token_at lx TkEndMarker []]))"

end
