(* ===== verification/Lexer_Proofs.thy ===== *)
theory Lexer_Proofs
  imports Tokenizer
begin

text \<open>
  Invariants of the lexer: it stays within its source and its position agrees with the text before
  it, a token without escapes is spelled by the text it was read from, and indentation tokens
  follow the stack of indentations.
\<close>

section \<open>Positions\<close>

definition line_of :: "rstring \<Rightarrow> nat" where
  "line_of pre = 1 + count_list pre 10"

definition column_of :: "rstring \<Rightarrow> nat" where
  "column_of pre = 1 + length (takeWhile (\<lambda>c. c \<noteq> 10) (rev pre))"

definition located :: "rstring \<Rightarrow> Lexer \<Rightarrow> bool" where
  "located src lx \<longleftrightarrow> src = rev (lx_before lx) @ lx_after lx \<and>
     lx_line lx = line_of (rev (lx_before lx)) \<and> lx_column lx = column_of (rev (lx_before lx))"

lemma located_new: "located src (lexer_new src)"
  by (simp add: located_def lexer_new_def line_of_def column_of_def)

lemma located_advance: "located src lx \<Longrightarrow> located src (advance lx)"
  by (auto simp: located_def advance_def line_of_def column_of_def split: list.split)

lemma located_moves: "moves lx lx' \<Longrightarrow> located src lx \<Longrightarrow> located src lx'"
proof -
  assume "moves lx lx'" "located src lx"
  then obtain n where "lx' = (advance ^^ n) lx" by (auto simp: moves_def)
  moreover have "located src ((advance ^^ n) lx)"
    by (induction n) (auto simp: \<open>located src lx\<close> located_advance)
  ultimately show ?thesis by simp
qed

lemma located_reads: "reads lx lx' \<Longrightarrow> located src lx \<Longrightarrow> located src lx'"
  using located_moves by (force simp: reads_def located_def)

section \<open>Spelling\<close>

text \<open>The text between two states.\<close>

definition spells :: "Lexer \<Rightarrow> rstring \<Rightarrow> Lexer \<Rightarrow> bool" where
  "spells lx s lx' \<longleftrightarrow> lx_before lx' = rev s @ lx_before lx"

lemma spells_refl: "spells lx [] lx"
  by (simp add: spells_def)

lemma spells_trans: "spells a s b \<Longrightarrow> spells b t c \<Longrightarrow> spells a (s @ t) c"
  by (simp add: spells_def)

lemma spells_advance: "peek_char lx = Some c \<Longrightarrow> spells lx [c] (advance lx)"
  by (auto simp: spells_def peek_char_def advance_def split: list.splits)

lemma spells_peek_is: "peek_is lx {c} \<Longrightarrow> spells lx [chr c] (advance lx)"
  by (auto simp: peek_is_def split: option.splits intro: spells_advance)

lemma spells_marks [simp]:
  "spells a s (b\<lparr>lx_at_line_start := x\<rparr>) = spells a s b" "spells a s (b\<lparr>lx_indent_stack := y\<rparr>) = spells a s b"
  "spells a s (b\<lparr>lx_paren_level := z\<rparr>) = spells a s b"
  by (simp_all add: spells_def)

lemma advance_spells: "\<exists>s. spells lx s (advance lx)"
  by (cases "lx_after lx") (auto simp: spells_def advance_def)

lemma moves_spells: "moves lx lx' \<Longrightarrow> \<exists>s. spells lx s lx'"
proof -
  assume "moves lx lx'"
  then obtain n where "lx' = (advance ^^ n) lx" by (auto simp: moves_def)
  moreover have "\<exists>s. spells lx s ((advance ^^ n) lx)"
  proof (induction n)
    case 0
    show ?case using spells_refl by (intro exI [of _ "[]"]) simp
  next
    case (Suc n)
    then obtain s where "spells lx s ((advance ^^ n) lx)" by blast
    moreover obtain t where "spells ((advance ^^ n) lx) t (advance ((advance ^^ n) lx))" using advance_spells by blast
    ultimately show ?case using spells_trans by fastforce
  qed
  ultimately show ?thesis by simp
qed

lemma spells_slice: "spells lx s lx' \<Longrightarrow> slice_from lx lx' = s"
  by (simp add: spells_def slice_from_def)

lemma moves_slice: "moves lx lx' \<Longrightarrow> spells lx (slice_from lx lx') lx'"
  using moves_spells spells_slice by blast

lemma spells_offset: "spells lx s lx' \<Longrightarrow> lx_offset lx' = lx_offset lx + byte_len s"
  by (simp add: spells_def lx_offset_def byte_len_def rev_map [symmetric] sum_list_rev)

lemma reads_offset: "reads lx lx' \<Longrightarrow> lx_offset lx \<le> lx_offset lx'"
proof -
  assume "reads lx lx'"
  then obtain m where "moves lx m" "lx_before lx' = lx_before m" by (auto simp: reads_def)
  then show ?thesis using moves_spells spells_offset by (fastforce simp: lx_offset_def)
qed

section \<open>Tokens\<close>

text \<open>The tokens whose lexeme is not their text but the content it stands for.\<close>

fun is_quoted :: "TokenKind \<Rightarrow> bool" where
  "is_quoted TkString = True"
| "is_quoted TkBytes = True"
| "is_quoted TkFString = True"
| "is_quoted TkTemplateString = True"
| "is_quoted _ = False"

fun is_layout :: "TokenKind \<Rightarrow> bool" where
  "is_layout TkIndent = True"
| "is_layout TkDedent = True"
| "is_layout TkEndMarker = True"
| "is_layout _ = False"

text \<open>A token read between two states.\<close>

definition token_between :: "Lexer \<Rightarrow> Token \<Rightarrow> Lexer \<Rightarrow> bool" where
  "token_between lx t lx' \<longleftrightarrow> (\<exists>k s. t = token_at lx k s \<and> \<not> is_layout k \<and> (\<not> is_quoted k \<longrightarrow> spells lx s lx'))"

lemma token_betweenI: "\<not> is_layout k \<Longrightarrow> (\<not> is_quoted k \<Longrightarrow> spells lx s lx') \<Longrightarrow> token_between lx (token_at lx k s) lx'"
  by (auto simp: token_between_def)

definition plain_kind :: "TokenKind \<Rightarrow> bool" where
  "plain_kind k \<longleftrightarrow> \<not> is_layout k \<and> \<not> is_quoted k \<and> k \<noteq> TkNewline"

lemma str_chars: "str [] = []" "str (c # cs) = chr c # str cs"
  by (simp_all add: str_def chr_def)

lemma kind_token_at [simp]: "tk_kind (token_at lx k s) = k"
  by (simp add: token_at_def)

lemma operator_spells:
  assumes "operator_token c lx = Some (k, s, lx')" "peek_char lx = Some (chr c)"
  shows "spells lx (str s) lx' \<and> plain_kind k"
proof -
  have a: "spells lx [chr c] (advance lx)" using spells_advance assms(2) by simp
  have b: "peek_is (advance lx) {d} \<Longrightarrow> spells lx [chr c, chr d] (advance (advance lx))" for d
    using spells_trans [OF a spells_peek_is] by simp
  have d: "peek_is (advance lx) {d} \<Longrightarrow> peek_is (advance (advance lx)) {e} \<Longrightarrow>
      spells lx [chr c, chr d, chr e] (advance (advance (advance lx)))" for d e
    using spells_trans [OF b spells_peek_is] by simp
  show ?thesis using assms(1) a b d
    by (auto simp: operator_token_def single_def maybe_equal_def maybe_double_def Let_def str_chars plain_kind_def
        split: if_splits)
qed

lemma bracket_spells:
  assumes "bracket_token c lx = Some (k, s, lx')" "peek_char lx = Some (chr c)"
  shows "spells lx (str s) lx' \<and> plain_kind k"
  using assms(1) spells_advance [OF assms(2)]
  by (auto simp: bracket_token_def open_bracket_def close_bracket_def str_chars plain_kind_def split: if_splits)

lemma number_spells: "peek_char lx = Some ch \<Longrightarrow> is_ascii_digit ch \<Longrightarrow> consume_number lx = (s, lx') \<Longrightarrow> spells lx s lx'"
  using number_moves [of lx ch] moves_slice moves_from_advance
  by (fastforce simp: consume_number_def Let_def split: if_splits)

lemma name_kind_plain: "plain_kind (name_kind s)"
  by (auto simp: name_kind_def plain_kind_def split: option.split)

lemma word_between:
  assumes "word_token env lx = Inr (ts, lx')" "ch = chr CHR ''_'' \<or> is_alphabetic env ch" "peek_char lx = Some ch"
  shows "\<exists>t. ts = [t] \<and> token_between lx t lx' \<and> tk_kind t \<noteq> TkNewline"
proof -
  obtain r l where r: "consume_prefixed_string env lx = Inr (r, l)" using assms(1) by (auto simp: word_token_def)
  show ?thesis
  proof (cases r)
    case None
    then have l: "l = lx" using prefixed_moves [OF r] by simp
    define s where "s = fst (consume_identifier env lx)"
    have ts: "ts = [token_at lx (name_kind s) s]" "lx' = snd (consume_identifier env lx)"
      using assms(1) r None l by (auto simp: word_token_def s_def split: prod.splits)
    have "spells lx s lx'"
      using moves_slice [OF identifier_moves [of lx env]] ts(2) by (auto simp: s_def consume_identifier_def Let_def)
    then show ?thesis
      using ts name_kind_plain [of s] by (auto intro!: token_betweenI simp: plain_kind_def)
  next
    case (Some kc)
    then have "is_quoted (fst kc)" using r
      by (auto simp: consume_prefixed_string_def Let_def lex_error_def split: if_splits option.splits)
    then have "\<not> is_layout (fst kc) \<and> fst kc \<noteq> TkNewline" by (cases "fst kc") auto
    then show ?thesis using assms(1) r Some \<open>is_quoted (fst kc)\<close>
      by (auto simp: word_token_def intro!: token_betweenI split: prod.splits)
  qed
qed

lemma dot_between:
  assumes "dot_token lx = (ts, lx')" "peek_char lx = Some (chr CHR ''.'')"
  shows "\<exists>t. ts = [t] \<and> token_between lx t lx' \<and> tk_kind t \<noteq> TkNewline"
proof -
  let ?dot = "chr CHR ''.''"
  have a: "spells lx [?dot] (advance lx)" using spells_advance assms(2) by simp
  have three: "spells lx [?dot, ?dot, ?dot] (advance3 lx)"
    if "peek_char_at 1 lx = Some ?dot" "peek_char_at 2 lx = Some ?dot"
  proof -
    have "\<exists>rest. lx_after lx = ?dot # ?dot # ?dot # rest"
      using that assms(2)
      by (cases "lx_after lx"; cases "tl (lx_after lx)"; cases "tl (tl (lx_after lx))")
         (auto simp: peek_char_at_def peek_char_def split: if_splits)
    then show ?thesis by (auto simp: spells_def advance3_def advance_def)
  qed
  have num: "spells lx (fst (consume_number_from_dot lx)) (snd (consume_number_from_dot lx))"
  proof -
    have "moves lx (imaginary_suffix (exponent_part (digits_run (advance lx))))"
      by (meson digits_moves exponent_moves imaginary_moves moves_advance moves_trans)
    then show ?thesis using moves_slice by (simp add: consume_number_from_dot_def Let_def)
  qed
  show ?thesis
    using assms(1) a three num
    by (auto simp: dot_token_def str_chars intro!: token_betweenI
        split: if_splits prod.splits option.splits)
qed

text \<open>A round reads at most one token, from where it starts.\<close>

definition yields :: "(Token list \<Rightarrow> Lexer \<Rightarrow> bool) \<Rightarrow> (Token list \<times> Lexer) lres \<Rightarrow> bool" where
  "yields Q r \<longleftrightarrow> (\<forall>ts lx'. r = Inr (ts, lx') \<longrightarrow> Q ts lx')"

lemma yields_simps [simp]: "yields Q (Inl e)" "yields Q (lex_error msg l)" "yields Q (Inr p) \<longleftrightarrow> Q (fst p) (snd p)"
  by (cases p; simp add: yields_def lex_error_def)+

lemma yields_bind: "(\<And>x. m = Inr x \<Longrightarrow> yields Q (f x)) \<Longrightarrow> yields Q (bindr m f)"
  by (cases m) simp_all

lemma yields_if: "(b \<Longrightarrow> yields Q x) \<Longrightarrow> (\<not> b \<Longrightarrow> yields Q y) \<Longrightarrow> yields Q (if b then x else y)"
  by simp

lemma yields_option:
  "(\<And>r. m = Some r \<Longrightarrow> yields Q (f r)) \<Longrightarrow> (m = None \<Longrightarrow> yields Q x) \<Longrightarrow> yields Q (case m of None \<Rightarrow> x | Some r \<Rightarrow> f r)"
  by (simp split: option.split)

lemma yields_pair: "(\<And>a b. p = (a, b) \<Longrightarrow> yields Q (f a b)) \<Longrightarrow> yields Q (case p of (a, b) \<Rightarrow> f a b)"
  by (simp split: prod.split)

lemmas yields_rules = yields_if yields_option yields_bind yields_pair

definition at_most_one :: "Lexer \<Rightarrow> Token list \<Rightarrow> Lexer \<Rightarrow> bool" where
  "at_most_one lx ts lx' \<longleftrightarrow> ts = [] \<or> (\<exists>t. ts = [t] \<and> token_between lx t lx')"

lemma at_most_one_simps [simp]: "at_most_one lx [] l" "at_most_one lx [t] l \<longleftrightarrow> token_between lx t l"
  by (simp_all add: at_most_one_def)

lemma quoted_between: "is_quoted k \<Longrightarrow> token_between lx (token_at lx k s) l"
  by (cases k) (auto intro!: token_betweenI)

lemma lex_token_between:
  assumes ch: "peek_char lx = Some ch"
  shows "yields (at_most_one lx) (lex_token env ch lx)"
proof -
  have simple: "yields (at_most_one lx) (simple_token lx r)"
    if "Option.bind (if ch < 128 then Some (char_of ch) else None) (\<lambda>c. g c lx) = Some r"
      "g = operator_token \<or> g = bracket_token" for r g
  proof -
    have "chr (char_of ch) = ch" using that by (auto simp: chr_def split: if_splits)
    then have "spells lx (str (fst (snd r))) (snd (snd r)) \<and> plain_kind (fst r)"
      using that operator_spells [of "char_of ch" lx "fst r" "fst (snd r)" "snd (snd r)"]
        bracket_spells [of "char_of ch" lx "fst r" "fst (snd r)" "snd (snd r)"] ch by (auto split: if_splits)
    then show ?thesis
      by (auto simp: simple_token_def plain_kind_def intro!: token_betweenI split: prod.splits)
  qed
  have nl: "ch = 10 \<Longrightarrow> at_most_one lx (fst (newline_token lx)) (snd (newline_token lx))"
    using spells_advance [OF ch] by (auto simp: newline_token_def Let_def intro!: token_betweenI)
  have ne: "token_between lx (token_at lx TkNotEqual (str ''!='')) (advance (advance lx))"
    if "ch = chr CHR ''!''" "peek_is (advance lx) {CHR ''=''}"
    using spells_trans [OF spells_advance spells_peek_is, of lx ch "CHR ''=''"] ch that
    by (auto simp: str_chars intro!: token_betweenI)
  have dot: "ch = chr CHR ''.'' \<Longrightarrow> at_most_one lx (fst (dot_token lx)) (snd (dot_token lx))"
    using dot_between [of lx "fst (dot_token lx)" "snd (dot_token lx)"] ch by auto
  have word: "ch = chr CHR ''_'' \<or> is_alphabetic env ch \<Longrightarrow> yields (at_most_one lx) (word_token env lx)"
    using word_between [of env lx _ _ ch] ch unfolding yields_def at_most_one_def by blast
  have num: "token_between lx (token_at lx TkNumber s) l" if "consume_number lx = (s, l)" "is_ascii_digit ch" for s l
    using number_spells [OF ch that(2,1)] by (auto intro!: token_betweenI)
  show ?thesis
    unfolding lex_token_def Let_def
    by (intro yields_rules) (simp_all add: quoted_between nl ne dot word num simple)
qed

section \<open>Nesting\<close>

text \<open>How a token changes the nesting level of brackets.\<close>

fun nest :: "nat \<Rightarrow> TokenKind \<Rightarrow> nat" where
  "nest d TkLParen = d + 1"
| "nest d TkLBracket = d + 1"
| "nest d TkLBrace = d + 1"
| "nest d TkRParen = d - 1"
| "nest d TkRBracket = d - 1"
| "nest d TkRBrace = d - 1"
| "nest d _ = d"

definition nesting :: "Token list \<Rightarrow> nat" where
  "nesting ts = foldl nest 0 (map tk_kind ts)"

text \<open>One round keeps the stack, follows the brackets and ends a line only outside them.\<close>

definition tracks :: "Lexer \<Rightarrow> Token list \<Rightarrow> Lexer \<Rightarrow> bool" where
  "tracks lx ts lx' \<longleftrightarrow> lx_indent_stack lx' = lx_indent_stack lx \<and>
     lx_paren_level lx' = foldl nest (lx_paren_level lx) (map tk_kind ts) \<and>
     (TkNewline \<in> tk_kind ` set ts \<longrightarrow> lx_paren_level lx = 0)"

lemma moves_marks:
  assumes "moves lx lx'"
  shows "lx_indent_stack lx' = lx_indent_stack lx" "lx_paren_level lx' = lx_paren_level lx"
    "lx_at_line_start lx' = lx_at_line_start lx"
proof -
  obtain n where n: "lx' = (advance ^^ n) lx" using assms by (auto simp: moves_def)
  have "lx_indent_stack ((advance ^^ n) lx) = lx_indent_stack lx \<and> lx_paren_level ((advance ^^ n) lx) = lx_paren_level lx \<and>
     lx_at_line_start ((advance ^^ n) lx) = lx_at_line_start lx"
    by (induction n) (auto simp: advance_def split: list.split)
  then show "lx_indent_stack lx' = lx_indent_stack lx" "lx_paren_level lx' = lx_paren_level lx"
    "lx_at_line_start lx' = lx_at_line_start lx" by (simp_all add: n)
qed

text \<open>The kinds that change nothing but the position.\<close>

definition neutral :: "TokenKind \<Rightarrow> bool" where
  "neutral k \<longleftrightarrow> k \<noteq> TkNewline \<and> (\<forall>d. nest d k = d)"

lemma tracks_neutral: "neutral k \<Longrightarrow> moves lx l \<Longrightarrow> tracks lx [token_at lx k s] l"
  by (auto simp: tracks_def neutral_def moves_marks)

lemma quoted_neutral: "is_quoted k \<Longrightarrow> neutral k"
  by (cases k) (simp_all add: neutral_def)

lemma operator_neutral: "operator_token c lx = Some r \<Longrightarrow> neutral (fst r)"
  by (auto simp: operator_token_def single_def maybe_equal_def maybe_double_def Let_def neutral_def split: if_splits)

lemma name_kind_neutral: "neutral (name_kind s)"
  by (auto simp: name_kind_def neutral_def split: option.split)

lemma word_tracks: "yields (tracks lx) (word_token env lx)"
proof -
  have quoted: "is_quoted k" if "consume_prefixed_string env lx = Inr (Some (k, s), l)" for k s l
    using that by (auto simp: consume_prefixed_string_def Let_def lex_error_def split: if_splits option.splits)
  have name: "tracks lx [token_at lx (name_kind s) s] l" if "consume_identifier env lx = (s, l)" for s l
    using identifier_moves [of lx env] that by (auto intro!: tracks_neutral name_kind_neutral)
  have content: "tracks lx [token_at lx k s] l" if "consume_prefixed_string env lx = Inr (Some (k, s), l)" for k s l
    using quoted [OF that] prefixed_moves [OF that] by (intro tracks_neutral quoted_neutral) auto
  have unchanged: "l = lx" if "consume_prefixed_string env lx = Inr (None, l)" for l
    using prefixed_moves [OF that] by simp
  show ?thesis
    unfolding word_token_def Let_def
    by (intro yields_rules) (use unchanged in \<open>simp_all add: content name\<close>)
qed

lemma dot_tracks: "tracks lx (fst (dot_token lx)) (snd (dot_token lx))"
proof -
  have "moves lx (imaginary_suffix (exponent_part (digits_run (advance lx))))" "moves lx (advance3 lx)"
    by (meson digits_moves exponent_moves imaginary_moves moves_advance moves_trans moves_advance3)+
  then show ?thesis
    by (auto simp: dot_token_def consume_number_from_dot_def Let_def neutral_def intro!: tracks_neutral)
qed

lemma bracket_tracks:
  "bracket_token c lx = Some r \<Longrightarrow> yields (tracks lx) (simple_token lx r)"
  by (auto simp: bracket_token_def simple_token_def open_bracket_def close_bracket_def tracks_def moves_marks split: if_splits)

lemma lex_token_tracks:
  assumes ch: "peek_char lx = Some ch"
  shows "yields (tracks lx) (lex_token env ch lx)"
proof -
  have op: "yields (tracks lx) (simple_token lx r)"
    if "Option.bind b (\<lambda>c. operator_token c lx) = Some r" for b r
    using that operator_neutral single_char_moves moves_from_advance
    by (cases r) (fastforce simp: simple_token_def bind_eq_Some_conv intro!: tracks_neutral)
  have nl: "tracks lx (fst (newline_token lx)) (snd (newline_token lx))"
    by (auto simp: newline_token_def Let_def tracks_def moves_marks [OF moves_advance])
  have num: "tracks lx [token_at lx TkNumber s] l" if "consume_number lx = (s, l)" "is_ascii_digit ch" for s l
    using number_moves [OF ch that(2)] that(1) moves_from_advance by (auto simp: neutral_def intro!: tracks_neutral)
  have two: "moves lx (advance (advance lx))" by (auto intro: moves_to_advance)
  show ?thesis
    unfolding lex_token_def Let_def
    by (intro yields_rules)
       (auto simp: nl op num word_tracks dot_tracks bind_eq_Some_conv two moves_marks tracks_def [of _ "[]"] neutral_def
          intro!: tracks_neutral dest: bracket_tracks string_moves moves_from_advance)
qed

section \<open>The rounds of the loop\<close>

lemma comment_moves: "moves lx (consume_comment lx)"
  by (simp add: consume_comment_def consume_while_moves)

lemma round_of_between: "peek_char lx = Some ch \<Longrightarrow> yields (at_most_one lx) (round_of env ch lx)"
  by (simp add: round_of_def lex_token_between)

lemma round_of_tracks: "peek_char lx = Some ch \<Longrightarrow> yields (tracks lx) (round_of env ch lx)"
  by (simp add: round_of_def lex_token_tracks tracks_def moves_marks [OF comment_moves] moves_marks [OF moves_advance])

text \<open>An invariant of the lexer and the tokens read so far, kept by both parts of a round.\<close>

lemma tokenize_loop_invariant:
  assumes "tokenize_loop env tokens lx = Inr (tokens', lx')" "I tokens lx"
    and start: "\<And>ts l new l'. I ts l \<Longrightarrow> line_start l = Inr (new, l') \<Longrightarrow> I (ts @ new) l'"
    and rounds: "\<And>ts l ch new l'. I ts l \<Longrightarrow> peek_char l = Some ch \<Longrightarrow> round_of env ch l = Inr (new, l') \<Longrightarrow> I (ts @ new) l'"
  shows "I tokens' lx' \<and> peek_char lx' = None"
  using assms(1,2) rounds
proof (induction env tokens lx rule: tokenize_loop.induct)
  case (1 env tokens lx)
  show ?case
  proof (cases "peek_char lx")
    case None
    then show ?thesis using 1(2,3) by (simp add: tokenize_loop.simps)
  next
    case (Some c)
    then obtain new l where l: "line_start lx = Inr (new, l)"
      and rest: "(case peek_char l of None \<Rightarrow> Inr (tokens @ new, l)
        | Some ch \<Rightarrow> bindr (round_of env ch l) (\<lambda>(new', l). tokenize_loop env (tokens @ new @ new') l)) = Inr (tokens', lx')"
      using 1(2) by (subst (asm) tokenize_loop.simps) auto
    have I: "I (tokens @ new) l" using start [OF 1(3) l] .
    show ?thesis
    proof (cases "peek_char l")
      case None
      then show ?thesis using rest I by simp
    next
      case ch: (Some ch)
      then obtain new' l' where r: "round_of env ch l = Inr (new', l')" "tokenize_loop env (tokens @ new @ new') l' = Inr (tokens', lx')"
        using rest by auto
      have "I (tokens @ new @ new') l'" using 1(4) [OF I ch r(1)] by simp
      then show ?thesis using 1(1) [OF Some l refl ch r(1) refl r(2) _ 1(4)] by simp
    qed
  qed
qed

section \<open>Indentation\<close>

text \<open>The depth after a list of tokens; \<open>None\<close> when it closes a block that was not opened.\<close>

fun block_depth :: "nat \<Rightarrow> TokenKind list \<Rightarrow> nat option" where
  "block_depth d [] = Some d"
| "block_depth d (k # ks) =
     (if k = TkIndent then block_depth (d + 1) ks
      else if k = TkDedent then (if d = 0 then None else block_depth (d - 1) ks)
      else block_depth d ks)"

lemma block_depth_append: "block_depth d (a @ b) = Option.bind (block_depth d a) (\<lambda>d. block_depth d b)"
  by (induction a arbitrary: d) simp_all

lemma block_depth_other: "TkIndent \<notin> set ks \<Longrightarrow> TkDedent \<notin> set ks \<Longrightarrow> block_depth d ks = Some d"
  by (induction ks) auto

lemma block_depth_dedents: "n \<le> d \<Longrightarrow> block_depth d (replicate n TkDedent) = Some (d - n)"
  by (induction n arbitrary: d) auto

definition well_nested :: "nat list \<Rightarrow> bool" where
  "well_nested stack \<longleftrightarrow> stack \<noteq> [] \<and> last stack = 0 \<and> sorted_wrt (\<lambda>a b. a > b) stack"

lemma well_nested_push: "well_nested (current # stack) \<Longrightarrow> current < level \<Longrightarrow> well_nested (level # current # stack)"
  by (fastforce simp: well_nested_def)

text \<open>Closing blocks goes down to the level, and fails only when the level is not on the stack.\<close>

lemma dedent_loop_result:
  "dedent_loop level lx stack tokens =
     (if level \<in> set stack then
        (let rest = dropWhile (\<lambda>l. l \<noteq> level) stack
         in Inr (tokens @ replicate (length stack - length rest) (token_at lx TkDedent []), rest))
      else lex_error ''indentation does not match any outer level'' lx)"
proof (induction stack arbitrary: tokens)
  case (Cons a stack)
  have "length (dropWhile (\<lambda>l. l \<noteq> level) stack) \<le> length stack" by (rule length_dropWhile_le)
  then show ?case using Cons by (simp add: Let_def Suc_diff_le)
qed simp

lemma well_nested_dropWhile:
  assumes "well_nested stack" "level \<in> set stack"
  shows "well_nested (dropWhile (\<lambda>l. l \<noteq> level) stack)"
proof -
  let ?r = "dropWhile (\<lambda>l. l \<noteq> level) stack"
  have r: "?r \<noteq> []" using assms(2) by (simp add: dropWhile_eq_Nil_conv)
  moreover have split: "stack = takeWhile (\<lambda>l. l \<noteq> level) stack @ ?r" by simp
  moreover have "last ?r = last stack" using r split by (metis last_appendR)
  moreover have "sorted_wrt (\<lambda>a b. a > b) ?r"
    using assms(1) split sorted_wrt_append unfolding well_nested_def by metis
  ultimately show ?thesis using assms(1) by (simp add: well_nested_def)
qed

definition indent_invariant :: "Token list \<Rightarrow> Lexer \<Rightarrow> bool" where
  "indent_invariant ts lx \<longleftrightarrow> well_nested (lx_indent_stack lx) \<and>
     block_depth 0 (map tk_kind ts) = Some (length (lx_indent_stack lx) - 1) \<and>
     TkEndMarker \<notin> tk_kind ` set ts"

lemma emit_indent_invariant:
  assumes "indent_invariant ts lx" "emit_indent_tokens level lx = Inr (new, lx')"
  shows "indent_invariant (ts @ new) lx'"
proof -
  obtain top stack where st: "lx_indent_stack lx = top # stack"
    using assms(1) by (auto simp: indent_invariant_def well_nested_def neq_Nil_conv)
  consider "level = top" | "top < level" | "level < top" by linarith
  then show ?thesis
  proof cases
    case 1
    then show ?thesis using assms st by (simp add: emit_indent_tokens_def)
  next
    case 2
    then show ?thesis using assms st
      by (auto simp: emit_indent_tokens_def indent_invariant_def block_depth_append intro: well_nested_push)
  next
    case 3
    define r where "r = dropWhile (\<lambda>l. l \<noteq> level) (top # stack)"
    have level: "level \<in> set (top # stack)"
      using assms(2) st 3 by (auto simp: emit_indent_tokens_def dedent_loop_result lex_error_def Let_def split: if_splits)
    have new: "new = replicate (length (top # stack) - length r) (token_at lx TkDedent [])" "lx' = lx\<lparr>lx_indent_stack := r\<rparr>"
      using assms(2) st 3 level by (simp_all add: r_def emit_indent_tokens_def dedent_loop_result Let_def del: dropWhile.simps)
    have r: "well_nested r"
      unfolding r_def by (rule well_nested_dropWhile [OF _ level]) (use assms(1) st in \<open>simp add: indent_invariant_def\<close>)
    have "length r \<le> length (top # stack)" unfolding r_def by (rule length_dropWhile_le)
    moreover have "r \<noteq> []" using r by (simp add: well_nested_def)
    ultimately have "block_depth (length stack) (replicate (Suc (length stack) - length r) TkDedent) = Some (length r - 1)"
      using block_depth_dedents [of "Suc (length stack) - length r" "length stack"] by (cases r) simp_all
    then show ?thesis using assms(1) st r new
      by (auto simp: indent_invariant_def block_depth_append)
  qed
qed

lemma indent_invariant_marks [simp]:
  "indent_invariant ts (lx\<lparr>lx_at_line_start := x\<rparr>) = indent_invariant ts lx"
  by (simp add: indent_invariant_def)

lemma line_start_invariant:
  assumes "indent_invariant ts lx" "line_start lx = Inr (new, lx')"
  shows "indent_invariant (ts @ new) lx'"
proof -
  obtain r l where r: "consume_indentation lx = (r, l)" by (cases "consume_indentation lx")
  have "moves lx l" using r indent_loop_moves [of lx 0] by (auto simp: consume_indentation_def Let_def split: prod.splits)
  then have "indent_invariant ts l" using assms(1) moves_marks by (simp add: indent_invariant_def)
  then show ?thesis using assms r emit_indent_invariant
    by (auto simp: line_start_def split: if_splits IndentResult.splits)
qed

lemma round_of_kinds:
  assumes "round_of env ch lx = Inr (new, lx')" "peek_char lx = Some ch"
  shows "\<forall>k \<in> tk_kind ` set new. \<not> is_layout k"
  using round_of_between [OF assms(2), of env] assms(1) by (auto simp: yields_def at_most_one_def token_between_def)

lemma round_of_invariant:
  assumes "indent_invariant ts lx" "round_of env ch lx = Inr (new, lx')" "peek_char lx = Some ch"
  shows "indent_invariant (ts @ new) lx'"
proof -
  have "lx_indent_stack lx' = lx_indent_stack lx"
    using round_of_tracks [OF assms(3), of env] assms(2) by (simp add: yields_def tracks_def)
  moreover have k: "TkIndent \<notin> set (map tk_kind new)" "TkDedent \<notin> set (map tk_kind new)" "TkEndMarker \<notin> tk_kind ` set new"
    using round_of_kinds [OF assms(2,3)] by force+
  moreover have "block_depth d (map tk_kind new) = Some d" for d using block_depth_other k by blast
  ultimately show ?thesis using assms(1) by (auto simp: indent_invariant_def block_depth_append image_Un)
qed

lemma tokenize_result:
  assumes "tokenize env src = Inr toks"
  obtains ts lx where "tokenize_loop env [] (lexer_new src) = Inr (ts, lx)" "peek_char lx = None"
    "toks = ts @ replicate (length (lx_indent_stack lx) - 1) (token_at lx TkDedent []) @ [token_at lx TkEndMarker []]"
    "indent_invariant ts lx"
proof -
  obtain ts lx where loop: "tokenize_loop env [] (lexer_new src) = Inr (ts, lx)"
    and toks: "toks = ts @ replicate (length (lx_indent_stack lx) - 1) (token_at lx TkDedent []) @ [token_at lx TkEndMarker []]"
    using assms by (auto simp: tokenize_def)
  have "indent_invariant [] (lexer_new src)" by (simp add: indent_invariant_def lexer_new_def well_nested_def)
  then have "indent_invariant ts lx \<and> peek_char lx = None"
    using tokenize_loop_invariant [OF loop, of indent_invariant] line_start_invariant round_of_invariant by blast
  then show ?thesis using that [OF loop] toks by blast
qed

section \<open>Order\<close>

text \<open>The end of a token in bytes; a string has at least its opening quote.\<close>

definition token_end :: "Token \<Rightarrow> nat" where
  "token_end t = tk_offset t + (if is_quoted (tk_kind t) then 1 else byte_len (tk_lexeme t))"

text \<open>A token stands at a point of the source, and unless it is quoted its lexeme is the text there.\<close>

definition token_of :: "rstring \<Rightarrow> Token \<Rightarrow> bool" where
  "token_of src t \<longleftrightarrow>
     (\<exists>n \<le> length src. tk_offset t = byte_len (take n src) \<and> tk_line t = line_of (take n src) \<and>
        tk_column t = column_of (take n src) \<and>
        (\<not> is_quoted (tk_kind t) \<longrightarrow> take (length (tk_lexeme t)) (drop n src) = tk_lexeme t))"

lemma token_ofI:
  assumes "located src lx" "\<not> is_quoted k \<Longrightarrow> \<exists>rest. lx_after lx = s @ rest"
  shows "token_of src (token_at lx k s)"
  using assms unfolding token_of_def located_def
  by (intro exI [of _ "length (lx_before lx)"])
     (auto simp: token_at_def lx_offset_def byte_len_def rev_map [symmetric] sum_list_rev)

lemma spells_after:
  assumes "located src lx" "located src lx'" "spells lx s lx'"
  shows "\<exists>rest. lx_after lx = s @ rest"
  using assms by (auto simp: located_def spells_def)

text \<open>What holds of the tokens read up to a state.\<close>

definition in_order :: "rstring \<Rightarrow> Token list \<Rightarrow> Lexer \<Rightarrow> bool" where
  "in_order src ts lx \<longleftrightarrow> located src lx \<and> (\<forall>t \<in> set ts. token_of src t \<and> token_end t \<le> lx_offset lx) \<and>
     sorted_wrt (\<lambda>a b. token_end a \<le> tk_offset b) ts"

lemma in_order_empties:
  assumes "in_order src ts lx" "\<forall>t \<in> set new. \<exists>k. t = token_at lx k [] \<and> \<not> is_quoted k"
  shows "in_order src (ts @ new) lx"
proof -
  have new: "token_of src t" "token_end t = lx_offset lx" "tk_offset t = lx_offset lx" if "t \<in> set new" for t
    using assms that by (auto simp: in_order_def token_end_def token_at_def byte_len_def intro!: token_ofI [unfolded token_at_def])
  have "sorted_wrt (\<lambda>a b. token_end a \<le> tk_offset b) new"
    using new(2,3) by (auto simp: sorted_wrt_iff_nth_less)
  then show ?thesis using assms(1) new by (auto simp: in_order_def sorted_wrt_append)
qed

lemma in_order_reads:
  assumes "in_order src ts lx" "reads lx lx'"
  shows "in_order src ts lx'"
  using assms located_reads [OF assms(2)] reads_offset [OF assms(2)] by (auto simp: in_order_def)

lemma in_order_marks [simp]:
  "in_order src ts (lx\<lparr>lx_at_line_start := x\<rparr>) = in_order src ts lx"
  "in_order src ts (lx\<lparr>lx_indent_stack := y\<rparr>) = in_order src ts lx"
  by (simp_all add: in_order_def located_def lx_offset_def)

lemma emit_indent_tokens_empty:
  assumes "emit_indent_tokens level lx = Inr (new, lx')"
  shows "(\<forall>t \<in> set new. \<exists>k. t = token_at lx k [] \<and> \<not> is_quoted k) \<and> (\<exists>y. lx' = lx\<lparr>lx_indent_stack := y\<rparr>)"
  using assms
  by (auto simp: emit_indent_tokens_def dedent_loop_result lex_error_def Let_def split: if_splits
      intro: exI [of _ TkIndent] exI [of _ TkDedent] exI [of _ "lx_indent_stack lx"])

lemma line_start_in_order:
  assumes "in_order src ts lx" "line_start lx = Inr (new, lx')"
  shows "in_order src (ts @ new) lx'"
proof -
  obtain r l where r: "consume_indentation lx = (r, l)" by (cases "consume_indentation lx")
  have "moves lx l" using r indent_loop_moves [of lx 0] by (auto simp: consume_indentation_def Let_def split: prod.splits)
  then have l: "in_order src ts l" using in_order_reads [OF assms(1)] moves_reads by blast
  have "in_order src (ts @ new) l'" if "emit_indent_tokens level l = Inr (new, l')" for level l'
    using emit_indent_tokens_empty [OF that] in_order_empties [OF l] by auto
  then show ?thesis using assms r l
    by (auto simp: line_start_def split: if_splits IndentResult.splits)
qed

lemma round_of_in_order:
  assumes "in_order src ts lx" "round_of env ch lx = Inr (new, lx')" "peek_char lx = Some ch"
  shows "in_order src (ts @ new) lx'"
proof -
  have r: "reads (advance lx) lx'" using round_of_reads [OF assms(2,3)] .
  have lx': "in_order src ts lx'" using in_order_reads in_order_reads [OF assms(1) moves_reads] r moves_advance by blast
  have adv: "lx_offset lx < lx_offset lx'"
    using reads_offset [OF r] spells_offset [OF spells_advance [OF assms(3)]] by (simp add: byte_len_def len_utf8_def split: if_splits)
  consider "new = []" | t where "new = [t]" "token_between lx t lx'"
    using round_of_between [OF assms(3), of env] assms(2) by (auto simp: yields_def at_most_one_def)
  then show ?thesis
  proof cases
    case (2 t)
    then obtain k s where t: "t = token_at lx k s" and s: "\<not> is_quoted k \<longrightarrow> spells lx s lx'"
      by (auto simp: token_between_def)
    have "token_of src t"
      unfolding t using assms(1) lx' s spells_after by (intro token_ofI) (auto simp: in_order_def)
    moreover have "token_end t \<le> lx_offset lx'"
      using adv s spells_offset by (fastforce simp: t token_end_def token_at_def)
    moreover have "tk_offset t = lx_offset lx" by (simp add: t token_at_def)
    ultimately show ?thesis using 2(1) lx' assms(1) by (auto simp: in_order_def sorted_wrt_append)
  qed (use lx' in simp)
qed

section \<open>Errors\<close>

text \<open>A result that, when it is an error, reports the position of a given state.\<close>

definition fails_at :: "Lexer \<Rightarrow> 'a lres \<Rightarrow> bool" where
  "fails_at start r \<longleftrightarrow> (\<forall>e. r = Inl e \<longrightarrow> (\<exists>msg. e = LexError msg (lx_offset start) (lx_line start) (lx_column start)))"

lemma fails_at_simps [simp]: "fails_at start (Inr x)" "fails_at start (lex_error msg start)" "fails_at start (unterminated_escape start)"
  "fails_at start (Inl (LexError m (lx_offset start) (lx_line start) (lx_column start)))" "fails_at start (continue_with p)"
  by (simp_all add: fails_at_def lex_error_def unterminated_escape_def continue_with_def)

lemma fails_at_bind: "fails_at start m \<Longrightarrow> (\<And>x. m = Inr x \<Longrightarrow> fails_at start (f x)) \<Longrightarrow> fails_at start (bindr m f)"
  by (cases m) (simp_all add: fails_at_def)

lemma fails_at_if: "(b \<Longrightarrow> fails_at start x) \<Longrightarrow> (\<not> b \<Longrightarrow> fails_at start y) \<Longrightarrow> fails_at start (if b then x else y)"
  by simp

lemma fails_at_option:
  "(m = None \<Longrightarrow> fails_at start x) \<Longrightarrow> (\<And>r. m = Some r \<Longrightarrow> fails_at start (f r)) \<Longrightarrow> fails_at start (case m of None \<Rightarrow> x | Some r \<Rightarrow> f r)"
  by (simp split: option.split)

lemma fails_at_pair: "(\<And>a b. p = (a, b) \<Longrightarrow> fails_at start (f a b)) \<Longrightarrow> fails_at start (case p of (a, b) \<Rightarrow> f a b)"
  by (simp split: prod.split)

lemma fails_at_lookup:
  "(\<And>c. m = LookupChar c \<Longrightarrow> fails_at start (f c)) \<Longrightarrow> fails_at start x \<Longrightarrow>
   fails_at start (case m of LookupChar c \<Rightarrow> f c | LookupNamedSequence \<Rightarrow> x | LookupUnknown \<Rightarrow> x)"
  by (simp split: UnicodeNameLookup.split)

lemmas fails_at_rules = fails_at_if fails_at_option fails_at_bind fails_at_pair fails_at_lookup

lemma hex_digit_fails: "fails_at start (hex_digit start msg lx)"
  unfolding hex_digit_def by (intro fails_at_rules) simp_all

lemma hex_loop_fails: "fails_at start (hex_loop n start v lx)"
  by (induction n arbitrary: v lx) (auto intro!: fails_at_rules hex_digit_fails)

lemma name_loop_fails: "fails_at start (name_loop start nm lx)"
  by (induction start nm lx rule: name_loop.induct, subst name_loop.simps) (auto intro!: fails_at_rules)

lemma escaped_fails: "fails_at start (consume_escaped_char env start lx)"
  unfolding consume_escaped_char_def Let_def
  by (intro fails_at_rules hex_digit_fails hex_loop_fails name_loop_fails) simp_all

lemma string_loop_fails: "fails_at start (string_loop env quote raw triple start content lx)"
proof (induction env quote raw triple start content lx rule: string_loop.induct)
  case (1 env quote raw triple start content lx)
  have "fails_at start (string_step env quote raw triple start ch lx content)" for ch
    unfolding string_step_def Let_def by (intro fails_at_rules escaped_fails) simp_all
  then show ?case
    by (subst string_loop.simps) (auto intro!: fails_at_rules dest: 1 split: lstep.split)
qed

lemma fstring_loop_fails: "fails_at start (fstring_loop env quote raw triple start lx st)"
proof (induction env quote raw triple start lx st rule: fstring_loop.induct)
  case (1 env quote raw triple start lx st)
  have "fails_at start (outer_step env quote raw triple start ch lx st)" for ch
    unfolding outer_step_def backslash_step_def Let_def by (intro fails_at_rules escaped_fails) simp_all
  then have "fails_at start (fstring_step env quote raw triple start ch lx st)" for ch
    unfolding fstring_step_def by (intro fails_at_rules) simp_all
  then show ?case
    by (subst fstring_loop.simps) (auto intro!: fails_at_rules dest: 1 split: lstep.split)
qed

lemma consume_string_fails: "fails_at start (consume_string env quote raw start)" "fails_at start (consume_fstring env quote raw start)"
  by (auto simp: consume_string_def consume_fstring_def intro!: fails_at_rules string_loop_fails fstring_loop_fails)

text \<open>Whatever part of a round fails, it reports a state the lexer moved to.\<close>

definition fails_within :: "Lexer \<Rightarrow> 'a lres \<Rightarrow> bool" where
  "fails_within lx r \<longleftrightarrow> (\<exists>start. moves lx start \<and> fails_at start r)"

lemma fails_withinI: "moves lx start \<Longrightarrow> fails_at start r \<Longrightarrow> fails_within lx r"
  by (auto simp: fails_within_def)

lemma fails_within_if: "(b \<Longrightarrow> fails_within lx x) \<Longrightarrow> (\<not> b \<Longrightarrow> fails_within lx y) \<Longrightarrow> fails_within lx (if b then x else y)"
  by simp

lemma fails_within_option:
  "(m = None \<Longrightarrow> fails_within lx x) \<Longrightarrow> (\<And>r. m = Some r \<Longrightarrow> fails_within lx (f r)) \<Longrightarrow> fails_within lx (case m of None \<Rightarrow> x | Some r \<Rightarrow> f r)"
  by (simp split: option.split)

lemmas fails_within_rules = fails_within_if fails_within_option

lemma prefixed_fails: "fails_within lx (consume_prefixed_string env lx)"
proof -
  let ?start = "(advance ^^ length (string_prefix lx)) lx"
  have "fails_at lx (consume_prefixed_string env lx) \<or> fails_at ?start (consume_prefixed_string env lx)"
    unfolding consume_prefixed_string_def Let_def
    by (auto split: option.split intro!: fails_at_bind consume_string_fails)
  then show ?thesis using moves_funpow by (auto simp: fails_within_def)
qed

lemma word_fails: "fails_within lx (word_token env lx)"
proof -
  obtain start where "moves lx start" "fails_at start (consume_prefixed_string env lx)"
    using prefixed_fails by (auto simp: fails_within_def)
  then show ?thesis unfolding word_token_def Let_def
    by (intro fails_withinI [of lx start] fails_at_rules) simp_all
qed

lemma lex_token_fails: "fails_within lx (lex_token env ch lx)"
proof -
  have string: "fails_within lx (bindr (consume_string env ch False lx) (\<lambda>(lexeme, lx'). Inr ([token_at lx TkString lexeme], lx')))"
    by (intro fails_withinI [of lx lx] fails_at_rules consume_string_fails) simp_all
  have here: "fails_at lx r \<Longrightarrow> fails_within lx r" for r :: "(Token list \<times> Lexer) lres"
    by (rule fails_withinI [OF moves_refl])
  show ?thesis
    unfolding lex_token_def Let_def simple_token_def
    by (intro fails_within_rules string word_fails) (simp_all add: here split: prod.split)
qed

lemma line_start_fails:
  assumes "line_start lx = Inl e"
  shows "\<exists>msg start. moves lx start \<and> e = LexError msg (lx_offset start) (lx_line start) (lx_column start)"
proof -
  obtain r l where r: "consume_indentation lx = (r, l)" by (cases "consume_indentation lx")
  have "moves lx l" using r indent_loop_moves [of lx 0] by (auto simp: consume_indentation_def Let_def split: prod.splits)
  moreover have "fails_at l (emit_indent_tokens level l)" for level
    unfolding emit_indent_tokens_def dedent_loop_result Let_def by (intro fails_at_rules) simp_all
  moreover obtain level where "emit_indent_tokens level l = Inl e"
    using assms r by (auto simp: line_start_def bindr_def split: if_splits IndentResult.splits sum.splits)
  ultimately show ?thesis unfolding fails_at_def by blast
qed

lemma tokenize_loop_error:
  assumes "tokenize_loop env tokens lx = Inl e" "located src lx"
  shows "\<exists>msg start. located src start \<and> e = LexError msg (lx_offset start) (lx_line start) (lx_column start)"
  using assms
proof (induction env tokens lx rule: tokenize_loop.induct)
  case (1 env tokens lx)
  show ?case
  proof (cases "line_start lx")
    case (Inl e')
    then have "e' = e" using 1(2) by (subst (asm) tokenize_loop.simps) (simp split: option.splits)
    then show ?thesis using line_start_fails Inl located_moves 1(3) by blast
  next
    case (Inr p)
    obtain new l where l: "line_start lx = Inr (new, l)" using Inr by (cases p) simp
    have loc: "located src l" using located_reads line_start_reads [OF l] 1(3) by blast
    obtain c ch where c: "peek_char lx = Some c" "peek_char l = Some ch"
      "bindr (round_of env ch l) (\<lambda>(new', l). tokenize_loop env (tokens @ new @ new') l) = Inl e"
      using 1(2) l by (subst (asm) tokenize_loop.simps) (auto split: option.splits)
    show ?thesis
    proof (cases "round_of env ch l")
      case (Inl e')
      then have "lex_token env ch l = Inl e" using c(3) by (auto simp: round_of_def split: if_splits)
      then obtain msg start where "moves l start" "e = LexError msg (lx_offset start) (lx_line start) (lx_column start)"
        using lex_token_fails [of l env ch] by (auto simp: fails_within_def fails_at_def)
      then show ?thesis using located_moves loc by blast
    next
      case (Inr p')
      obtain new' l' where l': "round_of env ch l = Inr (new', l')" using Inr by (cases p') simp
      have "located src l'"
        using located_reads [OF round_of_reads [OF l' c(2)]] located_advance [OF loc] by blast
      then show ?thesis using 1(1) [OF c(1) l refl c(2) l' refl] c(3) l' by simp
    qed
  qed
qed

section \<open>Lines and brackets\<close>

text \<open>Lines end and blocks open only outside brackets.\<close>

fun lines_outside :: "nat \<Rightarrow> TokenKind list \<Rightarrow> bool" where
  "lines_outside d [] = True"
| "lines_outside d (k # ks) = ((k = TkNewline \<or> k = TkIndent \<longrightarrow> d = 0) \<and> lines_outside (nest d k) ks)"

lemma lines_outside_append: "lines_outside d (a @ b) \<longleftrightarrow> lines_outside d a \<and> lines_outside (foldl nest d a) b"
  by (induction a arbitrary: d) simp_all

definition bracket_invariant :: "Token list \<Rightarrow> Lexer \<Rightarrow> bool" where
  "bracket_invariant ts lx \<longleftrightarrow> lines_outside 0 (map tk_kind ts) \<and> lx_paren_level lx = foldl nest 0 (map tk_kind ts)"

lemma layout_kinds:
  assumes "\<forall>k \<in> set ks. k = TkDedent \<or> k = TkIndent" "TkIndent \<in> set ks \<longrightarrow> d = 0"
  shows "lines_outside d ks \<and> foldl nest d ks = d"
  using assms
proof (induction ks)
  case (Cons k ks)
  then have "k = TkDedent \<or> k = TkIndent" "lines_outside d ks \<and> foldl nest d ks = d" by simp_all
  then show ?case using Cons.prems(2) by (elim disjE) simp_all
qed simp

lemma line_start_brackets:
  assumes "bracket_invariant ts lx" "line_start lx = Inr (new, lx')"
  shows "bracket_invariant (ts @ new) lx'"
proof -
  obtain r l where r: "consume_indentation lx = (r, l)" by (cases "consume_indentation lx")
  have m: "moves lx l" using r indent_loop_moves [of lx 0] by (auto simp: consume_indentation_def Let_def split: prod.splits)
  have emit: "(\<forall>k \<in> set (map tk_kind new). k = TkDedent \<or> k = TkIndent) \<and> lx_paren_level l' = lx_paren_level l"
    if "emit_indent_tokens level l = Inr (new, l')" for level l'
    using that by (auto simp: emit_indent_tokens_def dedent_loop_result lex_error_def Let_def split: if_splits)
  have new: "(\<forall>k \<in> set (map tk_kind new). k = TkDedent \<or> k = TkIndent) \<and> lx_paren_level lx' = lx_paren_level lx \<and>
      (new \<noteq> [] \<longrightarrow> lx_paren_level lx = 0)"
    using assms(2) r emit moves_marks(2) [OF m] by (auto simp: line_start_def split: if_splits IndentResult.splits)
  then have "lines_outside (lx_paren_level lx) (map tk_kind new) \<and> foldl nest (lx_paren_level lx) (map tk_kind new) = lx_paren_level lx"
    by (intro layout_kinds) auto
  then show ?thesis using assms(1) new by (auto simp: bracket_invariant_def lines_outside_append)
qed

lemma round_of_brackets:
  assumes "bracket_invariant ts lx" "round_of env ch lx = Inr (new, lx')" "peek_char lx = Some ch"
  shows "bracket_invariant (ts @ new) lx'"
proof -
  have "tracks lx new lx'" "at_most_one lx new lx'"
    using round_of_tracks [OF assms(3), of env] round_of_between [OF assms(3), of env] assms(2) by (auto simp: yields_def)
  then have "lines_outside (lx_paren_level lx) (map tk_kind new)" "lx_paren_level lx' = foldl nest (lx_paren_level lx) (map tk_kind new)"
    by (auto simp: tracks_def at_most_one_def token_between_def)
  then show ?thesis using assms(1) by (simp add: bracket_invariant_def lines_outside_append)
qed

end
