(* ===== verification/Lexer_Spec.thy ===== *)
theory Lexer_Spec
  imports Lexer_Proofs Text_Repr
begin

text \<open>What the lexer promises.\<close>

section \<open>Examples\<close>

definition ascii_env :: lexenv where
  "ascii_env = \<lparr>le_alphabetic = (\<lambda>_. False), le_numeric = (\<lambda>_. False), le_names = []\<rparr>"

text \<open>\<open>if x:\<close>, an indented \<open>y = "\n"\<close> and \<open>z(\<close>, \<open>)\<close> on a line of its own.\<close>

definition block_example :: rstring where
  "block_example = str ''if x:'' @ [10] @ str ''  y = '' @ [34, 92, 110, 34, 10] @ str ''z('' @ [10] @ str '')'' @ [10]"

definition block_kinds :: "TokenKind list" where
  "block_kinds =
    [TkKeyword KwIf, TkName, TkColon, TkNewline, TkIndent, TkName, TkEqual, TkString, TkNewline, TkDedent, TkName,
     TkLParen, TkRParen, TkNewline, TkEndMarker]"

lemma block_example_tokens: "map_sum id (map tk_kind) (tokenize ascii_env block_example) = Inr block_kinds"
  by code_simp



text \<open>
  C39. In the tokens of an accepted source every dedent closes a block opened before, all blocks
  are closed, and the end marker stands once, at the end.
\<close>

theorem blocks_balanced:
  assumes "tokenize env src = Inr toks"
  shows "block_depth 0 (map tk_kind toks) = Some 0 \<and> (\<exists>ts t. toks = ts @ [t] \<and> tk_kind t = TkEndMarker \<and> TkEndMarker \<notin> tk_kind ` set ts)"
proof -
  obtain ts lx where r: "indent_invariant ts lx"
    "toks = ts @ replicate (length (lx_indent_stack lx) - 1) (token_at lx TkDedent []) @ [token_at lx TkEndMarker []]"
    using tokenize_result [OF assms] by metis
  let ?n = "length (lx_indent_stack lx) - 1"
  have "block_depth 0 (map tk_kind toks) = Some 0"
    using r(1) block_depth_dedents [of ?n ?n] unfolding r(2) by (simp add: indent_invariant_def block_depth_append)
  moreover have "TkEndMarker \<notin> tk_kind ` set (ts @ replicate ?n (token_at lx TkDedent []))"
    using r(1) by (auto simp: indent_invariant_def)
  ultimately show ?thesis
    unfolding r(2) by (intro conjI exI [of _ "ts @ replicate ?n (token_at lx TkDedent [])"] exI [of _ "token_at lx TkEndMarker []"]) simp_all
qed

theorem blocks_balanced_witness:
  "\<exists>toks :: Token list. map tk_kind toks = block_kinds \<and> block_depth 0 (map tk_kind toks) = Some 0 \<and> TkDedent \<in> set (map tk_kind toks)"
proof -
  obtain toks where t: "tokenize ascii_env block_example = Inr toks" "map tk_kind toks = block_kinds"
    using block_example_tokens by (cases "tokenize ascii_env block_example") auto
  moreover have "TkDedent \<in> set block_kinds" by (simp add: block_kinds_def)
  ultimately show ?thesis using blocks_balanced [OF t(1)] by metis
qed

text \<open>
  C20. In an accepted source a line ends, and a block opens, only where as many brackets are closed
  as are open: inside brackets line ends are ignored.
\<close>

theorem lines_end_outside_brackets:
  assumes "tokenize env src = Inr toks"
  shows "lines_outside 0 (map tk_kind toks)"
proof -
  obtain ts lx where r: "tokenize_loop env [] (lexer_new src) = Inr (ts, lx)"
    "toks = ts @ replicate (length (lx_indent_stack lx) - 1) (token_at lx TkDedent []) @ [token_at lx TkEndMarker []]"
    using tokenize_result [OF assms] by metis
  have "bracket_invariant [] (lexer_new src)" by (simp add: bracket_invariant_def lexer_new_def)
  then have "bracket_invariant ts lx"
    using tokenize_loop_invariant [OF r(1), of bracket_invariant] line_start_brackets round_of_brackets by blast
  moreover have "lines_outside d (replicate n TkDedent @ [TkEndMarker])" for n d by (induction n) simp_all
  ultimately show ?thesis unfolding r(2) by (simp add: bracket_invariant_def lines_outside_append [of _ "map tk_kind ts"])
qed

theorem lines_end_outside_brackets_witness:
  "\<exists>toks :: Token list. map tk_kind toks = block_kinds \<and> lines_outside 0 (map tk_kind toks) \<and> TkLParen \<in> set (map tk_kind toks)"
proof -
  obtain toks where t: "tokenize ascii_env block_example = Inr toks" "map tk_kind toks = block_kinds"
    using block_example_tokens by (cases "tokenize ascii_env block_example") auto
  moreover have "TkLParen \<in> set block_kinds" by (simp add: block_kinds_def)
  ultimately show ?thesis using lines_end_outside_brackets [OF t(1)] by metis
qed

text \<open>
  C12. The position reported by a rejected source is one of the source: its byte offset is the end
  of a whole number of characters, and its line and column are those of that offset.
\<close>

theorem errors_point_into_source:
  assumes "tokenize env src = Inl (LexError msg off line col)"
  shows "\<exists>n \<le> length src. off = byte_len (take n src) \<and> line = line_of (take n src) \<and> col = column_of (take n src)"
proof -
  have "tokenize_loop env [] (lexer_new src) = Inl (LexError msg off line col)"
    using assms by (cases "tokenize_loop env [] (lexer_new src)") (auto simp: tokenize_def)
  then obtain start where start: "located src start" "off = lx_offset start" "line = lx_line start" "col = lx_column start"
    using tokenize_loop_error [OF _ located_new] by blast
  then show ?thesis
    by (intro exI [of _ "length (lx_before start)"])
       (auto simp: located_def lx_offset_def byte_len_def rev_map [symmetric] sum_list_rev)
qed

text \<open>A string that is never closed, after a two-byte character in a comment.\<close>

definition open_string :: rstring where
  "open_string = str ''# '' @ [0xE9, 10] @ str ''x = '' @ [34] @ str ''abc''"

theorem errors_point_into_source_witness:
  "tokenize ascii_env open_string = Inl (LexError (str ''unterminated string literal'') 9 2 5) \<and>
   (\<exists>n \<le> length open_string. 9 = byte_len (take n open_string) \<and> 2 = line_of (take n open_string) \<and> 5 = column_of (take n open_string))"
proof -
  have "tokenize ascii_env open_string = Inl (LexError (str ''unterminated string literal'') 9 2 5)" by code_simp
  then show ?thesis using errors_point_into_source by blast
qed

section \<open>Reading back a written string\<close>

lemma string_loop_plain:
  assumes "lx_after lx = c # rest" "c \<noteq> quote" "c \<noteq> 10" "c \<noteq> 0x5C"
  shows "string_loop env quote False False start content lx = string_loop env quote False False start (content @ [c]) (advance lx)"
  using assms by (subst string_loop.simps) (simp add: peek_char_def string_step_def continue_with_def)

lemma string_loop_escape:
  assumes "lx_after lx = 0x5C # rest" "quote \<noteq> 0x5C" "consume_escaped_char env start (advance lx) = Inr (Some c, lx')"
  shows "string_loop env quote False False start content lx = string_loop env quote False False start (content @ [c]) lx'"
  using assms by (subst string_loop.simps) (simp add: peek_char_def string_step_def continue_with_def)

lemma string_loop_end:
  assumes "lx_after lx = quote # rest"
  shows "string_loop env quote False False start content lx = Inr (content, advance lx)"
  using assms by (subst string_loop.simps) (simp add: peek_char_def string_step_def)

text \<open>One written character is read back.\<close>

lemma simple_escape_cases:
  "simple_escape 0x5C = Some 0x5C" "simple_escape 0x27 = Some 0x27" "simple_escape 0x22 = Some 0x22"
  "simple_escape (chr CHR ''n'') = Some 10" "simple_escape (chr CHR ''r'') = Some 13" "simple_escape (chr CHR ''t'') = Some 9"
  "simple_escape (chr CHR ''x'') = None"
  by (code_simp+)

lemma escaped_simple:
  "simple_escape e = Some c \<Longrightarrow> lx_after lx = e # rest \<Longrightarrow> consume_escaped_char env start lx = Inr (Some c, advance lx)"
  by (simp add: consume_escaped_char_def peek_char_def)

lemma escaped_hex:
  assumes "lx_after lx = chr CHR ''x'' # hex_char a # hex_char b # rest" "a < 16" "b < 16"
  shows "consume_escaped_char env start lx = Inr (Some (a * 16 + b), advance3 lx)"
  using assms
  by (simp add: consume_escaped_char_def peek_char_def simple_escape_cases hex_digit_def after_advance is_ascii_hexdigit_def
      to_digit_hex_char digit_or_0_def advance3_def)

lemma repr_char_cases:
  assumes "quote = 0x27 \<or> quote = 0x22"
  obtains (simple) e where "repr_char quote [] c = [0x5C, e]" "simple_escape e = Some c"
    | (hex) "c < 256" "repr_char quote [] c = [0x5C, chr CHR ''x'', hex_char (c div 16), hex_char (c mod 16)]"
    | (plain) "repr_char quote [] c = [c]" "c \<noteq> quote" "c \<noteq> 10" "c \<noteq> 0x5C"
proof -
  consider "c \<in> {0x5C, 10, 13, 9}" | "c = quote" | "c \<notin> {0x5C, 10, 13, 9, quote}" "is_control c" | "c \<notin> {0x5C, 10, 13, 9, quote}" "\<not> is_control c"
    by blast
  then show ?thesis
  proof cases
    case 1
    then show ?thesis by (auto simp: repr_char_def simple_escape_cases intro: simple)
  next
    case 2
    then show ?thesis using assms by (auto simp: repr_char_def simple_escape_cases intro: simple)
  next
    case 3
    then have "c < 256" by (auto simp: is_control_def)
    moreover have "repr_char quote [] c = [0x5C, chr CHR ''x'', hex_char (c div 16), hex_char (c mod 16)]"
      using 3 \<open>c < 256\<close> by (auto simp: repr_char_def append_python_char_escape_def format_hex_2)
    ultimately show ?thesis by (rule hex)
  next
    case 4
    then show ?thesis by (intro plain) (auto simp: repr_char_def)
  qed
qed

lemma string_loop_repr_char:
  assumes "lx_after lx = repr_char quote [] c @ rest" "quote = 0x27 \<or> quote = 0x22"
  shows "\<exists>lx'. string_loop env quote False False start content lx = string_loop env quote False False start (content @ [c]) lx' \<and>
    lx_after lx' = rest"
proof (cases rule: repr_char_cases [OF assms(2), of c])
  case (1 e)
  then have lx: "lx_after lx = 0x5C # e # rest" using assms(1) by simp
  have "consume_escaped_char env start (advance lx) = Inr (Some c, advance (advance lx))"
    by (rule escaped_simple [OF 1(2), of _ rest]) (simp add: lx after_advance)
  then show ?thesis using string_loop_escape [OF lx] assms(2) by (intro exI [of _ "advance (advance lx)"]) (auto simp: lx after_advance)
next
  case 2
  then have lx: "lx_after lx = 0x5C # chr CHR ''x'' # hex_char (c div 16) # hex_char (c mod 16) # rest" using assms(1) by simp
  have "consume_escaped_char env start (advance lx) = Inr (Some (c div 16 * 16 + c mod 16), advance3 (advance lx))"
    by (rule escaped_hex [of _ _ _ rest]) (use 2 in \<open>simp_all add: lx after_advance less_mult_imp_div_less\<close>)
  then show ?thesis using string_loop_escape [OF lx] assms(2)
    by (intro exI [of _ "advance3 (advance lx)"]) (auto simp: lx after_advance advance3_def)
next
  case 3
  then have "lx_after lx = c # rest" using assms(1) by simp
  then show ?thesis using string_loop_plain 3 by (intro exI [of _ "advance lx"]) (simp add: after_advance)
qed

lemma string_loop_repr:
  assumes "lx_after lx = concat (map (repr_char quote []) s) @ quote # rest" "quote = 0x27 \<or> quote = 0x22"
  shows "\<exists>lx'. string_loop env quote False False start content lx = Inr (content @ s, lx') \<and> lx_after lx' = rest"
  using assms(1)
proof (induction s arbitrary: lx content)
  case Nil
  then show ?case using string_loop_end [of lx quote rest] by (simp add: after_advance)
next
  case (Cons c s)
  then obtain lx' where
    "string_loop env quote False False start content lx = string_loop env quote False False start (content @ [c]) lx'"
    "lx_after lx' = concat (map (repr_char quote []) s) @ quote # rest"
    using string_loop_repr_char [of lx quote c] assms(2) by fastforce
  then show ?case using Cons.IH [of lx' "content @ [c]"] by simp
qed

lemma consume_string_repr:
  assumes "lx_after lx = format_repr_string s"
  shows "\<exists>quote lx'. peek_char lx = Some quote \<and> (quote = 0x27 \<or> quote = 0x22) \<and>
    consume_string env quote False lx = Inr (s, lx') \<and> lx_after lx' = []"
proof -
  define quote :: rchar where "quote = (if 0x27 \<in> set s \<and> 0x22 \<notin> set s then 0x22 else 0x27)"
  have q: "quote = 0x27 \<or> quote = 0x22" by (simp add: quote_def)
  have lx: "lx_after lx = quote # concat (map (repr_char quote []) s) @ [quote]"
    using assms by (simp add: format_repr_string_def Let_def foldl_repr_char flip: quote_def)
  have "\<not> is_triple_quoted quote lx"
  proof (cases s)
    case (Cons c s')
    have "hd (repr_char quote [] c) \<noteq> quote \<and> repr_char quote [] c \<noteq> []"
      by (cases rule: repr_char_cases [OF q, of c]) (use q in auto)
    then show ?thesis using Cons lx by (cases "repr_char quote [] c") (auto simp: is_triple_quoted_def peek_char_at_def)
  qed (simp add: is_triple_quoted_def peek_char_at_def lx)
  then have "consume_string env quote False lx = string_loop env quote False False lx [] (advance lx)"
    by (simp add: consume_string_def open_quote_def)
  moreover obtain lx' where "string_loop env quote False False lx [] (advance lx) = Inr ([] @ s, lx')" "lx_after lx' = []"
    using string_loop_repr [of "advance lx" quote s "[]" env lx "[]"] q lx by (auto simp: after_advance)
  ultimately show ?thesis using q lx by (auto simp: peek_char_def)
qed

text \<open>
  C40. Reading a written string: the text \<open>repr\<close> gives for a string is lexed as one string token
  whose content is that string, whatever characters it has.
\<close>

theorem repr_lexes_back:
  "\<exists>t e. tokenize env (format_repr_string s) = Inr [t, e] \<and> tk_kind t = TkString \<and> tk_lexeme t = s \<and> tk_kind e = TkEndMarker"
proof -
  let ?lx = "lexer_new (format_repr_string s)"
  define lx where "lx = ?lx\<lparr>lx_at_line_start := False\<rparr>"
  obtain quote l where q: "peek_char lx = Some quote" "quote = 0x27 \<or> quote = 0x22"
    and l: "consume_string env quote False lx = Inr (s, l)" "lx_after l = []"
    using consume_string_repr [of lx s env] by (auto simp: lx_def lexer_new_def)
  have peek: "peek_char ?lx = Some quote" using q by (simp add: lx_def peek_char_def)
  have "indent_loop 0 ?lx = (0, ?lx)"
    using q(2) by (subst indent_loop.simps, unfold peek) (auto simp: chr_def)
  moreover have "lx_at_line_start ?lx" "lx_paren_level ?lx = 0" "lx_indent_stack ?lx = [0]" unfolding lexer_new_def by (simp_all only: Lexer.simps)
  moreover have "\<not> peek_is ?lx {CHR 0x0A, CHR ''#''}" using peek q(2) by (auto simp: peek_is_def chr_def)
  ultimately have start: "line_start ?lx = Inr ([], lx)"
    by (simp add: line_start_def consume_indentation_def emit_indent_tokens_def peek lx_def)
  have "(char_of quote :: char) = CHR 0x27 \<or> (char_of quote :: char) = CHR 0x22"
    using q(2) char_of_char [of "CHR 0x27", where 'a = nat] char_of_char [of "CHR 0x22", where 'a = nat] by auto
  then have "bracket_token (char_of quote) lx = None" "operator_token (char_of quote) lx = None"
    by (auto simp: bracket_token_def operator_token_def)
  moreover have "quote < 128" "quote \<noteq> 10" "quote \<noteq> 0x5C" "quote \<noteq> chr CHR ''.''" "quote \<noteq> chr CHR ''!''"
    using q(2) by (auto simp: chr_def)
  ultimately have "lex_token env quote lx = Inr ([token_at lx TkString s], l)"
    using q(2) by (simp add: lex_token_def l(1))
  then have round: "round_of env quote lx = Inr ([token_at lx TkString s], l)"
    using q(2) by (auto simp: round_of_def is_blank_def chr_def)
  have "tokenize_loop env [] ?lx = tokenize_loop env [token_at lx TkString s] l"
    by (subst tokenize_loop.simps) (simp add: peek start q(1) round)
  also have "\<dots> = Inr ([token_at lx TkString s], l)"
    by (subst tokenize_loop.simps) (simp add: peek_char_def l(2))
  finally have loop: "tokenize_loop env [] ?lx = Inr ([token_at lx TkString s], l)" .
  have "lx_indent_stack l = lx_indent_stack lx"
    using string_moves(1) [OF l(1)] moves_from_advance moves_marks by blast
  moreover have "lx_indent_stack lx = [0]" by (simp add: lx_def lexer_new_def)
  ultimately have "tokenize env (format_repr_string s) = Inr [token_at lx TkString s, token_at l TkEndMarker []]"
    by (simp add: tokenize_def loop)
  then show ?thesis by (auto simp: token_at_def)
qed

section \<open>Line ends and octal escapes\<close>

text \<open>
  A blank line in the middle of a block, with the line ends of two systems: \<open>if x:\<close>, an indented
  \<open>y\<close>, the blank line and an indented \<open>z\<close>.
\<close>

definition block_with_blank :: "rstring \<Rightarrow> rstring" where
  "block_with_blank eol = str ''if x:'' @ eol @ str ''  y'' @ eol @ eol @ str ''  z'' @ eol"

lemma crlf_blank_line_dedents:
  "map_sum id (map tk_kind) (tokenize ascii_env (block_with_blank [10])) =
     Inr [TkKeyword KwIf, TkName, TkColon, TkNewline, TkIndent, TkName, TkNewline, TkNewline, TkName, TkNewline,
       TkDedent, TkEndMarker]"
  "map_sum id (map tk_kind) (tokenize ascii_env (block_with_blank [13, 10])) =
     Inr [TkKeyword KwIf, TkName, TkColon, TkNewline, TkIndent, TkName, TkNewline, TkDedent, TkNewline, TkIndent,
       TkName, TkNewline, TkDedent, TkEndMarker]"
  by code_simp+

lemma octal_escape_truncated:
  "map_sum id (map tk_lexeme) (tokenize ascii_env ([34, 92] @ str ''400'' @ [34])) = Inr [[0], []]"
  by code_simp

text \<open>
  The raw triple-quoted literal whose text is a backslash and a quote ends one quote too early: the
  backslash is not taken into account, and the quote left over opens a string.
\<close>

lemma raw_triple_ignores_backslash:
  "map_sum id (map tk_lexeme) (tokenize ascii_env (str ''r'' @ [34, 34, 34, 92, 34, 34, 34, 34])) =
     Inl (LexError (str ''unterminated string literal'') 8 1 9)"
  "map_sum id (map tk_lexeme) (tokenize ascii_env (str ''r'' @ [34, 92, 34, 34])) = Inr [[92, 34], []]"
  by code_simp+

end
