(* ===== verification/Json.thy ===== *)
theory Json
  imports Floats Bigint_Text Text_Repr
begin

text \<open>
  The parser of \<^verbatim>\<open>src/vm/stdlib/json.rs\<close>: \<open>JsonParser\<close> over the bytes of the source, by
  recursive descent with a limit on the depth. The limit on the digits of an integer is a setting
  of the runtime, here a field of the parser.
\<close>

section \<open>Nodes, errors and the parser's state\<close>

datatype JsonNode =
    JNull
  | JBool bool
  | JInt i64
  | JBigInt BigInt
  | JFloat f64
  | JString rstring
  | JArray "JsonNode list"
  | JObject "(rstring \<times> JsonNode) list"

datatype JsonParseError = JsonParseError rstring nat

type_synonym 'a jres = "JsonParseError + 'a"

record JsonParser =
  jp_source :: "u8 list"
  jp_pos :: nat
  jp_depth_limit :: nat
  jp_max_str_digits :: i64

definition json_new :: "i64 \<Rightarrow> rstring \<Rightarrow> nat \<Rightarrow> JsonParser" where
  "json_new max_digits source limit =
     \<lparr>jp_source = as_bytes source, jp_pos = 0, jp_depth_limit = max limit 1, jp_max_str_digits = max_digits\<rparr>"

definition byte :: "char \<Rightarrow> u8" where
  "byte c = of_nat (of_char c)"

definition json_peek :: "JsonParser \<Rightarrow> u8 option" where
  "json_peek ps = (if jp_pos ps < length (jp_source ps) then Some (jp_source ps ! jp_pos ps) else None)"

definition bump :: "nat \<Rightarrow> JsonParser \<Rightarrow> JsonParser" where
  "bump n ps = ps\<lparr>jp_pos := jp_pos ps + n\<rparr>"

definition json_next :: "JsonParser \<Rightarrow> (u8 \<times> JsonParser) option" where
  "json_next ps = (case json_peek ps of None \<Rightarrow> None | Some b \<Rightarrow> Some (b, bump 1 ps))"

definition json_error :: "string \<Rightarrow> nat \<Rightarrow> 'a jres" where
  "json_error msg pos = Inl (JsonParseError (str msg) pos)"

definition peek_in :: "JsonParser \<Rightarrow> char set \<Rightarrow> bool" where
  "peek_in ps cs = (case json_peek ps of None \<Rightarrow> False | Some b \<Rightarrow> b \<in> byte ` cs)"

text \<open>\<open>source.get(pos..pos + n) == Some(text)\<close>\<close>

definition starts_with :: "JsonParser \<Rightarrow> string \<Rightarrow> bool" where
  "starts_with ps txt \<longleftrightarrow> take (length txt) (drop (jp_pos ps) (jp_source ps)) = map byte txt"

abbreviation bytes_left :: "JsonParser \<Rightarrow> nat" where
  "bytes_left ps \<equiv> length (jp_source ps) - jp_pos ps"

text \<open>The parser only moves forward, within its source.\<close>

definition ahead :: "JsonParser \<Rightarrow> JsonParser \<Rightarrow> bool" where
  "ahead ps ps' \<longleftrightarrow> (\<exists>n. ps' = bump n ps) \<and> (jp_pos ps \<le> length (jp_source ps) \<longrightarrow> jp_pos ps' \<le> length (jp_source ps'))"

lemma bump_simps [simp]: "bump 0 ps = ps" "bump n (bump m ps) = bump (m + n) ps" "jp_source (bump n ps) = jp_source ps"
  "jp_pos (bump n ps) = jp_pos ps + n" "jp_depth_limit (bump n ps) = jp_depth_limit ps"
  "jp_max_str_digits (bump n ps) = jp_max_str_digits ps"
  by (simp_all add: bump_def add.assoc)

lemma ahead_refl [simp, intro]: "ahead ps ps"
  unfolding ahead_def by (auto intro: exI [of _ 0])

lemma ahead_trans [trans]: "ahead a b \<Longrightarrow> ahead b c \<Longrightarrow> ahead a c"
  unfolding ahead_def by auto

lemma ahead_same: "ahead a b \<Longrightarrow> jp_source b = jp_source a \<and> jp_depth_limit b = jp_depth_limit a \<and> jp_pos a \<le> jp_pos b"
  unfolding ahead_def by auto

lemma ahead_left: "ahead a b \<Longrightarrow> bytes_left b \<le> bytes_left a"
  using ahead_same [of a b] by (auto intro: diff_le_mono2)

text \<open>Forward by at least one byte.\<close>

definition consumes :: "JsonParser \<Rightarrow> JsonParser \<Rightarrow> bool" where
  "consumes ps ps' \<longleftrightarrow> ahead ps ps' \<and> bytes_left ps' < bytes_left ps"

lemma consumes_then: "consumes a b \<Longrightarrow> ahead b c \<Longrightarrow> consumes a c"
  unfolding consumes_def using ahead_trans [of a b c] ahead_left [of b c] by auto

lemma then_consumes: "ahead a b \<Longrightarrow> consumes b c \<Longrightarrow> consumes a c"
  unfolding consumes_def using ahead_trans [of a b c] ahead_left [of a b] by auto

lemma consumes_ahead: "consumes a b \<Longrightarrow> ahead a b"
  by (simp add: consumes_def)

lemma consumes_left: "consumes a b \<Longrightarrow> bytes_left b < bytes_left a"
  by (simp add: consumes_def)

lemma peek_pos: "json_peek ps = Some b \<Longrightarrow> jp_pos ps < length (jp_source ps)"
  by (simp add: json_peek_def split: if_splits)

lemma peek_ahead: "json_peek ps = Some b \<Longrightarrow> ahead ps (bump 1 ps)"
  unfolding ahead_def by (auto dest: peek_pos)

lemma peek_in_peek: "peek_in ps cs \<Longrightarrow> \<exists>b. json_peek ps = Some b"
  by (simp add: peek_in_def split: option.splits)

lemma next_consumes: "json_next ps = Some (b, ps') \<Longrightarrow> consumes ps ps'"
  by (auto simp: consumes_def json_next_def ahead_def dest: peek_pos split: option.splits)

definition json_expect :: "char \<Rightarrow> string \<Rightarrow> JsonParser \<Rightarrow> JsonParser jres" where
  "json_expect c msg ps = (if peek_in ps {c} then Inr (bump 1 ps) else json_error msg (jp_pos ps))"

lemma expect_consumes: "json_expect c msg ps = Inr ps' \<Longrightarrow> consumes ps ps'"
  by (auto simp: consumes_def json_expect_def json_error_def ahead_def dest!: peek_in_peek peek_pos split: if_splits)

function skip_while :: "char set \<Rightarrow> JsonParser \<Rightarrow> JsonParser" where
  "skip_while cs ps = (if peek_in ps cs then skip_while cs (bump 1 ps) else ps)"
  by pat_completeness auto
termination
  by (relation "measure (\<lambda>(cs, ps). bytes_left ps)") (auto dest!: peek_in_peek peek_pos)

declare skip_while.simps [simp del]

lemma skip_while_ahead: "ahead ps (skip_while cs ps)"
proof (induction cs ps rule: skip_while.induct)
  case (1 cs ps)
  then show ?case
    using ahead_trans [OF peek_ahead] peek_in_peek by (subst skip_while.simps) fastforce
qed

definition skip_ws :: "JsonParser \<Rightarrow> JsonParser" where
  "skip_ws = skip_while {CHR '' '', CHR 0x0A, CHR 0x0D, CHR 0x09}"

section \<open>Strings\<close>

definition hex_value :: "u8 \<Rightarrow> u16 option" where
  "hex_value b =
     (if byte CHR ''0'' \<le> b \<and> b \<le> byte CHR ''9'' then Some (ucast (b - byte CHR ''0''))
      else if byte CHR ''a'' \<le> b \<and> b \<le> byte CHR ''f'' then Some (ucast (b - byte CHR ''a'' + 10))
      else if byte CHR ''A'' \<le> b \<and> b \<le> byte CHR ''F'' then Some (ucast (b - byte CHR ''A'' + 10))
      else None)"

fun hex_u16_loop :: "nat \<Rightarrow> u16 \<Rightarrow> JsonParser \<Rightarrow> (u16 \<times> JsonParser) jres" where
  "hex_u16_loop 0 v ps = Inr (v, ps)"
| "hex_u16_loop (Suc n) v ps =
     (case json_next ps of
        None \<Rightarrow> json_error ''invalid unicode escape'' (jp_pos ps)
      | Some (b, ps) \<Rightarrow>
          (case hex_value b of
             None \<Rightarrow> json_error ''invalid unicode escape'' (jp_pos ps)
           | Some d \<Rightarrow> hex_u16_loop n (push_bit 4 v OR d) ps))"

definition parse_hex_u16 :: "JsonParser \<Rightarrow> (u16 \<times> JsonParser) jres" where
  "parse_hex_u16 ps = hex_u16_loop 4 0 ps"

definition char_or_error :: "rchar option \<Rightarrow> JsonParser \<Rightarrow> (rchar \<times> JsonParser) jres" where
  "char_or_error ch ps =
     (case ch of None \<Rightarrow> json_error ''invalid unicode escape'' (jp_pos ps) | Some ch \<Rightarrow> Inr (ch, ps))"

text \<open>The escape \<open>\u\<close>: a high and a low surrogate are one character, a lone one is kept as an internal character.\<close>

definition unicode_escape :: "JsonParser \<Rightarrow> (rchar \<times> JsonParser) jres" where
  "unicode_escape ps =
     bindr (parse_hex_u16 ps) (\<lambda>(code, ps).
     if 0xD800 \<le> code \<and> code \<le> 0xDBFF then
       (if starts_with ps [CHR 0x5C, CHR ''u''] then
          bindr (parse_hex_u16 (bump 2 ps)) (\<lambda>(low, ps').
          if 0xDC00 \<le> low \<and> low \<le> 0xDFFF then
            char_or_error (char_from_u32 (0x10000 + (push_bit 10 (unat code - 0xD800) OR (unat low - 0xDC00)))) ps'
          else char_or_error (internal_char_from_codepoint (unat code)) ps)
        else char_or_error (internal_char_from_codepoint (unat code)) ps)
     else if 0xDC00 \<le> code \<and> code \<le> 0xDFFF then char_or_error (internal_char_from_codepoint (unat code)) ps
     else char_or_error (char_from_u32 (unat code)) ps)"

definition json_escapes :: "(char \<times> nat) list" where
  "json_escapes =
    [(CHR 0x22, 0x22), (CHR 0x5C, 0x5C), (CHR ''/'', 0x2F), (CHR ''b'', 8), (CHR ''f'', 12), (CHR ''n'', 10),
     (CHR ''r'', 13), (CHR ''t'', 9)]"

definition parse_escape :: "JsonParser \<Rightarrow> (rchar \<times> JsonParser) jres" where
  "parse_escape ps =
     (case json_next ps of
        None \<Rightarrow> json_error ''invalid JSON escape'' (jp_pos ps)
      | Some (esc, ps) \<Rightarrow>
          (case find (\<lambda>(c, _). byte c = esc) json_escapes of
             Some (_, ch) \<Rightarrow> Inr (ch, ps)
           | None \<Rightarrow>
               if esc = byte CHR ''u'' then unicode_escape ps
               else json_error ''invalid JSON escape'' (jp_pos ps)))"

fun utf8_tail :: "nat \<Rightarrow> u8 list \<Rightarrow> JsonParser \<Rightarrow> (u8 list \<times> JsonParser) jres" where
  "utf8_tail 0 bytes ps = Inr (bytes, ps)"
| "utf8_tail (Suc n) bytes ps =
     (case json_next ps of
        None \<Rightarrow> json_error ''invalid UTF-8 in JSON string'' (jp_pos ps)
      | Some (b, ps) \<Rightarrow>
          if b AND 0xC0 \<noteq> 0x80 then json_error ''invalid UTF-8 in JSON string'' (jp_pos ps)
          else utf8_tail n (bytes @ [b]) ps)"

definition utf8_width :: "u8 \<Rightarrow> nat option" where
  "utf8_width first =
     (if drop_bit 5 first = 0b110 then Some 2 else if drop_bit 4 first = 0b1110 then Some 3
      else if drop_bit 3 first = 0b11110 then Some 4 else None)"

definition push_utf8_char :: "u8 \<Rightarrow> JsonParser \<Rightarrow> (rchar \<times> JsonParser) jres" where
  "push_utf8_char first ps =
     (case utf8_width first of
        None \<Rightarrow> json_error ''invalid UTF-8 in JSON string'' (jp_pos ps)
      | Some width \<Rightarrow>
          bindr (utf8_tail (width - 1) [first] ps) (\<lambda>(bytes, ps).
          case from_utf8 bytes of
            Some (ch # _) \<Rightarrow> Inr (ch, ps)
          | _ \<Rightarrow> json_error ''invalid UTF-8 in JSON string'' (jp_pos ps)))"

text \<open>One character of a string, after its first byte.\<close>

definition string_char :: "u8 \<Rightarrow> JsonParser \<Rightarrow> (rchar \<times> JsonParser) jres" where
  "string_char b ps =
     (if b = byte CHR 0x5C then parse_escape ps
      else if b < 0x20 then json_error ''invalid control character in JSON string'' (jp_pos ps - 1)
      else if b < 0x80 then Inr (unat b, ps)
      else push_utf8_char b ps)"

lemma hex_u16_loop_ahead: "hex_u16_loop n v ps = Inr (r, ps') \<Longrightarrow> ahead ps ps'"
  by (induction n arbitrary: v ps)
     (auto simp: json_error_def dest!: consumes_ahead [OF next_consumes] intro: ahead_trans split: option.splits)

lemma utf8_tail_ahead: "utf8_tail n bytes ps = Inr (r, ps') \<Longrightarrow> ahead ps ps'"
  by (induction n arbitrary: bytes ps)
     (auto simp: json_error_def dest!: consumes_ahead [OF next_consumes] intro: ahead_trans split: option.splits if_splits)

lemma char_or_error_Inr: "char_or_error ch ps = Inr (c, ps') \<longleftrightarrow> ch = Some c \<and> ps' = ps"
  by (auto simp: char_or_error_def json_error_def split: option.split)

lemma starts_with_ahead:
  assumes "starts_with ps txt"
  shows "ahead ps (bump (length txt) ps)"
proof -
  have "length (take (length txt) (drop (jp_pos ps) (jp_source ps))) = length txt"
    using assms by (simp add: starts_with_def)
  then show ?thesis unfolding ahead_def by auto
qed

lemma unicode_escape_ahead:
  assumes "unicode_escape ps = Inr (c, ps')"
  shows "ahead ps ps'"
proof -
  obtain code ps1 where 1: "parse_hex_u16 ps = Inr (code, ps1)" "ahead ps ps1"
    using assms hex_u16_loop_ahead by (fastforce simp: unicode_escape_def parse_hex_u16_def)
  consider "ps' = ps1" | low where "starts_with ps1 [CHR 0x5C, CHR ''u'']" "parse_hex_u16 (bump 2 ps1) = Inr (low, ps')"
    using assms 1(1) by (auto simp: unicode_escape_def char_or_error_Inr split: if_splits)
  then show ?thesis
  proof cases
    case (2 low)
    then have "ahead ps1 (bump 2 ps1)" "ahead (bump 2 ps1) ps'"
      using starts_with_ahead [of ps1 "[CHR 0x5C, CHR ''u'']"] hex_u16_loop_ahead by (auto simp: parse_hex_u16_def numeral_2_eq_2)
    then show ?thesis using 1(2) ahead_trans by blast
  qed (use 1(2) in simp)
qed

lemma string_char_ahead: "string_char b ps = Inr (c, ps') \<Longrightarrow> ahead ps ps'"
  by (auto simp: string_char_def parse_escape_def push_utf8_char_def json_error_def
      split: if_splits option.splits list.splits dest!: consumes_ahead [OF next_consumes] unicode_escape_ahead utf8_tail_ahead intro: ahead_trans)

function json_string_loop :: "nat \<Rightarrow> rstring \<Rightarrow> JsonParser \<Rightarrow> (rstring \<times> JsonParser) jres" where
  "json_string_loop start out ps =
     (case json_next ps of
        None \<Rightarrow> json_error ''Unterminated string starting at'' start
      | Some (b, ps) \<Rightarrow>
          if b = byte CHR 0x22 then Inr (out, ps)
          else bindr (string_char b ps) (\<lambda>(ch, ps). json_string_loop start (out @ [ch]) ps))"
  by pat_completeness auto
termination
  by (relation "measure (\<lambda>(start, out, ps). bytes_left ps)")
     (fastforce dest: consumes_left [OF consumes_then [OF next_consumes string_char_ahead]])+

declare json_string_loop.simps [simp del]

lemma json_string_loop_ahead: "json_string_loop start out ps = Inr (s, ps') \<Longrightarrow> ahead ps ps'"
proof (induction start out ps rule: json_string_loop.induct)
  case (1 start out ps)
  obtain b ps1 where n: "json_next ps = Some (b, ps1)"
    using 1(2) by (subst (asm) json_string_loop.simps) (auto simp: json_error_def split: option.splits)
  show ?case
  proof (cases "b = byte CHR 0x22")
    case True
    then show ?thesis using 1(2) n consumes_ahead [OF next_consumes] by (subst (asm) json_string_loop.simps) auto
  next
    case False
    then obtain ch ps2 where s: "string_char b ps1 = Inr (ch, ps2)" "json_string_loop start (out @ [ch]) ps2 = Inr (s, ps')"
      using 1(2) n by (subst (asm) json_string_loop.simps) auto
    then show ?thesis using 1(1) [OF n refl False s(1) refl s(2)] consumes_ahead [OF next_consumes [OF n]] string_char_ahead ahead_trans by blast
  qed
qed

definition json_parse_string :: "JsonParser \<Rightarrow> (rstring \<times> JsonParser) jres" where
  "json_parse_string ps =
     bindr (json_expect CHR 0x22 ''Expecting value'' ps) (\<lambda>ps'. json_string_loop (jp_pos ps) [] ps')"

lemma json_parse_string_consumes: "json_parse_string ps = Inr (s, ps') \<Longrightarrow> consumes ps ps'"
  by (auto simp: json_parse_string_def dest!: expect_consumes json_string_loop_ahead intro: consumes_then)

section \<open>Numbers\<close>

text \<open>\<open>str::parse::<i64>\<close>\<close>

definition parse_i64 :: "rstring \<Rightarrow> i64 option" where
  "parse_i64 s =
     (let neg = (s \<noteq> [] \<and> hd s = 45);
          ds = (if s \<noteq> [] \<and> (hd s = 45 \<or> hd s = 43) then tl s else s);
          i = (if neg then - int (dec_val ds) else int (dec_val ds))
      in if ds \<noteq> [] \<and> list_all is_digit_char ds \<and> - (2 ^ 63) \<le> i \<and> i < 2 ^ 63 then Some (of_int i) else None)"

definition digit_chars :: "char set" where
  "digit_chars = set ''0123456789''"

definition bump_if :: "char set \<Rightarrow> JsonParser \<Rightarrow> JsonParser" where
  "bump_if cs ps = (if peek_in ps cs then bump 1 ps else ps)"

text \<open>At least one digit.\<close>

definition need_digits :: "JsonParser \<Rightarrow> JsonParser jres" where
  "need_digits ps =
     (if peek_in ps digit_chars then Inr (skip_while digit_chars ps) else json_error ''invalid JSON number'' (jp_pos ps))"

definition int_part :: "JsonParser \<Rightarrow> JsonParser jres" where
  "int_part ps =
     (if peek_in ps {CHR ''0''} then
        (let ps = bump 1 ps
         in if peek_in ps digit_chars then json_error ''invalid JSON number'' (jp_pos ps) else Inr ps)
      else need_digits ps)"

definition frac_part :: "JsonParser \<Rightarrow> JsonParser jres" where
  "frac_part ps = (if peek_in ps {CHR ''.''} then need_digits (bump 1 ps) else Inr ps)"

definition exp_part :: "JsonParser \<Rightarrow> JsonParser jres" where
  "exp_part ps =
     (if peek_in ps {CHR ''e'', CHR ''E''} then need_digits (bump_if {CHR ''+'', CHR ''-''} (bump 1 ps)) else Inr ps)"

definition json_validate_int_digits_limit :: "JsonParser \<Rightarrow> rstring \<Rightarrow> unit jres" where
  "json_validate_int_digits_limit ps digits =
     (let limit = jp_max_str_digits ps
      in if 0 < sint limit \<and> unat limit < length digits then
           Inl (JsonParseError
             (str ''ValueError: Exceeds the limit ('' @ nat_dec (unat limit) @
              str '' digits) for integer string conversion: value has '' @ nat_dec (length digits) @
              str '' digits; use sys.set_int_max_str_digits() to increase the limit'') (jp_pos ps))
         else Inr ())"

definition number_node :: "rstring \<Rightarrow> JsonParser \<Rightarrow> JsonNode jres" where
  "number_node txt ps =
     (if set txt \<inter> chr ` {CHR ''.'', CHR ''e'', CHR ''E''} \<noteq> {} then
        (case parse_f64 txt of
           None \<Rightarrow> json_error ''invalid JSON number'' (jp_pos ps)
         | Some v \<Rightarrow> Inr (JFloat v))
      else case parse_i64 txt of
          Some v \<Rightarrow> Inr (JInt v)
        | None \<Rightarrow>
            let negative = (txt \<noteq> [] \<and> hd txt = 45); digits = (if negative then tl txt else txt)
            in bindr (json_validate_int_digits_limit ps digits) (\<lambda>_.
               case from_str_radix digits 10 of
                 None \<Rightarrow> json_error ''invalid JSON number'' (jp_pos ps)
               | Some v \<Rightarrow> Inr (JBigInt (if negative then negated v else v))))"

definition json_parse_number :: "JsonParser \<Rightarrow> (JsonNode \<times> JsonParser) jres" where
  "json_parse_number start =
     bindr (int_part (bump_if {CHR ''-''} start)) (\<lambda>ps.
     bindr (frac_part ps) (\<lambda>ps.
     bindr (exp_part ps) (\<lambda>ps.
     case from_utf8 (take (jp_pos ps - jp_pos start) (drop (jp_pos start) (jp_source ps))) of
       None \<Rightarrow> json_error ''invalid JSON number'' (jp_pos ps)
     | Some txt \<Rightarrow> bindr (number_node txt ps) (\<lambda>node. Inr (node, ps)))))"

lemma bump_if_ahead: "ahead ps (bump_if cs ps)"
  using peek_in_peek peek_ahead by (auto simp: bump_if_def)

lemma need_digits_ahead: "need_digits ps = Inr ps' \<Longrightarrow> ahead ps ps'"
  using skip_while_ahead by (auto simp: need_digits_def json_error_def split: if_splits)

lemma peek_in_ahead: "peek_in ps cs \<Longrightarrow> ahead ps (bump 1 ps)"
  using peek_in_peek peek_ahead by blast

lemma number_parts_ahead:
  "int_part ps = Inr ps' \<Longrightarrow> ahead ps ps'"
  "frac_part ps = Inr ps' \<Longrightarrow> ahead ps ps'"
  "exp_part ps = Inr ps' \<Longrightarrow> ahead ps ps'"
  using peek_in_ahead need_digits_ahead bump_if_ahead ahead_trans
  by (simp_all add: int_part_def frac_part_def exp_part_def Let_def json_error_def split: if_splits, blast+)

lemma json_parse_number_ahead:
  assumes "json_parse_number ps = Inr (node, ps')"
  shows "ahead ps ps'"
proof -
  obtain ps1 ps2 where "int_part (bump_if {CHR ''-''} ps) = Inr ps1" "frac_part ps1 = Inr ps2" "exp_part ps2 = Inr ps'"
    using assms by (auto simp: json_parse_number_def json_error_def split: option.splits)
  then have "ahead (bump_if {CHR ''-''} ps) ps1" "ahead ps1 ps2" "ahead ps2 ps'" by (simp_all add: number_parts_ahead)
  then show ?thesis using bump_if_ahead ahead_trans by blast
qed

section \<open>Values\<close>

definition parse_literal :: "string \<Rightarrow> JsonNode \<Rightarrow> JsonParser \<Rightarrow> (JsonNode \<times> JsonParser) jres" where
  "parse_literal txt node ps =
     (if starts_with ps txt then Inr (node, bump (length txt) ps) else json_error ''Expecting value'' (jp_pos ps))"

definition f64_neg_inf :: f64 where
  "f64_neg_inf = 0xFFF0000000000000"

definition f64_pos_inf :: f64 where
  "f64_pos_inf = 0x7FF0000000000000"

definition f64_nan :: f64 where
  "f64_nan = 0x7FF8000000000000"

text \<open>The values that are not arrays or objects, by their first byte.\<close>

definition parse_scalar :: "u8 \<Rightarrow> JsonParser \<Rightarrow> (JsonNode \<times> JsonParser) jres" where
  "parse_scalar b ps =
     (if b = byte CHR ''n'' then parse_literal ''null'' JNull ps
      else if b = byte CHR ''t'' then parse_literal ''true'' (JBool True) ps
      else if b = byte CHR ''f'' then parse_literal ''false'' (JBool False) ps
      else if b = byte CHR ''N'' then parse_literal ''NaN'' (JFloat f64_nan) ps
      else if b = byte CHR ''I'' then parse_literal ''Infinity'' (JFloat f64_pos_inf) ps
      else if b = byte CHR 0x22 then bindr (json_parse_string ps) (\<lambda>(s, ps). Inr (JString s, ps))
      else if b \<in> byte ` insert CHR ''-'' digit_chars then json_parse_number ps
      else json_error ''Expecting value'' (jp_pos ps))"

text \<open>What follows a member: another one, the end, or an error. \<open>close\<close> is the closing bracket.\<close>

datatype member_end = NextMember nat JsonParser | LastMember JsonParser

definition after_member :: "char \<Rightarrow> string \<Rightarrow> JsonParser \<Rightarrow> member_end jres" where
  "after_member close msg ps =
     (case json_next (skip_ws ps) of
        None \<Rightarrow> json_error (''Expecting '' @ [CHR 0x27] @ '','' @ [CHR 0x27] @ '' delimiter'') (jp_pos (skip_ws ps))
      | Some (b, ps) \<Rightarrow>
          if b = byte CHR '','' then
            (let ps' = skip_ws ps
             in if json_peek ps' = None then json_error msg (jp_pos ps') else Inr (NextMember (jp_pos ps - 1) ps'))
          else if b = byte close then Inr (LastMember ps)
          else json_error (''Expecting '' @ [CHR 0x27] @ '','' @ [CHR 0x27] @ '' delimiter'') (jp_pos ps - 1))"

definition member_key :: "JsonParser \<Rightarrow> (rstring \<times> JsonParser) jres" where
  "member_key ps =
     (if \<not> peek_in ps {CHR 0x22} then json_error ''Expecting property name enclosed in double quotes'' (jp_pos ps)
      else bindr (json_parse_string ps) (\<lambda>(key, ps).
      bindr (json_expect CHR '':'' (''Expecting '' @ [CHR 0x27] @ '':'' @ [CHR 0x27] @ '' delimiter'') (skip_ws ps)) (\<lambda>ps.
      let ps = skip_ws ps in
      if json_peek ps = None then json_error ''Expecting value'' (jp_pos ps) else Inr (key, ps))))"

lemma skip_ws_ahead: "ahead ps (skip_ws ps)"
  by (simp add: skip_ws_def skip_while_ahead)

lemma parse_scalar_ahead: "parse_scalar b ps = Inr (node, ps') \<Longrightarrow> ahead ps ps'"
  by (auto simp: parse_scalar_def parse_literal_def json_error_def
      split: if_splits dest: starts_with_ahead json_parse_number_ahead consumes_ahead [OF json_parse_string_consumes])

fun member_rest :: "member_end \<Rightarrow> JsonParser" where
  "member_rest (NextMember comma ps) = ps"
| "member_rest (LastMember ps) = ps"

lemma after_member_consumes:
  assumes "after_member close msg ps = Inr r"
  shows "consumes ps (member_rest r)"
proof -
  obtain b ps1 where n: "json_next (skip_ws ps) = Some (b, ps1)"
    using assms by (auto simp: after_member_def json_error_def split: option.splits)
  have "consumes ps ps1" using then_consumes [OF skip_ws_ahead next_consumes [OF n]] .
  moreover have "member_rest r = ps1 \<or> member_rest r = skip_ws ps1"
    using assms n by (auto simp: after_member_def json_error_def Let_def split: if_splits)
  ultimately show ?thesis using consumes_then [OF _ skip_ws_ahead] by metis
qed

lemma member_key_consumes:
  assumes "member_key ps = Inr (key, ps')"
  shows "consumes ps ps'"
proof -
  obtain ps1 ps2 msg where k: "json_parse_string ps = Inr (key, ps1)" "ps' = skip_ws ps2"
    "json_expect CHR '':'' msg (skip_ws ps1) = Inr ps2"
    using assms by (fastforce simp: member_key_def json_error_def Let_def split: if_splits)
  have "ahead ps1 ps2" using ahead_trans [OF skip_ws_ahead consumes_ahead [OF expect_consumes [OF k(3)]]] .
  then show ?thesis
    unfolding k(2) using json_parse_string_consumes [OF k(1)] skip_ws_ahead ahead_trans consumes_then by blast
qed

datatype entered = EmptyContainer JsonParser | Inside JsonParser

definition enter_container :: "char \<Rightarrow> char \<Rightarrow> JsonParser \<Rightarrow> entered jres" where
  "enter_container opening close ps =
     bindr (json_expect opening ''Expecting value'' ps) (\<lambda>ps.
     let ps = skip_ws ps in Inr (if peek_in ps {close} then EmptyContainer (bump 1 ps) else Inside ps))"

fun entered_rest :: "entered \<Rightarrow> JsonParser" where
  "entered_rest (EmptyContainer ps) = ps"
| "entered_rest (Inside ps) = ps"

lemma enter_container_consumes: "enter_container opening close ps = Inr r \<Longrightarrow> consumes ps (entered_rest r)"
  using peek_in_ahead skip_ws_ahead consumes_then
  by (auto simp: enter_container_def Let_def dest!: expect_consumes split: if_splits) blast+

lemma infinity_ahead: "starts_with ps ''-Infinity'' \<Longrightarrow> ahead ps (bump 9 ps)"
  using starts_with_ahead [of ps "''-Infinity''"] by (simp add: numeral_eq_Suc)

lemma consumes_measure: "consumes a b \<Longrightarrow> jp_depth_limit b = jp_depth_limit a \<and> bytes_left b < bytes_left a"
  by (auto simp: consumes_def dest: ahead_same)

lemma enter_container_measure:
  "enter_container opening close (skip_ws ps) = Inr (Inside ps') \<Longrightarrow> jp_depth_limit ps' = jp_depth_limit ps \<and> bytes_left ps' < bytes_left ps"
  using consumes_measure [OF then_consumes [OF skip_ws_ahead]] enter_container_consumes by fastforce

text \<open>
  The descent. One call of \<open>parse_value\<close> per value, one round of a loop per member; the limit
  bounds the depth and the rest of the source the number of rounds.
\<close>

function (domintros)
  parse_value :: "nat \<Rightarrow> JsonParser \<Rightarrow> (JsonNode \<times> JsonParser) jres" and
  array_loop :: "nat \<Rightarrow> nat option \<Rightarrow> JsonNode list \<Rightarrow> JsonParser \<Rightarrow> (JsonNode \<times> JsonParser) jres" and
  object_loop :: "nat \<Rightarrow> nat option \<Rightarrow> (rstring \<times> JsonNode) list \<Rightarrow> JsonParser \<Rightarrow> (JsonNode \<times> JsonParser) jres"
where
  "parse_value depth ps =
     (if jp_depth_limit ps \<le> depth then json_error ''maximum recursion depth exceeded'' (jp_pos ps)
      else let ps = skip_ws ps in
      if starts_with ps ''-Infinity'' then Inr (JFloat f64_neg_inf, bump 9 ps)
      else case json_peek ps of
          None \<Rightarrow> json_error ''Expecting value'' (jp_pos ps)
        | Some b \<Rightarrow>
            if b = byte CHR ''['' then
              bindr (enter_container CHR ''['' CHR '']'' ps) (\<lambda>r.
              case r of EmptyContainer ps \<Rightarrow> Inr (JArray [], ps) | Inside ps \<Rightarrow> array_loop (depth + 1) None [] ps)
            else if b = byte CHR ''{'' then
              bindr (enter_container CHR ''{'' CHR ''}'' ps) (\<lambda>r.
              case r of EmptyContainer ps \<Rightarrow> Inr (JObject [], ps) | Inside ps \<Rightarrow> object_loop (depth + 1) None [] ps)
            else parse_scalar b ps)"
| "array_loop depth comma vs ps =
     (case (if peek_in ps {CHR '']''} then comma else None) of
        Some pos \<Rightarrow> json_error ''Illegal trailing comma before end of array'' pos
      | None \<Rightarrow>
          bindr (parse_value depth ps) (\<lambda>(v, ps).
          bindr (after_member CHR '']'' ''Expecting value'' ps) (\<lambda>r.
          case r of
            NextMember comma ps \<Rightarrow> array_loop depth (Some comma) (vs @ [v]) ps
          | LastMember ps \<Rightarrow> Inr (JArray (vs @ [v]), ps))))"
| "object_loop depth comma vs ps =
     (case (if peek_in ps {CHR ''}''} then comma else None) of
        Some pos \<Rightarrow> json_error ''Illegal trailing comma before end of object'' pos
      | None \<Rightarrow>
          bindr (member_key ps) (\<lambda>(key, ps).
          bindr (parse_value depth ps) (\<lambda>(v, ps).
          bindr (after_member CHR ''}'' ''Expecting property name enclosed in double quotes'' ps) (\<lambda>r.
          case r of
            NextMember comma ps \<Rightarrow> object_loop depth (Some comma) (vs @ [(key, v)]) ps
          | LastMember ps \<Rightarrow> Inr (JObject (vs @ [(key, v)]), ps)))))"
  by pat_completeness auto

text \<open>Where they return, they have moved forward.\<close>

lemma parse_value_moves:
  "parse_value_array_loop_object_loop_dom (Inl (depth, ps)) \<Longrightarrow> parse_value depth ps = Inr (v, ps') \<Longrightarrow> ahead ps ps'"
  "parse_value_array_loop_object_loop_dom (Inr (Inl (depth, comma, vs, ps))) \<Longrightarrow> array_loop depth comma vs ps = Inr (v, ps') \<Longrightarrow> ahead ps ps'"
  "parse_value_array_loop_object_loop_dom (Inr (Inr (depth, comma, os, ps))) \<Longrightarrow> object_loop depth comma os ps = Inr (v, ps') \<Longrightarrow> ahead ps ps'"
proof (induction depth ps and depth comma vs ps and depth comma os ps arbitrary: v ps' and v ps' and v ps' rule: parse_value_array_loop_object_loop.pinduct)
  case (1 depth ps)
  let ?ps = "skip_ws ps"
  have w: "ahead ps ?ps" by (rule skip_ws_ahead)
  have lim: "\<not> jp_depth_limit ps \<le> depth"
    using 1(4) unfolding parse_value.psimps [OF 1(1)] by (auto simp: json_error_def split: if_splits)
  have "ahead ?ps ps'"
  proof (cases "starts_with ?ps ''-Infinity''")
    case True
    then show ?thesis using 1(4) lim infinity_ahead [OF True] unfolding parse_value.psimps [OF 1(1)] by simp
  next
    case False
    then obtain b where b: "json_peek ?ps = Some b"
      using 1(4) lim unfolding parse_value.psimps [OF 1(1)] by (auto simp: json_error_def Let_def split: option.splits)
    consider (scalar) "parse_scalar b ?ps = Inr (v, ps')"
      | (empty) lb rb where "enter_container lb rb ?ps = Inr (EmptyContainer ps')"
      | (array) l where "b = byte CHR ''[''" "enter_container CHR ''['' CHR '']'' ?ps = Inr (Inside l)" "array_loop (depth + 1) None [] l = Inr (v, ps')"
      | (object) l where "b \<noteq> byte CHR ''[''" "b = byte CHR ''{''" "enter_container CHR ''{'' CHR ''}'' ?ps = Inr (Inside l)" "object_loop (depth + 1) None [] l = Inr (v, ps')"
      using 1(4) lim False b unfolding parse_value.psimps [OF 1(1)] by (auto simp: Let_def split: if_splits entered.splits)
    then show ?thesis
    proof cases
      case array
      show ?thesis
        using 1(2) [OF lim refl False b array(1,2) refl array(3)] consumes_ahead [OF enter_container_consumes [OF array(2)]] ahead_trans by auto
    next
      case object
      show ?thesis
        using 1(3) [OF lim refl False b object(1,2,3) refl object(4)] consumes_ahead [OF enter_container_consumes [OF object(3)]] ahead_trans by auto
    qed (auto dest: parse_scalar_ahead consumes_ahead [OF enter_container_consumes])
  qed
  then show ?case using w ahead_trans by blast
next
  case (2 depth comma vs ps)
  obtain w ps1 r where p: "parse_value depth ps = Inr (w, ps1)" "after_member CHR '']'' ''Expecting value'' ps1 = Inr r"
    and c: "(if peek_in ps {CHR '']''} then comma else None) = None"
    using 2(4) unfolding array_loop.psimps [OF 2(1)] by (auto simp: json_error_def split: option.splits)
  have "ahead ps ps1" using 2(2) [OF c p(1)] .
  moreover have "ahead ps1 (member_rest r)" using consumes_ahead [OF after_member_consumes [OF p(2)]] .
  moreover have "ahead (member_rest r) ps'"
    using 2(4) p c 2(3) [OF c p(1) refl p(2)] unfolding array_loop.psimps [OF 2(1)]
    by (cases r) auto
  ultimately show ?case using ahead_trans by blast
next
  case (3 depth comma os ps)
  obtain key ps0 w ps1 r where k: "member_key ps = Inr (key, ps0)" and p: "parse_value depth ps0 = Inr (w, ps1)"
    "after_member CHR ''}'' ''Expecting property name enclosed in double quotes'' ps1 = Inr r"
    and c: "(if peek_in ps {CHR ''}''} then comma else None) = None"
    using 3(4) unfolding object_loop.psimps [OF 3(1)] by (auto simp: json_error_def split: option.splits)
  have "ahead ps ps0" using consumes_ahead [OF member_key_consumes [OF k]] .
  moreover have "ahead ps0 ps1" using 3(2) [OF c k refl p(1)] .
  moreover have "ahead ps1 (member_rest r)" using consumes_ahead [OF after_member_consumes [OF p(2)]] .
  moreover have "ahead (member_rest r) ps'"
    using 3(4) k p c 3(3) [OF c k refl p(1) refl p(2)] unfolding object_loop.psimps [OF 3(1)]
    by (cases r) auto
  ultimately show ?case using ahead_trans by blast
qed

lemma member_measure:
  assumes "parse_value_array_loop_object_loop_dom (Inl (depth, ps))" "parse_value depth ps = Inr (v, ps1)"
    "after_member close msg ps1 = Inr (NextMember comma ps2)"
  shows "jp_depth_limit ps2 = jp_depth_limit ps \<and> bytes_left ps2 < bytes_left ps"
  using consumes_measure [OF then_consumes [OF parse_value_moves(1) [OF assms(1,2)] after_member_consumes [OF assms(3)]]] by simp

lemma parse_terminates: "All parse_value_array_loop_object_loop_dom"
proof (rule "parse_value_array_loop_object_loop.termination" [of "measures [\<lambda>x. case x of Inl (d, ps) \<Rightarrow> jp_depth_limit ps - d | Inr (Inl (d, c, vs, ps)) \<Rightarrow> jp_depth_limit ps - d | Inr (Inr (d, c, vs, ps)) \<Rightarrow> jp_depth_limit ps - d,
     \<lambda>x. case x of Inl (d, ps) \<Rightarrow> bytes_left ps | Inr (Inl (d, c, vs, ps)) \<Rightarrow> bytes_left ps | Inr (Inr (d, c, vs, ps)) \<Rightarrow> bytes_left ps,
     \<lambda>x. case x of Inl _ \<Rightarrow> 0 | Inr _ \<Rightarrow> 1]"], goal_cases)
qed (auto dest!: enter_container_measure member_measure consumes_measure [OF member_key_consumes])

termination parse_value
  by (rule parse_terminates)

declare parse_value.simps [simp del] array_loop.simps [simp del] object_loop.simps [simp del]

lemmas parse_moves = parse_value_moves [OF parse_terminates [THEN spec]]

section \<open>Entry points\<close>

definition json_parse :: "JsonParser \<Rightarrow> JsonNode jres" where
  "json_parse ps =
     bindr (parse_value 0 (skip_ws ps)) (\<lambda>(node, ps).
     let ps = skip_ws ps in
     if jp_pos ps \<noteq> length (jp_source ps) then json_error ''Extra data'' (jp_pos ps) else Inr node)"

definition parse_json_node_with_limit_detail :: "i64 \<Rightarrow> rstring \<Rightarrow> nat \<Rightarrow> JsonNode jres" where
  "parse_json_node_with_limit_detail max_digits source limit = json_parse (json_new max_digits source limit)"

definition parse_json_node_from_index_with_limit_detail :: "i64 \<Rightarrow> rstring \<Rightarrow> nat \<Rightarrow> nat \<Rightarrow> (JsonNode \<times> nat) jres" where
  "parse_json_node_from_index_with_limit_detail max_digits source idx limit =
     (if byte_len source < idx then json_error ''Expecting value'' (byte_len source)
      else bindr (parse_value 0 ((json_new max_digits source limit)\<lparr>jp_pos := idx\<rparr>)) (\<lambda>(node, ps). Inr (node, jp_pos ps)))"

text \<open>Positions in characters and in bytes.\<close>

definition utf8_char_index_to_byte :: "rstring \<Rightarrow> nat \<Rightarrow> nat option" where
  "utf8_char_index_to_byte source idx = (if length source < idx then None else Some (byte_len (take idx source)))"

definition utf8_byte_index_to_char :: "rstring \<Rightarrow> nat \<Rightarrow> nat option" where
  "utf8_byte_index_to_char source idx =
     (if byte_len source < idx then None
      else map_option fst (find (\<lambda>(n, b). b = idx) (map (\<lambda>n. (n, byte_len (take n source))) [0..<length source + 1])))"

end
