(* ===== verification/Json_Write.thy ===== *)
theory Json_Write
  imports Json
begin

text \<open>
  The writer of \<^verbatim>\<open>src/vm/stdlib/json.rs\<close> (\<open>json.dumps\<close>) and the text of a float
  (\<open>format_float\<close> of \<^verbatim>\<open>src/runtime/mod.rs\<close>). Lists, tuples and dictionaries are read from
  a heap by their identity, so that cycles and sharing are as in the interpreter. Instances and a
  \<open>default\<close> callback run arbitrary code and are left out; \<open>VOther\<close> is any value the writer rejects.
\<close>

section \<open>Values and the virtual machine\<close>

datatype JValue =
    VNone
  | VBool bool
  | VInt i64
  | VBigInt BigInt
  | VFloat f64
  | VStr rstring
  | VList nat
  | VTuple nat
  | VDict nat
  | VOther rstring

datatype JObject = HList "JValue list" | HTuple "JValue list" | HDict "(JValue \<times> JValue) list" | HOther

text \<open>
  An error: its message, whether it carries an exception object, and the notes added on the way out.
  The errors made from a bare message here have none, the classifier of messages knows neither of them.
\<close>

record DumpsError =
  de_message :: rstring
  de_exception :: bool
  de_notes :: "rstring list"

type_synonym 'a dres = "DumpsError + 'a"

text \<open>
  What the writer uses of the machine: the heap, the recursion limit, the comparison of keys
  (\<open>compare_lt_runtime\<close> and its truth value), and the standard library's \<open>{:?}\<close> of a double.
\<close>

record JsonVm =
  vm_heap :: "nat \<Rightarrow> JObject option"
  vm_recursion_limit :: nat
  vm_less_than :: "JValue \<Rightarrow> JValue \<Rightarrow> bool dres"
  vm_debug_f64 :: "f64 \<Rightarrow> rstring"

record JsonDumpsOptions =
  jo_skipkeys :: bool
  jo_ensure_ascii :: bool
  jo_allow_nan :: bool
  jo_sort_keys :: bool
  jo_item_separator :: rstring
  jo_key_separator :: rstring
  jo_indent :: "rstring option"

definition default_options :: JsonDumpsOptions where
  "default_options =
     \<lparr>jo_skipkeys = False, jo_ensure_ascii = True, jo_allow_nan = True, jo_sort_keys = False,
      jo_item_separator = str '', '', jo_key_separator = str '': '', jo_indent = None\<rparr>"

definition exception_error :: "string \<Rightarrow> rstring \<Rightarrow> 'a dres" where
  "exception_error nm msg = Inl \<lparr>de_message = str nm @ str '': '' @ msg, de_exception = True, de_notes = []\<rparr>"

definition plain_error :: "rstring \<Rightarrow> 'a dres" where
  "plain_error msg = Inl \<lparr>de_message = msg, de_exception = False, de_notes = []\<rparr>"

definition json_append_exception_note :: "rstring \<Rightarrow> DumpsError \<Rightarrow> DumpsError" where
  "json_append_exception_note note err = (if de_exception err then err\<lparr>de_notes := de_notes err @ [note]\<rparr> else err)"

definition with_note :: "rstring \<Rightarrow> 'a dres \<Rightarrow> 'a dres" where
  "with_note note r = (case r of Inl err \<Rightarrow> Inl (json_append_exception_note note err) | Inr x \<Rightarrow> Inr x)"

section \<open>Scalars\<close>

definition encode_utf16 :: "rchar \<Rightarrow> nat list" where
  "encode_utf16 c = (if c < 0x10000 then [c] else [0xD800 + (c - 0x10000) div 1024, 0xDC00 + (c - 0x10000) mod 1024])"

definition unicode_unit :: "nat \<Rightarrow> rstring" where
  "unicode_unit u = [0x5C, chr CHR ''u''] @ format_hex 4 u"

definition json_escape_char :: "bool \<Rightarrow> rchar \<Rightarrow> rstring" where
  "json_escape_char ensure_ascii ch =
     (case surrogate_code_unit_from_internal_char ch of
        Some code_unit \<Rightarrow> if ensure_ascii then unicode_unit (unat code_unit) else [ch]
      | None \<Rightarrow>
          if ch = 0x22 then [0x5C, 0x22]
          else if ch = 0x5C then [0x5C, 0x5C]
          else if ch = 8 then [0x5C, chr CHR ''b'']
          else if ch = 12 then [0x5C, chr CHR ''f'']
          else if ch = 10 then [0x5C, chr CHR ''n'']
          else if ch = 13 then [0x5C, chr CHR ''r'']
          else if ch = 9 then [0x5C, chr CHR ''t'']
          else if ch \<le> 0x1F then unicode_unit ch
          else if ensure_ascii \<and> (0x80 \<le> ch \<or> ch = 0x7F) then concat (map unicode_unit (encode_utf16 ch))
          else [ch])"

definition json_escape_string :: "rstring \<Rightarrow> bool \<Rightarrow> rstring" where
  "json_escape_string txt ensure_ascii = [0x22] @ concat (map (json_escape_char ensure_ascii) txt) @ [0x22]"

definition is_nan :: "f64 \<Rightarrow> bool" where
  "is_nan x \<longleftrightarrow> f64_exponent x = 0x7ff \<and> f64_mantissa x \<noteq> 0"

definition json_nonfinite_float_json_literal :: "f64 \<Rightarrow> string option" where
  "json_nonfinite_float_json_literal x =
     (if is_nan x then Some ''NaN''
      else if \<not> is_finite x then Some (if f64_sign_bit x then ''-Infinity'' else ''Infinity'')
      else None)"

definition json_nonfinite_float_error_literal :: "f64 \<Rightarrow> string option" where
  "json_nonfinite_float_error_literal x =
     (if is_nan x then Some ''nan''
      else if \<not> is_finite x then Some (if f64_sign_bit x then ''-inf'' else ''inf'')
      else None)"

definition int_dec :: "int \<Rightarrow> rstring" where
  "int_dec i = (if i < 0 then str ''-'' @ nat_dec (nat (- i)) else nat_dec (nat i))"

text \<open>\<open>format!("{exponent:+03}")\<close>\<close>

definition format_exponent :: "int \<Rightarrow> rstring" where
  "format_exponent e = [chr (if e < 0 then CHR ''-'' else CHR ''+'')] @ replicate (2 - length (nat_dec (nat \<bar>e\<bar>))) 48 @ nat_dec (nat \<bar>e\<bar>)"

definition format_float :: "(f64 \<Rightarrow> rstring) \<Rightarrow> f64 \<Rightarrow> rstring" where
  "format_float debug x =
     (if is_nan x then str ''nan''
      else if \<not> is_finite x then str (if f64_sign_bit x then ''-inf'' else ''inf'')
      else
        let txt = debug x;
            txt = (case splitn 2 (chr CHR ''e'') txt of
                     [mantissa, exponent] \<Rightarrow>
                       (case parse_exp (chr CHR ''e'' # exponent) of
                          Some e \<Rightarrow> if - (2 ^ 31) \<le> e \<and> e < 2 ^ 31 then mantissa @ str ''e'' @ format_exponent e else txt
                        | None \<Rightarrow> txt)
                   | _ \<Rightarrow> txt)
        in if set txt \<inter> chr ` {CHR ''.'', CHR ''e'', CHR ''E''} = {} then txt @ str ''.0'' else txt)"

definition json_format_finite_float :: "JsonVm \<Rightarrow> f64 \<Rightarrow> rstring" where
  "json_format_finite_float vm x = format_float (vm_debug_f64 vm) x"

definition json_float :: "JsonVm \<Rightarrow> JsonDumpsOptions \<Rightarrow> f64 \<Rightarrow> rstring dres" where
  "json_float vm options x =
     (if is_finite x then Inr (json_format_finite_float vm x)
      else if jo_allow_nan options then Inr (str (the (json_nonfinite_float_json_literal x)))
      else exception_error ''ValueError''
        (str ''Out of range float values are not JSON compliant: '' @ str (the (json_nonfinite_float_error_literal x))))"

fun json_type_name :: "JValue \<Rightarrow> rstring" where
  "json_type_name VNone = str ''NoneType''"
| "json_type_name (VBool b) = str ''bool''"
| "json_type_name (VInt v) = str ''int''"
| "json_type_name (VBigInt v) = str ''int''"
| "json_type_name (VFloat v) = str ''float''"
| "json_type_name (VStr v) = str ''str''"
| "json_type_name (VList v) = str ''list''"
| "json_type_name (VTuple v) = str ''tuple''"
| "json_type_name (VDict v) = str ''dict''"
| "json_type_name (VOther nm) = nm"

text \<open>The key of a member as a string; \<open>None\<close> when it is skipped.\<close>

fun json_encode_object_key :: "JsonVm \<Rightarrow> JsonDumpsOptions \<Rightarrow> JValue \<Rightarrow> rstring option dres" where
  "json_encode_object_key vm options (VStr txt) = Inr (Some txt)"
| "json_encode_object_key vm options (VInt v) = Inr (Some (int_dec (sint v)))"
| "json_encode_object_key vm options (VBigInt v) = Inr (Some (bigint_to_string v))"
| "json_encode_object_key vm options (VFloat x) = bindr (json_float vm options x) (\<lambda>s. Inr (Some s))"
| "json_encode_object_key vm options (VBool b) = Inr (Some (str (if b then ''true'' else ''false'')))"
| "json_encode_object_key vm options VNone = Inr (Some (str ''null''))"
| "json_encode_object_key vm options key =
     (if jo_skipkeys options then Inr None
      else exception_error ''TypeError'' (str ''keys must be str, int, float, bool or None, not '' @ json_type_name key))"

section \<open>Containers\<close>

definition json_enter_marker :: "nat \<Rightarrow> nat set \<Rightarrow> nat set dres" where
  "json_enter_marker marker_id markers =
     (if marker_id \<in> markers then exception_error ''ValueError'' (str ''Circular reference detected'')
      else Inr (insert marker_id markers))"

text \<open>All of a list, or the first error.\<close>

fun try_each :: "(nat \<Rightarrow> 'a \<Rightarrow> 'e + 'b) \<Rightarrow> nat \<Rightarrow> 'a list \<Rightarrow> 'e + 'b list" where
  "try_each f i [] = Inr []"
| "try_each f i (x # xs) = bindr (f i x) (\<lambda>y. bindr (try_each f (i + 1) xs) (\<lambda>ys. Inr (y # ys)))"

lemma try_each_cong [fundef_cong]:
  assumes "i = j" "xs = ys" "\<And>i x. x \<in> set ys \<Longrightarrow> f i x = g i x"
  shows "try_each f i xs = try_each g j ys"
  using assms(3) unfolding assms(1,2) by (induction ys arbitrary: j) (auto intro: bindr_cong)

type_synonym jitem = "JValue \<times> rstring \<times> JValue"

fun mapped_items :: "JsonVm \<Rightarrow> JsonDumpsOptions \<Rightarrow> (JValue \<times> JValue) list \<Rightarrow> jitem list dres" where
  "mapped_items vm options [] = Inr []"
| "mapped_items vm options ((key, v) # entries) =
     bindr (json_encode_object_key vm options key) (\<lambda>encoded.
     bindr (mapped_items vm options entries) (\<lambda>rest.
     Inr (case encoded of Some s \<Rightarrow> (key, s, v) # rest | None \<Rightarrow> rest)))"

text \<open>One round of the insertion sort: the new item sinks through the sorted ones, the last one first.\<close>

fun sink :: "('a \<Rightarrow> 'a \<Rightarrow> 'e + bool) \<Rightarrow> 'a \<Rightarrow> 'a list \<Rightarrow> 'e + 'a list" where
  "sink lt x [] = Inr [x]"
| "sink lt x (y # ys) = bindr (lt x y) (\<lambda>b. if b then bindr (sink lt x ys) (\<lambda>r. Inr (y # r)) else Inr (x # y # ys))"

fun sort_loop :: "('a \<Rightarrow> 'a \<Rightarrow> 'e + bool) \<Rightarrow> 'a list \<Rightarrow> 'a list \<Rightarrow> 'e + 'a list" where
  "sort_loop lt placed [] = Inr (rev placed)"
| "sort_loop lt placed (x # xs) = bindr (sink lt x placed) (\<lambda>placed. sort_loop lt placed xs)"

definition json_sort_object_items :: "JsonVm \<Rightarrow> jitem list \<Rightarrow> jitem list dres" where
  "json_sort_object_items vm items = sort_loop (\<lambda>a b. vm_less_than vm (fst a) (fst b)) [] items"

definition repeat_text :: "rstring \<Rightarrow> nat \<Rightarrow> rstring" where
  "repeat_text s n = concat (replicate n s)"

fun join :: "rstring \<Rightarrow> rstring list \<Rightarrow> rstring" where
  "join sep [] = []"
| "join sep [p] = p"
| "join sep (p # q # ps) = p @ sep @ join sep (q # ps)"

text \<open>The text of a container from those of its members.\<close>

definition layout :: "JsonDumpsOptions \<Rightarrow> nat \<Rightarrow> char \<Rightarrow> char \<Rightarrow> rstring list \<Rightarrow> rstring" where
  "layout options depth lb rb parts =
     (case jo_indent options of
        Some indent_unit \<Rightarrow>
          (case parts of
             [] \<Rightarrow> str [lb, rb]
           | first # rest \<Rightarrow>
               let child_indent = repeat_text indent_unit (depth + 1); parent_indent = repeat_text indent_unit depth
               in str [lb] @ [10] @ child_indent @ first @
                  concat (map (\<lambda>part. jo_item_separator options @ [10] @ child_indent @ part) rest) @
                  [10] @ parent_indent @ str [rb])
      | None \<Rightarrow> str [lb] @ join (jo_item_separator options) parts @ str [rb])"

definition unsupported_type :: "rstring dres" where
  "unsupported_type = plain_error (str ''json unsupported type'')"

definition item_note :: "string \<Rightarrow> nat \<Rightarrow> rstring" where
  "item_note kind index = str (''when serializing '' @ kind @ '' item '') @ nat_dec index"

text \<open>
  The markers are those of the containers around the value: a container adds its own and takes it
  away again, whether its members succeed or not.
\<close>

function json_serialize_value_at_depth ::
  "JsonVm \<Rightarrow> JsonDumpsOptions \<Rightarrow> nat \<Rightarrow> nat set \<Rightarrow> JValue \<Rightarrow> rstring dres" where
  "json_serialize_value_at_depth vm options depth markers v =
     (if vm_recursion_limit vm \<le> depth then exception_error ''RecursionError'' (str ''maximum recursion depth exceeded'')
      else case v of
          VNone \<Rightarrow> Inr (str ''null'')
        | VBool b \<Rightarrow> Inr (str (if b then ''true'' else ''false''))
        | VInt i \<Rightarrow> Inr (int_dec (sint i))
        | VBigInt i \<Rightarrow> Inr (bigint_to_string i)
        | VFloat x \<Rightarrow> json_float vm options x
        | VStr s \<Rightarrow> Inr (json_escape_string s (jo_ensure_ascii options))
        | VList obj \<Rightarrow>
            bindr (json_enter_marker obj markers) (\<lambda>markers.
            case vm_heap vm obj of
              Some (HList vs) \<Rightarrow>
                bindr (try_each (\<lambda>index v. with_note (item_note ''list'' index)
                        (json_serialize_value_at_depth vm options (depth + 1) markers v)) 0 vs) (\<lambda>parts.
                Inr (layout options depth CHR ''['' CHR '']'' parts))
            | _ \<Rightarrow> unsupported_type)
        | VTuple obj \<Rightarrow>
            bindr (json_enter_marker obj markers) (\<lambda>markers.
            case vm_heap vm obj of
              Some (HTuple vs) \<Rightarrow>
                bindr (try_each (\<lambda>index v. with_note (item_note ''tuple'' index)
                        (json_serialize_value_at_depth vm options (depth + 1) markers v)) 0 vs) (\<lambda>parts.
                Inr (layout options depth CHR ''['' CHR '']'' parts))
            | _ \<Rightarrow> unsupported_type)
        | VDict obj \<Rightarrow>
            bindr (json_enter_marker obj markers) (\<lambda>markers.
            case vm_heap vm obj of
              Some (HDict entries) \<Rightarrow>
                bindr (mapped_items vm options entries) (\<lambda>mapped.
                bindr (if jo_sort_keys options then json_sort_object_items vm mapped else Inr mapped) (\<lambda>mapped.
                bindr (try_each (\<lambda>index (raw_key, key, v).
                        bindr (with_note (str ''when serializing dict item '' @ format_repr_string key)
                          (json_serialize_value_at_depth vm options (depth + 1) markers v)) (\<lambda>encoded.
                        Inr (json_escape_string key (jo_ensure_ascii options) @ jo_key_separator options @ encoded))) 0 mapped) (\<lambda>parts.
                Inr (layout options depth CHR ''{'' CHR ''}'' parts))))
            | _ \<Rightarrow> unsupported_type)
        | VOther nm \<Rightarrow> plain_error (str ''Object of type '' @ nm @ str '' is not JSON serializable''))"
  by pat_completeness auto
termination
  by (relation "measure (\<lambda>(vm, options, depth, markers, v). vm_recursion_limit vm - depth)") auto

declare json_serialize_value_at_depth.simps [simp del]

definition json_serialize_value :: "JsonVm \<Rightarrow> JsonDumpsOptions \<Rightarrow> JValue \<Rightarrow> rstring dres" where
  "json_serialize_value vm options v = json_serialize_value_at_depth vm options 0 {} v"

end
