(* ===== verification/Json_Strings.thy ===== *)
theory Json_Strings
  imports Json_Write
begin

text \<open>Strings written by the JSON writer are read back by the JSON parser.\<close>

section \<open>Text ahead of the parser\<close>

definition at :: "JsonParser \<Rightarrow> u8 list \<Rightarrow> bool" where
  "at ps bs \<longleftrightarrow> jp_pos ps \<le> length (jp_source ps) \<and> drop (jp_pos ps) (jp_source ps) = bs"

lemma at_Cons:
  assumes "at ps (b # bs)"
  shows "json_peek ps = Some b" "json_next ps = Some (b, bump 1 ps)" "at (bump 1 ps) bs"
proof -
  have d: "drop (jp_pos ps) (jp_source ps) = b # bs" using assms by (simp add: at_def)
  then have l: "jp_pos ps < length (jp_source ps)" using drop_eq_Nil2 by (metis leI list.distinct(1))
  then show p: "json_peek ps = Some b" using d by (simp add: json_peek_def) (metis nth_via_drop)
  then show "json_next ps = Some (b, bump 1 ps)" by (simp add: json_next_def)
  show "at (bump 1 ps) bs" using d l by (simp add: at_def) (metis drop_Suc list.sel(3) tl_drop)
qed

lemma at_Nil: "at ps [] \<Longrightarrow> json_peek ps = None"
  by (simp add: at_def json_peek_def)

lemma at_append: "at ps (xs @ ys) \<Longrightarrow> at (bump (length xs) ps) ys"
proof (induction xs arbitrary: ps)
  case (Cons x xs)
  then have "at (bump 1 ps) (xs @ ys)" using at_Cons(3) by simp
  from Cons.IH [OF this] show ?case by simp
qed simp

lemma at_starts_with: "at ps bs \<Longrightarrow> starts_with ps txt \<longleftrightarrow> take (length txt) bs = map byte txt"
  by (simp add: at_def starts_with_def)

lemma as_bytes_Nil [simp]: "as_bytes [] = []"
  by (simp add: as_bytes_def)

lemma as_bytes_Cons: "as_bytes (c # s) = utf8_char c @ as_bytes s"
  by (simp add: as_bytes_def)

lemma as_bytes_append [simp]: "as_bytes (s @ t) = as_bytes s @ as_bytes t"
  by (simp add: as_bytes_def)

lemma as_bytes_ascii: "\<forall>c \<in> set s. c < 128 \<Longrightarrow> as_bytes s = map of_nat s"
  by (induction s) (simp_all add: as_bytes_Cons utf8_char_def)

section \<open>Hexadecimal\<close>

lemma hex_value_hex_char:
  assumes "d < 16"
  shows "hex_value (of_nat (hex_char d)) = Some (of_nat d)"
proof -
  have "list_all (\<lambda>d. hex_value (of_nat (hex_char d)) = Some (of_nat d)) [0..<16]" by code_simp
  then show ?thesis using assms by (simp add: list_all_iff)
qed

lemma hex_char_ascii: "d < 16 \<Longrightarrow> hex_char d < 128"
  by (simp add: hex_char_def)

lemma format_hex_4:
  assumes "n < 65536"
  shows "format_hex 4 n = map hex_char [n div 4096, n div 256 mod 16, n div 16 mod 16, n mod 16]"
proof -
  have e: "n div 16 div 16 = n div 256" "n div 256 div 16 = n div 4096" by (simp_all add: div_mult2_eq [symmetric])
  have s: "m < 16 \<Longrightarrow> hex_digits m = [hex_char m]" "16 \<le> m \<Longrightarrow> hex_digits m = hex_digits (m div 16) @ [hex_char (m mod 16)]" for m
    by (simp_all add: hex_digits.simps)
  consider "n < 16" | "16 \<le> n" "n < 256" | "256 \<le> n" "n < 4096" | "4096 \<le> n" by linarith
  then have "hex_digits n =
     (if n < 16 then [hex_char n]
      else if n < 256 then map hex_char [n div 16, n mod 16]
      else if n < 4096 then map hex_char [n div 256, n div 16 mod 16, n mod 16]
      else map hex_char [n div 4096, n div 256 mod 16, n div 16 mod 16, n mod 16])"
  proof cases
    case 2
    then have "n div 16 < 16" by simp
    then show ?thesis using 2 s(2) [of n] s(1) [of "n div 16"] by simp
  next
    case 3
    then have "n div 256 < 16" "16 \<le> n div 16" by simp_all
    then show ?thesis using 3 s(2) [of n] s(2) [of "n div 16"] s(1) [of "n div 256"] by (simp add: e)
  next
    case 4
    then have "n div 4096 < 16" "16 \<le> n div 256" "16 \<le> n div 16" using assms by simp_all
    then show ?thesis using 4 s(2) [of n] s(2) [of "n div 16"] s(2) [of "n div 256"] s(1) [of "n div 4096"] by (simp add: e)
  qed (simp add: s)
  moreover have "replicate 3 x = [x, x, x]" "replicate 2 x = [x, x]" for x :: nat by (simp_all add: numeral_eq_Suc)
  ultimately show ?thesis by (auto simp: format_hex_def Let_def hex_char_def)
qed

lemma hex_u16_loop_digits:
  assumes "at ps (map (\<lambda>d. of_nat (hex_char d)) ds @ rest)" "\<forall>d \<in> set ds. d < 16"
    "unat v * 16 ^ length ds + 16 ^ length ds \<le> 65536"
  shows "hex_u16_loop (length ds) v ps = Inr (of_nat (foldl (\<lambda>v d. v * 16 + d) (unat v) ds), bump (length ds) ps)"
  using assms
proof (induction ds arbitrary: v ps)
  case (Cons d ds)
  have n: "json_next ps = Some (of_nat (hex_char d), bump 1 ps)" "at (bump 1 ps) (map (\<lambda>d. of_nat (hex_char d)) ds @ rest)"
    using at_Cons [of ps "of_nat (hex_char d)" "map (\<lambda>d. of_nat (hex_char d)) ds @ rest"] Cons.prems(1) by simp_all
  have "16 ^ length ds \<le> (65536 :: nat)" "1 \<le> (16 :: nat) ^ length ds" using Cons.prems(3) by auto
  have small: "unat v * 16 + 16 \<le> 65536"
  proof -
    have "unat v * 16 + 16 \<le> (unat v * 16 + 16) * 16 ^ length ds" by simp
    also have "\<dots> = unat v * 16 ^ length (d # ds) + 16 ^ length (d # ds)" by (simp add: algebra_simps)
    also note Cons.prems(3)
    finally show ?thesis .
  qed
  have d: "d < 16" using Cons.prems(2) by simp
  have v': "unat (push_bit 4 v OR of_nat d :: u16) = unat v * 16 + d"
  proof -
    have "unat (of_nat d :: u16) = d" using d by (simp add: unat_of_nat)
    then show ?thesis using unat_push_or [of "of_nat d :: u16" 4 v] d small by simp
  qed
  have "unat (push_bit 4 v OR of_nat d :: u16) * 16 ^ length ds + 16 ^ length ds \<le> 65536"
  proof -
    have "(unat v * 16 + d) * 16 ^ length ds + 16 ^ length ds = (unat v * 16 + (d + 1)) * 16 ^ length ds" by (simp add: algebra_simps)
    also have "\<dots> \<le> (unat v * 16 + 16) * 16 ^ length ds" using d by (intro mult_le_mono1) simp
    also have "\<dots> = unat v * 16 ^ length (d # ds) + 16 ^ length (d # ds)" by (simp add: algebra_simps)
    also note Cons.prems(3)
    finally show ?thesis by (simp only: v')
  qed
  then show ?case
    using Cons.IH [OF n(2), of "push_bit 4 v OR of_nat d"] Cons.prems(2) n(1) hex_value_hex_char [OF d] v' by simp
qed simp

lemma parse_hex_at:
  assumes "at ps (as_bytes (format_hex 4 u) @ rest)" "u < 65536"
  shows "parse_hex_u16 ps = Inr (of_nat u, bump 4 ps)"
proof -
  let ?ds = "[u div 4096, u div 256 mod 16, u div 16 mod 16, u mod 16]"
  have ds: "\<forall>d \<in> set ?ds. d < 16" using assms(2) by auto
  have "as_bytes (format_hex 4 u) = map (\<lambda>d. of_nat (hex_char d)) ?ds"
    using ds by (subst as_bytes_ascii) (auto simp: format_hex_4 [OF assms(2)] hex_char_ascii)
  moreover have "foldl (\<lambda>v d. v * 16 + d) 0 ?ds = u"
  proof -
    have e: "u div 16 div 16 = u div 256" "u div 256 div 16 = u div 4096" by (simp_all add: div_mult2_eq [symmetric])
    have "u = u div 16 * 16 + u mod 16" "u div 16 = u div 256 * 16 + u div 16 mod 16" "u div 256 = u div 4096 * 16 + u div 256 mod 16"
      using div_mult_mod_eq [of u 16] div_mult_mod_eq [of "u div 16" 16] div_mult_mod_eq [of "u div 256" 16] by (simp_all only: e)
    then show ?thesis by simp
  qed
  moreover have "length ?ds = 4" "unat (0 :: u16) * 16 ^ 4 + 16 ^ 4 \<le> 65536" by simp_all
  ultimately show ?thesis
    using hex_u16_loop_digits [of ps ?ds rest 0] assms(1) ds unfolding parse_hex_u16_def by (simp only: unat_0 simp_thms)
qed

section \<open>One character\<close>

lemma at_as_bytes_Cons: "at ps (as_bytes (c # s) @ rest) \<Longrightarrow> c < 128 \<Longrightarrow> at ps (of_nat c # as_bytes s @ rest)"
  by (simp add: as_bytes_Cons utf8_char_def)

text \<open>The escape of one code unit.\<close>

lemma unicode_unit_bytes: "as_bytes (unicode_unit u) = byte CHR 0x5C # byte CHR ''u'' # as_bytes (format_hex 4 u)"
  by (simp add: unicode_unit_def as_bytes_Cons utf8_char_def byte_def chr_def)

lemma length_format_hex_4: "n < 65536 \<Longrightarrow> length (as_bytes (format_hex 4 n)) = 4"
  by (subst as_bytes_ascii) (auto simp: format_hex_4 hex_char_ascii)

definition high_surrogate :: "nat \<Rightarrow> bool" where
  "high_surrogate u \<longleftrightarrow> 0xD800 \<le> u \<and> u \<le> 0xDBFF"

definition low_surrogate :: "nat \<Rightarrow> bool" where
  "low_surrogate u \<longleftrightarrow> 0xDC00 \<le> u \<and> u \<le> 0xDFFF"

lemma surrogate_words:
  "0xD800 \<le> (code :: u16) \<and> code \<le> 0xDBFF \<longleftrightarrow> high_surrogate (unat code)"
  "0xDC00 \<le> (code :: u16) \<and> code \<le> 0xDFFF \<longleftrightarrow> low_surrogate (unat code)"
  by (simp_all add: word_le_nat_alt high_surrogate_def low_surrogate_def)

lemma unat_u16: "u < 65536 \<Longrightarrow> unat (of_nat u :: u16) = u"
  by (simp add: unat_of_nat)

lemmas unicode_escape_unat = unicode_escape_def [unfolded surrogate_words]

lemma not_both: "high_surrogate u \<Longrightarrow> \<not> low_surrogate u"
  by (simp add: high_surrogate_def low_surrogate_def)

lemma valid_char_plain: "u < 65536 \<Longrightarrow> valid_char u \<longleftrightarrow> \<not> high_surrogate u \<and> \<not> low_surrogate u"
  by (auto simp: valid_char_def high_surrogate_def low_surrogate_def)

lemma unicode_escape_plain:
  assumes "at ps (as_bytes (format_hex 4 u) @ rest)" "u < 65536" "\<not> high_surrogate u" "\<not> low_surrogate u"
  shows "unicode_escape ps = Inr (u, bump 4 ps)"
  using assms parse_hex_at [OF assms(1,2)] unat_u16 [of u]
  by (simp add: unicode_escape_unat not_both char_or_error_def char_from_u32_def valid_char_plain)

lemma unicode_escape_low:
  assumes "at ps (as_bytes (format_hex 4 u) @ rest)" "low_surrogate u"
  shows "unicode_escape ps = Inr (INTERNAL_SURROGATE_BASE + (u - 0xD800), bump 4 ps)"
proof -
  have u: "u < 65536" "\<not> high_surrogate u" using assms(2) by (simp_all add: low_surrogate_def high_surrogate_def)
  have "internal_char_from_codepoint u = Some (INTERNAL_SURROGATE_BASE + (u - 0xD800))"
    using assms(2) by (auto simp: surrogate_defs low_surrogate_def)
  then show ?thesis using assms parse_hex_at [OF assms(1) u(1)] unat_u16 [of u] u(1) u(2)
    by (simp add: unicode_escape_unat not_both char_or_error_def)
qed

text \<open>After a high surrogate comes no escape, or that of a unit that is not a low surrogate.\<close>

definition no_low_ahead :: "u8 list \<Rightarrow> bool" where
  "no_low_ahead rest \<longleftrightarrow> take 2 rest = [byte CHR 0x5C, byte CHR ''u''] \<longrightarrow>
     (\<exists>u rest'. rest = as_bytes (unicode_unit u) @ rest' \<and> u < 65536 \<and> \<not> low_surrogate u)"

lemma unicode_escape_high:
  assumes "at ps (as_bytes (format_hex 4 u) @ rest)" "high_surrogate u" "no_low_ahead rest"
  shows "unicode_escape ps = Inr (INTERNAL_SURROGATE_BASE + (u - 0xD800), bump 4 ps)"
proof -
  have u: "u < 65536" using assms(2) by (simp add: high_surrogate_def)
  have i: "internal_char_from_codepoint u = Some (INTERNAL_SURROGATE_BASE + (u - 0xD800))"
    using assms(2) by (auto simp: surrogate_defs high_surrogate_def)
  have r: "at (bump 4 ps) rest" using at_append [OF assms(1)] length_format_hex_4 [OF u] by simp
  have h: "parse_hex_u16 ps = Inr (of_nat u, bump 4 ps)" using parse_hex_at [OF assms(1) u] .
  show ?thesis
  proof (cases "starts_with (bump 4 ps) [CHR 0x5C, CHR ''u'']")
    case True
    then have "take 2 rest = [byte CHR 0x5C, byte CHR ''u'']" using at_starts_with [OF r] by (simp add: numeral_2_eq_2)
    then obtain l rest' where l: "rest = as_bytes (unicode_unit l) @ rest'" "l < 65536" "\<not> low_surrogate l"
      using assms(3) by (auto simp: no_low_ahead_def)
    have "at (bump 2 (bump 4 ps)) (as_bytes (format_hex 4 l) @ rest')"
      using at_append [of "bump 4 ps" "[byte CHR 0x5C, byte CHR ''u'']"] r l(1) by (simp add: unicode_unit_bytes numeral_2_eq_2)
    then have "parse_hex_u16 (bump 2 (bump 4 ps)) = Inr (of_nat l, bump 4 (bump 2 (bump 4 ps)))" using parse_hex_at l(2) by blast
    then show ?thesis using True h assms(2) unat_u16 [of u] u unat_u16 [of l] l(2) l(3) i
      by (simp add: unicode_escape_unat not_both char_or_error_def)
  next
    case False
    then show ?thesis using h assms(2) unat_u16 [of u] u i by (simp add: unicode_escape_unat not_both char_or_error_def)
  qed
qed

lemma unicode_escape_pair:
  assumes "at ps (as_bytes (format_hex 4 h) @ as_bytes (unicode_unit l) @ rest)" "high_surrogate h" "low_surrogate l"
  shows "unicode_escape ps = Inr (0x10000 + (h - 0xD800) * 1024 + (l - 0xDC00), bump 10 ps)"
proof -
  have h: "h < 65536" and l: "l < 65536" using assms(2,3) by (simp_all add: high_surrogate_def low_surrogate_def)
  have r: "at (bump 4 ps) (as_bytes (unicode_unit l) @ rest)" using at_append [OF assms(1)] length_format_hex_4 [OF h] by simp
  have "at (bump 2 (bump 4 ps)) (as_bytes (format_hex 4 l) @ rest)"
    using at_append [of "bump 4 ps" "[byte CHR 0x5C, byte CHR ''u'']"] r by (simp add: unicode_unit_bytes numeral_2_eq_2)
  then have "parse_hex_u16 (bump 2 (bump 4 ps)) = Inr (of_nat l, bump 4 (bump 2 (bump 4 ps)))" using parse_hex_at l by blast
  moreover have "starts_with (bump 4 ps) [CHR 0x5C, CHR ''u'']"
    using at_starts_with [OF r] by (simp add: unicode_unit_bytes)
  moreover have "push_bit 10 (h - 0xD800) OR (l - 0xDC00) = (h - 0xD800) * 1024 + (l - 0xDC00)"
  proof -
    have "l - 0xDC00 < 2 ^ 10" using assms(3) by (auto simp: low_surrogate_def)
    from or_push_nat [OF this] show ?thesis by simp
  qed
  moreover have "char_from_u32 (0x10000 + ((h - 0xD800) * 1024 + (l - 0xDC00))) = Some (0x10000 + ((h - 0xD800) * 1024 + (l - 0xDC00)))"
    using assms(2,3) by (auto simp: char_from_u32_def valid_char_def high_surrogate_def low_surrogate_def)
  ultimately show ?thesis
    using parse_hex_at [OF assms(1) h] assms(2,3) unat_u16 [of h] h unat_u16 [of l] l
    by (simp add: unicode_escape_unat not_both char_or_error_def add.assoc)
qed

section \<open>Characters of several bytes\<close>

lemma utf8_width_unat:
  "utf8_width b = (if unat b div 32 = 6 then Some 2 else if unat b div 16 = 14 then Some 3
     else if unat b div 8 = 30 then Some 4 else None)"
proof -
  have "unat (drop_bit k b) = unat b div 2 ^ k" for k
    by (rule trans [OF unat_drop_bit_eq drop_bit_eq_div])
  then show ?thesis by (simp add: utf8_width_def word_unat_eq_iff)
qed

lemma cont_mask:
  assumes "unat (b :: u8) div 64 = 2"
  shows "b AND 0xC0 = 0x80"
proof -
  have "list_all (\<lambda>n. n div 64 = 2 \<longrightarrow> (of_nat n :: u8) AND 0xC0 = 0x80) [0..<256]" by code_simp
  moreover have "unat b < 256" by (rule u8_lt)
  ultimately show ?thesis using assms by (auto simp: list_all_iff dest!: bspec [of _ _ "unat b"])
qed

lemma utf8_tail_at:
  assumes "at ps (bs @ rest)" "\<forall>b \<in> set bs. unat b div 64 = 2"
  shows "utf8_tail (length bs) acc ps = Inr (acc @ bs, bump (length bs) ps)"
  using assms
proof (induction bs arbitrary: ps acc)
  case (Cons b bs)
  then have "at (bump 1 ps) (bs @ rest)" "json_next ps = Some (b, bump 1 ps)" using at_Cons [of ps b "bs @ rest"] by simp_all
  then show ?case using Cons.IH [of "bump 1 ps" "acc @ [b]"] Cons.prems(2) by (simp add: cont_mask)
qed simp

lemma utf8_char_multi:
  assumes "0x80 \<le> c" "c < 0x110000"
  obtains b bs where "utf8_char c = b # bs" "utf8_width b = Some (length bs + 1)" "\<forall>x \<in> set bs. unat x div 64 = 2" "0x80 \<le> unat b"
proof -
  have cont: "unat (of_nat (0x80 + m mod 64) :: u8) div 64 = 2" for m
  proof -
    have "m mod 64 < 64" by simp
    then have "unat (of_nat (0x80 + m mod 64) :: u8) = 0x80 + m mod 64" by (intro unat_u8) simp
    moreover have "(0x80 + m mod 64) div 64 = 2" using \<open>m mod 64 < 64\<close> by simp
    ultimately show ?thesis by simp
  qed
  consider "c < 0x800" | "0x800 \<le> c" "c < 0x10000" | "0x10000 \<le> c" by linarith
  then show ?thesis
  proof cases
    case 1
    then have d: "c div 64 < 32" using assms by simp
    then have "unat (of_nat (0xC0 + c div 64) :: u8) = 0xC0 + c div 64" by (intro unat_u8) simp
    then show ?thesis
      using assms 1 d cont by (intro that [of "of_nat (0xC0 + c div 64)" "[of_nat (0x80 + c mod 64)]"]) (auto simp: utf8_char_def utf8_width_unat)
  next
    case 2
    then have d: "c div 4096 < 16" using assms by simp
    then have "unat (of_nat (0xE0 + c div 4096) :: u8) = 0xE0 + c div 4096" by (intro unat_u8) simp
    then show ?thesis
      using assms 2 d cont
      by (intro that [of "of_nat (0xE0 + c div 4096)" "[of_nat (0x80 + c div 64 mod 64), of_nat (0x80 + c mod 64)]"])
         (auto simp: utf8_char_def utf8_width_unat)
  next
    case 3
    then have d: "c div 262144 < 8" using assms by simp
    then have "unat (of_nat (0xF0 + c div 262144) :: u8) = 0xF0 + c div 262144" by (intro unat_u8) simp
    then show ?thesis
      using assms 3 d cont
      by (intro that [of "of_nat (0xF0 + c div 262144)" "[of_nat (0x80 + c div 4096 mod 64), of_nat (0x80 + c div 64 mod 64), of_nat (0x80 + c mod 64)]"])
         (auto simp: utf8_char_def utf8_width_unat)
  qed
qed

lemma push_utf8_char_at:
  assumes "at ps (b # bs @ rest)" "utf8_char c = b # bs" "utf8_width b = Some (length bs + 1)" "\<forall>x \<in> set bs. unat x div 64 = 2" "valid_char c"
  shows "push_utf8_char b (bump 1 ps) = Inr (c, bump (length bs) (bump 1 ps))"
proof -
  have "utf8_tail (length bs) [b] (bump 1 ps) = Inr (b # bs, bump (length bs) (bump 1 ps))"
    using utf8_tail_at [OF at_Cons(3) [OF assms(1)] assms(4), of "[b]"] by simp
  moreover have "from_utf8 (b # bs) = Some [c]" using from_utf8_as_bytes [of "[c]"] assms(2,5) by (simp add: as_bytes_Cons)
  ultimately show ?thesis using assms(3) by (simp add: push_utf8_char_def)
qed

section \<open>Whole strings\<close>

lemma string_loop_char:
  assumes "at ps (b # rest)" "b \<noteq> byte CHR 0x22" "string_char b (bump 1 ps) = Inr (c, ps')"
  shows "json_string_loop start out ps = json_string_loop start (out @ [c]) ps'"
  using assms at_Cons(2) [OF assms(1)] by (subst json_string_loop.simps) simp

lemma raw_char_read:
  assumes "at ps (as_bytes [c] @ rest)" "valid_char c" "0x20 \<le> c" "c \<noteq> 0x22" "c \<noteq> 0x5C"
  shows "json_string_loop start out ps = json_string_loop start (out @ [c]) (bump (length (as_bytes [c])) ps)"
proof (cases "c < 0x80")
  case True
  then have b: "as_bytes [c] = [of_nat c]" "unat (of_nat c :: u8) = c" by (simp_all add: as_bytes_Cons utf8_char_def unat_u8)
  have "(of_nat c :: u8) \<noteq> byte CHR 0x22" "(of_nat c :: u8) \<noteq> byte CHR 0x5C" "\<not> (of_nat c :: u8) < 0x20" "(of_nat c :: u8) < 0x80"
    using assms(3-5) True b(2) by (auto simp: byte_def word_unat_eq_iff word_less_nat_alt)
  then show ?thesis
    using string_loop_char [of ps "of_nat c" rest c "bump 1 ps" start out] assms(1) b by (simp add: string_char_def)
next
  case False
  then obtain b bs where u: "utf8_char c = b # bs" "utf8_width b = Some (length bs + 1)" "\<forall>x \<in> set bs. unat x div 64 = 2" "0x80 \<le> unat b"
    using utf8_char_multi [of c] assms(2) by (auto simp: valid_char_def)
  have "b \<noteq> byte CHR 0x22" "b \<noteq> byte CHR 0x5C" "\<not> b < 0x20" "\<not> b < 0x80"
    using u(4) by (auto simp: byte_def word_less_nat_alt)
  then have "string_char b (bump 1 ps) = Inr (c, bump (length bs) (bump 1 ps))"
    using push_utf8_char_at [of ps b bs rest c] assms(1,2) u by (simp add: string_char_def as_bytes_Cons)
  then show ?thesis
    using string_loop_char [of ps b "bs @ rest" c] assms(1) u(1) \<open>b \<noteq> byte CHR 0x22\<close> by (simp add: as_bytes_Cons)
qed

lemma escape_read:
  assumes "at ps (byte CHR 0x5C # rest)" "parse_escape (bump 1 ps) = Inr (c, ps')"
  shows "json_string_loop start out ps = json_string_loop start (out @ [c]) ps'"
  using string_loop_char [OF assms(1)] assms(2) by (simp add: string_char_def byte_def)

lemma simple_escape_read:
  assumes "at ps (as_bytes [0x5C, chr e] @ rest)" "(e, c) \<in> set json_escapes"
  shows "json_string_loop start out ps = json_string_loop start (out @ [c]) (bump 2 ps)"
proof -
  have a: "at ps (byte CHR 0x5C # byte e # rest)" using assms by (auto simp: json_escapes_def as_bytes_Cons utf8_char_def byte_def chr_def)
  have "find (\<lambda>(c, _). byte c = byte e) json_escapes = Some (e, c)"
    using assms(2) by (auto simp: json_escapes_def byte_def)
  then have "parse_escape (bump 1 ps) = Inr (c, bump 1 (bump 1 ps))"
    using at_Cons(2) [OF at_Cons(3) [OF a]] by (simp add: parse_escape_def)
  then show ?thesis using escape_read [OF a] by (simp add: numeral_2_eq_2)
qed

lemma unicode_escape_read:
  assumes "at ps (as_bytes (unicode_unit u) @ rest)" "unicode_escape (bump 2 ps) = Inr (c, ps')"
  shows "json_string_loop start out ps = json_string_loop start (out @ [c]) ps'"
proof -
  have a: "at ps (byte CHR 0x5C # byte CHR ''u'' # as_bytes (format_hex 4 u) @ rest)" using assms(1) by (simp add: unicode_unit_bytes)
  have "find (\<lambda>(c, _). byte c = byte CHR ''u'') json_escapes = None" by (simp add: json_escapes_def byte_def)
  then have "parse_escape (bump 1 ps) = unicode_escape (bump 2 ps)"
    using at_Cons(2) [OF at_Cons(3) [OF a]] by (simp add: parse_escape_def numeral_2_eq_2)
  then show ?thesis using escape_read [OF a] assms(2) by simp
qed

text \<open>The character of an internal surrogate and its code unit.\<close>

definition unit_of :: "rchar \<Rightarrow> nat" where
  "unit_of c = 0xD800 + (c - INTERNAL_SURROGATE_BASE)"

definition internal_surrogate :: "rchar \<Rightarrow> bool" where
  "internal_surrogate c \<longleftrightarrow> INTERNAL_SURROGATE_BASE \<le> c \<and> c < INTERNAL_SURROGATE_LIMIT"

lemma surrogate_unit:
  "surrogate_code_unit_from_internal_char c = (if internal_surrogate c then Some (of_nat (unit_of c)) else None)"
  by (simp add: surrogate_code_unit_from_internal_char_def surrogate_codepoint_from_internal_char_def internal_surrogate_def unit_of_def)

lemma unit_of_bounds:
  assumes "internal_surrogate c"
  shows "unit_of c < 65536" "high_surrogate (unit_of c) \<or> low_surrogate (unit_of c)" "INTERNAL_SURROGATE_BASE + (unit_of c - 0xD800) = c"
  using assms by (auto simp: internal_surrogate_def unit_of_def INTERNAL_SURROGATE_BASE_def INTERNAL_SURROGATE_LIMIT_def
      high_surrogate_def low_surrogate_def)

text \<open>A written high surrogate must not be followed by a written low one: the two are read as one character.\<close>

definition splits_pair :: "rchar \<Rightarrow> rchar \<Rightarrow> bool" where
  "splits_pair a b \<longleftrightarrow> internal_surrogate a \<and> high_surrogate (unit_of a) \<and> internal_surrogate b \<and> low_surrogate (unit_of b)"

lemma surrogate_read:
  assumes "at ps (as_bytes (unicode_unit (unit_of c)) @ rest)" "internal_surrogate c" "high_surrogate (unit_of c) \<Longrightarrow> no_low_ahead rest"
  shows "json_string_loop start out ps = json_string_loop start (out @ [c]) (bump (length (as_bytes (unicode_unit (unit_of c)))) ps)"
proof -
  note u = unit_of_bounds [OF assms(2)]
  have a: "at (bump 2 ps) (as_bytes (format_hex 4 (unit_of c)) @ rest)"
    using at_append [of ps "[byte CHR 0x5C, byte CHR ''u'']"] assms(1) by (simp add: unicode_unit_bytes numeral_2_eq_2)
  have "unicode_escape (bump 2 ps) = Inr (c, bump 4 (bump 2 ps))"
    using u(2) unicode_escape_high [OF a] unicode_escape_low [OF a] assms(3) u(3) by auto
  then show ?thesis using unicode_escape_read [OF assms(1)] length_format_hex_4 [OF u(1)] by (simp add: unicode_unit_bytes)
qed

lemma plain_unit_read:
  assumes "at ps (as_bytes (unicode_unit c) @ rest)" "c < 65536" "valid_char c"
  shows "json_string_loop start out ps = json_string_loop start (out @ [c]) (bump (length (as_bytes (unicode_unit c))) ps)"
proof -
  have a: "at (bump 2 ps) (as_bytes (format_hex 4 c) @ rest)"
    using at_append [of ps "[byte CHR 0x5C, byte CHR ''u'']"] assms(1) by (simp add: unicode_unit_bytes numeral_2_eq_2)
  have "unicode_escape (bump 2 ps) = Inr (c, bump 4 (bump 2 ps))"
    using unicode_escape_plain [OF a assms(2)] assms(3) valid_char_plain [OF assms(2)] by simp
  then show ?thesis using unicode_escape_read [OF assms(1)] length_format_hex_4 [OF assms(2)] by (simp add: unicode_unit_bytes)
qed

lemma pair_read:
  assumes "at ps (as_bytes (concat (map unicode_unit (encode_utf16 c))) @ rest)" "0x10000 \<le> c" "c < 0x110000"
  shows "json_string_loop start out ps =
    json_string_loop start (out @ [c]) (bump (length (as_bytes (concat (map unicode_unit (encode_utf16 c))))) ps)"
proof -
  define h l where "h = 0xD800 + (c - 0x10000) div 1024" and "l = 0xDC00 + (c - 0x10000) mod 1024"
  have hl: "high_surrogate h" "low_surrogate l" "h < 65536" "l < 65536"
  proof -
    have "(c - 0x10000) div 1024 < 1024" "(c - 0x10000) mod 1024 < 1024" using assms(3) by simp_all
    then show "high_surrogate h" "low_surrogate l" "h < 65536" "l < 65536"
      unfolding h_def l_def high_surrogate_def low_surrogate_def by linarith+
  qed
  have e: "concat (map unicode_unit (encode_utf16 c)) = unicode_unit h @ unicode_unit l" using assms(2) by (simp add: encode_utf16_def h_def l_def)
  have c: "0x10000 + (h - 0xD800) * 1024 + (l - 0xDC00) = c"
    using assms(2) div_mult_mod_eq [of "c - 0x10000" 1024] by (simp add: h_def l_def)
  have a: "at (bump 2 ps) (as_bytes (format_hex 4 h) @ as_bytes (unicode_unit l) @ rest)"
    using at_append [of ps "[byte CHR 0x5C, byte CHR ''u'']"] assms(1) by (simp add: e unicode_unit_bytes numeral_2_eq_2)
  have "unicode_escape (bump 2 ps) = Inr (c, bump 10 (bump 2 ps))"
    using unicode_escape_pair [OF a hl(1,2)] unfolding c .
  then show ?thesis
    using unicode_escape_read [of ps h "as_bytes (unicode_unit l) @ rest"] assms(1) length_format_hex_4 hl(3,4)
    by (simp add: e unicode_unit_bytes)
qed

text \<open>The forms a written character can have.\<close>

lemma json_escape_char_cases:
  obtains (unit) "ensure_ascii" "internal_surrogate c" "json_escape_char ensure_ascii c = unicode_unit (unit_of c)"
    | (raw) "json_escape_char ensure_ascii c = [c]" "0x20 \<le> c" "c \<noteq> 0x22" "c \<noteq> 0x5C"
    | (simple) e where "json_escape_char ensure_ascii c = [0x5C, chr e]" "(e, c) \<in> set json_escapes"
    | (plain) "json_escape_char ensure_ascii c = unicode_unit c" "c < 65536"
    | (pair) "json_escape_char ensure_ascii c = concat (map unicode_unit (encode_utf16 c))" "0x10000 \<le> c"
proof (cases "internal_surrogate c")
  case True
  then have "0x5C < c" by (simp add: internal_surrogate_def INTERNAL_SURROGATE_BASE_def)
  then show thesis using True unit raw unit_of_bounds(1) [OF True]
    by (cases ensure_ascii) (auto simp: json_escape_char_def surrogate_unit unat_u16)
next
  case False
  note simps = json_escape_char_def surrogate_unit False json_escapes_def
  consider "c \<in> {0x22, 0x5C, 8, 12, 10, 13, 9}" | "c \<notin> {0x22, 0x5C, 8, 12, 10, 13, 9}" "c \<le> 0x1F"
    | "c \<notin> {0x22, 0x5C, 8, 12, 10, 13, 9}" "0x1F < c" "ensure_ascii \<and> (0x80 \<le> c \<or> c = 0x7F)"
    | "c \<notin> {0x22, 0x5C, 8, 12, 10, 13, 9}" "0x1F < c" "\<not> (ensure_ascii \<and> (0x80 \<le> c \<or> c = 0x7F))" by fastforce
  then show thesis
  proof cases
    case 1
    have "chr CHR 0x22 = 0x22" "chr CHR 0x5C = 0x5C" by (simp_all add: chr_def)
    then show thesis using 1 simple by (auto simp: simps)
  next
    case 2
    then show thesis using plain by (simp add: simps)
  next
    case 3
    then show thesis using plain pair by (cases "c < 0x10000") (auto simp: simps encode_utf16_def)
  next
    case 4
    then show thesis using raw by (auto simp: simps)
  qed
qed

lemma escaped_char_read:
  assumes "at ps (as_bytes (json_escape_char ensure_ascii c) @ rest)" "valid_char c"
    "ensure_ascii \<Longrightarrow> internal_surrogate c \<Longrightarrow> high_surrogate (unit_of c) \<Longrightarrow> no_low_ahead rest"
  shows "json_string_loop start out ps =
    json_string_loop start (out @ [c]) (bump (length (as_bytes (json_escape_char ensure_ascii c))) ps)"
proof (cases rule: json_escape_char_cases [of ensure_ascii c])
  case unit
  then show ?thesis using surrogate_read [of ps c rest] assms(1,3) by simp
next
  case raw
  then show ?thesis using raw_char_read [of ps c rest] assms(1,2) by simp
next
  case (simple e)
  have "length (as_bytes [0x5C, chr e]) = 2" using simple(2) by (auto simp: json_escapes_def as_bytes_Cons utf8_char_def chr_def)
  then show ?thesis using simple_escape_read [of ps e rest c] assms(1) simple by simp
next
  case plain
  then show ?thesis using plain_unit_read [of ps c rest] assms(1,2) by simp
next
  case pair
  have "c < 0x110000" using assms(2) by (simp add: valid_char_def)
  then show ?thesis using pair_read [of ps c rest] assms(1) pair by simp
qed

lemma utf8_not_backslash:
  assumes "c \<noteq> 0x5C" "c < 0x110000"
  shows "\<exists>b bs. utf8_char c = b # bs \<and> b \<noteq> byte CHR 0x5C"
proof (cases "c < 0x80")
  case True
  then have "unat (of_nat c :: u8) \<noteq> unat (byte CHR 0x5C)" using assms(1) by (simp add: byte_def unat_u8)
  then have "(of_nat c :: u8) \<noteq> byte CHR 0x5C" by metis
  then show ?thesis using True by (simp add: utf8_char_def)
next
  case False
  then obtain b bs where "utf8_char c = b # bs" "0x80 \<le> unat b"
    by (rule utf8_char_multi [OF leI]) (use assms(2) in simp_all)
  then show ?thesis by (auto simp: byte_def)
qed

lemma no_low_ahead_first: "b \<noteq> byte CHR 0x5C \<Longrightarrow> no_low_ahead (b # rest)"
  by (auto simp: no_low_ahead_def take_Cons')

lemma no_low_ahead_second: "e \<noteq> byte CHR ''u'' \<Longrightarrow> no_low_ahead (b # e # rest)"
  by (auto simp: no_low_ahead_def take_Cons')

lemma no_low_ahead_unit: "u < 65536 \<Longrightarrow> \<not> low_surrogate u \<Longrightarrow> no_low_ahead (as_bytes (unicode_unit u) @ rest)"
  by (auto simp: no_low_ahead_def)

lemma no_low_ahead_escape:
  assumes "valid_char c" "ensure_ascii \<Longrightarrow> internal_surrogate c \<Longrightarrow> \<not> low_surrogate (unit_of c)"
  shows "no_low_ahead (as_bytes (json_escape_char ensure_ascii c) @ rest)"
proof (cases rule: json_escape_char_cases [of ensure_ascii c])
  case unit
  then show ?thesis using assms(2) unit_of_bounds(1) no_low_ahead_unit by simp
next
  case raw
  obtain b bs where "utf8_char c = b # bs" "b \<noteq> byte CHR 0x5C"
    using utf8_not_backslash [OF raw(4)] assms(1) by (auto simp: valid_char_def)
  then show ?thesis using raw(1) no_low_ahead_first by (simp add: as_bytes_Cons)
next
  case (simple e)
  then show ?thesis by (auto simp: json_escapes_def as_bytes_Cons utf8_char_def chr_def byte_def intro!: no_low_ahead_second)
next
  case plain
  then show ?thesis using assms(1) valid_char_plain no_low_ahead_unit by simp
next
  case pair
  have c: "c < 0x110000" using assms(1) by (simp add: valid_char_def)
  define h l where "h = 0xD800 + (c - 0x10000) div 1024" and "l = 0xDC00 + (c - 0x10000) mod 1024"
  have "(c - 0x10000) div 1024 < 1024" using c by simp
  then have "h < 65536" "\<not> low_surrogate h" unfolding h_def low_surrogate_def by linarith+
  moreover have "as_bytes (json_escape_char ensure_ascii c) @ rest = as_bytes (unicode_unit h) @ (as_bytes (unicode_unit l) @ rest)"
    using pair by (simp add: encode_utf16_def h_def l_def)
  ultimately show ?thesis using no_low_ahead_unit by simp
qed

fun writable :: "bool \<Rightarrow> rstring \<Rightarrow> bool" where
  "writable ensure_ascii (a # b # s) = (valid_char a \<and> \<not> (ensure_ascii \<and> splits_pair a b) \<and> writable ensure_ascii (b # s))"
| "writable ensure_ascii [a] = valid_char a"
| "writable ensure_ascii [] = True"

lemma writable_Cons: "writable ensure_ascii (c # s) \<Longrightarrow> valid_char c \<and> writable ensure_ascii s"
  by (cases s) simp_all

lemma json_string_loop_read:
  assumes "at ps (as_bytes (concat (map (json_escape_char ensure_ascii) s)) @ byte CHR 0x22 # rest)" "writable ensure_ascii s"
  shows "\<exists>n. json_string_loop start out ps = Inr (out @ s, bump n ps) \<and> at (bump n ps) rest"
  using assms
proof (induction s arbitrary: out ps)
  case Nil
  have a: "at ps (byte CHR 0x22 # rest)" using Nil.prems(1) by simp
  have "json_string_loop start out ps = Inr (out, bump 1 ps)"
    by (subst json_string_loop.simps) (simp add: at_Cons(2) [OF a, simplified])
  then show ?case using at_Cons(3) [OF a] by (intro exI [of _ 1]) simp
next
  case (Cons c s)
  let ?c = "as_bytes (json_escape_char ensure_ascii c)"
  let ?rest = "as_bytes (concat (map (json_escape_char ensure_ascii) s)) @ byte CHR 0x22 # rest"
  have a: "at ps (?c @ ?rest)" using Cons.prems(1) by simp
  have v: "valid_char c" "writable ensure_ascii s" using writable_Cons [OF Cons.prems(2)] by simp_all
  have follow: "no_low_ahead ?rest" if e: "ensure_ascii" "internal_surrogate c" "high_surrogate (unit_of c)"
  proof (cases s)
    case Nil
    then show ?thesis by (simp add: no_low_ahead_first byte_def)
  next
    case (Cons d t)
    then have "valid_char d" "internal_surrogate d \<Longrightarrow> \<not> low_surrogate (unit_of d)"
      using \<open>writable ensure_ascii (c # s)\<close> e writable_Cons [of ensure_ascii d t] v(2) by (simp_all add: splits_pair_def)
    then show ?thesis using no_low_ahead_escape [of d ensure_ascii] Cons by simp
  qed
  have "json_string_loop start out ps = json_string_loop start (out @ [c]) (bump (length ?c) ps)"
    using escaped_char_read [OF a v(1)] follow by blast
  moreover obtain n where "json_string_loop start (out @ [c]) (bump (length ?c) ps) = Inr ((out @ [c]) @ s, bump n (bump (length ?c) ps))"
    "at (bump n (bump (length ?c) ps)) rest"
    using Cons.IH [OF at_append [OF a] v(2)] by blast
  ultimately show ?case by (intro exI [of _ "length ?c + n"]) simp
qed

text \<open>A written string is read back, whatever follows it.\<close>

lemma json_string_read:
  assumes "at ps (as_bytes (json_escape_string s ensure_ascii) @ rest)" "writable ensure_ascii s"
  shows "\<exists>n. json_parse_string ps = Inr (s, bump n ps) \<and> at (bump n ps) rest"
proof -
  have q: "as_bytes [0x22] = [byte CHR 0x22]" by (simp add: as_bytes_Cons utf8_char_def byte_def)
  have a: "at ps (byte CHR 0x22 # as_bytes (concat (map (json_escape_char ensure_ascii) s)) @ byte CHR 0x22 # rest)"
    using assms(1) q by (simp add: json_escape_string_def as_bytes_Cons)
  have "json_expect CHR 0x22 ''Expecting value'' ps = Inr (bump 1 ps)"
    using at_Cons(1) [OF a] by (simp add: json_expect_def peek_in_def)
  moreover obtain n where "json_string_loop (jp_pos ps) [] (bump 1 ps) = Inr (s, bump n (bump 1 ps))" "at (bump n (bump 1 ps)) rest"
    using json_string_loop_read [OF at_Cons(3) [OF a] assms(2), of "jp_pos ps" "[]"] by auto
  ultimately show ?thesis by (intro exI [of _ "1 + n"]) (simp add: json_parse_string_def)
qed

end
