(* ===== verification/Json_Numbers.thy ===== *)
theory Json_Numbers
  imports Json_Strings
begin

text \<open>Numbers written by the JSON writer are read back by the JSON parser.\<close>

section \<open>Decimal texts\<close>

text \<open>The decimal digits of a number, with no zero in front.\<close>

definition dec_text :: "nat \<Rightarrow> rstring \<Rightarrow> bool" where
  "dec_text n s \<longleftrightarrow> s \<noteq> [] \<and> list_all is_digit_char s \<and> (hd s = 48 \<longrightarrow> s = [48]) \<and> dec_val s = n"

lemma dec_val_append: "dec_val (s @ [c]) = dec_val s * 10 + (c - 48)"
  by (simp add: dec_val_def)

lemma dec_val_digits: "list_all is_digit_char s \<Longrightarrow> digits_val 10 0 (char_digits 10 s) = int (dec_val s)"
proof (induction s rule: rev_induct)
  case (snoc c s)
  then have "to_digit 10 c = Some (c - 48)" by (auto simp: is_digit_char_def to_digit_def Let_def)
  then show ?case using snoc by (auto simp: dec_val_append char_digits_def is_digit_char_def)
qed (simp add: dec_val_def char_digits_def)

lemma nat_dec_head: "nat_dec n \<noteq> [] \<and> (hd (nat_dec n) = 48 \<longleftrightarrow> n = 0)"
proof (induction n rule: nat_dec.induct)
  case (1 n)
  then show ?case by (cases "n < 10") (simp_all add: nat_dec.simps [of n])
qed

lemma nat_dec_text: "dec_text n (nat_dec n)"
proof -
  have digits: "list_all is_digit_char (nat_dec n)" using nat_dec_digits by (simp add: list_all_iff is_digit_char_def)
  then have "int (dec_val (nat_dec n)) = int n" using dec_val_digits nat_dec_val by metis
  moreover have "hd (nat_dec n) = 48 \<longrightarrow> nat_dec n = [48]"
    using nat_dec_head [of n] by (auto simp: nat_dec.simps [of 0])
  ultimately show ?thesis using digits nat_dec_head by (simp add: dec_text_def)
qed

lemma radix_loop_last:
  assumes "2 \<le> radix"
  shows "bwf v \<Longrightarrow> 0 \<le> bval v \<Longrightarrow> \<not> is_zero v \<Longrightarrow> last (radix_loop radix v) \<noteq> 0"
  using assms
proof (induction radix v rule: radix_loop.induct)
  case (1 radix v)
  obtain q r where qr: "div_mod_small_positive v radix = (q, r)" by fastforce
  have pos: "0 < unat radix" using "1.prems"(4) by (simp add: word_le_nat_alt)
  note dm = div_mod_small_correct [OF "1.prems"(1,2) pos qr]
  have q0: "0 \<le> bval q" using "1.prems"(2) by (simp add: dm div_int_pos_iff)
  have loop: "radix_loop radix v = r # radix_loop radix q"
    using "1.prems" qr by (simp add: radix_loop.simps [of radix v])
  show ?case
  proof (cases "is_zero q")
    case True
    then have "bval q = 0" using dm(1) by (simp add: is_zero_iff)
    moreover have "bval q * int (unat radix) + int (unat r) = bval v" unfolding dm by (rule div_mult_mod_eq)
    ultimately have "r \<noteq> 0" using "1.prems"(1,3) by (auto simp: is_zero_iff)
    then show ?thesis using True loop by (simp add: radix_loop.simps [of radix q])
  next
    case False
    then have "last (radix_loop radix q) \<noteq> 0"
      using "1.IH" [OF _ qr [symmetric] refl dm(1) q0 False] "1.prems" by simp
    moreover have "radix_loop radix q \<noteq> []" using False "1.prems"(4) by (intro radix_loop_nonempty) simp_all
    ultimately show ?thesis using loop by simp
  qed
qed

lemma bigint_text:
  assumes "bwf b" "0 \<le> bval b"
  shows "dec_text (nat (bval b)) (bigint_to_string b)"
proof (cases "is_zero b")
  case True
  then have "bval b = 0" using assms(1) by (simp add: is_zero_iff)
  then show ?thesis using True by (simp add: bigint_to_string_def dec_text_def str_def is_digit_char_def dec_val_def)
next
  case False
  then have ab: "bigint_abs b = b" and sg: "\<not> sign b < 0"
    using assms by (auto simp: bigint_abs_def is_negative_def sign_eq_sgn is_zero_iff sgn_if)
  let ?ds = "radix_loop 1000000000 b"
  have ne: "?ds \<noteq> []" using False by (intro radix_loop_nonempty) simp_all
  have s: "bigint_to_string b = nat_dec (unat (last ?ds)) @ concat (map (\<lambda>c. dec09 (unat c)) (rev (butlast ?ds)))"
    using False ab sg ne by (simp add: bigint_to_string_def Let_def)
  have "last ?ds \<noteq> 0" using radix_loop_last [of 1000000000 b] assms False by simp
  then have "unat (last ?ds) \<noteq> 0" by (simp add: unat_eq_0)
  then have head: "hd (bigint_to_string b) \<noteq> 48" "bigint_to_string b \<noteq> []" using nat_dec_head [of "unat (last ?ds)"] s by auto
  have digits: "list_all is_digit_char (bigint_to_string b)"
    unfolding s using nat_dec_digits dec09_digits by (auto simp: list_all_iff is_digit_char_def)
  have "\<forall>c \<in> set (bigint_to_string b). to_digit (unat (10 :: u32)) c \<noteq> None"
    using digits to_digit_decimal by (fastforce simp: list_all_iff is_digit_char_def)
  then obtain b' where b': "from_str_loop 10 bigint_zero (bigint_to_string b) = Some b'" "bwf b'"
    "bval b' = digits_val (int (unat (10 :: u32))) (bval bigint_zero) (char_digits (unat (10 :: u32)) (bigint_to_string b))"
    using from_str_loop_val [of 10 "bigint_to_string b" bigint_zero] by (auto simp: bigint_wf)
  have "b' = b" using bigint_to_string_parses [OF assms] b'(1) head(2) by (simp add: from_str_radix_def)
  then have "bval b = int (dec_val (bigint_to_string b))" using b'(3) dec_val_digits [OF digits] by (simp add: bigint_val)
  then show ?thesis using digits head by (simp add: dec_text_def)
qed

text \<open>The text of an integer.\<close>

definition int_text :: "int \<Rightarrow> rstring \<Rightarrow> bool" where
  "int_text i t \<longleftrightarrow> (if i < 0 then t \<noteq> [] \<and> hd t = 45 \<and> dec_text (nat (- i)) (tl t) else dec_text (nat i) t)"

lemma int_dec_text: "int_text i (int_dec i)"
  by (simp add: int_text_def int_dec_def nat_dec_text str_def)

lemma bigint_int_text:
  assumes "bwf b"
  shows "int_text (bval b) (bigint_to_string b)"
proof (cases "bval b < 0")
  case True
  then have "bwf (negated b)" "bval (negated b) = - bval b" "negated (negated b) = b" using assms
    by (auto simp: bigint_wf bigint_val intro: wf_eqI)
  then have "bigint_to_string b = 45 # bigint_to_string (negated b)" using bigint_to_string_negated [of "negated b"] True by simp
  then show ?thesis
    using True bigint_text [of "negated b"] \<open>bwf (negated b)\<close> \<open>bval (negated b) = - bval b\<close> by (simp add: int_text_def)
next
  case False
  then show ?thesis using bigint_text assms by (simp add: int_text_def)
qed

section \<open>Reading a number\<close>

text \<open>The parts of a number: a sign, the digits before the point, the fraction, the exponent.\<close>

definition digits :: "rstring \<Rightarrow> bool" where
  "digits s \<longleftrightarrow> s \<noteq> [] \<and> list_all is_digit_char s"

definition whole_part :: "rstring \<Rightarrow> bool" where
  "whole_part s \<longleftrightarrow> digits s \<and> (hd s = 48 \<longrightarrow> s = [48])"

definition fraction_part :: "rstring \<Rightarrow> bool" where
  "fraction_part s \<longleftrightarrow> s = [] \<or> hd s = 46 \<and> digits (tl s)"

definition exponent_part :: "rstring \<Rightarrow> bool" where
  "exponent_part s \<longleftrightarrow> s = [] \<or>
     hd s = 101 \<and> (digits (tl s) \<or> tl s \<noteq> [] \<and> (hd (tl s) = 43 \<or> hd (tl s) = 45) \<and> digits (tl (tl s)))"

definition number_text :: "rstring \<Rightarrow> bool" where
  "number_text t \<longleftrightarrow> (\<exists>sg ip fp ep. t = sg @ ip @ fp @ ep \<and> (sg = [] \<or> sg = [45]) \<and>
     whole_part ip \<and> fraction_part fp \<and> exponent_part ep)"

text \<open>What may follow a value: nothing that continues a number.\<close>

definition ends_value :: "u8 list \<Rightarrow> bool" where
  "ends_value rest \<longleftrightarrow> (case rest of [] \<Rightarrow> True | b # _ \<Rightarrow> b \<notin> byte ` ({CHR ''.'', CHR ''e'', CHR ''E''} \<union> digit_chars))"

lemma byte_eq_iff: "byte c = byte d \<longleftrightarrow> c = d"
proof
  assume e: "byte c = byte d"
  have "unat (byte x) = of_char x" for x :: char by (simp add: byte_def unat_of_nat)
  then have "(of_char c :: nat) = of_char d" using e by metis
  then show "c = d" by simp
qed simp

lemma peek_in_at: "at ps (b # bs) \<Longrightarrow> peek_in ps cs \<longleftrightarrow> b \<in> byte ` cs"
  by (simp add: peek_in_def at_Cons(1))

lemma peek_in_end: "at ps [] \<Longrightarrow> \<not> peek_in ps cs"
  by (simp add: peek_in_def at_Nil)

lemma skip_while_at:
  assumes "at ps (bs @ rest)" "list_all (\<lambda>b. b \<in> byte ` cs) bs" "rest = [] \<or> hd rest \<notin> byte ` cs"
  shows "skip_while cs ps = bump (length bs) ps"
  using assms
proof (induction bs arbitrary: ps)
  case Nil
  then have "\<not> peek_in ps cs" by (cases rest) (auto simp: peek_in_end peek_in_at)
  then show ?case by (simp add: skip_while.simps)
next
  case (Cons b bs)
  then have a: "at ps (b # bs @ rest)" by simp
  then have "skip_while cs (bump 1 ps) = bump (length bs) (bump 1 ps)" using Cons at_Cons(3) [OF a] by simp
  moreover have "peek_in ps cs" using Cons.prems(2) peek_in_at [OF a] by simp
  ultimately show ?case by (subst skip_while.simps) simp
qed

lemma digit_byte: "is_digit_char c \<Longrightarrow> of_nat c \<in> byte ` digit_chars"
proof -
  assume "is_digit_char c"
  then have "48 \<le> c" "c < 58" by (simp_all add: is_digit_char_def)
  then have "c \<in> set [48..<58]" by (simp only: set_upt atLeastLessThan_iff)
  moreover have "list_all (\<lambda>c. of_nat c \<in> byte ` digit_chars) [48..<58]" by (simp add: digit_chars_def byte_def upt_rec)
  ultimately show ?thesis unfolding list_all_iff by blast
qed

lemma digits_bytes: "digits s \<Longrightarrow> as_bytes s = map of_nat s \<and> list_all (\<lambda>b. b \<in> byte ` digit_chars) (map of_nat s)"
  by (auto simp: digits_def list_all_iff digit_byte is_digit_char_def intro!: as_bytes_ascii)

lemma need_digits_at:
  assumes "at ps (as_bytes s @ rest)" "digits s" "rest = [] \<or> hd rest \<notin> byte ` digit_chars"
  shows "need_digits ps = Inr (bump (length (as_bytes s)) ps)"
proof -
  have b: "as_bytes s = map of_nat s" "list_all (\<lambda>b. b \<in> byte ` digit_chars) (as_bytes s)" using digits_bytes [OF assms(2)] by simp_all
  obtain c s' where s: "s = c # s'" using assms(2) by (cases s) (simp_all add: digits_def)
  have "at ps (of_nat c # map of_nat s' @ rest)" using assms(1) b(1) s by simp
  then have "peek_in ps digit_chars" using assms(2) s by (simp add: peek_in_at digits_def digit_byte)
  then show ?thesis using skip_while_at [OF assms(1) b(2) assms(3)] by (simp add: need_digits_def)
qed

lemma int_part_at:
  assumes "at ps (as_bytes s @ rest)" "whole_part s" "rest = [] \<or> hd rest \<notin> byte ` digit_chars"
  shows "int_part ps = Inr (bump (length (as_bytes s)) ps)"
proof -
  have d: "digits s" using assms(2) by (simp add: whole_part_def)
  obtain c s' where s: "s = c # s'" using d by (cases s) (simp_all add: digits_def)
  have a: "at ps (of_nat c # map of_nat s' @ rest)" using assms(1) digits_bytes [OF d] s by simp
  show ?thesis
  proof (cases "c = 48")
    case True
    then have z: "s = [48]" using assms(2) s by (simp add: whole_part_def)
    have "peek_in ps {CHR ''0''}" using a True by (simp add: peek_in_at byte_def)
    moreover have "at (bump 1 ps) rest" using at_Cons(3) [OF a] z s by simp
    then have "\<not> peek_in (bump 1 ps) digit_chars" using assms(3) by (cases rest) (auto simp: peek_in_end peek_in_at)
    ultimately show ?thesis using z digits_bytes [OF d] by (simp add: int_part_def)
  next
    case False
    have "48 < c" "c \<le> 57" using d s False by (auto simp: digits_def is_digit_char_def)
    then have "unat (of_nat c :: u8) \<noteq> 48" by (simp add: unat_of_nat)
    then have "\<not> peek_in ps {CHR ''0''}" using peek_in_at [OF a] by (auto simp: byte_def)
    then show ?thesis using need_digits_at [OF assms(1) d assms(3)] by (simp add: int_part_def)
  qed
qed

lemma ends_value_no_digit: "ends_value rest \<Longrightarrow> rest = [] \<or> hd rest \<notin> byte ` digit_chars"
  by (cases rest) (auto simp: ends_value_def)

lemma not_digit_byte: "byte c \<in> byte ` digit_chars \<longleftrightarrow> c \<in> digit_chars"
  by (auto simp: byte_eq_iff)

lemma as_bytes_chr: "c < 128 \<Longrightarrow> as_bytes (c # s) = of_nat c # as_bytes s"
  by (simp add: as_bytes_Cons utf8_char_def)

lemma frac_part_at:
  assumes "at ps (as_bytes s @ rest)" "fraction_part s" "rest = [] \<or> hd rest \<notin> byte ` ({CHR ''.''} \<union> digit_chars)"
  shows "frac_part ps = Inr (bump (length (as_bytes s)) ps)"
proof (cases "s = []")
  case True
  then have "\<not> peek_in ps {CHR ''.''}" using assms(1,3) by (cases rest) (auto simp: peek_in_end peek_in_at)
  then show ?thesis using True by (simp add: frac_part_def)
next
  case False
  then obtain s' where s: "s = 46 # s'" "digits s'" using assms(2) by (cases s) (auto simp: fraction_part_def)
  have a: "at ps (byte CHR ''.'' # as_bytes s' @ rest)" using assms(1) s by (simp add: as_bytes_chr byte_def)
  have "rest = [] \<or> hd rest \<notin> byte ` digit_chars" using assms(3) by auto
  then show ?thesis
    using need_digits_at [OF at_Cons(3) [OF a] s(2)] peek_in_at [OF a] by (simp add: frac_part_def s(1) as_bytes_chr)
qed

lemma exp_part_at:
  assumes "at ps (as_bytes s @ rest)" "exponent_part s" "ends_value rest"
  shows "exp_part ps = Inr (bump (length (as_bytes s)) ps)"
proof (cases "s = []")
  case True
  then have "\<not> peek_in ps {CHR ''e'', CHR ''E''}"
    using assms(1,3) by (cases rest) (auto simp: peek_in_end peek_in_at ends_value_def)
  then show ?thesis using True by (simp add: exp_part_def)
next
  case False
  obtain s' where s: "s = 101 # s'" using assms(2) False by (cases s) (auto simp: exponent_part_def)
  have a: "at ps (byte CHR ''e'' # as_bytes s' @ rest)" using assms(1) s by (simp add: as_bytes_chr byte_def)
  note e = ends_value_no_digit [OF assms(3)]
  consider "digits s'" | c ds where "s' = c # ds" "c = 43 \<or> c = 45" "digits ds"
    using assms(2) s by (cases s') (auto simp: exponent_part_def)
  then have "need_digits (bump_if {CHR ''+'', CHR ''-''} (bump 1 ps)) = Inr (bump (length (as_bytes s')) (bump 1 ps))"
  proof cases
    case 1
    then obtain c ds where ds: "s' = c # ds" "is_digit_char c" by (cases s') (auto simp: digits_def)
    then have "at (bump 1 ps) (of_nat c # as_bytes ds @ rest)" using at_Cons(3) [OF a] by (simp add: as_bytes_chr is_digit_char_def)
    moreover have "of_nat c \<notin> byte ` {CHR ''+'', CHR ''-''}"
      using digit_byte [OF ds(2)] by (auto simp: byte_eq_iff digit_chars_def)
    ultimately have "bump_if {CHR ''+'', CHR ''-''} (bump 1 ps) = bump 1 ps" by (simp add: bump_if_def peek_in_at)
    then show ?thesis using need_digits_at [OF at_Cons(3) [OF a] 1 e] by simp
  next
    case (2 c ds)
    then have b: "at (bump 1 ps) (of_nat c # as_bytes ds @ rest)" using at_Cons(3) [OF a] by (auto simp: as_bytes_chr)
    have "of_nat c \<in> byte ` {CHR ''+'', CHR ''-''}" using 2(2) by (auto simp: byte_def)
    then have "bump_if {CHR ''+'', CHR ''-''} (bump 1 ps) = bump 1 (bump 1 ps)" using b by (simp add: bump_if_def peek_in_at)
    then show ?thesis using need_digits_at [OF at_Cons(3) [OF b] 2(3) e] 2 by (auto simp: as_bytes_chr)
  qed
  then show ?thesis using peek_in_at [OF a] by (simp add: exp_part_def s as_bytes_chr)
qed

lemma number_textI:
  "sg = [] \<or> sg = [45] \<Longrightarrow> whole_part ip \<Longrightarrow> fraction_part fp \<Longrightarrow> exponent_part ep \<Longrightarrow> number_text (sg @ ip @ fp @ ep)"
  unfolding number_text_def by blast

lemma number_text_cases:
  assumes "number_text t"
  obtains sg ip fp ep where "t = sg @ ip @ fp @ ep" "sg = [] \<or> sg = [45]" "whole_part ip" "fraction_part fp" "exponent_part ep"
  using assms unfolding number_text_def by blast

lemma digits_ascii: "digits s \<Longrightarrow> \<forall>c \<in> set s. c < 128"
  by (auto simp: digits_def list_all_iff is_digit_char_def)

lemma exponent_ascii: "exponent_part s \<Longrightarrow> \<forall>c \<in> set s. c < 128"
proof (cases s)
  case (Cons c t)
  assume "exponent_part s"
  then consider "c = 101" "digits t" | d u where "c = 101" "t = d # u" "d = 43 \<or> d = 45" "digits u"
    using Cons by (cases t) (auto simp: exponent_part_def)
  then show ?thesis using Cons digits_ascii [of t] by cases (auto dest: digits_ascii)
qed simp

lemma fraction_ascii: "fraction_part s \<Longrightarrow> \<forall>c \<in> set s. c < 128"
  using digits_ascii [of "tl s"] by (cases s) (auto simp: fraction_part_def)

lemma number_ascii: "number_text t \<Longrightarrow> \<forall>c \<in> set t. c < 128"
proof (elim number_text_cases)
  fix sg ip fp ep
  assume t: "t = sg @ ip @ fp @ ep" and p: "sg = [] \<or> sg = [45]" "whole_part ip" "fraction_part fp" "exponent_part ep"
  have "\<forall>c \<in> set ip. c < 128" using p(2) digits_ascii [of ip] by (simp add: whole_part_def)
  moreover have "\<forall>c \<in> set sg. c < 128" using p(1) by auto
  ultimately show ?thesis unfolding t set_append using fraction_ascii [OF p(3)] exponent_ascii [OF p(4)] by blast
qed

lemma part_head:
  assumes "s = [] \<or> of_nat (hd s) = byte c" "\<forall>x \<in> set s. x < 128" "c \<notin> cs" "rest = [] \<or> hd rest \<notin> byte ` cs"
  shows "as_bytes s @ rest = [] \<or> hd (as_bytes s @ rest) \<notin> byte ` cs"
  using assms by (cases s) (auto simp: as_bytes_chr byte_eq_iff)

lemma json_parse_number_at:
  assumes a: "at ps (as_bytes t @ rest)" and t: "number_text t" and e: "ends_value rest" and v: "list_all valid_char t"
  shows "json_parse_number ps = bindr (number_node t (bump (length (as_bytes t)) ps)) (\<lambda>node. Inr (node, bump (length (as_bytes t)) ps))"
proof -
  obtain sg ip fp ep where p: "t = sg @ ip @ fp @ ep" "sg = [] \<or> sg = [45]" "whole_part ip" "fraction_part fp" "exponent_part ep"
    using number_text_cases [OF t] .
  have asc: "\<forall>c \<in> set t. c < 128" using number_ascii [OF t] .
  have sub: "\<forall>c \<in> set ep. c < 128" "\<forall>c \<in> set fp. c < 128" using asc p(1) by simp_all
  have he: "ep = [] \<or> of_nat (hd ep) = byte CHR ''e''" using p(5) by (auto simp: exponent_part_def byte_def)
  have hf: "fp = [] \<or> of_nat (hd fp) = byte CHR ''.''" using p(4) by (auto simp: fraction_part_def byte_def)
  have "rest = [] \<or> hd rest \<notin> byte ` ({CHR ''.''} \<union> digit_chars)" using e by (cases rest) (auto simp: ends_value_def)
  from part_head [OF he sub(1) _ this]
  have r2: "as_bytes ep @ rest = [] \<or> hd (as_bytes ep @ rest) \<notin> byte ` ({CHR ''.''} \<union> digit_chars)" by (simp add: digit_chars_def)
  then have "as_bytes ep @ rest = [] \<or> hd (as_bytes ep @ rest) \<notin> byte ` digit_chars" by blast
  from part_head [OF hf sub(2) _ this]
  have r1: "as_bytes fp @ as_bytes ep @ rest = [] \<or> hd (as_bytes fp @ as_bytes ep @ rest) \<notin> byte ` digit_chars" by (simp add: digit_chars_def)
  let ?p1 = "bump (length (as_bytes sg)) ps"
  have a1: "at ?p1 (as_bytes ip @ as_bytes fp @ as_bytes ep @ rest)" using at_append [of ps "as_bytes sg"] a p(1) by simp
  have a2: "at (bump (length (as_bytes ip)) ?p1) (as_bytes fp @ as_bytes ep @ rest)" using at_append [OF a1] .
  have a3: "at (bump (length (as_bytes fp)) (bump (length (as_bytes ip)) ?p1)) (as_bytes ep @ rest)" using at_append [OF a2] .
  have sg: "bump_if {CHR ''-''} ps = ?p1"
  proof (cases "sg = []")
    case True
    obtain c s where s: "ip = c # s" "is_digit_char c" using p(3) by (cases ip) (auto simp: whole_part_def digits_def)
    then have "at ps (of_nat c # as_bytes s @ as_bytes fp @ as_bytes ep @ rest)"
      using a1 True by (simp add: as_bytes_chr is_digit_char_def)
    moreover have "of_nat c \<notin> byte ` {CHR ''-''}" using digit_byte [OF s(2)] by (auto simp: byte_eq_iff digit_chars_def)
    ultimately show ?thesis using True by (simp add: bump_if_def peek_in_at)
  next
    case False
    then have "at ps (byte CHR ''-'' # as_bytes ip @ as_bytes fp @ as_bytes ep @ rest)"
      using a p(1,2) by (simp add: as_bytes_chr byte_def)
    then show ?thesis using False p(2) by (simp add: bump_if_def peek_in_at as_bytes_chr)
  qed
  have "take (length (as_bytes t)) (drop (jp_pos ps) (jp_source ps)) = as_bytes t" using a by (simp add: at_def)
  moreover have "from_utf8 (as_bytes t) = Some t" using v by (simp add: from_utf8_as_bytes list_all_iff)
  moreover have "length (as_bytes t) = length (as_bytes sg) + length (as_bytes ip) + length (as_bytes fp) + length (as_bytes ep)" using p(1) by simp
  ultimately show ?thesis
    using sg int_part_at [OF a1 p(3) r1] frac_part_at [OF a2 p(4) r2] exp_part_at [OF a3 p(5) e]
    by (simp add: json_parse_number_def add.assoc)
qed

section \<open>Integers\<close>

lemma dec_text_whole: "dec_text n s \<Longrightarrow> whole_part s \<and> list_all is_digit_char s \<and> s \<noteq> [] \<and> dec_val s = n"
  by (auto simp: dec_text_def whole_part_def digits_def)

lemma int_text_number: "int_text i t \<Longrightarrow> number_text t"
proof -
  have p: "fraction_part []" "exponent_part []" by (simp_all add: fraction_part_def exponent_part_def)
  assume t: "int_text i t"
  show ?thesis
  proof (cases "i < 0")
    case True
    then have "t = [45] @ tl t @ [] @ []" "whole_part (tl t)"
      using t dec_text_whole [of "nat (- i)" "tl t"] by (cases t; simp add: int_text_def)+
    then show ?thesis unfolding number_text_def using p by blast
  next
    case False
    then have "t = [] @ t @ [] @ []" "whole_part t" using t dec_text_whole [of "nat i" t] by (simp_all add: int_text_def)
    then show ?thesis unfolding number_text_def using p by blast
  qed
qed

lemma digit_not_sign: "list_all is_digit_char s \<Longrightarrow> s \<noteq> [] \<Longrightarrow> hd s \<noteq> 45 \<and> hd s \<noteq> 43"
  by (cases s) (auto simp: is_digit_char_def)

lemma int_text_parse:
  assumes "int_text i t"
  shows "parse_i64 t = (if - (2 ^ 63) \<le> i \<and> i < 2 ^ 63 then Some (of_int i) else None)"
proof (cases "i < 0")
  case True
  then obtain s where s: "t = 45 # s" "dec_text (nat (- i)) s" using assms by (cases t) (auto simp: int_text_def)
  then show ?thesis using True dec_text_whole [OF s(2)] by (simp add: parse_i64_def Let_def)
next
  case False
  then have "dec_text (nat i) t" using assms by (simp add: int_text_def)
  from dec_text_whole [OF this] show ?thesis using False digit_not_sign [of t] by (simp add: parse_i64_def Let_def)
qed

definition magnitude :: "rstring \<Rightarrow> rstring" where
  "magnitude t = (if t \<noteq> [] \<and> hd t = 45 then tl t else t)"

lemma int_text_magnitude:
  assumes "int_text i t"
  shows "dec_text (nat \<bar>i\<bar>) (magnitude t)" "(t \<noteq> [] \<and> hd t = 45) \<longleftrightarrow> i < 0"
proof -
  show "dec_text (nat \<bar>i\<bar>) (magnitude t)"
    using assms digit_not_sign [of t] by (auto simp: int_text_def magnitude_def dec_text_def split: if_splits)
  show "(t \<noteq> [] \<and> hd t = 45) \<longleftrightarrow> i < 0"
    using assms digit_not_sign [of t] by (auto simp: int_text_def dec_text_def split: if_splits)
qed

lemma int_text_chars: "int_text i t \<Longrightarrow> set t \<inter> chr ` {CHR ''.'', CHR ''e'', CHR ''E''} = {}"
proof -
  have d: "x \<noteq> chr CHR ''.'' \<and> x \<noteq> chr CHR ''e'' \<and> x \<noteq> chr CHR ''E''" if "x = 45 \<or> is_digit_char x" for x
    using that by (auto simp: is_digit_char_def chr_def)
  assume t: "int_text i t"
  have "\<forall>x \<in> set t. x = 45 \<or> is_digit_char x"
    using t by (cases t) (auto simp: int_text_def dec_text_def list_all_iff split: if_splits)
  then show ?thesis using d by fastforce
qed

lemma from_str_radix_dec:
  assumes "dec_text n s"
  shows "\<exists>b. from_str_radix s 10 = Some b \<and> bwf b \<and> bval b = int n"
proof -
  have s: "list_all is_digit_char s" "s \<noteq> []" "dec_val s = n" using dec_text_whole [OF assms] by simp_all
  have "\<forall>c \<in> set s. to_digit (unat (10 :: u32)) c \<noteq> None"
    using s(1) to_digit_decimal by (fastforce simp: list_all_iff is_digit_char_def)
  then obtain b where "from_str_loop 10 bigint_zero s = Some b" "bwf b"
    "bval b = digits_val (int (unat (10 :: u32))) (bval bigint_zero) (char_digits (unat (10 :: u32)) s)"
    using from_str_loop_val [of 10 s bigint_zero] by (auto simp: bigint_wf)
  then show ?thesis using dec_val_digits [OF s(1)] s(2,3) by (simp add: from_str_radix_def bigint_val)
qed

text \<open>The node of an integer: a machine integer where it fits, a big one elsewhere.\<close>

definition int_node :: "BigInt \<Rightarrow> JsonNode" where
  "int_node b = (if - (2 ^ 63) \<le> bval b \<and> bval b < 2 ^ 63 then JInt (of_int (bval b)) else JBigInt b)"

lemma number_node_int:
  assumes t: "int_text (bval b) t" and wf: "bwf b"
    and lim: "0 < sint (jp_max_str_digits ps) \<longrightarrow> length (magnitude t) \<le> unat (jp_max_str_digits ps)"
  shows "number_node t ps = Inr (int_node b)"
proof -
  obtain m where m: "from_str_radix (magnitude t) 10 = Some m" "bwf m" "bval m = int (nat \<bar>bval b\<bar>)"
    using from_str_radix_dec [OF int_text_magnitude(1) [OF t]] by blast
  have "(if bval b < 0 then negated m else m) = b"
    using m(2,3) wf by (intro wf_eqI) (auto simp: bigint_wf bigint_val)
  moreover have "json_validate_int_digits_limit ps (magnitude t) = Inr ()"
    using lim by (auto simp: json_validate_int_digits_limit_def Let_def)
  ultimately show ?thesis
    using int_text_chars [OF t] int_text_parse [OF t] m(1) int_text_magnitude(2) [OF t]
    by (simp add: number_node_def int_node_def Let_def magnitude_def)
qed

lemma number_node_i64:
  assumes "int_text i t" "- (2 ^ 63) \<le> i" "i < 2 ^ 63"
  shows "number_node t ps = Inr (JInt (of_int i))"
  using assms int_text_chars [OF assms(1)] int_text_parse [OF assms(1)] by (simp add: number_node_def)

section \<open>Floats\<close>

lemma whole_head: "whole_part ip \<Longrightarrow> \<exists>c s. ip = c # s \<and> is_digit_char c \<and> list_all is_digit_char s"
  by (cases ip) (simp_all add: whole_part_def digits_def)

lemma parse_f64_signed:
  assumes "sg = [] \<or> sg = [45]" "whole_part ip"
  shows "parse_f64 (sg @ ip @ s) = map_option (\<lambda>v. if sg = [45] then of_nat v OR push_bit 63 1 else of_nat v) (parse_number (ip @ s))"
proof -
  obtain c t where c: "ip = c # t" "is_digit_char c" using whole_head [OF assms(2)] by blast
  then have "c \<noteq> 45" "c \<noteq> 43" "lower_char c \<noteq> 105" "lower_char c \<noteq> 110" by (auto simp: is_digit_char_def lower_char_def)
  then show ?thesis using assms(1) c(1) by (auto simp: parse_f64_def Let_def str_def)
qed

lemma takeWhile_digits:
  assumes "list_all is_digit_char ds" "s = [] \<or> \<not> is_digit_char (hd s)"
  shows "takeWhile is_digit_char (ds @ s) = ds" "dropWhile is_digit_char (ds @ s) = s"
  using assms by (cases s; simp add: list_all_iff takeWhile_append2 dropWhile_append2)+

lemma parse_number_parts:
  assumes "whole_part ip" "fraction_part fp" "exponent_part ep"
  shows "parse_number (ip @ fp @ ep) =
    (case parse_exp ep of None \<Rightarrow> None
     | Some ex \<Rightarrow> let e = ex - int (length (tl fp)); n = dec_val (ip @ tl fp)
         in Some (if 0 \<le> e then f64_round (n * 10 ^ nat e) 1 else f64_round n (10 ^ nat (- e))))"
proof -
  have ip: "list_all is_digit_char ip" "ip \<noteq> []" using assms(1) by (simp_all add: whole_part_def digits_def)
  have ep: "ep = [] \<or> hd ep = 101" using assms(3) by (auto simp: exponent_part_def)
  then have epd: "ep = [] \<or> \<not> is_digit_char (hd ep)" by (auto simp: is_digit_char_def)
  show ?thesis
  proof (cases "fp = []")
    case True
    then show ?thesis using takeWhile_digits [OF ip(1) epd] ip(2) ep by (auto simp: parse_number_def Let_def split: option.split)
  next
    case False
    then obtain ds where ds: "fp = 46 # ds" "list_all is_digit_char ds" using assms(2) by (cases fp) (auto simp: fraction_part_def digits_def)
    then have "fp @ ep = [] \<or> \<not> is_digit_char (hd (fp @ ep))" by (simp add: is_digit_char_def)
    then show ?thesis
      using takeWhile_digits [OF ip(1)] takeWhile_digits [OF ds(2) epd] ip(2) ds(1) by (simp add: parse_number_def Let_def split: option.split)
  qed
qed

lemma dec_val_zeros: "dec_val (replicate n 48 @ s) = dec_val s"
proof (induction s rule: rev_induct)
  case Nil
  show ?case by (induction n) (simp_all add: dec_val_def)
next
  case (snoc c s)
  then show ?case by (simp add: dec_val_append flip: append_assoc)
qed

lemma format_exponent_parts:
  "exponent_part (101 # format_exponent k)" "parse_exp (101 # format_exponent k) = Some k"
proof -
  let ?ds = "replicate (2 - length (nat_dec (nat \<bar>k\<bar>))) 48 @ nat_dec (nat \<bar>k\<bar>)"
  note n = dec_text_whole [OF nat_dec_text [of "nat \<bar>k\<bar>"]]
  have ds: "list_all is_digit_char ?ds" "?ds \<noteq> []" "dec_val ?ds = nat \<bar>k\<bar>"
    using n by (auto simp: dec_val_zeros list_all_iff is_digit_char_def)
  have f: "format_exponent k = (if k < 0 then 45 else 43) # ?ds" by (simp add: format_exponent_def chr_def)
  show "exponent_part (101 # format_exponent k)" using ds(1,2) by (simp add: f exponent_part_def digits_def)
  show "parse_exp (101 # format_exponent k) = Some k" using ds by (simp add: f parse_exp_def lower_char_def Let_def)
qed

lemma int_dec_parts:
  "exponent_part (101 # int_dec k)" "parse_exp (101 # int_dec k) = Some k"
proof -
  note n = dec_text_whole [OF nat_dec_text [of "nat \<bar>k\<bar>"]]
  have h: "hd (nat_dec m) \<noteq> 45 \<and> hd (nat_dec m) \<noteq> 43" for m
    using digit_not_sign [of "nat_dec m"] dec_text_whole [OF nat_dec_text [of m]] by simp
  show "exponent_part (101 # int_dec k)" using n by (auto simp: int_dec_def exponent_part_def digits_def str_def)
  show "parse_exp (101 # int_dec k) = Some k" using n h by (auto simp: int_dec_def parse_exp_def lower_char_def Let_def str_def)
qed

text \<open>
  What the writer needs of \<open>{:?}\<close> on a finite double: digits with a fraction or a decimal exponent
  (or both), which read back as the same double.
\<close>

definition debug_text :: "(f64 \<Rightarrow> rstring) \<Rightarrow> f64 \<Rightarrow> bool" where
  "debug_text debug x \<longleftrightarrow>
     (\<exists>sg ip fp ep. debug x = sg @ ip @ fp @ ep \<and> (sg = [] \<or> sg = [45]) \<and> whole_part ip \<and> fraction_part fp \<and>
        (ep = [] \<and> fp \<noteq> [] \<or> (\<exists>k. ep = 101 # int_dec k \<and> - (2 ^ 31) \<le> k \<and> k < 2 ^ 31))) \<and>
     parse_f64 (debug x) = Some x"

lemma splitn_2: "c \<notin> set a \<Longrightarrow> splitn 2 c (a @ c # b) = [a, b]" "c \<notin> set a \<Longrightarrow> splitn 2 c a = [a]"
  by (induction a) (auto simp: numeral_2_eq_2)

lemma mantissa_no_e: "sg = [] \<or> sg = [45] \<Longrightarrow> whole_part ip \<Longrightarrow> fraction_part fp \<Longrightarrow> 101 \<notin> set (sg @ ip @ fp)"
proof -
  assume p: "sg = [] \<or> sg = [45]" "whole_part ip" "fraction_part fp"
  have d: "101 \<notin> set ds" if "list_all is_digit_char ds" for ds using that by (auto simp: list_all_iff is_digit_char_def)
  have "101 \<notin> set fp" using p(3) d [of "tl fp"] by (cases fp) (auto simp: fraction_part_def digits_def)
  then show ?thesis using p(1,2) d [of ip] by (auto simp: whole_part_def digits_def)
qed

lemma format_float_reads:
  assumes "debug_text debug x" "is_finite x"
  shows "number_text (format_float debug x)" "parse_f64 (format_float debug x) = Some x"
    "set (format_float debug x) \<inter> chr ` {CHR ''.'', CHR ''e'', CHR ''E''} \<noteq> {}"
proof -
  obtain sg ip fp ep where p: "debug x = sg @ ip @ fp @ ep" "sg = [] \<or> sg = [45]" "whole_part ip" "fraction_part fp"
    and e: "ep = [] \<and> fp \<noteq> [] \<or> (\<exists>k. ep = 101 # int_dec k \<and> - (2 ^ 31) \<le> k \<and> k < 2 ^ 31)"
    and r: "parse_f64 (debug x) = Some x"
    using assms(1) unfolding debug_text_def by blast
  have nan: "\<not> is_nan x" using assms(2) by (simp add: is_nan_def is_finite_def)
  note no_e = mantissa_no_e [OF p(2-4)]
  have "number_text (format_float debug x) \<and> parse_f64 (format_float debug x) = Some x \<and>
    set (format_float debug x) \<inter> chr ` {CHR ''.'', CHR ''e'', CHR ''E''} \<noteq> {}"
    using e
  proof (elim disjE exE)
    assume "ep = [] \<and> fp \<noteq> []"
    then have ep: "ep = []" and "46 \<in> set fp" using p(4) by (cases fp; simp add: fraction_part_def)+
    then have c: "set (debug x) \<inter> chr ` {CHR ''.'', CHR ''e'', CHR ''E''} \<noteq> {}" using p(1) by (auto simp: chr_def)
    have "splitn 2 101 (debug x) = [debug x]" using p(1) ep no_e by (simp add: splitn_2)
    then have "format_float debug x = debug x" using nan assms(2) c by (simp add: format_float_def chr_def Let_def) blast
    moreover have "number_text (debug x)" using number_textI [OF p(2-4), of ep] p(1) ep by (simp add: exponent_part_def)
    ultimately show ?thesis using c r by simp
  next
    fix k
    assume k: "ep = 101 # int_dec k \<and> - (2 ^ 31) \<le> k \<and> k < 2 ^ 31"
    let ?t = "sg @ ip @ fp @ 101 # format_exponent k"
    have c: "set ?t \<inter> chr ` {CHR ''.'', CHR ''e'', CHR ''E''} \<noteq> {}" by (auto simp: chr_def)
    have "debug x = (sg @ ip @ fp) @ 101 # int_dec k" using p(1) k by simp
    then have "splitn 2 101 (debug x) = [sg @ ip @ fp, int_dec k]" using splitn_2(1) [OF no_e] by metis
    then have f: "format_float debug x = ?t"
      using nan assms(2) c k int_dec_parts(2) [of k] by (simp add: format_float_def chr_def str_def Let_def)
    have "number_text ?t" using number_textI [OF p(2-4) format_exponent_parts(1)] .
    moreover have "parse_f64 ?t = parse_f64 (debug x)"
      unfolding p(1) parse_f64_signed [OF p(2,3)] using k
      by (simp add: parse_number_parts [OF p(3,4)] format_exponent_parts int_dec_parts)
    ultimately show ?thesis using f r c by simp
  qed
  then show "number_text (format_float debug x)" "parse_f64 (format_float debug x) = Some x"
    "set (format_float debug x) \<inter> chr ` {CHR ''.'', CHR ''e'', CHR ''E''} \<noteq> {}" by blast+
qed

lemma number_node_float:
  "debug_text debug x \<Longrightarrow> is_finite x \<Longrightarrow> number_node (format_float debug x) ps = Inr (JFloat x)"
  using format_float_reads [of debug x] by (simp add: number_node_def)

lemma f64_infinite:
  assumes "\<not> is_finite x" "\<not> is_nan x"
  shows "x = (if f64_sign_bit x then f64_neg_inf else f64_pos_inf)"
proof -
  let ?n = "unat x"
  have e: "?n div 2 ^ 52 mod 2 ^ 11 = 2047"
  proof -
    have "drop_bit 52 x AND 0x7ff = take_bit 11 (drop_bit 52 x)" by (simp add: take_bit_eq_mask mask_eq_exp_minus_1)
    moreover have "unat (take_bit 11 (drop_bit 52 x)) = ?n div 2 ^ 52 mod 2 ^ 11"
      unfolding unsigned_take_bit_eq unat_drop_bit_eq by (simp add: take_bit_eq_mod drop_bit_eq_div)
    ultimately show ?thesis using assms(1) by (simp only: is_finite_def f64_exponent_def) simp
  qed
  have m: "?n mod 2 ^ 52 = 0"
  proof -
    have "x AND (push_bit 52 1 - 1) = take_bit 52 x" by (simp add: take_bit_eq_mask mask_eq_exp_minus_1 push_bit_eq_mult)
    moreover have "f64_mantissa x = 0" using assms by (simp add: is_nan_def is_finite_def)
    moreover have "unat (take_bit 52 x) = ?n mod 2 ^ 52" unfolding unsigned_take_bit_eq by (simp add: take_bit_eq_mod)
    ultimately show ?thesis by (simp only: f64_mantissa_def)
  qed
  have s: "f64_sign_bit x \<longleftrightarrow> ?n div 2 ^ 63 \<noteq> 0"
  proof -
    have "unat (drop_bit 63 x) = ?n div 2 ^ 63" unfolding unat_drop_bit_eq by (simp add: drop_bit_eq_div)
    then show ?thesis by (metis f64_sign_bit_def unat_eq_0)
  qed
  have lt: "?n < 2 ^ 64" using unsigned_less [of x] by simp
  have "?n = ?n div 2 ^ 52 * 2 ^ 52" using m by (metis add.right_neutral div_mult_mod_eq)
  moreover have "?n div 2 ^ 52 = ?n div 2 ^ 63 * 2 ^ 11 + 2047"
    using e div_mult_mod_eq [of "?n div 2 ^ 52" "2 ^ 11"] by (simp add: div_mult2_eq [symmetric])
  moreover have "?n div 2 ^ 63 = (if f64_sign_bit x then 1 else 0)" using s lt by auto
  ultimately have "?n = (if f64_sign_bit x then 0xFFF0000000000000 else 0x7FF0000000000000)" by auto
  then show ?thesis by (auto simp: f64_neg_inf_def f64_pos_inf_def split: if_splits intro!: word_unat_eq_iff [THEN iffD2])
qed

end
