(* ===== verification/Json_Proofs.thy ===== *)
theory Json_Proofs
  imports Json_Numbers
begin

text \<open>
  Values written by the JSON writer are read back by the JSON parser: the white space, the scalars,
  the members of a container, and the induction over the writer's descent.
\<close>

section \<open>White space and separators\<close>

definition white_space :: "char set" where
  "white_space = {CHR '' '', CHR 0x0A, CHR 0x0D, CHR 0x09}"

definition is_ws :: "rchar \<Rightarrow> bool" where
  "is_ws c \<longleftrightarrow> c = 32 \<or> c = 10 \<or> c = 13 \<or> c = 9"

definition json_ws :: "rstring \<Rightarrow> bool" where
  "json_ws s \<longleftrightarrow> list_all is_ws s"

text \<open>A separator: the character \<open>c\<close> among white space.\<close>

definition separator :: "char \<Rightarrow> rstring \<Rightarrow> bool" where
  "separator c s \<longleftrightarrow> (case dropWhile is_ws s of [] \<Rightarrow> False | d # b \<Rightarrow> d = chr c \<and> json_ws b)"

text \<open>The first character of a written value.\<close>

definition starts_value :: "rstring \<Rightarrow> bool" where
  "starts_value s \<longleftrightarrow> s \<noteq> [] \<and> hd s < 128 \<and> \<not> is_ws (hd s) \<and> hd s \<noteq> chr CHR '']'' \<and> hd s \<noteq> chr CHR ''}''"

lemma of_nat_byte: "c < 128 \<Longrightarrow> of_nat c = byte d \<longleftrightarrow> c = chr d"
proof -
  assume "c < 128"
  then have "unat (of_nat c :: u8) = c" by (simp add: unat_of_nat)
  moreover have "unat (byte d) = chr d" by (simp add: byte_def chr_def unat_of_nat)
  ultimately show "of_nat c = byte d \<longleftrightarrow> c = chr d" by (metis word_unat_eq_iff)
qed

lemma byte_image: "c < 128 \<Longrightarrow> of_nat c \<in> byte ` cs \<longleftrightarrow> c \<in> chr ` cs"
  by (auto simp: of_nat_byte)

lemma ws_byte: "c < 128 \<Longrightarrow> of_nat c \<in> byte ` white_space \<longleftrightarrow> is_ws c"
  by (simp only: byte_image) (auto simp: white_space_def is_ws_def chr_def)

lemma json_ws_bytes: "json_ws w \<Longrightarrow> as_bytes w = map of_nat w \<and> list_all (\<lambda>b. b \<in> byte ` white_space) (map of_nat w)"
  by (fastforce simp: json_ws_def list_all_iff ws_byte is_ws_def intro!: as_bytes_ascii ws_byte [THEN iffD2])

lemma skip_ws_at:
  assumes "at ps (as_bytes w @ rest)" "json_ws w" "rest = [] \<or> hd rest \<notin> byte ` white_space"
  shows "skip_ws ps = bump (length (as_bytes w)) ps"
  using skip_while_at [of ps "as_bytes w" rest white_space] assms json_ws_bytes [OF assms(2)]
  by (simp add: skip_ws_def white_space_def)

lemma skip_ws_none:
  assumes "at ps rest" "rest = [] \<or> hd rest \<notin> byte ` white_space"
  shows "skip_ws ps = ps"
  using skip_ws_at [of ps "[]" rest] assms by (simp add: json_ws_def)

lemma starts_value_bytes:
  assumes "starts_value s"
  shows "\<exists>b bs. as_bytes s = b # bs \<and> b \<notin> byte ` white_space \<and> b \<noteq> byte CHR '']'' \<and> b \<noteq> byte CHR ''}''"
proof -
  obtain c t where s: "s = c # t" using assms by (cases s) (auto simp: starts_value_def)
  then show ?thesis using assms by (auto simp: starts_value_def as_bytes_chr ws_byte of_nat_byte)
qed

lemma separator_split:
  assumes "separator c s"
  obtains a b where "s = a @ chr c # b" "json_ws a" "json_ws b"
proof
  show "s = takeWhile is_ws s @ chr c # tl (dropWhile is_ws s)"
    using assms by (simp add: separator_def split: list.splits) (metis list.sel(3) takeWhile_dropWhile_id)
  show "json_ws (takeWhile is_ws s)" by (auto simp: json_ws_def list_all_iff dest: set_takeWhileD)
  show "json_ws (tl (dropWhile is_ws s))" using assms by (auto simp: separator_def split: list.splits)
qed

lemma separator_append: "separator c s \<Longrightarrow> json_ws w \<Longrightarrow> separator c (s @ w)"
proof (induction s)
  case (Cons x s)
  then show ?case by (cases "is_ws x") (simp_all add: separator_def json_ws_def)
qed (simp add: separator_def)

lemma json_ws_append: "json_ws a \<Longrightarrow> json_ws b \<Longrightarrow> json_ws (a @ b)"
  by (simp add: json_ws_def)

lemma json_ws_repeat: "json_ws s \<Longrightarrow> json_ws (repeat_text s n)"
  by (induction n) (simp_all add: repeat_text_def json_ws_def)

lemma at_unique: "at (bump n ps) rest \<Longrightarrow> at (bump m ps) rest \<Longrightarrow> n = m"
  unfolding at_def by (metis (no_types, lifting) bump_simps(3,4) add_left_cancel diff_diff_cancel length_drop)

section \<open>The steps of the parser\<close>

lemma as_bytes_char: "as_bytes (chr c # s) = byte c # as_bytes s" if "chr c < 128"
  using that by (simp add: as_bytes_chr byte_def chr_def)

lemma separator_at:
  assumes a: "at ps (as_bytes s @ rest)" and s: "separator c s" and c: "chr c < 128" "c \<notin> white_space"
    and r: "rest = [] \<or> hd rest \<notin> byte ` white_space"
  obtains n where "skip_ws ps = bump n ps" "json_next (bump n ps) = Some (byte c, bump (n + 1) ps)"
    "skip_ws (bump (n + 1) ps) = bump (length (as_bytes s)) ps" "at (bump (length (as_bytes s)) ps) rest"
proof -
  obtain w1 w2 where w: "s = w1 @ chr c # w2" "json_ws w1" "json_ws w2" using separator_split [OF s] .
  let ?n = "length (as_bytes w1)"
  have a1: "at ps (as_bytes w1 @ byte c # as_bytes w2 @ rest)" using a w(1) c(1) by (simp add: as_bytes_char)
  have a2: "at (bump ?n ps) (byte c # as_bytes w2 @ rest)" using at_append [OF a1] .
  have s1: "skip_ws ps = bump ?n ps" using c(2) by (intro skip_ws_at [OF a1 w(2)]) (auto simp: byte_eq_iff)
  have s2: "skip_ws (bump (?n + 1) ps) = bump (length (as_bytes w2)) (bump (?n + 1) ps)"
    using skip_ws_at [OF _ w(3) r] at_Cons(3) [OF a2] by simp
  show ?thesis
    using that [of ?n] s1 s2 at_Cons(2) [OF a2] at_append [OF a] w(1) c(1) by (simp add: as_bytes_char ac_simps)
qed

lemma after_member_next:
  assumes "at ps (as_bytes s @ b # rest)" "separator CHR '','' s" "b \<notin> byte ` white_space"
  shows "\<exists>comma. after_member close msg ps = Inr (NextMember comma (bump (length (as_bytes s)) ps))"
proof -
  obtain n where n: "skip_ws ps = bump n ps" "json_next (bump n ps) = Some (byte CHR '','', bump (n + 1) ps)"
    "skip_ws (bump (n + 1) ps) = bump (length (as_bytes s)) ps" "at (bump (length (as_bytes s)) ps) (b # rest)"
    using separator_at [OF assms(1,2)] assms(3) by (auto simp: white_space_def chr_def)
  then show ?thesis by (simp add: after_member_def Let_def at_Cons(1) [OF n(4)])
qed

lemma after_member_last:
  assumes "at ps (as_bytes w @ byte close # rest)" "json_ws w" "close \<notin> white_space" "close \<noteq> CHR '',''"
  shows "after_member close msg ps = Inr (LastMember (bump (length (as_bytes w) + 1) ps))"
proof -
  have "skip_ws ps = bump (length (as_bytes w)) ps"
    using assms(3) by (intro skip_ws_at [OF assms(1,2)]) (auto simp: byte_eq_iff)
  moreover have "json_next (bump (length (as_bytes w)) ps) = Some (byte close, bump 1 (bump (length (as_bytes w)) ps))"
    using at_Cons(2) [OF at_append [OF assms(1)]] .
  ultimately show ?thesis using assms(4) by (simp add: after_member_def byte_eq_iff)
qed

lemma member_key_at:
  assumes a: "at ps (as_bytes (json_escape_string key ea @ s) @ b # rest)" and k: "writable ea key"
    and s: "separator CHR '':'' s" and b: "b \<notin> byte ` white_space"
  shows "member_key ps = Inr (key, bump (length (as_bytes (json_escape_string key ea @ s))) ps)"
proof -
  let ?n = "length (as_bytes (json_escape_string key ea))"
  have a1: "at ps (as_bytes (json_escape_string key ea) @ as_bytes s @ b # rest)" using a by simp
  obtain n where "json_parse_string ps = Inr (key, bump n ps)" "at (bump n ps) (as_bytes s @ b # rest)"
    using json_string_read [OF a1 k] by blast
  then have p: "json_parse_string ps = Inr (key, bump ?n ps)" "at (bump ?n ps) (as_bytes s @ b # rest)"
    using at_unique at_append [OF a1] by blast+
  obtain j where j: "skip_ws (bump ?n ps) = bump j (bump ?n ps)"
    "json_next (bump j (bump ?n ps)) = Some (byte CHR '':'', bump (j + 1) (bump ?n ps))"
    "skip_ws (bump (j + 1) (bump ?n ps)) = bump (length (as_bytes s)) (bump ?n ps)"
    "at (bump (length (as_bytes s)) (bump ?n ps)) (b # rest)"
    using separator_at [OF p(2) s] b by (auto simp: white_space_def chr_def)
  have "json_peek (bump j (bump ?n ps)) = Some (byte CHR '':'')" using j(2) by (auto simp: json_next_def split: option.splits)
  then have "json_expect CHR '':'' msg (skip_ws (bump ?n ps)) = Inr (bump (j + 1) (bump ?n ps))" for msg
    using j(1) by (simp add: json_expect_def peek_in_def)
  moreover have "peek_in ps {CHR 0x22}"
    using a1 by (auto simp: json_escape_string_def as_bytes_chr peek_in_at byte_def)
  ultimately show ?thesis using p(1) j(3) at_Cons(1) [OF j(4)] by (simp add: member_key_def Let_def)
qed

section \<open>Texts of values\<close>

text \<open>At the depth \<open>d\<close> and under the given limits, the text is read as the node, whatever follows it.\<close>

definition reads_as :: "i64 \<Rightarrow> nat \<Rightarrow> nat \<Rightarrow> rstring \<Rightarrow> JsonNode \<Rightarrow> bool" where
  "reads_as max_digits limit d s node \<longleftrightarrow> starts_value s \<and>
     (\<forall>ps rest. at ps (as_bytes s @ rest) \<longrightarrow> ends_value rest \<longrightarrow> jp_depth_limit ps = limit \<longrightarrow> jp_max_str_digits ps = max_digits \<longrightarrow>
        parse_value d ps = Inr (node, bump (length (as_bytes s)) ps))"

lemma reads_asD:
  assumes "reads_as m limit d s node" "at ps (as_bytes s @ rest)" "ends_value rest" "jp_depth_limit ps = limit" "jp_max_str_digits ps = m"
  shows "parse_value d ps = Inr (node, bump (length (as_bytes s)) ps)" "at (bump (length (as_bytes s)) ps) rest"
  using assms at_append [OF assms(2)] by (auto simp: reads_as_def)

lemma ends_value_byte: "c \<notin> {CHR ''.'', CHR ''e'', CHR ''E''} \<union> digit_chars \<Longrightarrow> ends_value (byte c # rest)"
  by (simp add: ends_value_def byte_eq_iff image_iff)

lemma ends_value_ws: "b \<in> byte ` white_space \<Longrightarrow> ends_value (b # rest)"
  by (auto simp: white_space_def digit_chars_def intro!: ends_value_byte)

lemma ends_value_text:
  assumes "json_ws w" "c \<notin> {CHR ''.'', CHR ''e'', CHR ''E''} \<union> digit_chars"
  shows "ends_value (as_bytes w @ byte c # rest)"
proof (cases w)
  case (Cons x v)
  then have "is_ws x" "x < 128" using assms(1) by (auto simp: json_ws_def is_ws_def)
  then show ?thesis using Cons by (simp add: as_bytes_chr ws_byte ends_value_ws)
qed (use assms(2) ends_value_byte in simp)

lemma ends_value_separator:
  assumes "separator CHR '','' s"
  shows "ends_value (as_bytes s @ rest)"
proof -
  obtain a b where "s = a @ chr CHR '','' # b" "json_ws a" using separator_split [OF assms] .
  then show ?thesis using ends_value_text [of a "CHR '',''" "as_bytes b @ rest"]
    by (simp add: as_bytes_char digit_chars_def chr_def [of "CHR '',''"]) (simp add: as_bytes_chr byte_def)
qed

text \<open>The text of the members read by one of the loops: the separated parts, white space and the closing bracket.\<close>

definition members_text :: "char \<Rightarrow> rstring \<Rightarrow> rstring list \<Rightarrow> rstring \<Rightarrow> rstring" where
  "members_text close sep parts w = join sep parts @ w @ [chr close]"

lemma members_text_simps:
  "members_text close sep [p] w = p @ w @ [chr close]"
  "ps \<noteq> [] \<Longrightarrow> members_text close sep (p # ps) w = p @ sep @ members_text close sep ps w"
  by (simp add: members_text_def) (cases ps; simp add: members_text_def)

lemma join_starts: "starts_value p \<Longrightarrow> starts_value (p @ s)"
  by (cases p) (simp_all add: starts_value_def)

lemma members_start: "parts \<noteq> [] \<Longrightarrow> starts_value (hd parts) \<Longrightarrow> starts_value (members_text close sep parts w)"
  by (cases parts; cases "tl parts") (auto simp: members_text_def intro: join_starts)

text \<open>A part that is not the last one, and the last one.\<close>

lemma array_loop_next:
  assumes p: "reads_as m limit d p node" and a: "at ps (as_bytes p @ as_bytes sep @ b # rest)" and s: "separator CHR '','' sep"
    and b: "b \<notin> byte ` white_space" and l: "jp_depth_limit ps = limit" "jp_max_str_digits ps = m"
    and c: "\<not> peek_in ps {CHR '']''}"
  shows "\<exists>comma'. array_loop d comma vs ps = array_loop d (Some comma') (vs @ [node]) (bump (length (as_bytes (p @ sep))) ps)"
proof -
  note v = reads_asD [OF p a ends_value_separator [OF s] l]
  obtain comma' where "after_member CHR '']'' ''Expecting value'' (bump (length (as_bytes p)) ps)
      = Inr (NextMember comma' (bump (length (as_bytes sep)) (bump (length (as_bytes p)) ps)))"
    using after_member_next [OF v(2) s b] by blast
  then show ?thesis using v(1) c by (intro exI [of _ comma']) (subst array_loop.simps, simp)
qed

lemma array_loop_last:
  assumes p: "reads_as m limit d p node" and a: "at ps (as_bytes p @ as_bytes w @ byte CHR '']'' # rest)" and w: "json_ws w"
    and l: "jp_depth_limit ps = limit" "jp_max_str_digits ps = m" and c: "\<not> peek_in ps {CHR '']''}"
  shows "array_loop d comma vs ps = Inr (JArray (vs @ [node]), bump (length (as_bytes p) + length (as_bytes w) + 1) ps)"
proof -
  have "ends_value (as_bytes w @ byte CHR '']'' # rest)" using w by (rule ends_value_text) (simp add: digit_chars_def)
  note v = reads_asD [OF p a this l]
  have "after_member CHR '']'' ''Expecting value'' (bump (length (as_bytes p)) ps)
      = Inr (LastMember (bump (length (as_bytes w) + 1) (bump (length (as_bytes p)) ps)))"
    using w by (intro after_member_last [OF v(2)]) (simp_all add: white_space_def)
  then show ?thesis using v(1) c by (subst array_loop.simps) (simp add: add.assoc)
qed

lemma starts_not_close:
  assumes "starts_value s" "at ps (as_bytes s @ rest)"
  shows "\<not> peek_in ps {CHR '']''}" "\<not> peek_in ps {CHR ''}''}"
  using starts_value_bytes [OF assms(1)] assms(2) by (auto simp: peek_in_at)

lemma array_loop_reads:
  assumes "list_all2 (reads_as m limit d) parts nodes" "parts \<noteq> []" "separator CHR '','' sep" "json_ws w"
    "at ps (as_bytes (members_text CHR '']'' sep parts w) @ rest)" "jp_depth_limit ps = limit" "jp_max_str_digits ps = m"
  shows "array_loop d comma vs ps = Inr (JArray (vs @ nodes), bump (length (as_bytes (members_text CHR '']'' sep parts w))) ps)"
  using assms
proof (induction parts nodes arbitrary: comma vs ps rule: list_all2_induct)
  case (Cons p parts node nodes)
  have start: "starts_value p" using Cons.hyps(1) by (simp add: reads_as_def)
  have c: "\<not> peek_in ps {CHR '']''}"
    using starts_not_close [OF members_start [of "p # parts"] Cons.prems(4)] start by simp
  show ?case
  proof (cases "parts = []")
    case True
    have a: "at ps (as_bytes p @ as_bytes w @ byte CHR '']'' # rest)"
      using Cons.prems(4) by (simp add: True members_text_simps as_bytes_char chr_def [of "CHR '']''"]) (simp add: as_bytes_chr byte_def)
    show ?thesis using array_loop_last [OF Cons.hyps(1) a Cons.prems(3,5,6) c] True Cons.hyps(2)
      by (simp add: members_text_simps as_bytes_chr chr_def)
  next
    case False
    let ?rest = "members_text CHR '']'' sep parts w"
    have "starts_value ?rest" using False Cons.hyps(2) by (intro members_start) (auto simp: reads_as_def neq_Nil_conv list_all2_Cons1)
    then obtain b bs where b: "as_bytes ?rest = b # bs" "b \<notin> byte ` white_space" using starts_value_bytes by blast
    have a: "at ps (as_bytes p @ as_bytes sep @ b # bs @ rest)" using Cons.prems(4) False b(1) by (simp add: members_text_simps)
    have a': "at (bump (length (as_bytes (p @ sep))) ps) (as_bytes ?rest @ rest)"
      using at_append [of ps "as_bytes (p @ sep)"] Cons.prems(4) False by (simp add: members_text_simps)
    obtain comma' where "array_loop d comma vs ps = array_loop d (Some comma') (vs @ [node]) (bump (length (as_bytes (p @ sep))) ps)"
      using array_loop_next [OF Cons.hyps(1) a Cons.prems(2) b(2) Cons.prems(5,6) c] by blast
    then show ?thesis using Cons.IH [OF False Cons.prems(2,3) a'] Cons.prems(5,6) False by (simp add: members_text_simps add.assoc)
  qed
qed simp

section \<open>Members of objects\<close>

definition member_reads_as :: "i64 \<Rightarrow> nat \<Rightarrow> nat \<Rightarrow> rstring \<Rightarrow> rstring \<times> JsonNode \<Rightarrow> bool" where
  "member_reads_as m limit d p kn \<longleftrightarrow> (\<exists>ea ks s. p = json_escape_string (fst kn) ea @ ks @ s \<and> writable ea (fst kn) \<and>
     separator CHR '':'' ks \<and> reads_as m limit d s (snd kn))"

lemma member_read:
  assumes p: "member_reads_as m limit d p (key, node)" and a: "at ps (as_bytes p @ rest)" and e: "ends_value rest"
    and l: "jp_depth_limit ps = limit" "jp_max_str_digits ps = m"
  obtains ps' where "member_key ps = Inr (key, ps')" "parse_value d ps' = Inr (node, bump (length (as_bytes p)) ps)"
    "at (bump (length (as_bytes p)) ps) rest"
proof -
  obtain ea ks s where s: "p = json_escape_string key ea @ ks @ s" "writable ea key" "separator CHR '':'' ks" "reads_as m limit d s node"
    using p by (auto simp: member_reads_as_def)
  have "starts_value s" using s(4) by (simp add: reads_as_def)
  then obtain b bs where b: "as_bytes s = b # bs" "b \<notin> byte ` white_space" using starts_value_bytes by blast
  let ?n = "length (as_bytes (json_escape_string key ea @ ks))"
  have a1: "at ps (as_bytes (json_escape_string key ea @ ks) @ as_bytes s @ rest)" using a s(1) by simp
  have "member_key ps = Inr (key, bump ?n ps)"
    using member_key_at [OF _ s(2,3) b(2), of ps "bs @ rest"] a1 b(1) by simp
  moreover have "parse_value d (bump ?n ps) = Inr (node, bump (length (as_bytes s)) (bump ?n ps))"
    using reads_asD(1) [OF s(4) at_append [OF a1] e] l by simp
  ultimately show ?thesis using that [of "bump ?n ps"] at_append [OF a] s(1) by (simp add: add.assoc)
qed

lemma member_starts: "member_reads_as m limit d p kn \<Longrightarrow> starts_value p"
  by (auto simp: member_reads_as_def json_escape_string_def starts_value_def is_ws_def chr_def)

abbreviation key_expected :: string where
  "key_expected \<equiv> ''Expecting property name enclosed in double quotes''"

lemma object_loop_next:
  assumes p: "member_reads_as m limit d p kn" and a: "at ps (as_bytes p @ as_bytes sep @ b # rest)" and s: "separator CHR '','' sep"
    and b: "b \<notin> byte ` white_space" and l: "jp_depth_limit ps = limit" "jp_max_str_digits ps = m"
    and c: "\<not> peek_in ps {CHR ''}''}"
  shows "\<exists>comma'. object_loop d comma os ps = object_loop d (Some comma') (os @ [kn]) (bump (length (as_bytes (p @ sep))) ps)"
proof -
  obtain ps' where v: "member_key ps = Inr (fst kn, ps')" "parse_value d ps' = Inr (snd kn, bump (length (as_bytes p)) ps)"
    "at (bump (length (as_bytes p)) ps) (as_bytes sep @ b # rest)"
    using member_read [OF _ a ends_value_separator [OF s] l] p by (metis prod.collapse)
  obtain comma' where "after_member CHR ''}'' key_expected (bump (length (as_bytes p)) ps)
      = Inr (NextMember comma' (bump (length (as_bytes sep)) (bump (length (as_bytes p)) ps)))"
    using after_member_next [OF v(3) s b] by blast
  then show ?thesis using v(1,2) c by (intro exI [of _ comma']) (subst object_loop.simps, simp)
qed

lemma object_loop_last:
  assumes p: "member_reads_as m limit d p kn" and a: "at ps (as_bytes p @ as_bytes w @ byte CHR ''}'' # rest)" and w: "json_ws w"
    and l: "jp_depth_limit ps = limit" "jp_max_str_digits ps = m" and c: "\<not> peek_in ps {CHR ''}''}"
  shows "object_loop d comma os ps = Inr (JObject (os @ [kn]), bump (length (as_bytes p) + length (as_bytes w) + 1) ps)"
proof -
  have "ends_value (as_bytes w @ byte CHR ''}'' # rest)" using w by (rule ends_value_text) (simp add: digit_chars_def)
  then obtain ps' where v: "member_key ps = Inr (fst kn, ps')" "parse_value d ps' = Inr (snd kn, bump (length (as_bytes p)) ps)"
    "at (bump (length (as_bytes p)) ps) (as_bytes w @ byte CHR ''}'' # rest)"
    using member_read [OF _ a _ l] p by (metis prod.collapse)
  have "after_member CHR ''}'' key_expected (bump (length (as_bytes p)) ps)
      = Inr (LastMember (bump (length (as_bytes w) + 1) (bump (length (as_bytes p)) ps)))"
    using w by (intro after_member_last [OF v(3)]) (simp_all add: white_space_def)
  then show ?thesis using v(1,2) c by (subst object_loop.simps) (simp add: add.assoc)
qed

lemma object_loop_reads:
  assumes "list_all2 (member_reads_as m limit d) parts kns" "parts \<noteq> []" "separator CHR '','' sep" "json_ws w"
    "at ps (as_bytes (members_text CHR ''}'' sep parts w) @ rest)" "jp_depth_limit ps = limit" "jp_max_str_digits ps = m"
  shows "object_loop d comma os ps = Inr (JObject (os @ kns), bump (length (as_bytes (members_text CHR ''}'' sep parts w))) ps)"
  using assms
proof (induction parts kns arbitrary: comma os ps rule: list_all2_induct)
  case (Cons p parts kn kns)
  have start: "starts_value p" using Cons.hyps(1) by (rule member_starts)
  have c: "\<not> peek_in ps {CHR ''}''}"
    using starts_not_close [OF members_start [of "p # parts"] Cons.prems(4)] start by simp
  show ?case
  proof (cases "parts = []")
    case True
    have a: "at ps (as_bytes p @ as_bytes w @ byte CHR ''}'' # rest)"
      using Cons.prems(4) by (simp add: True members_text_simps as_bytes_char chr_def [of "CHR ''}''"]) (simp add: as_bytes_chr byte_def)
    show ?thesis using object_loop_last [OF Cons.hyps(1) a Cons.prems(3,5,6) c] True Cons.hyps(2)
      by (simp add: members_text_simps as_bytes_chr chr_def)
  next
    case False
    let ?rest = "members_text CHR ''}'' sep parts w"
    have "starts_value ?rest" using False Cons.hyps(2) member_starts by (intro members_start) (auto simp: neq_Nil_conv list_all2_Cons1)
    then obtain b bs where b: "as_bytes ?rest = b # bs" "b \<notin> byte ` white_space" using starts_value_bytes by blast
    have a: "at ps (as_bytes p @ as_bytes sep @ b # bs @ rest)" using Cons.prems(4) False b(1) by (simp add: members_text_simps)
    have a': "at (bump (length (as_bytes (p @ sep))) ps) (as_bytes ?rest @ rest)"
      using at_append [of ps "as_bytes (p @ sep)"] Cons.prems(4) False by (simp add: members_text_simps)
    obtain comma' where "object_loop d comma os ps = object_loop d (Some comma') (os @ [kn]) (bump (length (as_bytes (p @ sep))) ps)"
      using object_loop_next [OF Cons.hyps(1) a Cons.prems(2) b(2) Cons.prems(5,6) c] by blast
    then show ?thesis using Cons.IH [OF False Cons.prems(2,3) a'] Cons.prems(5,6) False by (simp add: members_text_simps add.assoc)
  qed
qed simp

section \<open>Containers\<close>

text \<open>The text of a container: empty, or the members after white space.\<close>

definition container_text :: "char \<Rightarrow> char \<Rightarrow> rstring list \<Rightarrow> rstring \<Rightarrow> bool" where
  "container_text lb rb parts s \<longleftrightarrow>
     (if parts = [] then s = [chr lb, chr rb]
      else \<exists>w0 sep w. s = chr lb # w0 @ members_text rb sep parts w \<and> json_ws w0 \<and> separator CHR '','' sep \<and> json_ws w)"

lemma enter_container_at:
  assumes a: "at ps (byte lb # as_bytes w0 @ as_bytes s @ rest)" and w: "json_ws w0" and s: "starts_value s" and rb: "rb \<in> {CHR '']'', CHR ''}''}"
  shows "enter_container lb rb ps = Inr (Inside (bump (1 + length (as_bytes w0)) ps))"
    "at (bump (1 + length (as_bytes w0)) ps) (as_bytes s @ rest)"
proof -
  note a1 = at_Cons(3) [OF a]
  obtain b bs where b: "as_bytes s = b # bs" "b \<notin> byte ` white_space" using starts_value_bytes [OF s] by blast
  have "skip_ws (bump 1 ps) = bump (length (as_bytes w0)) (bump 1 ps)" using b by (intro skip_ws_at [OF a1 w]) simp
  moreover show a2: "at (bump (1 + length (as_bytes w0)) ps) (as_bytes s @ rest)" using at_append [OF a1] by simp
  moreover have "\<not> peek_in (bump (1 + length (as_bytes w0)) ps) {rb}" using starts_not_close [OF s a2] rb by auto
  ultimately show "enter_container lb rb ps = Inr (Inside (bump (1 + length (as_bytes w0)) ps))"
    using peek_in_at [OF a] by (simp add: enter_container_def json_expect_def Let_def)
qed

lemma enter_container_empty:
  assumes a: "at ps (byte lb # byte rb # rest)" and rb: "rb \<notin> white_space"
  shows "enter_container lb rb ps = Inr (EmptyContainer (bump 2 ps))"
proof -
  note a1 = at_Cons(3) [OF a]
  have "skip_ws (bump 1 ps) = bump 1 ps" using rb by (intro skip_ws_none [OF a1]) (auto simp: byte_eq_iff)
  then show ?thesis using peek_in_at [OF a] peek_in_at [OF a1] by (simp add: enter_container_def json_expect_def Let_def)
qed

text \<open>The dispatch of \<open>parse_value\<close> on the first byte.\<close>

lemma parse_value_dispatch:
  assumes a: "at ps (b # bs)" and d: "d < jp_depth_limit ps" and b: "b \<notin> byte ` white_space" and inf: "\<not> starts_with ps ''-Infinity''"
  shows "parse_value d ps =
    (if b = byte CHR ''['' then
       bindr (enter_container CHR ''['' CHR '']'' ps) (\<lambda>r. case r of EmptyContainer ps \<Rightarrow> Inr (JArray [], ps) | Inside ps \<Rightarrow> array_loop (d + 1) None [] ps)
     else if b = byte CHR ''{'' then
       bindr (enter_container CHR ''{'' CHR ''}'' ps) (\<lambda>r. case r of EmptyContainer ps \<Rightarrow> Inr (JObject [], ps) | Inside ps \<Rightarrow> object_loop (d + 1) None [] ps)
     else parse_scalar b ps)"
proof -
  have "skip_ws ps = ps" using b by (intro skip_ws_none [OF a]) simp
  then show ?thesis using d inf at_Cons(1) [OF a] by (subst parse_value.simps) (simp add: Let_def)
qed

lemma not_infinity: "at ps (b # bs) \<Longrightarrow> b \<noteq> byte CHR ''-'' \<Longrightarrow> \<not> starts_with ps ''-Infinity''"
  by (simp add: at_starts_with)

lemma array_reads:
  assumes "list_all2 (reads_as m limit (Suc d)) parts nodes" "container_text CHR ''['' CHR '']'' parts s" "d < limit"
  shows "reads_as m limit d s (JArray nodes)"
  unfolding reads_as_def
proof (intro conjI allI impI)
  have lb: "chr CHR ''['' = 91" "chr CHR '']'' = 93" "byte CHR ''['' = of_nat 91" "byte CHR '']'' = of_nat 93" by (simp_all add: chr_def byte_def)
  show "starts_value s" using assms(2) by (auto simp: container_text_def starts_value_def is_ws_def chr_def split: if_splits)
  fix ps rest
  assume a: "at ps (as_bytes s @ rest)" and l: "jp_depth_limit ps = limit" "jp_max_str_digits ps = m"
  have b: "byte CHR ''['' \<notin> byte ` white_space" by (auto simp: byte_eq_iff white_space_def)
  show "parse_value d ps = Inr (JArray nodes, bump (length (as_bytes s)) ps)"
  proof (cases "parts = []")
    case True
    then have s: "s = [91, 93]" "nodes = []" using assms(1,2) by (simp_all add: container_text_def lb)
    then have a': "at ps (byte CHR ''['' # byte CHR '']'' # rest)" using a by (simp add: as_bytes_chr lb)
    have "enter_container CHR ''['' CHR '']'' ps = Inr (EmptyContainer (bump 2 ps))"
      by (rule enter_container_empty [OF a']) (simp add: white_space_def)
    then show ?thesis
      using parse_value_dispatch [OF a' _ b not_infinity [OF a']] assms(3) l s by (simp add: byte_eq_iff as_bytes_chr)
  next
    case False
    then obtain w0 sep w where s: "s = 91 # w0 @ members_text CHR '']'' sep parts w" "json_ws w0" "separator CHR '','' sep" "json_ws w"
      using assms(2) by (auto simp: container_text_def lb)
    have a': "at ps (byte CHR ''['' # as_bytes w0 @ as_bytes (members_text CHR '']'' sep parts w) @ rest)"
      using a s(1) by (simp add: as_bytes_chr lb)
    have "starts_value (members_text CHR '']'' sep parts w)"
      using False assms(1) by (intro members_start) (auto simp: reads_as_def neq_Nil_conv list_all2_Cons1)
    note e = enter_container_at [OF a' s(2) this, of "CHR '']''", simplified]
    show ?thesis
      using parse_value_dispatch [OF a' _ b not_infinity [OF a']] e(1) assms(3) l s(1)
        array_loop_reads [OF assms(1) False s(3,4) e(2), of None "[]"] by (simp add: byte_eq_iff as_bytes_chr add.assoc)
  qed
qed

lemma object_reads:
  assumes "list_all2 (member_reads_as m limit (Suc d)) parts kns" "container_text CHR ''{'' CHR ''}'' parts s" "d < limit"
  shows "reads_as m limit d s (JObject kns)"
  unfolding reads_as_def
proof (intro conjI allI impI)
  have lb: "chr CHR ''{'' = 123" "chr CHR ''}'' = 125" "byte CHR ''{'' = of_nat 123" "byte CHR ''}'' = of_nat 125" by (simp_all add: chr_def byte_def)
  show "starts_value s" using assms(2) by (auto simp: container_text_def starts_value_def is_ws_def chr_def split: if_splits)
  fix ps rest
  assume a: "at ps (as_bytes s @ rest)" and l: "jp_depth_limit ps = limit" "jp_max_str_digits ps = m"
  have b: "byte CHR ''{'' \<notin> byte ` white_space" by (auto simp: byte_eq_iff white_space_def)
  show "parse_value d ps = Inr (JObject kns, bump (length (as_bytes s)) ps)"
  proof (cases "parts = []")
    case True
    then have s: "s = [123, 125]" "kns = []" using assms(1,2) by (simp_all add: container_text_def lb)
    then have a': "at ps (byte CHR ''{'' # byte CHR ''}'' # rest)" using a by (simp add: as_bytes_chr lb)
    have "enter_container CHR ''{'' CHR ''}'' ps = Inr (EmptyContainer (bump 2 ps))"
      by (rule enter_container_empty [OF a']) (simp add: white_space_def)
    then show ?thesis
      using parse_value_dispatch [OF a' _ b not_infinity [OF a']] assms(3) l s by (simp add: byte_eq_iff as_bytes_chr)
  next
    case False
    then obtain w0 sep w where s: "s = 123 # w0 @ members_text CHR ''}'' sep parts w" "json_ws w0" "separator CHR '','' sep" "json_ws w"
      using assms(2) by (auto simp: container_text_def lb)
    have a': "at ps (byte CHR ''{'' # as_bytes w0 @ as_bytes (members_text CHR ''}'' sep parts w) @ rest)"
      using a s(1) by (simp add: as_bytes_chr lb)
    have "starts_value (members_text CHR ''}'' sep parts w)"
      using False assms(1) member_starts by (intro members_start) (auto simp: neq_Nil_conv list_all2_Cons1)
    note e = enter_container_at [OF a' s(2) this, of "CHR ''}''", simplified]
    show ?thesis
      using parse_value_dispatch [OF a' _ b not_infinity [OF a']] e(1) assms(3) l s(1)
        object_loop_reads [OF assms(1) False s(3,4) e(2), of None "[]"] by (simp add: byte_eq_iff as_bytes_chr add.assoc)
  qed
qed

text \<open>The writer's layout, with or without indentation.\<close>

definition json_separators :: "JsonDumpsOptions \<Rightarrow> bool" where
  "json_separators options \<longleftrightarrow> separator CHR '','' (jo_item_separator options) \<and> separator CHR '':'' (jo_key_separator options) \<and>
     (case jo_indent options of None \<Rightarrow> True | Some unit \<Rightarrow> json_ws unit)"

lemma join_concat: "join (sep @ w) (p # ps) = p @ concat (map (\<lambda>q. sep @ w @ q) ps)"
  by (induction ps arbitrary: p) simp_all

lemma layout_container:
  assumes "json_separators options"
  shows "container_text lb rb parts (layout options depth lb rb parts)"
proof (cases "jo_indent options")
  case None
  have "layout options depth lb rb parts = chr lb # [] @ members_text rb (jo_item_separator options) parts []"
    using None by (simp add: layout_def members_text_def str_def chr_def)
  moreover have "json_ws []" "separator CHR '','' (jo_item_separator options)" using assms by (simp_all add: json_ws_def json_separators_def)
  moreover have "parts = [] \<Longrightarrow> layout options depth lb rb parts = [chr lb, chr rb]" using None by (simp add: layout_def str_def chr_def)
  ultimately show ?thesis unfolding container_text_def by metis
next
  case (Some unit)
  show ?thesis
  proof (cases parts)
    case Nil
    then show ?thesis using Some by (simp add: container_text_def layout_def str_def chr_def)
  next
    case (Cons p ps)
    let ?w = "10 # repeat_text unit (depth + 1)" and ?v = "10 # repeat_text unit depth"
    have w: "json_ws ?w" "json_ws ?v" using assms Some json_ws_repeat [of unit] by (simp_all add: json_separators_def json_ws_def is_ws_def)
    have "separator CHR '','' (jo_item_separator options @ ?w)"
      using assms w(1) by (intro separator_append) (simp add: json_separators_def)
    moreover have "layout options depth lb rb parts = chr lb # ?w @ members_text rb (jo_item_separator options @ ?w) parts ?v"
      using Some Cons by (simp add: layout_def members_text_def join_concat Let_def str_def chr_def)
    ultimately show ?thesis using w Cons unfolding container_text_def by (metis list.distinct(1))
  qed
qed

section \<open>Scalars\<close>

lemma starts_value_hd: "starts_value s \<Longrightarrow> \<exists>t. s = hd s # t \<and> as_bytes s = of_nat (hd s) # as_bytes t"
  by (cases s) (simp_all add: starts_value_def as_bytes_chr)

lemma scalar_reads:
  assumes s: "starts_value s" "hd s \<noteq> 91" "hd s \<noteq> 123" and d: "d < limit" and inf: "hd s = 45 \<longrightarrow> tl s \<noteq> [] \<and> is_digit_char (hd (tl s))"
    and p: "\<And>ps rest. at ps (as_bytes s @ rest) \<Longrightarrow> ends_value rest \<Longrightarrow> jp_max_str_digits ps = m \<Longrightarrow>
      parse_scalar (of_nat (hd s)) ps = Inr (node, bump (length (as_bytes s)) ps)"
  shows "reads_as m limit d s node"
  unfolding reads_as_def
proof (intro conjI allI impI)
  fix ps rest
  assume a: "at ps (as_bytes s @ rest)" and e: "ends_value rest" and l: "jp_depth_limit ps = limit" "jp_max_str_digits ps = m"
  obtain t where t: "s = hd s # t" "as_bytes s = of_nat (hd s) # as_bytes t" using starts_value_hd [OF s(1)] by blast
  have small: "hd s < 128" "\<not> is_ws (hd s)" using s(1) by (simp_all add: starts_value_def)
  have a': "at ps (of_nat (hd s) # as_bytes t @ rest)" using a t(2) by simp
  have "\<not> starts_with ps ''-Infinity''"
  proof (cases "hd s = 45")
    case True
    then obtain c u where "t = c # u" "is_digit_char c" using inf t(1) by (cases t) (auto simp: neq_Nil_conv)
    then have "as_bytes t = of_nat c # as_bytes u" "of_nat c \<noteq> byte CHR ''I''"
      by (auto simp: as_bytes_chr is_digit_char_def of_nat_byte chr_def)
    then show ?thesis using at_starts_with [OF a'] by simp
  next
    case False
    then show ?thesis using not_infinity [OF a'] small by (simp add: of_nat_byte chr_def)
  qed
  then show "parse_value d ps = Inr (node, bump (length (as_bytes s)) ps)"
    using parse_value_dispatch [OF a'] d l small s(2,3) p [OF a e l(2)] by (simp add: ws_byte of_nat_byte chr_def)
qed (rule s(1))

lemma literal_reads:
  assumes "d < limit" "(lit, node) \<in> set [(''null'', JNull), (''true'', JBool True), (''false'', JBool False), (''NaN'', JFloat f64_nan), (''Infinity'', JFloat f64_pos_inf)]"
  shows "reads_as m limit d (str lit) node"
proof -
  have ascii: "as_bytes (str lit) = map byte lit"
    using assms(2) by (auto simp: str_def as_bytes_chr byte_def)
  have st: "starts_value (str lit)" using assms(2) by (auto simp: str_def starts_value_def is_ws_def chr_def)
  show ?thesis
  proof (rule scalar_reads [OF st _ _ assms(1)])
    fix ps rest
    assume a: "at ps (as_bytes (str lit) @ rest)"
    have "starts_with ps lit" using at_starts_with [OF a] ascii by simp
    then have "parse_literal lit node ps = Inr (node, bump (length (as_bytes (str lit))) ps)"
      using ascii by (simp add: parse_literal_def)
    moreover have "of_nat (hd (str lit)) = byte (hd lit)" using assms(2) by (auto simp: str_def byte_def)
    moreover have "parse_scalar (byte (hd lit)) ps = parse_literal lit node ps"
      using assms(2) by (simp add: parse_scalar_def byte_eq_iff) (elim disjE; simp)
    ultimately show "parse_scalar (of_nat (hd (str lit))) ps = Inr (node, bump (length (as_bytes (str lit))) ps)" by simp
  qed (use assms(2) in \<open>auto simp: str_def\<close>)
qed

lemma neg_infinity_reads:
  assumes "d < limit"
  shows "reads_as m limit d (str ''-Infinity'') (JFloat f64_neg_inf)"
  unfolding reads_as_def
proof (intro conjI allI impI)
  show "starts_value (str ''-Infinity'')" by (simp add: str_def starts_value_def is_ws_def chr_def)
  fix ps rest
  assume a: "at ps (as_bytes (str ''-Infinity'') @ rest)" and l: "jp_depth_limit ps = limit"
  have b: "as_bytes (str ''-Infinity'') = map byte ''-Infinity''" by (simp add: str_def as_bytes_chr byte_def)
  have "starts_with ps ''-Infinity''" using at_starts_with [OF a] b by simp
  moreover have "skip_ws ps = ps" using b by (intro skip_ws_none [OF a]) (auto simp: white_space_def byte_eq_iff)
  ultimately show "parse_value d ps = Inr (JFloat f64_neg_inf, bump (length (as_bytes (str ''-Infinity''))) ps)"
    using assms l b by (subst parse_value.simps) simp
qed

lemma number_head:
  assumes "number_text t"
  shows "t \<noteq> []" "is_digit_char (hd t) \<or> hd t = 45 \<and> tl t \<noteq> [] \<and> is_digit_char (hd (tl t))"
proof -
  obtain sg ip fp ep where p: "t = sg @ ip @ fp @ ep" "sg = [] \<or> sg = [45]" "whole_part ip" using number_text_cases [OF assms] .
  then show "t \<noteq> []" "is_digit_char (hd t) \<or> hd t = 45 \<and> tl t \<noteq> [] \<and> is_digit_char (hd (tl t))" using whole_head [OF p(3)] by auto
qed

lemma ascii_valid: "c < 128 \<Longrightarrow> valid_char c"
  by (simp add: valid_char_def)

lemma number_reads:
  assumes t: "number_text t" and d: "d < limit" and n: "\<And>ps. jp_max_str_digits ps = m \<Longrightarrow> number_node t ps = Inr node"
  shows "reads_as m limit d t node"
proof -
  note h = number_head [OF t]
  have small: "hd t < 128" "\<not> is_ws (hd t)" "48 \<le> hd t \<and> hd t \<le> 57 \<or> hd t = 45" using h(2) by (auto simp: is_digit_char_def is_ws_def)
  have st: "starts_value t" using h small by (auto simp: starts_value_def chr_def)
  show ?thesis
  proof (rule scalar_reads [OF st _ _ d])
    fix ps rest
    assume a: "at ps (as_bytes t @ rest)" and e: "ends_value rest" and m: "jp_max_str_digits ps = m"
    have v: "list_all valid_char t" using number_ascii [OF t] ascii_valid by (simp add: list_all_iff)
    have "of_nat (hd t) \<in> byte ` insert CHR ''-'' digit_chars" using h(2) digit_byte by (auto simp: byte_def)
    moreover have "of_nat (hd t) \<noteq> byte c" if "chr c \<noteq> 45" "chr c < 48 \<or> 57 < chr c" for c
      using that small by (auto simp: of_nat_byte)
    ultimately show "parse_scalar (of_nat (hd t)) ps = Inr (node, bump (length (as_bytes t)) ps)"
      using json_parse_number_at [OF a t e v] n [of "bump (length (as_bytes t)) ps"] m by (simp add: parse_scalar_def chr_def)
  qed (use h(2) small in \<open>auto simp: is_digit_char_def\<close>)
qed

lemma string_reads:
  assumes d: "d < limit" and w: "writable ea s"
  shows "reads_as m limit d (json_escape_string s ea) (JString s)"
proof -
  have h: "hd (json_escape_string s ea) = 34" "json_escape_string s ea \<noteq> []" by (simp_all add: json_escape_string_def)
  have st: "starts_value (json_escape_string s ea)" using h by (simp add: starts_value_def is_ws_def chr_def)
  show ?thesis
  proof (rule scalar_reads [OF st _ _ d])
    fix ps rest
    assume a: "at ps (as_bytes (json_escape_string s ea) @ rest)"
    obtain n where "json_parse_string ps = Inr (s, bump n ps)" "at (bump n ps) rest" using json_string_read [OF a w] by blast
    then have "json_parse_string ps = Inr (s, bump (length (as_bytes (json_escape_string s ea))) ps)"
      using at_unique at_append [OF a] by blast
    then show "parse_scalar (of_nat (hd (json_escape_string s ea))) ps = Inr (JString s, bump (length (as_bytes (json_escape_string s ea))) ps)"
      by (simp add: h parse_scalar_def byte_def)
  qed (simp_all add: h)
qed

end
