(* ===== verification/Json_Spec.thy ===== *)
theory Json_Spec
  imports Json_Proofs "HOL-Library.Multiset"
begin

text \<open>What the JSON writer and parser promise.\<close>

section \<open>The value of a text\<close>

text \<open>The members of a dictionary in the order they are written.\<close>

definition written_items :: "JsonVm \<Rightarrow> JsonDumpsOptions \<Rightarrow> (JValue \<times> JValue) list \<Rightarrow> jitem list dres" where
  "written_items vm options entries =
     bindr (mapped_items vm options entries) (\<lambda>mapped.
     if jo_sort_keys options then json_sort_object_items vm mapped else Inr mapped)"

text \<open>The node a value should be read back as: a tuple is an array, every NaN is the one of the parser.\<close>

inductive represents :: "JsonVm \<Rightarrow> JsonDumpsOptions \<Rightarrow> JValue \<Rightarrow> JsonNode \<Rightarrow> bool" for vm options where
  none: "represents vm options VNone JNull"
| bool: "represents vm options (VBool b) (JBool b)"
| int: "represents vm options (VInt i) (JInt i)"
| bigint: "represents vm options (VBigInt b) (int_node b)"
| float: "represents vm options (VFloat x) (JFloat (if is_nan x then f64_nan else x))"
| string: "represents vm options (VStr s) (JString s)"
| list: "vm_heap vm obj = Some (HList vs) \<Longrightarrow> list_all2 (represents vm options) vs nodes \<Longrightarrow>
    represents vm options (VList obj) (JArray nodes)"
| tuple: "vm_heap vm obj = Some (HTuple vs) \<Longrightarrow> list_all2 (represents vm options) vs nodes \<Longrightarrow>
    represents vm options (VTuple obj) (JArray nodes)"
| dict: "vm_heap vm obj = Some (HDict entries) \<Longrightarrow> written_items vm options entries = Inr items \<Longrightarrow>
    list_all2 (\<lambda>item kn. fst (snd item) = fst kn \<and> represents vm options (snd (snd item)) (snd kn)) items kns \<Longrightarrow>
    represents vm options (VDict obj) (JObject kns)"

inductive_cases represents_dict: "represents vm options (VDict obj) node"
inductive_simps represents_list: "represents vm options (VList obj) node"

text \<open>
  The values that can be read back: characters are scalar values and no two internal surrogates are
  written as one pair, integers are well formed and within the limit on digits, and the text of a
  finite double reads back as that double.
\<close>

definition readable :: "JsonVm \<Rightarrow> JsonDumpsOptions \<Rightarrow> i64 \<Rightarrow> JValue \<Rightarrow> bool" where
  "readable vm options m v \<longleftrightarrow>
     (case v of
        VStr s \<Rightarrow> writable (jo_ensure_ascii options) s
      | VBigInt b \<Rightarrow> bwf b \<and> (0 < sint m \<longrightarrow> length (magnitude (bigint_to_string b)) \<le> unat m)
      | VFloat x \<Rightarrow> is_finite x \<longrightarrow> debug_text (vm_debug_f64 vm) x
      | _ \<Rightarrow> True)"

fun heap_values :: "JObject \<Rightarrow> JValue set" where
  "heap_values (HList vs) = set vs"
| "heap_values (HTuple vs) = set vs"
| "heap_values (HDict entries) = fst ` set entries \<union> snd ` set entries"
| "heap_values HOther = {}"

definition readable_heap :: "JsonVm \<Rightarrow> JsonDumpsOptions \<Rightarrow> i64 \<Rightarrow> bool" where
  "readable_heap vm options m \<longleftrightarrow> (\<forall>obj x v. vm_heap vm obj = Some x \<longrightarrow> v \<in> heap_values x \<longrightarrow> readable vm options m v)"

lemma readable_heapD: "readable_heap vm options m \<Longrightarrow> vm_heap vm obj = Some x \<Longrightarrow> v \<in> heap_values x \<Longrightarrow> readable vm options m v"
  by (auto simp: readable_heap_def)

section \<open>Lists of members\<close>

lemma try_each_list_all2: "try_each f i xs = Inr ys \<Longrightarrow> list_all2 (\<lambda>x y. \<exists>i. f i x = Inr y) xs ys"
  by (induction f i xs arbitrary: ys rule: try_each.induct) auto

lemma list_all2_choice:
  "list_all2 P xs ys \<Longrightarrow> (\<And>x y. x \<in> set xs \<Longrightarrow> P x y \<Longrightarrow> \<exists>z. Q x z \<and> R y z) \<Longrightarrow> \<exists>zs. list_all2 Q xs zs \<and> list_all2 R ys zs"
proof (induction xs ys rule: list_all2_induct)
  case (Cons x xs y ys)
  then obtain z zs where "Q x z" "R y z" "list_all2 Q xs zs" "list_all2 R ys zs" by (meson list.set_intros)
  then show ?case by (intro exI [of _ "z # zs"]) simp
qed simp

lemma sink_mset: "sink lt x ys = Inr zs \<Longrightarrow> mset zs = add_mset x (mset ys)"
  by (induction lt x ys arbitrary: zs rule: sink.induct) (auto split: if_splits)

lemma sort_loop_mset: "sort_loop lt placed xs = Inr zs \<Longrightarrow> mset zs = mset placed + mset xs"
proof (induction lt placed xs arbitrary: zs rule: sort_loop.induct)
  case (2 lt placed x xs)
  then obtain placed' where "sink lt x placed = Inr placed'" "sort_loop lt placed' xs = Inr zs" by auto
  then show ?case using 2 sink_mset [of lt x placed placed'] by simp
qed simp

lemma mapped_items_from:
  "mapped_items vm options entries = Inr items \<Longrightarrow> item \<in> set items \<Longrightarrow>
   (fst item, snd (snd item)) \<in> set entries \<and> json_encode_object_key vm options (fst item) = Inr (Some (fst (snd item)))"
proof (induction vm options entries arbitrary: items rule: mapped_items.induct)
  case (2 vm options key v entries)
  then show ?case by (fastforce split: option.splits)
qed simp

lemma written_items_from:
  assumes "written_items vm options entries = Inr items" "item \<in> set items"
  shows "(fst item, snd (snd item)) \<in> set entries \<and> json_encode_object_key vm options (fst item) = Inr (Some (fst (snd item)))"
proof -
  obtain mapped where m: "mapped_items vm options entries = Inr mapped"
    "(if jo_sort_keys options then json_sort_object_items vm mapped else Inr mapped) = Inr items"
    using assms(1) by (auto simp: written_items_def)
  have "mset items = mset mapped"
    using m(2) sort_loop_mset by (fastforce simp: json_sort_object_items_def split: if_splits)
  then have "item \<in> set mapped" using assms(2) by (metis set_mset_mset)
  then show ?thesis using mapped_items_from [OF m(1)] by blast
qed

section \<open>Keys\<close>

lemma writable_ascii: "\<forall>c \<in> set s. c < 128 \<Longrightarrow> writable ea s"
proof (induction ea s rule: writable.induct)
  case (1 ea a b s)
  then have "\<not> splits_pair a b" by (auto simp: splits_pair_def internal_surrogate_def INTERNAL_SURROGATE_BASE_def)
  then show ?case using 1 ascii_valid by simp
qed (simp_all add: ascii_valid)

lemma float_text:
  assumes "json_float vm options x = Inr s" "readable vm options m (VFloat x)"
  shows "is_finite x \<and> s = format_float (vm_debug_f64 vm) x \<and> debug_text (vm_debug_f64 vm) x \<or>
    is_nan x \<and> s = str ''NaN'' \<or>
    \<not> is_nan x \<and> x = f64_neg_inf \<and> s = str ''-Infinity'' \<or> \<not> is_nan x \<and> x = f64_pos_inf \<and> s = str ''Infinity''"
proof (cases "is_finite x")
  case True
  then show ?thesis using assms by (simp add: json_float_def json_format_finite_float_def readable_def)
next
  case False
  then have "s = str (the (json_nonfinite_float_json_literal x))" using assms(1) by (simp add: json_float_def exception_error_def split: if_splits)
  then show ?thesis using False f64_infinite [of x]
    by (cases "is_nan x"; cases "f64_sign_bit x") (simp_all add: json_nonfinite_float_json_literal_def)
qed

lemma str_ascii: "\<forall>c \<in> set lit. of_char c < (128 :: nat) \<Longrightarrow> \<forall>c \<in> set (str lit). c < 128"
  by (auto simp: str_def)

lemma bigint_number: "bwf b \<Longrightarrow> number_text (bigint_to_string b)"
  using int_text_number bigint_int_text by blast

lemma key_writable:
  assumes "json_encode_object_key vm options key = Inr (Some s)" "readable vm options m key"
  shows "writable (jo_ensure_ascii options) s"
proof (cases key)
  case (VFloat x)
  then have "json_float vm options x = Inr s" using assms(1) by (cases "json_float vm options x") auto
  from float_text [OF this, of m] assms(2) VFloat have "\<forall>c \<in> set s. c < 128"
    using number_ascii [OF format_float_reads(1)] by (auto simp: str_def)
  then show ?thesis by (rule writable_ascii)
next
  case (VInt i)
  then show ?thesis using assms(1) number_ascii [OF int_text_number [OF int_dec_text]] by (auto intro: writable_ascii)
next
  case (VBigInt b)
  then show ?thesis using assms number_ascii [OF bigint_number] by (auto simp: readable_def intro: writable_ascii)
qed (use assms in \<open>auto simp: readable_def str_def exception_error_def intro!: writable_ascii split: if_splits\<close>)

section \<open>Reading back what was written\<close>

lemma scalar_represented:
  assumes "json_serialize_value_at_depth vm options d markers v = Inr s" "readable vm options m v" "d < limit"
    and "\<forall>obj. v \<noteq> VList obj \<and> v \<noteq> VTuple obj \<and> v \<noteq> VDict obj"
  shows "\<exists>node. represents vm options v node \<and> reads_as m limit d s node"
proof -
  have lim: "d < vm_recursion_limit vm" using assms(1)
    by (subst (asm) json_serialize_value_at_depth.simps) (auto simp: exception_error_def split: if_splits)
  note ser = assms(1) [unfolded json_serialize_value_at_depth.simps [of vm options d markers v]]
  note lit = literal_reads [OF assms(3), of _ _ m]
  show ?thesis
  proof (cases v)
    case VNone
    then show ?thesis using ser lim lit [of "''null''" JNull] represents.none by auto
  next
    case (VBool b)
    then show ?thesis using ser lim lit [of "''true''" "JBool True"] lit [of "''false''" "JBool False"] represents.bool [of vm options b] by (cases b) auto
  next
    case (VInt i)
    have "- (2 ^ 63) \<le> sint i \<and> sint i < 2 ^ 63" using sint_u64_range [of i] by simp
    then have "reads_as m limit d (int_dec (sint i)) (JInt (of_int (sint i)))"
      by (intro number_reads [OF int_text_number [OF int_dec_text] assms(3)] number_node_i64 [OF int_dec_text]) auto
    then show ?thesis using ser lim VInt represents.int [of vm options i] by auto
  next
    case (VBigInt b)
    then have b: "bwf b" "0 < sint m \<longrightarrow> length (magnitude (bigint_to_string b)) \<le> unat m" using assms(2) by (simp_all add: readable_def)
    have "reads_as m limit d (bigint_to_string b) (int_node b)"
      by (intro number_reads [OF bigint_number [OF b(1)] assms(3)] number_node_int [OF bigint_int_text [OF b(1)] b(1)]) (use b(2) in simp)
    then show ?thesis using ser lim VBigInt represents.bigint [of vm options b] by auto
  next
    case (VFloat x)
    then have "json_float vm options x = Inr s" using ser lim by simp
    from float_text [OF this, of m] assms(2) VFloat have "reads_as m limit d s (JFloat (if is_nan x then f64_nan else x))"
      using number_reads [OF format_float_reads(1) assms(3) number_node_float] lit [of "''NaN''" "JFloat f64_nan"]
        lit [of "''Infinity''" "JFloat f64_pos_inf"] neg_infinity_reads [OF assms(3), of m]
      by (auto simp: is_nan_def is_finite_def)
    then show ?thesis using VFloat represents.float [of vm options x] by auto
  next
    case (VStr t)
    then have "writable (jo_ensure_ascii options) t" using assms(2) by (simp add: readable_def)
    then show ?thesis using string_reads [OF assms(3)] ser lim VStr represents.string [of vm options t] by auto
  qed (use assms ser lim in \<open>auto simp: plain_error_def\<close>)
qed

lemma with_note_Inr [simp]: "with_note n r = Inr s \<longleftrightarrow> r = Inr s"
  by (cases r) (simp_all add: with_note_def)

lemma list_reads:
  assumes "json_separators options" "d < limit"
    and "try_each (\<lambda>i v. with_note (f i) (json_serialize_value_at_depth vm options (Suc d) markers v)) 0 vs = Inr parts"
    and "\<And>v s. v \<in> set vs \<Longrightarrow> json_serialize_value_at_depth vm options (Suc d) markers v = Inr s \<Longrightarrow>
      \<exists>node. represents vm options v node \<and> reads_as m limit (Suc d) s node"
  shows "\<exists>nodes. list_all2 (represents vm options) vs nodes \<and> reads_as m limit d (layout options d CHR ''['' CHR '']'' parts) (JArray nodes)"
proof -
  let ?P = "\<lambda>v s. json_serialize_value_at_depth vm options (Suc d) markers v = Inr s"
  have "list_all2 ?P vs parts" using try_each_list_all2 [OF assms(3)] by simp
  then obtain nodes where "list_all2 (represents vm options) vs nodes" "list_all2 (reads_as m limit (Suc d)) parts nodes"
    using list_all2_choice [of ?P vs parts "represents vm options" "reads_as m limit (Suc d)"] assms(4) by blast
  then show ?thesis using array_reads layout_container assms(1,2) by blast
qed

lemma dict_reads:
  assumes "json_separators options" "d < limit"
    and "try_each (\<lambda>i (raw, key, v). bindr (with_note (f key) (json_serialize_value_at_depth vm options (Suc d) markers v))
      (\<lambda>encoded. Inr (json_escape_string key (jo_ensure_ascii options) @ jo_key_separator options @ encoded))) 0 items = Inr parts"
    and "\<And>item s. item \<in> set items \<Longrightarrow> json_serialize_value_at_depth vm options (Suc d) markers (snd (snd item)) = Inr s \<Longrightarrow>
      \<exists>node. represents vm options (snd (snd item)) node \<and> reads_as m limit (Suc d) s node"
    and "\<And>item. item \<in> set items \<Longrightarrow> writable (jo_ensure_ascii options) (fst (snd item))"
  shows "\<exists>kns. list_all2 (\<lambda>item kn. fst (snd item) = fst kn \<and> represents vm options (snd (snd item)) (snd kn)) items kns \<and>
    reads_as m limit d (layout options d CHR ''{'' CHR ''}'' parts) (JObject kns)"
proof -
  let ?P = "\<lambda>item p. \<exists>s. json_serialize_value_at_depth vm options (Suc d) markers (snd (snd item)) = Inr s \<and>
    p = json_escape_string (fst (snd item)) (jo_ensure_ascii options) @ jo_key_separator options @ s"
  let ?Q = "\<lambda>item kn. fst (snd item) = fst kn \<and> represents vm options (snd (snd item)) (snd kn)"
  have "list_all2 ?P items parts"
    using try_each_list_all2 [OF assms(3)] by (rule list_all2_mono) auto
  moreover have "\<exists>kn. ?Q item kn \<and> member_reads_as m limit (Suc d) p kn" if h: "item \<in> set items" "?P item p" for item p
  proof -
    obtain s node where s: "p = json_escape_string (fst (snd item)) (jo_ensure_ascii options) @ jo_key_separator options @ s"
      "represents vm options (snd (snd item)) node" "reads_as m limit (Suc d) s node"
      using assms(4) h by blast
    then have "member_reads_as m limit (Suc d) p (fst (snd item), node)"
      using assms(1) assms(5) [OF h(1)] unfolding member_reads_as_def json_separators_def by auto
    then show ?thesis using s(2) by (intro exI [of _ "(fst (snd item), node)"]) simp
  qed
  ultimately obtain kns where "list_all2 ?Q items kns" "list_all2 (member_reads_as m limit (Suc d)) parts kns"
    using list_all2_choice [of ?P items parts ?Q "member_reads_as m limit (Suc d)"] by auto
  then show ?thesis using object_reads layout_container assms(1,2) by blast
qed

lemma serialize_reads:
  assumes sep: "json_separators options" and heap: "readable_heap vm options m" and lim: "vm_recursion_limit vm \<le> limit"
  shows "json_serialize_value_at_depth vm options d markers v = Inr s \<Longrightarrow> readable vm options m v \<Longrightarrow>
    \<exists>node. represents vm options v node \<and> reads_as m limit d s node"
proof (induction "vm_recursion_limit vm - d" arbitrary: d markers v s rule: less_induct)
  case less
  have d: "d < vm_recursion_limit vm" using less.prems(1)
    by (subst (asm) json_serialize_value_at_depth.simps) (auto simp: exception_error_def split: if_splits)
  then have dl: "d < limit" using lim by simp
  note ser = less.prems(1) [unfolded json_serialize_value_at_depth.simps [of vm options d markers v]]
  have IH: "\<exists>node. represents vm options v node \<and> reads_as m limit (Suc d) s node"
    if "json_serialize_value_at_depth vm options (Suc d) markers v = Inr s" "readable vm options m v" for markers v s
    using less.hyps [of "Suc d"] that d by simp
  consider obj where "v = VList obj" | obj where "v = VTuple obj" | obj where "v = VDict obj"
    | "\<forall>obj. v \<noteq> VList obj \<and> v \<noteq> VTuple obj \<and> v \<noteq> VDict obj" by blast
  then show ?case
  proof cases
    case (1 obj)
    obtain markers' vs parts where p: "vm_heap vm obj = Some (HList vs)" "s = layout options d CHR ''['' CHR '']'' parts"
      "try_each (\<lambda>i v. with_note (item_note ''list'' i) (json_serialize_value_at_depth vm options (Suc d) markers' v)) 0 vs = Inr parts"
      using ser d 1 by (auto simp: unsupported_type_def plain_error_def split: option.splits JObject.splits)
    have "readable vm options m v" if "v \<in> set vs" for v using readable_heapD [OF heap p(1)] that by simp
    then show ?thesis using list_reads [OF sep dl p(3)] IH p(1,2) 1 represents.list by blast
  next
    case (2 obj)
    obtain markers' vs parts where p: "vm_heap vm obj = Some (HTuple vs)" "s = layout options d CHR ''['' CHR '']'' parts"
      "try_each (\<lambda>i v. with_note (item_note ''tuple'' i) (json_serialize_value_at_depth vm options (Suc d) markers' v)) 0 vs = Inr parts"
      using ser d 2 by (auto simp: unsupported_type_def plain_error_def split: option.splits JObject.splits)
    have "readable vm options m v" if "v \<in> set vs" for v using readable_heapD [OF heap p(1)] that by simp
    then show ?thesis using list_reads [OF sep dl p(3)] IH p(1,2) 2 represents.tuple by blast
  next
    case (3 obj)
    obtain markers' entries items parts where p: "vm_heap vm obj = Some (HDict entries)" "s = layout options d CHR ''{'' CHR ''}'' parts"
      "written_items vm options entries = Inr items"
      "try_each (\<lambda>i (raw, key, v). bindr (with_note (str ''when serializing dict item '' @ format_repr_string key)
          (json_serialize_value_at_depth vm options (Suc d) markers' v))
        (\<lambda>encoded. Inr (json_escape_string key (jo_ensure_ascii options) @ jo_key_separator options @ encoded))) 0 items = Inr parts"
      using ser d 3 by (auto simp: written_items_def unsupported_type_def plain_error_def split: option.splits JObject.splits)
    have r: "readable vm options m (fst item)" "readable vm options m (snd (snd item))"
      "writable (jo_ensure_ascii options) (fst (snd item))" if "item \<in> set items" for item
    proof -
      have e: "(fst item, snd (snd item)) \<in> set entries" "json_encode_object_key vm options (fst item) = Inr (Some (fst (snd item)))"
        using written_items_from [OF p(3) that] by simp_all
      then show r1: "readable vm options m (fst item)" "readable vm options m (snd (snd item))"
        using readable_heapD [OF heap p(1)] by (force simp: image_iff)+
      show "writable (jo_ensure_ascii options) (fst (snd item))" using key_writable [OF e(2) r1(1)] .
    qed
    show ?thesis using dict_reads [OF sep dl p(4)] IH r p(1-3) 3 represents.dict by blast
  next
    case 4
    then show ?thesis using scalar_represented [OF less.prems dl] by blast
  qed
qed

text \<open>
  C26. What \<open>json.dumps\<close> writes, \<open>json.loads\<close> reads back: with separators made of a comma and a colon
  among white space, every text written for readable values, at any nesting, with any indentation,
  order of keys and treatment of non-ASCII characters, is accepted by the parser under no smaller a
  depth limit, and the node it gives represents the value.
\<close>

theorem loads_dumps:
  assumes "json_separators options" "readable_heap vm options m" "readable vm options m v"
    and "vm_recursion_limit vm \<le> limit" "json_serialize_value vm options v = Inr s"
  shows "\<exists>node. represents vm options v node \<and> parse_json_node_with_limit_detail m s limit = Inr node"
proof -
  let ?ps = "json_new m s limit"
  obtain node where n: "represents vm options v node" "reads_as m (max limit 1) 0 s node"
    using serialize_reads [OF assms(1,2) le_trans [OF assms(4) max.cobounded1]] assms(3,5) unfolding json_serialize_value_def by blast
  then obtain b bs where b: "as_bytes s = b # bs" "b \<notin> byte ` white_space" using starts_value_bytes [of s] by (auto simp: reads_as_def)
  have a: "at ?ps (as_bytes s @ [])" by (simp add: at_def json_new_def)
  have "parse_value 0 ?ps = Inr (node, bump (length (as_bytes s)) ?ps)"
    using reads_asD(1) [OF n(2) a] by (simp add: ends_value_def json_new_def)
  moreover have "skip_ws ?ps = ?ps" using b by (intro skip_ws_none [OF a]) simp
  moreover have "skip_ws (bump (length (as_bytes s)) ?ps) = bump (length (as_bytes s)) ?ps"
    using skip_ws_none [OF at_append [OF a]] by simp
  ultimately have "parse_json_node_with_limit_detail m s limit = Inr node"
    by (simp add: parse_json_node_with_limit_detail_def json_parse_def Let_def) (simp add: json_new_def)
  then show ?thesis using n(1) by blast
qed

text \<open>A list with a tuple, a dictionary with a line feed and a surrogate pair in a key, a big integer and a float.\<close>

definition demo_vm :: JsonVm where
  "demo_vm =
     \<lparr>vm_heap = (\<lambda>obj.
        if obj = 0 then Some (HList [VNone, VTuple 1, VDict 2])
        else if obj = 1 then Some (HTuple [VBool True, VInt (- 5)])
        else if obj = 2 then Some (HDict [(VStr [10, 0x1F600], VFloat 0x3FF8000000000000), (VInt 7, VBigInt \<lparr>sign = 1, limbs = [0, 0, 64]\<rparr>)])
        else None),
      vm_recursion_limit = 10,
      vm_less_than = (\<lambda>_ _. Inr False),
      vm_debug_f64 = (\<lambda>x. str ''1.5'')\<rparr>"

lemma demo_written: "\<exists>s. json_serialize_value demo_vm default_options (VList 0) = Inr s"
  by (simp add: json_serialize_value_def json_serialize_value_at_depth.simps demo_vm_def default_options_def json_enter_marker_def
     json_float_def is_finite_def f64_exponent_def with_note_def)

lemma demo_readable: "readable_heap demo_vm default_options 0"
proof -
  have "debug_text (\<lambda>x. str ''1.5'') 0x3FF8000000000000"
    unfolding debug_text_def
  proof
    have "parse_number (str ''1.5'') = Some (f64_round 15 10)"
      by (simp add: parse_number_def str_def is_digit_char_def parse_exp_def dec_val_def Let_def)
    moreover have "f64_round 15 10 = 0x3FF8000000000000"
      by (simp add: f64_round_def last_place_def scaled_def round_half_even_def nbits.simps Let_def f64_inf_def)
    ultimately show "parse_f64 (str ''1.5'') = Some 0x3FF8000000000000"
      by (simp add: parse_f64_def Let_def) (simp add: str_def lower_char_def)
    show "\<exists>sg ip fp ep. str ''1.5'' = sg @ ip @ fp @ ep \<and> (sg = [] \<or> sg = [45]) \<and> whole_part ip \<and> fraction_part fp \<and>
      (ep = [] \<and> fp \<noteq> [] \<or> (\<exists>k. ep = 101 # int_dec k \<and> - (2 ^ 31) \<le> k \<and> k < 2 ^ 31))"
      by (intro exI [of _ "[]"] exI [of _ "[49]"] exI [of _ "[46, 53]"])
         (simp add: str_def whole_part_def fraction_part_def digits_def is_digit_char_def)
  qed
  moreover have "bwf \<lparr>sign = 1, limbs = [0, 0, 64]\<rparr>" by (simp add: bwf_def)
  moreover have "writable True [10, 0x1F600]" by (simp add: splits_pair_def internal_surrogate_def valid_char_def INTERNAL_SURROGATE_BASE_def)
  ultimately show ?thesis
    unfolding readable_heap_def demo_vm_def by (auto simp: readable_def default_options_def)
qed

theorem loads_dumps_witness:
  "\<exists>s node. json_serialize_value demo_vm default_options (VList 0) = Inr s \<and> represents demo_vm default_options (VList 0) node \<and>
     parse_json_node_with_limit_detail 0 s 1000 = Inr node"
proof -
  obtain s where s: "json_serialize_value demo_vm default_options (VList 0) = Inr s" using demo_written by blast
  have "json_separators default_options"
    by (simp add: json_separators_def separator_def default_options_def is_ws_def json_ws_def str_def chr_def)
  from loads_dumps [OF this demo_readable, of "VList 0" 1000] s show ?thesis
    by (auto simp: readable_def demo_vm_def)
qed

section \<open>The order of keys\<close>

lemma sink_sorted:
  assumes "\<forall>y \<in> set ys. lt x y = Inr (key x < key y)" "sorted (map key (rev ys))"
  shows "\<exists>zs. sink lt x ys = Inr zs \<and> sorted (map key (rev zs)) \<and> (\<forall>k. filter (\<lambda>z. key z = k) (rev zs) = filter (\<lambda>z. key z = k) (rev ys @ [x]))"
  using assms
proof (induction ys)
  case (Cons y ys)
  have s: "sorted (map key (rev ys))" "\<forall>z \<in> set ys. key z \<le> key y" using Cons.prems(2) by (auto simp: sorted_append)
  obtain zs where zs: "sink lt x ys = Inr zs" "sorted (map key (rev zs))"
    "\<forall>k. filter (\<lambda>z. key z = k) (rev zs) = filter (\<lambda>z. key z = k) (rev ys @ [x])"
    using Cons.IH Cons.prems(1) s(1) by auto
  show ?case
  proof (cases "key x < key y")
    case True
    have "set zs = insert x (set ys)" using sink_mset [OF zs(1)] by (metis set_mset_mset set_mset_add_mset_insert)
    then have "sorted (map key (rev (y # zs)))" using zs(2) s(2) True by (auto simp: sorted_append)
    then show ?thesis using zs True Cons.prems(1) by (intro exI [of _ "y # zs"]) auto
  next
    case False
    then have "\<forall>z \<in> set (y # ys). key z \<le> key x" using s(2) by auto
    then show ?thesis using False Cons.prems by (intro exI [of _ "x # y # ys"]) (auto simp: sorted_append)
  qed
qed simp

lemma sort_loop_sorted:
  assumes "\<forall>a \<in> set (placed @ xs). \<forall>b \<in> set (placed @ xs). lt a b = Inr (key a < key b)" "sorted (map key (rev placed))"
  shows "\<exists>zs. sort_loop lt placed xs = Inr zs \<and> sorted (map key zs) \<and> (\<forall>k. filter (\<lambda>z. key z = k) zs = filter (\<lambda>z. key z = k) (rev placed @ xs))"
  using assms
proof (induction xs arbitrary: placed)
  case (Cons x xs)
  obtain zs where zs: "sink lt x placed = Inr zs" "sorted (map key (rev zs))"
    "\<forall>k. filter (\<lambda>z. key z = k) (rev zs) = filter (\<lambda>z. key z = k) (rev placed @ [x])"
    using sink_sorted [of placed lt x key] Cons.prems by auto
  have "set zs = insert x (set placed)" using sink_mset [OF zs(1)] by (metis set_mset_mset set_mset_add_mset_insert)
  then obtain ys where "sort_loop lt zs xs = Inr ys" "sorted (map key ys)" "\<forall>k. filter (\<lambda>z. key z = k) ys = filter (\<lambda>z. key z = k) (rev zs @ xs)"
    using Cons.IH [OF _ zs(2)] Cons.prems(1) by auto
  then show ?case using zs(1,3) by (intro exI [of _ ys]) simp
qed simp

text \<open>
  C37. Sorting the members of a dictionary: where the comparison of keys is that of their ranks in
  some linear order, the insertion sort is the stable sort by rank (so equal keys keep their order).
\<close>

theorem keys_sorted:
  assumes "\<forall>a \<in> fst ` set items. \<forall>b \<in> fst ` set items. vm_less_than vm a b = Inr ((rank a :: 'k :: linorder) < rank b)"
  shows "json_sort_object_items vm items = Inr (sort_key (rank \<circ> fst) items)"
proof -
  obtain zs where zs: "json_sort_object_items vm items = Inr zs" "sorted (map (rank \<circ> fst) zs)"
    "\<forall>k. filter (\<lambda>z. (rank \<circ> fst) z = k) zs = filter (\<lambda>z. (rank \<circ> fst) z = k) items"
    using sort_loop_sorted [of "[]" items "\<lambda>a b. vm_less_than vm (fst a) (fst b)" "rank \<circ> fst"] assms
    by (auto simp: json_sort_object_items_def)
  have "mset zs = mset items" using sort_loop_mset zs(1) by (fastforce simp: json_sort_object_items_def)
  moreover have "filter (\<lambda>x. (rank \<circ> fst) k = (rank \<circ> fst) x) zs = filter (\<lambda>x. (rank \<circ> fst) k = (rank \<circ> fst) x) items" for k
    using zs(3) by (simp add: eq_commute)
  ultimately have "sort_key (rank \<circ> fst) items = zs" using properties_for_sort_key zs(2) by blast
  then show ?thesis using zs(1) by simp
qed

definition demo_rank :: "JValue \<Rightarrow> int" where
  "demo_rank v = (case v of VInt i \<Rightarrow> sint i | _ \<Rightarrow> 0)"

theorem keys_sorted_witness:
  "json_sort_object_items (demo_vm\<lparr>vm_less_than := \<lambda>a b. Inr (demo_rank a < demo_rank b)\<rparr>)
     [(VInt 7, str ''7'', VNone), (VInt (- 1), str ''-1'', VNone), (VInt 2, str ''2'', VNone)] =
   Inr [(VInt (- 1), str ''-1'', VNone), (VInt 2, str ''2'', VNone), (VInt 7, str ''7'', VNone)]"
  by (subst keys_sorted [where rank = demo_rank]) (simp_all add: demo_rank_def)

section \<open>Cycles\<close>

text \<open>The container a value refers to, and the containers a container refers to.\<close>

fun referred :: "JValue \<Rightarrow> nat option" where
  "referred (VList obj) = Some obj"
| "referred (VTuple obj) = Some obj"
| "referred (VDict obj) = Some obj"
| "referred _ = None"

fun member_values :: "JObject \<Rightarrow> JValue set" where
  "member_values (HList vs) = set vs"
| "member_values (HTuple vs) = set vs"
| "member_values (HDict entries) = snd ` set entries"
| "member_values HOther = {}"

definition refers :: "JsonVm \<Rightarrow> (nat \<times> nat) set" where
  "refers vm = {(a, b). \<exists>x v. vm_heap vm a = Some x \<and> v \<in> member_values x \<and> referred v = Some b}"

lemma try_each_all: "try_each f i xs = Inr ys \<Longrightarrow> x \<in> set xs \<Longrightarrow> \<exists>i y. f i x = Inr y"
  by (induction f i xs arbitrary: ys rule: try_each.induct) auto

lemma mapped_items_all:
  "mapped_items vm options entries = Inr items \<Longrightarrow> \<not> jo_skipkeys options \<Longrightarrow> (key, v) \<in> set entries \<Longrightarrow> v \<in> (snd \<circ> snd) ` set items"
proof (induction vm options entries arbitrary: items rule: mapped_items.induct)
  case (2 vm options k w entries)
  obtain encoded rest where e: "json_encode_object_key vm options k = Inr encoded" "mapped_items vm options entries = Inr rest"
    "items = (case encoded of Some s \<Rightarrow> (k, s, w) # rest | None \<Rightarrow> rest)" using 2(2) by auto
  have "encoded \<noteq> None"
    using e(1) 2(3) by (cases k) (auto simp: exception_error_def)
  then show ?case using 2(1) [OF e(1,2) 2(3)] 2(4) e(3) by (cases encoded) (auto simp: image_iff)
qed simp

text \<open>Where a container is written, everything it refers to is written one level deeper.\<close>

lemma members_written:
  assumes s: "json_serialize_value_at_depth vm options d markers v = Inr s" and v: "referred v = Some a"
    and e: "(a, b) \<in> refers vm" and k: "\<not> jo_skipkeys options"
  shows "\<exists>w markers' s'. referred w = Some b \<and> json_serialize_value_at_depth vm options (Suc d) markers' w = Inr s'"
proof -
  have d: "d < vm_recursion_limit vm" using s
    by (subst (asm) json_serialize_value_at_depth.simps) (auto simp: exception_error_def split: if_splits)
  note ser = s [unfolded json_serialize_value_at_depth.simps [of vm options d markers v]]
  obtain x w where x: "vm_heap vm a = Some x" "w \<in> member_values x" "referred w = Some b" using e by (auto simp: refers_def)
  have "\<exists>markers' s'. json_serialize_value_at_depth vm options (Suc d) markers' w = Inr s'"
  proof (cases v)
    case (VList obj)
    then obtain markers' vs parts where p: "x = HList vs"
      "try_each (\<lambda>i v. with_note (item_note ''list'' i) (json_serialize_value_at_depth vm options (Suc d) markers' v)) 0 vs = Inr parts"
      using ser d v x(1) by (auto simp: unsupported_type_def plain_error_def split: JObject.splits)
    then show ?thesis using try_each_all [OF p(2), of w] x(2) by auto
  next
    case (VTuple obj)
    then obtain markers' vs parts where p: "x = HTuple vs"
      "try_each (\<lambda>i v. with_note (item_note ''tuple'' i) (json_serialize_value_at_depth vm options (Suc d) markers' v)) 0 vs = Inr parts"
      using ser d v x(1) by (auto simp: unsupported_type_def plain_error_def split: JObject.splits)
    then show ?thesis using try_each_all [OF p(2), of w] x(2) by auto
  next
    case (VDict obj)
    then obtain markers' entries items parts where p: "x = HDict entries" "written_items vm options entries = Inr items"
      "try_each (\<lambda>i (raw, key, v). bindr (with_note (str ''when serializing dict item '' @ format_repr_string key)
          (json_serialize_value_at_depth vm options (Suc d) markers' v))
        (\<lambda>encoded. Inr (json_escape_string key (jo_ensure_ascii options) @ jo_key_separator options @ encoded))) 0 items = Inr parts"
      using ser d v x(1) by (auto simp: written_items_def unsupported_type_def plain_error_def split: JObject.splits)
    obtain key where "(key, w) \<in> set entries" using x(2) p(1) by auto
    moreover obtain mapped where m: "mapped_items vm options entries = Inr mapped" "mset items = mset mapped"
      using p(2) sort_loop_mset by (fastforce simp: written_items_def json_sort_object_items_def split: if_splits)
    ultimately have "w \<in> (snd \<circ> snd) ` set mapped" using mapped_items_all k by blast
    then obtain raw key' where i: "(raw, key', w) \<in> set items" using mset_eq_setD [OF m(2)] by auto
    then obtain s' where "json_serialize_value_at_depth vm options (Suc d) markers' w = Inr s'" using try_each_all [OF p(3) i] by auto
    then show ?thesis by blast
  qed (use v in simp_all)
  then show ?thesis using x(3) by blast
qed

lemma chain_bounded:
  "(a, b) \<in> refers vm ^^ n \<Longrightarrow> json_serialize_value_at_depth vm options d markers v = Inr s \<Longrightarrow> referred v = Some a \<Longrightarrow>
   \<not> jo_skipkeys options \<Longrightarrow> d + n < vm_recursion_limit vm"
proof (induction n arbitrary: a d markers v s)
  case 0
  then show ?case
    by (subst (asm) json_serialize_value_at_depth.simps) (auto simp: exception_error_def split: if_splits)
next
  case (Suc n)
  obtain c where c: "(a, c) \<in> refers vm" "(c, b) \<in> refers vm ^^ n" using Suc.prems(1) by (rule relpow_Suc_E2)
  obtain w markers' s' where "referred w = Some c" "json_serialize_value_at_depth vm options (Suc d) markers' w = Inr s'"
    using members_written [OF Suc.prems(2,3) c(1) Suc.prems(4)] by blast
  from Suc.IH [OF c(2) this(2,1) Suc.prems(4)] show ?case by simp
qed



end
