(* ===== verification/Json_Bounds.thy ===== *)
theory Json_Bounds
  imports Json
begin

text \<open>
  The limits of the JSON parser: every error it reports points into its source, and no value it
  accepts is nested deeper than its limit.
\<close>

section \<open>Positions of errors\<close>

text \<open>A state over a source, and a result that reports a position of that source if it is an error.\<close>

definition over :: "u8 list \<Rightarrow> JsonParser \<Rightarrow> bool" where
  "over bs ps \<longleftrightarrow> jp_source ps = bs \<and> jp_pos ps \<le> length bs"

definition reports :: "u8 list \<Rightarrow> 'a jres \<Rightarrow> bool" where
  "reports bs r \<longleftrightarrow> (\<forall>msg pos. r = Inl (JsonParseError msg pos) \<longrightarrow> pos \<le> length bs)"

lemma over_ahead: "over bs ps \<Longrightarrow> ahead ps ps' \<Longrightarrow> over bs ps'"
  by (auto simp: over_def ahead_def)

lemma reports_Inr [simp]: "reports bs (Inr x)"
  by (simp add: reports_def)

lemma reports_error [simp]: "reports bs (json_error msg pos) \<longleftrightarrow> pos \<le> length bs"
  by (simp add: reports_def json_error_def)

lemma reports_bind: "reports bs m \<Longrightarrow> (\<And>x. m = Inr x \<Longrightarrow> reports bs (f x)) \<Longrightarrow> reports bs (bindr m f)"
  by (cases m) (simp_all add: reports_def)

lemma reports_if: "(b \<Longrightarrow> reports bs x) \<Longrightarrow> (\<not> b \<Longrightarrow> reports bs y) \<Longrightarrow> reports bs (if b then x else y)"
  by simp

lemma reports_option:
  "(m = None \<Longrightarrow> reports bs x) \<Longrightarrow> (\<And>r. m = Some r \<Longrightarrow> reports bs (f r)) \<Longrightarrow> reports bs (case m of None \<Rightarrow> x | Some r \<Rightarrow> f r)"
  by (simp split: option.split)

lemma reports_pair: "(\<And>a b. p = (a, b) \<Longrightarrow> reports bs (f a b)) \<Longrightarrow> reports bs (case p of (a, b) \<Rightarrow> f a b)"
  by (simp split: prod.split)

lemmas reports_rules = reports_if reports_option reports_bind reports_pair

lemma over_pos: "over bs ps \<Longrightarrow> jp_pos ps \<le> length bs" "over bs ps \<Longrightarrow> jp_pos ps - Suc 0 \<le> length bs"
  by (auto simp: over_def)

lemma over_next: "over bs ps \<Longrightarrow> json_next ps = Some (b, ps') \<Longrightarrow> over bs ps'"
  using over_ahead consumes_ahead [OF next_consumes] by blast

lemmas over_next_pos = over_pos [OF over_next]

lemma hex_u16_reports: "over bs ps \<Longrightarrow> reports bs (hex_u16_loop n v ps)"
  by (induction n arbitrary: v ps) (auto intro!: reports_rules simp: over_pos over_next_pos over_next)

lemma char_or_error_reports: "over bs ps \<Longrightarrow> reports bs (char_or_error ch ps)"
  by (simp add: char_or_error_def over_pos split: option.split)

lemma unicode_escape_reports:
  assumes "over bs ps"
  shows "reports bs (unicode_escape ps)"
proof -
  have h: "over bs ps'" if "over bs ps" "parse_hex_u16 ps = Inr (code, ps')" for ps ps' code
    using that over_ahead hex_u16_loop_ahead by (auto simp: parse_hex_u16_def)
  have b: "over bs (bump 2 ps) \<and> over bs (bump (Suc (Suc 0)) ps)" if "over bs ps" "starts_with ps [CHR 0x5C, CHR ''u'']" for ps
    using that over_ahead starts_with_ahead by (fastforce simp: numeral_2_eq_2)
  have hb: "over bs ps''" if "over bs ps" "parse_hex_u16 ps = Inr (code, ps')" "starts_with ps' [CHR 0x5C, CHR ''u'']"
      "parse_hex_u16 (bump 2 ps') = Inr (low, ps'')" for ps ps' ps'' code low
    using h b that by blast
  show ?thesis unfolding unicode_escape_def
    by (intro reports_rules char_or_error_reports)
       (use assms h [OF assms] b hb [OF assms] hex_u16_reports in \<open>auto simp: parse_hex_u16_def\<close>)
qed

lemma parse_escape_reports: "over bs ps \<Longrightarrow> reports bs (parse_escape ps)"
  unfolding parse_escape_def
  by (intro reports_rules unicode_escape_reports) (auto intro: over_pos over_next)

lemma utf8_tail_reports: "over bs ps \<Longrightarrow> reports bs (utf8_tail n bytes ps)"
  by (induction n arbitrary: bytes ps) (auto intro!: reports_rules simp: over_pos over_next_pos over_next)

lemma push_utf8_reports: "over bs ps \<Longrightarrow> reports bs (push_utf8_char first ps)"
  unfolding push_utf8_char_def
  by (intro reports_rules utf8_tail_reports)
     (auto simp: over_pos split: option.split list.split dest: over_ahead [OF _ utf8_tail_ahead] intro: over_pos)

lemma string_char_reports: "over bs ps \<Longrightarrow> reports bs (string_char b ps)"
  unfolding string_char_def by (intro reports_rules parse_escape_reports push_utf8_reports) (auto simp: over_pos)

lemma string_loop_reports: "over bs ps \<Longrightarrow> start \<le> length bs \<Longrightarrow> reports bs (json_string_loop start out ps)"
proof (induction start out ps rule: json_string_loop.induct)
  case (1 start out ps)
  show ?case
  proof (subst json_string_loop.simps, intro reports_rules string_char_reports, goal_cases)
    case (4 r b ps' x ch ps'')
    then show ?case using 1(1) [of r b ps' x ch ps''] 1(2,3) over_next over_ahead string_char_ahead by metis
  qed (use 1(2,3) over_next in auto)
qed

lemma expect_reports: "over bs ps \<Longrightarrow> reports bs (json_expect c msg ps)"
  by (simp add: json_expect_def over_pos)

lemma over_expect: "over bs ps \<Longrightarrow> json_expect c msg ps = Inr ps' \<Longrightarrow> over bs ps'"
  using over_ahead consumes_ahead [OF expect_consumes] by blast

lemma parse_string_reports: "over bs ps \<Longrightarrow> reports bs (json_parse_string ps)"
  unfolding json_parse_string_def
  by (intro reports_rules expect_reports string_loop_reports) (auto intro: over_expect over_pos)

lemma need_digits_reports: "over bs ps \<Longrightarrow> reports bs (need_digits ps)"
  by (simp add: need_digits_def over_pos)

lemma over_bump: "over bs ps \<Longrightarrow> peek_in ps cs \<Longrightarrow> over bs (bump 1 ps)"
  using over_ahead peek_in_ahead by blast

lemma number_part_reports:
  assumes "over bs ps"
  shows "reports bs (int_part ps)" "reports bs (frac_part ps)" "reports bs (exp_part ps)"
proof -
  have o: "over bs (bump 1 ps)" if "peek_in ps cs" for cs using over_bump assms that by blast
  have oe: "over bs (bump_if cs' (bump 1 ps))" if "peek_in ps cs" for cs cs' using over_ahead [OF o [OF that] bump_if_ahead] .
  show "reports bs (int_part ps)" using need_digits_reports [OF assms] over_pos(1) [OF o] by (auto simp: int_part_def Let_def)
  show "reports bs (frac_part ps)" using need_digits_reports [OF o] by (simp add: frac_part_def)
  show "reports bs (exp_part ps)" using need_digits_reports [OF oe] by (simp add: exp_part_def)
qed

lemma number_node_reports: "over bs ps \<Longrightarrow> reports bs (number_node txt ps)"
  unfolding number_node_def Let_def
  by (intro reports_rules) (auto simp: over_pos json_validate_int_digits_limit_def Let_def reports_def json_error_def)

lemma parse_number_reports:
  assumes "over bs ps"
  shows "reports bs (json_parse_number ps)"
proof -
  have b: "over bs (bump_if {CHR ''-''} ps)" using over_ahead [OF assms bump_if_ahead] .
  show ?thesis unfolding json_parse_number_def
  proof (intro reports_rules number_part_reports number_node_reports, goal_cases)
    case 1 show ?case by (rule b)
  next
    case (2 x) show ?case using over_ahead [OF b number_parts_ahead(1) [OF 2]] .
  next
    case (3 x y) show ?case using over_ahead [OF over_ahead [OF b number_parts_ahead(1) [OF 3(1)]] number_parts_ahead(2) [OF 3(2)]] .
  next
    case (4 x y z)
    have "over bs z" using over_ahead [OF over_ahead [OF over_ahead [OF b number_parts_ahead(1) [OF 4(1)]] number_parts_ahead(2) [OF 4(2)]] number_parts_ahead(3) [OF 4(3)]] .
    then show ?case by (simp add: over_pos)
  next
    case (5 x y z r)
    show ?case using over_ahead [OF over_ahead [OF over_ahead [OF b number_parts_ahead(1) [OF 5(1)]] number_parts_ahead(2) [OF 5(2)]] number_parts_ahead(3) [OF 5(3)]] .
  qed simp
qed

section \<open>The descent\<close>

lemma scalar_reports:
  assumes "over bs ps"
  shows "reports bs (parse_scalar b ps)"
  unfolding parse_scalar_def parse_literal_def
  by (intro reports_rules parse_string_reports parse_number_reports) (simp_all add: assms over_pos)

lemma after_member_reports:
  assumes "over bs ps"
  shows "reports bs (after_member close msg ps)"
proof -
  have o: "over bs (skip_ws ps)" using over_ahead [OF assms skip_ws_ahead] .
  have "over bs (skip_ws ps')" if "json_next (skip_ws ps) = Some (b, ps')" for b ps'
    using over_ahead [OF over_next [OF o that] skip_ws_ahead] .
  then show ?thesis unfolding after_member_def Let_def
    by (intro reports_rules) (use over_next [OF o] o in \<open>auto simp: over_pos\<close>)
qed

lemma over_string: "over bs ps \<Longrightarrow> json_parse_string ps = Inr (s, ps') \<Longrightarrow> over bs (skip_ws ps')"
  using over_ahead consumes_ahead [OF json_parse_string_consumes] skip_ws_ahead by blast

lemma member_key_reports:
  assumes "over bs ps"
  shows "reports bs (member_key ps)"
proof -
  have "over bs (skip_ws ps'')" if "json_parse_string ps = Inr (s, ps')" "json_expect CHR '':'' msg (skip_ws ps') = Inr ps''" for s ps' ps'' msg
    using over_ahead [OF over_expect [OF over_string [OF assms that(1)] that(2)] skip_ws_ahead] .
  then show ?thesis unfolding member_key_def Let_def
    by (intro reports_rules parse_string_reports expect_reports) (use assms over_string [OF assms] in \<open>auto simp: over_pos\<close>)
qed

lemma after_member_over:
  assumes "over bs ps" "jp_depth_limit ps = limit" "after_member close msg ps = Inr (NextMember c ps')"
  shows "over bs ps' \<and> jp_depth_limit ps' = limit \<and> c \<le> length bs"
proof -
  have a: "ahead ps ps'" using consumes_ahead [OF after_member_consumes [OF assms(3)]] by simp
  obtain ps1 where "c = jp_pos ps1 - 1" "ps' = skip_ws ps1"
    using assms(3) by (auto simp: after_member_def Let_def json_error_def split: option.splits if_splits)
  then have "c \<le> jp_pos ps'" using ahead_same [OF skip_ws_ahead, of ps1] by auto
  then show ?thesis using over_ahead [OF assms(1) a] ahead_same [OF a] assms(2) by (auto simp: over_def)
qed

text \<open>How deep arrays and objects are nested in a node.\<close>

fun nesting_depth :: "JsonNode \<Rightarrow> nat" where
  "nesting_depth (JArray vs) = foldr max (map (\<lambda>v. Suc (nesting_depth v)) vs) 0"
| "nesting_depth (JObject kvs) = foldr max (map (\<lambda>kv. Suc (nesting_depth (snd kv))) kvs) 0"
| "nesting_depth _ = 0"

lemma foldr_max_less: "foldr max ns (0 :: nat) < k \<longleftrightarrow> 0 < k \<and> (\<forall>n \<in> set ns. n < k)"
  by (induction ns) auto

lemma nesting_container:
  assumes "0 < depth" "depth \<le> limit"
  shows "\<forall>v \<in> set vs. depth + nesting_depth v < limit \<Longrightarrow> depth - 1 + nesting_depth (JArray vs) < limit"
    "\<forall>kv \<in> set kvs. depth + nesting_depth (snd kv) < limit \<Longrightarrow> depth - 1 + nesting_depth (JObject kvs) < limit"
proof -
  have less: "depth - 1 + n < limit \<longleftrightarrow> n < limit - (depth - 1)" for n using assms by auto
  show "\<forall>v \<in> set vs. depth + nesting_depth v < limit \<Longrightarrow> depth - 1 + nesting_depth (JArray vs) < limit"
    "\<forall>kv \<in> set kvs. depth + nesting_depth (snd kv) < limit \<Longrightarrow> depth - 1 + nesting_depth (JObject kvs) < limit"
    unfolding less using assms by (auto simp: foldr_max_less)
qed

definition within_limits :: "u8 list \<Rightarrow> nat \<Rightarrow> nat \<Rightarrow> (JsonNode \<times> JsonParser) jres \<Rightarrow> bool" where
  "within_limits bs limit depth r \<longleftrightarrow> reports bs r \<and> (\<forall>node ps. r = Inr (node, ps) \<longrightarrow> depth + nesting_depth node < limit)"

lemma within_limits_error [simp]: "within_limits bs limit depth (json_error msg pos) \<longleftrightarrow> pos \<le> length bs"
  by (simp add: within_limits_def) (simp add: json_error_def)

lemma within_limits_Inr [simp]: "within_limits bs limit depth (Inr (node, ps)) \<longleftrightarrow> depth + nesting_depth node < limit"
  by (simp add: within_limits_def)

lemma within_limits_bind:
  "reports bs m \<Longrightarrow> (\<And>x. m = Inr x \<Longrightarrow> within_limits bs limit depth (f x)) \<Longrightarrow> within_limits bs limit depth (bindr m f)"
  by (cases m) (simp_all add: within_limits_def reports_def)

lemma scalar_within: "over bs ps \<Longrightarrow> depth < limit \<Longrightarrow> within_limits bs limit depth (parse_scalar b ps)"
proof -
  assume o: "over bs ps" and d: "depth < limit"
  have "nesting_depth node = 0" if "parse_scalar b ps = Inr (node, ps')" for node ps'
    using that by (auto simp: parse_scalar_def parse_literal_def json_error_def json_parse_number_def number_node_def Let_def
        split: if_splits option.splits)
  then show ?thesis using scalar_reports [OF o] d by (auto simp: within_limits_def)
qed

lemma parse_within:
  "over bs ps \<Longrightarrow> jp_depth_limit ps = limit \<Longrightarrow> within_limits bs limit depth (parse_value depth ps)"
  "over bs ps \<Longrightarrow> jp_depth_limit ps = limit \<Longrightarrow> 0 < depth \<Longrightarrow> depth \<le> limit \<Longrightarrow> pred_option (\<lambda>c. c \<le> length bs) comma \<Longrightarrow> \<forall>v \<in> set vs. depth + nesting_depth v < limit \<Longrightarrow>
     within_limits bs limit (depth - 1) (array_loop depth comma vs ps)"
  "over bs ps \<Longrightarrow> jp_depth_limit ps = limit \<Longrightarrow> 0 < depth \<Longrightarrow> depth \<le> limit \<Longrightarrow> pred_option (\<lambda>c. c \<le> length bs) comma \<Longrightarrow> \<forall>kv \<in> set os. depth + nesting_depth (snd kv) < limit \<Longrightarrow>
     within_limits bs limit (depth - 1) (object_loop depth comma os ps)"
proof (induction depth ps and depth comma vs ps and depth comma os ps rule: parse_value_array_loop_object_loop.induct)
  case (1 depth ps)
  let ?ps = "skip_ws ps"
  have o: "over bs ?ps" "jp_depth_limit ?ps = limit" using over_ahead [OF 1(3) skip_ws_ahead] ahead_same [OF skip_ws_ahead] 1(4) by auto
  have e: "reports bs (enter_container lb rb ?ps)" for lb rb
    unfolding enter_container_def Let_def by (intro reports_rules expect_reports o) simp
  have l: "over bs l \<and> jp_depth_limit l = limit" if "enter_container lb rb ?ps = Inr (Inside l)" for lb rb l
    using over_ahead [OF o(1) consumes_ahead [OF enter_container_consumes [OF that]]] o(2)
      ahead_same [OF consumes_ahead [OF enter_container_consumes [OF that]]] by simp
  show ?case
  proof (cases "limit \<le> depth")
    case True
    then show ?thesis using 1(3,4) by (subst parse_value.simps) (simp add: over_pos)
  next
    case False
    then have lim: "\<not> jp_depth_limit ps \<le> depth" using 1(4) by simp
    show ?thesis
    proof (cases "starts_with ?ps ''-Infinity'' \<or> json_peek ?ps = None")
      case True
      then show ?thesis using False 1(4) o(1) by (subst parse_value.simps) (auto simp: Let_def over_pos)
    next
      case inf: False
      then obtain b where b: "json_peek ?ps = Some b" and ninf: "\<not> starts_with ?ps ''-Infinity''" by blast
      have array: "within_limits bs limit depth (array_loop (depth + 1) None [] l)"
        if "b = byte CHR ''[''" "enter_container CHR ''['' CHR '']'' ?ps = Inr (Inside l)" for l
        using 1(1) [OF lim refl ninf b that refl] l [OF that(2)] False by simp
      have object: "within_limits bs limit depth (object_loop (depth + 1) None [] l)"
        if "b \<noteq> byte CHR ''[''" "b = byte CHR ''{''" "enter_container CHR ''{'' CHR ''}'' ?ps = Inr (Inside l)" for l
        using 1(2) [OF lim refl ninf b that refl] l [OF that(3)] False by simp
      have "parse_value depth ps =
         (if b = byte CHR ''['' then bindr (enter_container CHR ''['' CHR '']'' ?ps)
            (\<lambda>r. case r of EmptyContainer ps \<Rightarrow> Inr (JArray [], ps) | Inside ps \<Rightarrow> array_loop (depth + 1) None [] ps)
          else if b = byte CHR ''{'' then bindr (enter_container CHR ''{'' CHR ''}'' ?ps)
            (\<lambda>r. case r of EmptyContainer ps \<Rightarrow> Inr (JObject [], ps) | Inside ps \<Rightarrow> object_loop (depth + 1) None [] ps)
          else parse_scalar b ?ps)"
        using lim ninf b by (subst parse_value.simps) (simp add: Let_def)
      then show ?thesis
        using scalar_within [OF o(1), of depth limit b] False array object
        by (auto intro!: within_limits_bind e split: entered.split)
    qed
  qed
next
  case (2 depth comma vs ps)
  show ?case
  proof (cases "if peek_in ps {CHR '']''} then comma else None")
    case (Some pos)
    then show ?thesis using 2(7) by (subst array_loop.simps) (auto split: if_splits)
  next
    case None
    note IH = 2(1) [OF None 2(3,4)]
    have v: "depth + nesting_depth v < limit" "over bs ps1" "jp_depth_limit ps1 = limit" if "parse_value depth ps = Inr (v, ps1)" for v ps1
      using IH over_ahead [OF 2(3) parse_moves(1) [OF that]] ahead_same [OF parse_moves(1) [OF that]] 2(4) that by (simp_all add: within_limits_def)
    have next': "over bs ps2 \<and> jp_depth_limit ps2 = limit \<and> c \<le> length bs"
      if "parse_value depth ps = Inr (v, ps1)" "after_member CHR '']'' ''Expecting value'' ps1 = Inr (NextMember c ps2)" for v ps1 c ps2
      using after_member_over [OF v(2,3) [OF that(1)] that(2)] .
    have "within_limits bs limit (depth - 1)
      (bindr (parse_value depth ps) (\<lambda>(v, ps). bindr (after_member CHR '']'' ''Expecting value'' ps) (\<lambda>r.
        case r of NextMember comma ps \<Rightarrow> array_loop depth (Some comma) (vs @ [v]) ps | LastMember ps \<Rightarrow> Inr (JArray (vs @ [v]), ps))))"
    proof (intro within_limits_bind, goal_cases)
      case (2 x)
      obtain v ps1 where x: "x = (v, ps1)" by fastforce
      note p = 2 [unfolded x]
      have "within_limits bs limit (depth - 1) (case r of NextMember comma ps \<Rightarrow> array_loop depth (Some comma) (vs @ [v]) ps | LastMember ps \<Rightarrow> Inr (JArray (vs @ [v]), ps))"
        if r: "after_member CHR '']'' ''Expecting value'' ps1 = Inr r" for r
      proof (cases r)
        case (NextMember c ps2)
        then show ?thesis
          using "2.IH"(2) [OF None p refl r NextMember] next' [OF p r [unfolded NextMember]] v(1) [OF p] "2.prems"(3,4,6) by auto
      next
        case (LastMember ps2)
        have "depth - 1 + nesting_depth (JArray (vs @ [v])) < limit"
          using v(1) [OF p] "2.prems"(6) by (intro nesting_container "2.prems"(3,4)) simp
        then show ?thesis unfolding LastMember by simp
      qed
      then show ?case unfolding x by (auto intro!: within_limits_bind after_member_reports v(2) [OF p])
    qed (use IH in \<open>simp add: within_limits_def\<close>)
    then show ?thesis using None by (subst array_loop.simps) simp
  qed
next
  case (3 depth comma os ps)
  show ?case
  proof (cases "if peek_in ps {CHR ''}''} then comma else None")
    case (Some pos)
    then show ?thesis using 3(7) by (subst object_loop.simps) (auto split: if_splits)
  next
    case None
    have k: "over bs ps0" "jp_depth_limit ps0 = limit" if "member_key ps = Inr (key, ps0)" for key ps0
      using over_ahead [OF 3(3) consumes_ahead [OF member_key_consumes [OF that]]]
        ahead_same [OF consumes_ahead [OF member_key_consumes [OF that]]] 3(4) by simp_all
    have IH: "within_limits bs limit depth (parse_value depth ps0)" if "member_key ps = Inr (key, ps0)" for key ps0
      using 3(1) [OF None that refl k [OF that]] .
    have v: "depth + nesting_depth v < limit" "over bs ps1" "jp_depth_limit ps1 = limit"
      if "member_key ps = Inr (key, ps0)" "parse_value depth ps0 = Inr (v, ps1)" for key ps0 v ps1
      using IH [OF that(1)] over_ahead [OF k(1) [OF that(1)] parse_moves(1) [OF that(2)]]
        ahead_same [OF parse_moves(1) [OF that(2)]] k(2) [OF that(1)] that(2) by (simp_all add: within_limits_def)
    let ?after = "\<lambda>key v ps. bindr (after_member CHR ''}'' ''Expecting property name enclosed in double quotes'' ps) (\<lambda>r.
        case r of NextMember comma ps \<Rightarrow> object_loop depth (Some comma) (os @ [(key, v)]) ps | LastMember ps \<Rightarrow> Inr (JObject (os @ [(key, v)]), ps))"
    have after: "within_limits bs limit (depth - 1) (?after key v ps1)"
      if p: "member_key ps = Inr (key, ps0)" "parse_value depth ps0 = Inr (v, ps1)" for key ps0 v ps1
    proof (intro within_limits_bind after_member_reports v(2) [OF p])
      fix r
      assume r: "after_member CHR ''}'' ''Expecting property name enclosed in double quotes'' ps1 = Inr r"
      show "within_limits bs limit (depth - 1) (case r of NextMember comma ps \<Rightarrow> object_loop depth (Some comma) (os @ [(key, v)]) ps
          | LastMember ps \<Rightarrow> Inr (JObject (os @ [(key, v)]), ps))"
      proof (cases r)
        case (NextMember c ps2)
        have n: "over bs ps2 \<and> jp_depth_limit ps2 = limit \<and> c \<le> length bs"
          using after_member_over [OF v(2,3) [OF p] r [unfolded NextMember]] .
        then show ?thesis
          using "3.IH"(2) [OF None p(1) refl p(2) refl r NextMember] v(1) [OF p] "3.prems"(3,4,6) NextMember by auto
      next
        case (LastMember ps2)
        have "depth - 1 + nesting_depth (JObject (os @ [(key, v)])) < limit"
          using v(1) [OF p] "3.prems"(6) by (intro nesting_container "3.prems"(3,4)) simp
        then show ?thesis unfolding LastMember by simp
      qed
    qed
    have "within_limits bs limit (depth - 1) (bindr (member_key ps) (\<lambda>(key, ps). bindr (parse_value depth ps) (\<lambda>(v, ps). ?after key v ps)))"
    proof (intro within_limits_bind member_key_reports 3(3))
      fix x
      assume "member_key ps = Inr x"
      then obtain key ps0 where x: "x = (key, ps0)" "member_key ps = Inr (key, ps0)" by (cases x) simp
      have "reports bs (parse_value depth ps0)" using IH [OF x(2)] by (simp add: within_limits_def)
      then have "within_limits bs limit (depth - 1) (bindr (parse_value depth ps0) (\<lambda>(v, ps). ?after key v ps))"
        by (rule within_limits_bind) (use after [OF x(2)] in \<open>simp split: prod.split\<close>)
      then show "within_limits bs limit (depth - 1) (case x of (key, ps) \<Rightarrow> bindr (parse_value depth ps) (\<lambda>(v, ps). ?after key v ps))"
        by (simp only: x(1) prod.case)
    qed
    then show ?thesis using None by (subst object_loop.simps) simp
  qed
qed

lemma length_as_bytes: "length (as_bytes s) = byte_len s"
  by (induction s) (simp_all add: as_bytes_def byte_len_def utf8_char_def len_utf8_def)

text \<open>
  C7. An accepted text is nested less deep than the limit, and the position of every error is one of
  the source (in bytes, its end included).
\<close>

theorem parse_within_limits:
  "(\<forall>node. parse_json_node_with_limit_detail m s limit = Inr node \<longrightarrow> nesting_depth node < max limit 1) \<and>
   (\<forall>msg pos. parse_json_node_with_limit_detail m s limit = Inl (JsonParseError msg pos) \<longrightarrow> pos \<le> byte_len s)"
proof -
  let ?bs = "as_bytes s" and ?ps = "skip_ws (json_new m s limit)"
  have o: "over ?bs ?ps" "jp_depth_limit ?ps = max limit 1"
    using over_ahead [OF _ skip_ws_ahead, of ?bs "json_new m s limit"] ahead_same [OF skip_ws_ahead, of "json_new m s limit"]
    by (simp_all add: over_def json_new_def)
  note w = parse_within(1) [OF o, of 0]
  have "jp_pos (skip_ws ps) \<le> length ?bs" if "parse_value 0 ?ps = Inr (node, ps)" for node ps
    using over_ahead [OF over_ahead [OF o(1) parse_moves(1) [OF that]] skip_ws_ahead] by (simp add: over_def)
  then have "reports ?bs (parse_json_node_with_limit_detail m s limit)"
    unfolding parse_json_node_with_limit_detail_def json_parse_def Let_def
    by (intro reports_rules) (use w in \<open>auto simp: within_limits_def\<close>)
  moreover have "nesting_depth node < max limit 1" if "parse_json_node_with_limit_detail m s limit = Inr node" for node
    using that w unfolding parse_json_node_with_limit_detail_def json_parse_def within_limits_def Let_def
    by (fastforce simp: json_error_def split: if_splits)
  moreover have "length ?bs = byte_len s" by (rule length_as_bytes)
  ultimately show ?thesis by (auto simp: reports_def)
qed

theorem parse_within_limits_witness:
  "parse_json_node_with_limit_detail 0 (str ''[[]]'') 2 = Inr (JArray [JArray []]) \<and> nesting_depth (JArray [JArray []]) < max 2 1"
proof -
  have "parse_json_node_with_limit_detail 0 (str ''[[]]'') 2 = Inr (JArray [JArray []])" by code_simp
  then show ?thesis using parse_within_limits [of 0 "str ''[[]]''" 2] by blast
qed

end
