(* ===== verification/Csv.thy ===== *)
theory Csv
  imports Floats Lexing
begin

text \<open>
  Reading and writing of \<^verbatim>\<open>src/vm/stdlib/csv.rs\<close>: the check of a dialect, the writer's quoting and rows,
  the reader's parser of one record and its loop over the lines of an iterator. A value is a string, None, or
  the text \<open>str()\<close> gives for a number or for anything else, which runs arbitrary code and is left out.
\<close>

section \<open>Dialects\<close>

record CsvDialect =
  cd_delimiter :: rchar
  cd_quotechar :: "rchar option"
  cd_escapechar :: "rchar option"
  cd_quoting :: int
  cd_doublequote :: bool
  cd_skipinitialspace :: bool
  cd_strict :: bool
  cd_lineterminator :: rstring
  cd_field_limit :: "nat option"

datatype CsvError = CsvError string | CsvStopIteration

type_synonym 'a cres = "CsvError + 'a"

definition csv_error :: "string \<Rightarrow> 'a cres" where
  "csv_error msg = Inl (CsvError msg)"

text \<open>The first failing check of a list.\<close>

fun first_error :: "(bool \<times> string) list \<Rightarrow> unit cres" where
  "first_error [] = Inr ()"
| "first_error ((bad, msg) # rest) = (if bad then csv_error msg else first_error rest)"

definition dq :: char where
  "dq = CHR 0x22"

definition one_of :: "rchar option \<Rightarrow> rchar set \<Rightarrow> bool" where
  "one_of c cs = (case c of None \<Rightarrow> False | Some c \<Rightarrow> c \<in> cs)"

definition validate_csv_parameter_consistency :: "CsvDialect \<Rightarrow> unit cres" where
  "validate_csv_parameter_consistency d =
     first_error
      [(\<not> (0 \<le> cd_quoting d \<and> cd_quoting d \<le> 5), ''bad '' @ [dq] @ ''quoting'' @ [dq] @ '' value''),
       (cd_quotechar d = None \<and> cd_quoting d \<noteq> 3, ''quotechar must be set if quoting enabled''),
       (cd_delimiter d \<in> {10, 13}, ''bad delimiter value''),
       (one_of (cd_quotechar d) {10, 13}, ''bad quotechar value''),
       (one_of (cd_escapechar d) {10, 13}, ''bad escapechar value''),
       (cd_skipinitialspace d \<and> cd_quotechar d = Some 32, ''bad quotechar value''),
       (cd_skipinitialspace d \<and> cd_escapechar d = Some 32, ''bad escapechar value''),
       (cd_quotechar d = Some (cd_delimiter d), ''bad delimiter or quotechar value''),
       (cd_escapechar d = Some (cd_delimiter d), ''bad delimiter or escapechar value''),
       (cd_quotechar d \<noteq> None \<and> cd_quotechar d = cd_escapechar d, ''bad escapechar or quotechar value''),
       (cd_delimiter d \<in> set (cd_lineterminator d), ''bad delimiter or lineterminator value''),
       (one_of (cd_quotechar d) (set (cd_lineterminator d)), ''bad quotechar or lineterminator value''),
       (one_of (cd_escapechar d) (set (cd_lineterminator d)), ''bad escapechar or lineterminator value'')]"

section \<open>Writing\<close>

datatype CsvValue = CsvStr rstring | CsvNone | CsvNumber rstring | CsvOther rstring

fun coerce_csv_writer_field_text :: "CsvValue \<Rightarrow> rstring" where
  "coerce_csv_writer_field_text (CsvStr s) = s"
| "coerce_csv_writer_field_text CsvNone = []"
| "coerce_csv_writer_field_text (CsvNumber s) = s"
| "coerce_csv_writer_field_text (CsvOther s) = s"

text \<open>Every character of \<open>special\<close> behind the escape character.\<close>

fun escape_all :: "rchar option \<Rightarrow> (rchar \<Rightarrow> bool) \<Rightarrow> rstring \<Rightarrow> rstring cres" where
  "escape_all esc special [] = Inr []"
| "escape_all esc special (ch # s) =
     (if special ch then
        (case esc of
           None \<Rightarrow> csv_error ''need to escape, but no escapechar set''
         | Some e \<Rightarrow> bindr (escape_all esc special s) (\<lambda>r. Inr (e # ch # r)))
      else bindr (escape_all esc special s) (\<lambda>r. Inr (ch # r)))"

text \<open>The text between quotes.\<close>

fun quoted_body :: "CsvDialect \<Rightarrow> rchar \<Rightarrow> rstring \<Rightarrow> rstring cres" where
  "quoted_body d quote [] = Inr []"
| "quoted_body d quote (ch # s) =
     (if ch = quote then
        if cd_doublequote d then bindr (quoted_body d quote s) (\<lambda>r. Inr (quote # quote # r))
        else (case cd_escapechar d of
                Some e \<Rightarrow> bindr (quoted_body d quote s) (\<lambda>r. Inr (e # quote # r))
              | None \<Rightarrow> csv_error ''need to escape quotechar'')
      else if cd_escapechar d = Some ch then bindr (quoted_body d quote s) (\<lambda>r. Inr (ch # ch # r))
      else bindr (quoted_body d quote s) (\<lambda>r. Inr (ch # r)))"

definition quote_csv_field :: "CsvDialect \<Rightarrow> rstring \<Rightarrow> bool \<Rightarrow> rstring cres" where
  "quote_csv_field d field force_quote =
     (let contains_quote = one_of (cd_quotechar d) (set field);
          needs_quote = cd_delimiter d \<in> set field \<or> 10 \<in> set field \<or> 13 \<in> set field \<or>
            (contains_quote \<and> (cd_doublequote d \<or> cd_escapechar d = None))
      in if cd_quoting d = 3 then
           escape_all (cd_escapechar d)
             (\<lambda>ch. ch = cd_delimiter d \<or> ch = 10 \<or> ch = 13 \<or> cd_quotechar d = Some ch \<or> cd_escapechar d = Some ch) field
         else if \<not> force_quote \<and> \<not> needs_quote then
           (if cd_escapechar d \<noteq> None then
              escape_all (cd_escapechar d) (\<lambda>ch. cd_quotechar d = Some ch \<and> \<not> cd_doublequote d \<or> cd_escapechar d = Some ch) field
            else if contains_quote \<and> \<not> cd_doublequote d then csv_error ''need to escape quotechar''
            else Inr field)
         else case cd_quotechar d of
             None \<Rightarrow> escape_all (cd_escapechar d) (\<lambda>ch. ch = cd_delimiter d \<or> ch = 10 \<or> ch = 13) field
           | Some quote \<Rightarrow> bindr (quoted_body d quote field) (\<lambda>body. Inr (quote # body @ [quote])))"

text \<open>A field: its text, whether it is quoted or escaped, whether it is None.\<close>

type_synonym CsvField = "rstring \<times> bool \<times> bool"

definition csv_force_quote :: "CsvDialect \<Rightarrow> CsvValue \<Rightarrow> bool" where
  "csv_force_quote d v =
     (if cd_quoting d = 1 then True
      else if cd_quoting d = 2 then \<not> (case v of CsvNumber _ \<Rightarrow> True | _ \<Rightarrow> False)
      else if cd_quoting d = 4 then (case v of CsvStr _ \<Rightarrow> True | _ \<Rightarrow> False)
      else if cd_quoting d = 5 then v \<noteq> CsvNone
      else False)"

definition csv_writer_field_from_value :: "CsvDialect \<Rightarrow> CsvValue \<Rightarrow> CsvField cres" where
  "csv_writer_field_from_value d v =
     (let txt = coerce_csv_writer_field_text v; force_quote = csv_force_quote d v
      in bindr (quote_csv_field d txt force_quote) (\<lambda>rendered.
         Inr (rendered, force_quote \<or> rendered \<noteq> txt, v = CsvNone)))"

fun csv_fields :: "CsvDialect \<Rightarrow> CsvValue list \<Rightarrow> CsvField list cres" where
  "csv_fields d [] = Inr []"
| "csv_fields d (v # vs) = bindr (csv_writer_field_from_value d v) (\<lambda>f. bindr (csv_fields d vs) (\<lambda>fs. Inr (f # fs)))"

text \<open>A record of a single empty field is quoted, an empty line would be no record.\<close>

definition csv_single_empty :: "CsvDialect \<Rightarrow> CsvField list \<Rightarrow> CsvField list cres" where
  "csv_single_empty d fs =
     (case fs of
        [(txt, quoted, none)] \<Rightarrow>
          if txt = [] \<and> \<not> quoted then
            (if cd_quoting d = 3 \<or> cd_quoting d = 4 \<or> cd_quoting d = 5 then csv_error ''single empty field record must be quoted''
             else case cd_quotechar d of None \<Rightarrow> Inr fs | Some quote \<Rightarrow> Inr [([quote, quote], True, none)])
          else Inr fs
      | _ \<Rightarrow> Inr fs)"

fun csv_space_fields :: "CsvDialect \<Rightarrow> CsvField list \<Rightarrow> CsvField list cres" where
  "csv_space_fields d [] = Inr []"
| "csv_space_fields d ((txt, quoted, none) # rest) =
     bindr (if txt = [] \<and> \<not> quoted then
              (let msg = ''empty field must be quoted if delimiter is space and skipinitialspace is true''
               in if cd_quoting d = 3 \<or> none \<and> (cd_quoting d = 4 \<or> cd_quoting d = 5) then csv_error msg
                  else case cd_quotechar d of None \<Rightarrow> csv_error msg | Some quote \<Rightarrow> Inr ([quote, quote], True, none))
            else Inr (txt, quoted, none)) (\<lambda>f.
     bindr (csv_space_fields d rest) (\<lambda>fs. Inr (f # fs)))"

fun csv_join :: "rchar \<Rightarrow> rstring list \<Rightarrow> rstring" where
  "csv_join c [] = []"
| "csv_join c [f] = f"
| "csv_join c (f # g # fs) = f @ c # csv_join c (g # fs)"

text \<open>The row without its line terminator, and the line handed to \<open>write\<close>.\<close>

definition csv_row_text :: "CsvDialect \<Rightarrow> CsvValue list \<Rightarrow> rstring cres" where
  "csv_row_text d row =
     bindr (csv_fields d row) (\<lambda>fs.
     bindr (csv_single_empty d fs) (\<lambda>fs.
     bindr (if cd_delimiter d = 32 \<and> cd_skipinitialspace d then csv_space_fields d fs else Inr fs) (\<lambda>fs.
     Inr (csv_join (cd_delimiter d) (map fst fs)))))"

definition csv_writerow :: "CsvDialect \<Rightarrow> CsvValue list \<Rightarrow> rstring cres" where
  "csv_writerow d row = bindr (csv_row_text d row) (\<lambda>txt. Inr (txt @ cd_lineterminator d))"

text \<open>All rows of a list; what was written before an error stays written.\<close>

fun csv_writerows :: "CsvDialect \<Rightarrow> rstring \<Rightarrow> CsvValue list list \<Rightarrow> unit cres \<times> rstring" where
  "csv_writerows d out [] = (Inr (), out)"
| "csv_writerows d out (row # rows) =
     (case csv_writerow d row of Inl e \<Rightarrow> (Inl e, out) | Inr line \<Rightarrow> csv_writerows d (out @ line) rows)"

section \<open>Reading\<close>

datatype CsvParsedField = CsvParsedField (pf_value: rstring) (pf_quoted: bool)

definition active_quotechar :: "CsvDialect \<Rightarrow> rchar option" where
  "active_quotechar d = (if cd_quoting d = 3 then None else cd_quotechar d)"

record CsvRowState =
  rs_fields :: "CsvParsedField list"
  rs_current :: rstring
  rs_field_quoted :: bool
  rs_in_quotes :: bool
  rs_just_closed :: bool

definition row_state_new :: CsvRowState where
  "row_state_new = \<lparr>rs_fields = [], rs_current = [], rs_field_quoted = False, rs_in_quotes = False, rs_just_closed = False\<rparr>"

definition next_field :: "CsvDialect \<Rightarrow> CsvRowState \<Rightarrow> rstring \<Rightarrow> CsvRowState \<times> rstring" where
  "next_field d st rest =
     (st\<lparr>rs_fields := rs_fields st @ [CsvParsedField (rs_current st) (rs_field_quoted st)], rs_current := [],
         rs_field_quoted := False, rs_just_closed := False\<rparr>,
      if cd_skipinitialspace d then dropWhile (\<lambda>c. c = 32) rest else rest)"

definition quote_step :: "CsvDialect \<Rightarrow> CsvRowState \<Rightarrow> rchar \<Rightarrow> rstring \<Rightarrow> (CsvRowState \<times> rstring) cres" where
  "quote_step d st quote rest =
     (if rs_in_quotes st then
        (if cd_doublequote d \<and> rest \<noteq> [] \<and> hd rest = quote then Inr (st\<lparr>rs_current := rs_current st @ [quote]\<rparr>, tl rest)
         else Inr (st\<lparr>rs_in_quotes := False, rs_just_closed := True\<rparr>, rest))
      else if rs_current st = [] then Inr (st\<lparr>rs_field_quoted := True, rs_in_quotes := True, rs_just_closed := False\<rparr>, rest)
      else if cd_strict d then csv_error ([CHR 0x27, CHR '','', CHR 0x27] @ '' expected after '' @ [CHR 0x27, dq, CHR 0x27])
      else Inr (st\<lparr>rs_current := rs_current st @ [quote], rs_just_closed := False\<rparr>, rest))"

definition escape_step :: "CsvDialect \<Rightarrow> CsvRowState \<Rightarrow> rchar \<Rightarrow> rstring \<Rightarrow> (CsvRowState \<times> rstring) cres" where
  "escape_step d st escape rest =
     (case rest of
        c # rest \<Rightarrow> Inr (st\<lparr>rs_current := rs_current st @ [c]\<rparr>, rest)
      | [] \<Rightarrow>
          if cd_strict d then csv_error ''unexpected end of data''
          else if rs_in_quotes st \<or> rs_current st = [] then Inr (st\<lparr>rs_current := rs_current st @ [10]\<rparr>, [])
          else Inr (st\<lparr>rs_current := rs_current st @ [escape]\<rparr>, []))"

definition field_step :: "CsvDialect \<Rightarrow> CsvRowState \<Rightarrow> rchar \<Rightarrow> rstring \<Rightarrow> (CsvRowState \<times> rstring) cres" where
  "field_step d st ch rest =
     (if active_quotechar d = Some ch then quote_step d st ch rest
      else if cd_escapechar d = Some ch then escape_step d st ch rest
      else if cd_skipinitialspace d \<and> \<not> rs_in_quotes st \<and> rs_current st = [] \<and> ch = 32 then Inr (st, rest)
      else if (ch = 10 \<or> ch = 13) \<and> \<not> rs_in_quotes st then
        csv_error (''new-line character seen in unquoted field - do you need to open the file with newline='' @ [CHR 0x27, CHR 0x27, CHR ''?''])
      else if ch = cd_delimiter d \<and> \<not> rs_in_quotes st then Inr (next_field d st rest)
      else (let st = st\<lparr>rs_current := rs_current st @ [ch], rs_just_closed := False\<rparr>
            in case cd_field_limit d of
                 Some limit \<Rightarrow> if limit < length (rs_current st) then csv_error ''field larger than field limit'' else Inr (st, rest)
               | None \<Rightarrow> Inr (st, rest)))"

definition row_step :: "CsvDialect \<Rightarrow> CsvRowState \<Rightarrow> rchar \<Rightarrow> rstring \<Rightarrow> (CsvRowState \<times> rstring) cres" where
  "row_step d st ch rest =
     (if \<not> rs_in_quotes st \<and> rs_just_closed st then
        (if ch = cd_delimiter d then Inr (next_field d st rest)
         else if cd_strict d then csv_error ([CHR 0x27, CHR '','', CHR 0x27] @ '' expected after '' @ [CHR 0x27, dq, CHR 0x27])
         else field_step d (st\<lparr>rs_just_closed := False\<rparr>) ch rest)
      else field_step d st ch rest)"

lemma row_step_shorter: "row_step d st ch rest = Inr (st', rest') \<Longrightarrow> length rest' \<le> length rest"
  by (auto simp: row_step_def field_step_def quote_step_def escape_step_def next_field_def csv_error_def Let_def length_dropWhile_le
      split: if_splits option.splits list.splits)

function row_loop :: "CsvDialect \<Rightarrow> CsvRowState \<Rightarrow> rstring \<Rightarrow> CsvRowState cres" where
  "row_loop d st [] = Inr st"
| "row_loop d st (ch # rest) = bindr (row_step d st ch rest) (\<lambda>(st, rest). row_loop d st rest)"
  by pat_completeness auto
termination row_loop
  by (relation "measure (\<lambda>(d, st, s). length s)") (auto dest: row_step_shorter)

definition parse_csv_row_simple :: "CsvDialect \<Rightarrow> rstring \<Rightarrow> CsvParsedField list cres" where
  "parse_csv_row_simple d row =
     (if row = [] then Inr []
      else bindr (row_loop d row_state_new row) (\<lambda>st.
        if rs_in_quotes st \<and> cd_strict d then csv_error ''unexpected end of data''
        else Inr (rs_fields st @ [CsvParsedField (rs_current st) (rs_field_quoted st)])))"

text \<open>Whether a record goes on in the next line: inside quotes, or behind an escape character.\<close>

record CsvRecordState =
  in_quotes :: bool
  trailing_escape :: bool

fun record_loop :: "CsvDialect \<Rightarrow> bool \<Rightarrow> bool \<Rightarrow> rstring \<Rightarrow> CsvRecordState" where
  "record_loop d inq start [] = \<lparr>in_quotes = inq, trailing_escape = False\<rparr>"
| "record_loop d inq start (ch # rest) =
     (if cd_escapechar d = Some ch then
        (case rest of [] \<Rightarrow> \<lparr>in_quotes = inq, trailing_escape = True\<rparr> | _ # rest \<Rightarrow> record_loop d inq False rest)
      else if cd_skipinitialspace d \<and> \<not> inq \<and> start \<and> ch = 32 then record_loop d inq start rest
      else if active_quotechar d = Some ch then
        (if inq then
           (if cd_doublequote d then
              (case rest of
                 c # rest' \<Rightarrow> if c = ch then record_loop d inq False rest' else record_loop d False start rest
               | [] \<Rightarrow> record_loop d False start rest)
            else record_loop d False start rest)
         else if start then record_loop d True False rest
         else record_loop d inq False rest)
      else if ch = cd_delimiter d \<and> \<not> inq then record_loop d inq True rest
      else record_loop d inq False rest)"

definition csv_record_state :: "CsvDialect \<Rightarrow> rstring \<Rightarrow> CsvRecordState" where
  "csv_record_state d row = (if row = [] then \<lparr>in_quotes = False, trailing_escape = False\<rparr> else record_loop d False True row)"

definition split_csv_line_ending :: "rstring \<Rightarrow> rstring \<times> rstring" where
  "split_csv_line_ending txt =
     (case rev txt of
        c # b # s \<Rightarrow>
          if c = 10 \<and> b = 13 then (rev s, [13, 10])
          else if c = 10 \<or> c = 13 then (rev (b # s), [c]) else (txt, [])
      | [c] \<Rightarrow> if c = 10 \<or> c = 13 then ([], [c]) else (txt, [])
      | [] \<Rightarrow> ([], []))"

datatype CsvCell = CellStr rstring | CellFloat f64 | CellNone

definition trim :: "rstring \<Rightarrow> rstring" where
  "trim s = rev (dropWhile is_whitespace (rev (dropWhile is_whitespace s)))"

definition parse_csv_reader_float :: "rstring \<Rightarrow> f64 cres" where
  "parse_csv_reader_float txt =
     (case parse_f64 (trim txt) of None \<Rightarrow> csv_error ''could not convert string to float'' | Some x \<Rightarrow> Inr x)"

definition csv_reader_value_for_field :: "int \<Rightarrow> CsvParsedField \<Rightarrow> CsvCell cres" where
  "csv_reader_value_for_field quoting f =
     (if quoting = 2 \<and> \<not> pf_quoted f \<and> pf_value f \<noteq> [] then bindr (parse_csv_reader_float (pf_value f)) (\<lambda>x. Inr (CellFloat x))
      else if quoting = 4 \<and> \<not> pf_quoted f \<and> pf_value f = [] then Inr CellNone
      else if quoting = 4 \<and> \<not> pf_quoted f then bindr (parse_csv_reader_float (pf_value f)) (\<lambda>x. Inr (CellFloat x))
      else if quoting = 5 \<and> \<not> pf_quoted f \<and> pf_value f = [] then Inr CellNone
      else Inr (CellStr (pf_value f)))"

fun csv_cells :: "int \<Rightarrow> CsvParsedField list \<Rightarrow> CsvCell list cres" where
  "csv_cells quoting [] = Inr []"
| "csv_cells quoting (f # fs) =
     bindr (csv_reader_value_for_field quoting f) (\<lambda>v. bindr (csv_cells quoting fs) (\<lambda>vs. Inr (v # vs)))"

definition csv_record :: "CsvDialect \<Rightarrow> rstring \<Rightarrow> CsvCell list cres" where
  "csv_record d row = bindr (parse_csv_row_simple d row) (csv_cells (cd_quoting d))"

text \<open>The reader: the lines its iterator still gives, the record begun, the lines read so far.\<close>

record CsvReader =
  cr_lines :: "rstring list"
  cr_pending :: rstring
  cr_line_num :: nat

text \<open>A record that is rejected leaves the attributes of the reader as they were; the lines are read.\<close>

definition finish_record :: "CsvDialect \<Rightarrow> CsvReader \<Rightarrow> rstring list \<Rightarrow> rstring \<Rightarrow> nat \<Rightarrow> CsvCell list cres \<times> CsvReader" where
  "finish_record d rd lines pending n =
     (case csv_record d pending of
        Inl e \<Rightarrow> (Inl e, rd\<lparr>cr_lines := lines\<rparr>)
      | Inr cells \<Rightarrow> (Inr cells, rd\<lparr>cr_lines := lines, cr_pending := [], cr_line_num := n\<rparr>))"

text \<open>What follows the body of a line: nothing (the record is complete) or the next line.\<close>

definition continue_record :: "CsvDialect \<Rightarrow> rstring \<Rightarrow> rstring \<Rightarrow> rstring \<times> bool" where
  "continue_record d pending line_ending =
     (let st = csv_record_state d pending
      in if trailing_escape st then
           (if line_ending = [13, 10] then
              (if in_quotes st then (pending @ [13, 10], True) else (pending @ [13], False))
            else (pending @ line_ending, True))
         else if in_quotes st then (pending @ line_ending, True)
         else (pending, False))"

fun reader_loop :: "CsvDialect \<Rightarrow> CsvReader \<Rightarrow> rstring \<Rightarrow> nat \<Rightarrow> rstring list \<Rightarrow> CsvCell list cres \<times> CsvReader" where
  "reader_loop d rd pending n [] =
     (if pending = [] then (Inl CsvStopIteration, rd\<lparr>cr_lines := [], cr_pending := [], cr_line_num := n\<rparr>)
      else finish_record d rd [] pending n)"
| "reader_loop d rd pending n (txt # lines) =
     (let (line_body, line_ending) = split_csv_line_ending txt;
          (pending, goes_on) = continue_record d (pending @ line_body) line_ending
      in if goes_on then reader_loop d rd pending (n + 1) lines else finish_record d rd lines pending (n + 1))"

definition csv_reader_next :: "CsvDialect \<Rightarrow> CsvReader \<Rightarrow> CsvCell list cres \<times> CsvReader" where
  "csv_reader_next d rd = reader_loop d rd (cr_pending rd) (cr_line_num rd) (cr_lines rd)"

end
