(* ===== verification/Csv_Spec.thy ===== *)
theory Csv_Spec
  imports Csv
begin

text \<open>
  What the CSV writer and reader promise of each other: the parser of a record gives back the row that was
  written, and the reader puts a written record together again from the lines a file breaks it into.
\<close>

section \<open>Dialects that pass the check\<close>

lemma consistent:
  assumes "validate_csv_parameter_consistency d = Inr ()"
  shows "0 \<le> cd_quoting d" "cd_quoting d \<le> 5" "cd_quotechar d = None \<Longrightarrow> cd_quoting d = 3"
    and "cd_delimiter d \<noteq> 10" "cd_delimiter d \<noteq> 13" "cd_quotechar d \<noteq> Some 10" "cd_quotechar d \<noteq> Some 13"
    and "cd_escapechar d \<noteq> Some 10" "cd_escapechar d \<noteq> Some 13" "cd_skipinitialspace d \<Longrightarrow> cd_quotechar d \<noteq> Some 32"
    and "cd_skipinitialspace d \<Longrightarrow> cd_escapechar d \<noteq> Some 32" "cd_quotechar d \<noteq> Some (cd_delimiter d)"
    and "cd_escapechar d \<noteq> Some (cd_delimiter d)" "cd_quotechar d \<noteq> None \<Longrightarrow> cd_quotechar d \<noteq> cd_escapechar d"
  using assms
  by (auto simp: validate_csv_parameter_consistency_def csv_error_def one_of_def split: if_splits option.splits)

lemma active_quotechar_Some: "active_quotechar d = Some q \<longleftrightarrow> cd_quoting d \<noteq> 3 \<and> cd_quotechar d = Some q"
  by (simp add: active_quotechar_def)

section \<open>The form of a written field\<close>

text \<open>A character that has no meaning in an unquoted field.\<close>

definition plain_char :: "CsvDialect \<Rightarrow> rchar \<Rightarrow> bool" where
  "plain_char d ch \<longleftrightarrow> ch \<noteq> cd_delimiter d \<and> ch \<noteq> 10 \<and> ch \<noteq> 13 \<and> active_quotechar d \<noteq> Some ch \<and> cd_escapechar d \<noteq> Some ch"

definition bare_field :: "CsvDialect \<Rightarrow> rstring \<Rightarrow> rstring \<Rightarrow> bool" where
  "bare_field d s r \<longleftrightarrow>
     (\<exists>special. escape_all (cd_escapechar d) special s = Inr r \<and> (\<forall>ch\<in>set s. special ch \<or> plain_char d ch))"

definition quoted_field :: "CsvDialect \<Rightarrow> rstring \<Rightarrow> rstring \<Rightarrow> bool" where
  "quoted_field d s r \<longleftrightarrow>
     (\<exists>q body. active_quotechar d = Some q \<and> quoted_body d q s = Inr body \<and> r = q # body @ [q])"

definition field_form :: "CsvDialect \<Rightarrow> rstring \<times> rstring \<times> bool \<Rightarrow> bool" where
  "field_form d = (\<lambda>(s, r, q). if q then quoted_field d s r else bare_field d s r)"

lemma escape_all_none [simp]: "escape_all esc (\<lambda>_. False) s = Inr s"
  by (induction s) auto

lemma escape_all_nil [simp]: "escape_all esc special [] = Inr r \<longleftrightarrow> r = []"
  by auto

lemma escape_all_eq_nil: "escape_all esc special s = Inr [] \<Longrightarrow> s = []"
  by (cases s) (auto split: if_splits option.splits simp: csv_error_def)

lemma quote_csv_field_form:
  assumes v: "validate_csv_parameter_consistency d = Inr ()" and r: "quote_csv_field d s force_quote = Inr r"
  obtains "quoted_field d s r" "s = [] \<Longrightarrow> force_quote" | "bare_field d s r" "cd_quoting d = 3 \<or> \<not> force_quote"
proof (cases "cd_quoting d = 3")
  case True
  let ?sp = "\<lambda>ch. ch = cd_delimiter d \<or> ch = 10 \<or> ch = 13 \<or> cd_quotechar d = Some ch \<or> cd_escapechar d = Some ch"
  have "escape_all (cd_escapechar d) ?sp s = Inr r" using r True by (simp add: quote_csv_field_def Let_def)
  then have "bare_field d s r" unfolding bare_field_def plain_char_def using True
    by (intro exI[of _ ?sp]) (auto simp: active_quotechar_def)
  then show ?thesis using that(2) True by blast
next
  case n3: False
  then obtain q where q: "cd_quotechar d = Some q" using consistent(3)[OF v] by auto
  note c = consistent[OF v]
  let ?need = "cd_delimiter d \<in> set s \<or> 10 \<in> set s \<or> 13 \<in> set s \<or> (q \<in> set s \<and> (cd_doublequote d \<or> cd_escapechar d = None))"
  show ?thesis
  proof (cases "\<not> force_quote \<and> \<not> ?need")
    case True
    let ?sp = "\<lambda>ch. cd_quotechar d = Some ch \<and> \<not> cd_doublequote d \<or> cd_escapechar d = Some ch"
    have "bare_field d s r"
    proof (cases "cd_escapechar d")
      case None
      then have "r = s" "q \<notin> set s" using r True n3 q by (auto simp: quote_csv_field_def Let_def one_of_def csv_error_def split: if_splits)
      then show ?thesis using True None q unfolding bare_field_def plain_char_def
        by (intro exI[of _ "\<lambda>_. False"]) (auto simp: active_quotechar_def)
    next
      case (Some e)
      then have "escape_all (cd_escapechar d) ?sp s = Inr r" using r True n3 q by (simp add: quote_csv_field_def Let_def one_of_def)
      then show ?thesis using True Some q unfolding bare_field_def plain_char_def
        by (intro exI[of _ ?sp]) (auto simp: active_quotechar_def)
    qed
    then show ?thesis using that(2) True by blast
  next
    case False
    have "quoted_field d s r" using r False n3 q
      by (auto simp: quote_csv_field_def Let_def one_of_def quoted_field_def active_quotechar_def)
    moreover have "s = [] \<Longrightarrow> force_quote" using False by auto
    ultimately show ?thesis by (rule that(1))
  qed
qed

section \<open>The parser on a written field\<close>

abbreviation row_st :: "CsvParsedField list \<Rightarrow> rstring \<Rightarrow> bool \<Rightarrow> bool \<Rightarrow> bool \<Rightarrow> CsvRowState" where
  "row_st fs cur q inq jc \<equiv> \<lparr>rs_fields = fs, rs_current = cur, rs_field_quoted = q, rs_in_quotes = inq, rs_just_closed = jc\<rparr>"

definition within_limit :: "CsvDialect \<Rightarrow> nat \<Rightarrow> bool" where
  "within_limit d n = (case cd_field_limit d of None \<Rightarrow> True | Some l \<Rightarrow> n \<le> l)"

lemma row_step_plain:
  assumes "plain_char d ch" "cd_skipinitialspace d \<Longrightarrow> cur \<noteq> [] \<or> ch \<noteq> 32" "within_limit d (length cur + 1)"
  shows "row_step d (row_st fs cur q False False) ch rest = Inr (row_st fs (cur @ [ch]) q False False, rest)"
  using assms by (auto simp: row_step_def field_step_def plain_char_def within_limit_def csv_error_def split: option.splits)

lemma row_step_escape:
  assumes "cd_escapechar d = Some e" "active_quotechar d \<noteq> Some e" "\<not> jc"
  shows "row_step d (row_st fs cur q inq jc) e (c # rest) = Inr (row_st fs (cur @ [c]) q inq jc, rest)"
  using assms by (auto simp: row_step_def field_step_def escape_step_def)

lemma within_limit_mono: "within_limit d n \<Longrightarrow> m \<le> n \<Longrightarrow> within_limit d m"
  by (auto simp: within_limit_def split: option.splits)

lemma bare_parse:
  assumes "escape_all (cd_escapechar d) special s = Inr r" "\<forall>ch\<in>set s. special ch \<or> plain_char d ch"
    and "\<And>e. cd_escapechar d = Some e \<Longrightarrow> active_quotechar d \<noteq> Some e"
    and "cd_skipinitialspace d \<Longrightarrow> cur \<noteq> [] \<or> s = [] \<or> hd s \<noteq> 32" "within_limit d (length cur + length s)"
  shows "row_loop d (row_st fs cur q False False) (r @ rest) = row_loop d (row_st fs (cur @ s) q False False) rest"
  using assms
proof (induction s arbitrary: r cur)
  case (Cons ch s)
  have lim: "within_limit d (length cur + 1)" using Cons.prems(5) by (rule within_limit_mono) simp
  have lim': "within_limit d (length (cur @ [ch]) + length s)" using Cons.prems(5) by simp
  show ?case
  proof (cases "special ch")
    case True
    then obtain e r' where e: "cd_escapechar d = Some e" and r': "escape_all (cd_escapechar d) special s = Inr r'" and r: "r = e # ch # r'"
      using Cons.prems(1) by (auto simp: csv_error_def split: option.splits)
    have "row_loop d (row_st fs cur q False False) (r @ rest) = row_loop d (row_st fs (cur @ [ch]) q False False) (r' @ rest)"
      using e Cons.prems(3)[OF e] by (simp add: r row_step_escape)
    also have "\<dots> = row_loop d (row_st fs ((cur @ [ch]) @ s) q False False) rest"
      using Cons.prems(2) lim' by (intro Cons.IH[OF r'] Cons.prems(3)) auto
    finally show ?thesis by simp
  next
    case False
    then obtain r' where r': "escape_all (cd_escapechar d) special s = Inr r'" and r: "r = ch # r'"
      using Cons.prems(1) by auto
    have "plain_char d ch" using False Cons.prems(2) by auto
    then have "row_loop d (row_st fs cur q False False) (r @ rest) = row_loop d (row_st fs (cur @ [ch]) q False False) (r' @ rest)"
      using Cons.prems(4) lim by (simp add: r row_step_plain)
    also have "\<dots> = row_loop d (row_st fs ((cur @ [ch]) @ s) q False False) rest"
      using Cons.prems(2) lim' by (intro Cons.IH[OF r'] Cons.prems(3)) auto
    finally show ?thesis by simp
  qed
qed simp

lemma row_step_quoted:
  assumes "active_quotechar d = Some q" "ch \<noteq> q" "cd_escapechar d \<noteq> Some ch" "within_limit d (length cur + 1)"
  shows "row_step d (row_st fs cur True True False) ch rest = Inr (row_st fs (cur @ [ch]) True True False, rest)"
  using assms by (auto simp: row_step_def field_step_def within_limit_def split: option.splits)

lemma row_step_open:
  assumes "active_quotechar d = Some q"
  shows "row_step d (row_st fs [] False False False) q rest = Inr (row_st fs [] True True False, rest)"
  using assms by (auto simp: row_step_def field_step_def quote_step_def)

lemma row_step_double:
  assumes "active_quotechar d = Some q" "cd_doublequote d"
  shows "row_step d (row_st fs cur True True False) q (q # rest) = Inr (row_st fs (cur @ [q]) True True False, rest)"
  using assms by (auto simp: row_step_def field_step_def quote_step_def)

lemma row_step_close:
  assumes "active_quotechar d = Some q" "rest = [] \<or> hd rest \<noteq> q"
  shows "row_step d (row_st fs cur True True False) q rest = Inr (row_st fs cur True False True, rest)"
  using assms by (auto simp: row_step_def field_step_def quote_step_def)

lemma quoted_body_Cons:
  assumes "quoted_body d q (ch # s) = Inr body"
  obtains r where "quoted_body d q s = Inr r" "ch = q" "cd_doublequote d" "body = q # q # r"
  | r where "quoted_body d q s = Inr r" "cd_escapechar d \<noteq> None" "body = the (cd_escapechar d) # ch # r"
  | r where "quoted_body d q s = Inr r" "ch \<noteq> q" "cd_escapechar d \<noteq> Some ch" "body = ch # r"
  using assms by (auto simp: csv_error_def split: if_splits option.splits)

lemma quoted_parse:
  assumes "quoted_body d q s = Inr body" "active_quotechar d = Some q" "cd_escapechar d \<noteq> Some q"
    and "rest = [] \<or> hd rest \<noteq> q" "within_limit d (length cur + length s)"
  shows "row_loop d (row_st fs cur True True False) (body @ q # rest) = row_loop d (row_st fs (cur @ s) True False True) rest"
  using assms
proof (induction s arbitrary: body cur)
  case Nil
  then show ?case by (simp add: row_step_close)
next
  case (Cons ch s)
  have lim: "within_limit d (length cur + 1)" using Cons.prems(5) by (rule within_limit_mono) simp
  have lim': "within_limit d (length (cur @ [ch]) + length s)" using Cons.prems(5) by simp
  have step: "row_loop d (row_st fs cur True True False) (body @ q # rest) = row_loop d (row_st fs (cur @ [ch]) True True False) (r @ q # rest)
      \<and> quoted_body d q s = Inr r"
    if "quoted_body d q s = Inr r" "ch = q \<and> cd_doublequote d \<and> body = q # q # r \<or>
        cd_escapechar d \<noteq> None \<and> body = the (cd_escapechar d) # ch # r \<or> ch \<noteq> q \<and> cd_escapechar d \<noteq> Some ch \<and> body = ch # r" for r
    using that Cons.prems(2,3) lim by (auto simp: row_step_double row_step_escape row_step_quoted)
  obtain r where r: "row_loop d (row_st fs cur True True False) (body @ q # rest) = row_loop d (row_st fs (cur @ [ch]) True True False) (r @ q # rest)"
      "quoted_body d q s = Inr r"
    using Cons.prems(1) step by (elim quoted_body_Cons) blast+
  show ?case using r(1) Cons.IH[OF r(2) Cons.prems(2-4) lim'] by simp
qed

section \<open>The parser on a written row\<close>

abbreviation (input) fld_text :: "rstring \<times> rstring \<times> bool \<Rightarrow> rstring" where "fld_text f \<equiv> fst f"
abbreviation (input) fld_out :: "rstring \<times> rstring \<times> bool \<Rightarrow> rstring" where "fld_out f \<equiv> fst (snd f)"
abbreviation (input) fld_quoted :: "rstring \<times> rstring \<times> bool \<Rightarrow> bool" where "fld_quoted f \<equiv> snd (snd f)"

text \<open>What the parser needs of the fields of a row, besides their forms.\<close>

definition field_ok :: "CsvDialect \<Rightarrow> rstring \<times> rstring \<times> bool \<Rightarrow> bool" where
  "field_ok d f \<longleftrightarrow> field_form d f \<and> within_limit d (length (fld_text f)) \<and>
     (cd_skipinitialspace d \<longrightarrow> fld_text f = [] \<or> hd (fld_text f) \<noteq> 32) \<and>
     (cd_skipinitialspace d \<and> cd_delimiter d = 32 \<longrightarrow> fld_out f \<noteq> [])"

lemma active_consistent:
  assumes "validate_csv_parameter_consistency d = Inr ()" "active_quotechar d = Some q"
  shows "cd_escapechar d \<noteq> Some q" "q \<noteq> cd_delimiter d" "q \<noteq> 10" "q \<noteq> 13" "cd_skipinitialspace d \<Longrightarrow> q \<noteq> 32"
  using consistent[OF assms(1)] assms(2) by (auto simp: active_quotechar_Some)

lemma field_parse:
  assumes v: "validate_csv_parameter_consistency d = Inr ()" and ok: "field_ok d (s, r, q)"
    and rest: "rest = [] \<or> hd rest = cd_delimiter d"
  shows "row_loop d (row_st fs [] False False False) (r @ rest) = row_loop d (row_st fs s q False q) rest"
proof (cases q)
  case True
  then obtain qc body where qc: "active_quotechar d = Some qc" and body: "quoted_body d qc s = Inr body" and r: "r = qc # body @ [qc]"
    using ok by (auto simp: field_ok_def field_form_def quoted_field_def)
  have "rest = [] \<or> hd rest \<noteq> qc" using rest active_consistent[OF v qc] by auto
  from quoted_parse[OF body qc _ this, of "[]" fs] show ?thesis
    using True ok active_consistent[OF v qc] by (simp add: r row_step_open[OF qc] field_ok_def)
next
  case False
  then have "bare_field d s r" using ok by (auto simp: field_ok_def field_form_def)
  then show ?thesis using ok False active_consistent[OF v] unfolding bare_field_def
    by (auto intro!: bare_parse[of d _ s r "[]", simplified] simp: field_ok_def)
qed

lemma out_no_space:
  assumes v: "validate_csv_parameter_consistency d = Inr ()" and ok: "field_ok d (s, r, q)" and sp: "cd_skipinitialspace d" and r: "r \<noteq> []"
  shows "hd r \<noteq> 32"
proof (cases q)
  case True
  then show ?thesis using ok sp active_consistent[OF v] by (auto simp: field_ok_def field_form_def quoted_field_def)
next
  case False
  then obtain special where "escape_all (cd_escapechar d) special s = Inr r" using ok by (auto simp: field_ok_def field_form_def bare_field_def)
  then show ?thesis using ok sp r consistent(11)[OF v sp]
    by (cases s) (auto simp: field_ok_def csv_error_def split: if_splits option.splits)
qed

lemma join_no_space:
  assumes v: "validate_csv_parameter_consistency d = Inr ()" and ok: "list_all (field_ok d) fl" and sp: "cd_skipinitialspace d"
  shows "dropWhile (\<lambda>c. c = 32) (csv_join (cd_delimiter d) (map fld_out fl)) = csv_join (cd_delimiter d) (map fld_out fl)"
proof -
  have "csv_join (cd_delimiter d) (map fld_out fl) = [] \<or> hd (csv_join (cd_delimiter d) (map fld_out fl)) \<noteq> 32"
  proof (cases "map fld_out fl" rule: list.exhaust[case_names Nil Cons])
    case (Cons r rs)
    then obtain f fl' where fl: "fl = f # fl'" "r = fld_out f" "rs = map fld_out fl'" by (cases fl) auto
    obtain s q where f: "f = (s, r, q)" using fl(2) by (cases f) auto
    have okf: "field_ok d (s, r, q)" using ok fl(1) f by simp
    show ?thesis
    proof (cases "r = []")
      case True
      then have "cd_delimiter d \<noteq> 32" using okf sp by (auto simp: field_ok_def)
      then show ?thesis using True Cons by (cases rs) auto
    next
      case False
      with out_no_space[OF v okf sp] show ?thesis using Cons by (cases rs) (auto simp: hd_append)
    qed
  qed simp
  then show ?thesis by (cases "csv_join (cd_delimiter d) (map fld_out fl)") auto
qed

lemma row_parse:
  assumes v: "validate_csv_parameter_consistency d = Inr ()" and ok: "list_all (field_ok d) fl" and ne: "fl \<noteq> []"
  shows "\<exists>st. row_loop d (row_st fs [] False False False) (csv_join (cd_delimiter d) (map fld_out fl)) = Inr st \<and>
    \<not> rs_in_quotes st \<and> rs_fields st @ [CsvParsedField (rs_current st) (rs_field_quoted st)] =
      fs @ map (\<lambda>f. CsvParsedField (fld_text f) (fld_quoted f)) fl"
  using ok ne
proof (induction fl arbitrary: fs)
  case (Cons f fl)
  obtain s r q where f: "f = (s, r, q)" by (cases f)
  have okf: "field_ok d (s, r, q)" using Cons.prems(1) f by simp
  show ?case
  proof (cases fl)
    case Nil
    then show ?thesis using field_parse[OF v okf, of "[]" fs] f by simp
  next
    case (Cons g fl')
    let ?rest = "csv_join (cd_delimiter d) (map fld_out fl)"
    have nf: "next_field d (row_st fs s q False jc) ?rest = (row_st (fs @ [CsvParsedField s q]) [] False False False, ?rest)" for jc
      using join_no_space[OF v, of fl] Cons.prems(1) by (auto simp: next_field_def)
    have "row_step d (row_st fs s q False q) (cd_delimiter d) ?rest = Inr (row_st (fs @ [CsvParsedField s q]) [] False False False, ?rest)"
    proof (cases q)
      case False
      have "\<not> (cd_skipinitialspace d \<and> s = [] \<and> cd_delimiter d = 32)"
        using okf False by (auto simp: field_ok_def field_form_def bare_field_def)
      then show ?thesis using False nf consistent[OF v]
        by (auto simp: row_step_def field_step_def active_quotechar_def)
    qed (use nf in \<open>simp add: row_step_def\<close>)
    then have "row_loop d (row_st fs [] False False False) (csv_join (cd_delimiter d) (map fld_out (f # fl))) =
        row_loop d (row_st (fs @ [CsvParsedField s q]) [] False False False) ?rest"
      using field_parse[OF v okf, of "cd_delimiter d # ?rest" fs] f Cons by simp
    then show ?thesis using Cons.IH[of "fs @ [CsvParsedField s q]"] Cons.prems(1) Cons f by simp
  qed
qed simp

section \<open>The writer gives such rows\<close>

text \<open>A value and the field it is written as; \<open>q\<close> says whether the text has its quotes.\<close>

definition written_as :: "CsvDialect \<Rightarrow> CsvValue \<Rightarrow> CsvField \<Rightarrow> bool \<Rightarrow> bool" where
  "written_as d v = (\<lambda>(r, quoted, none) q.
     field_form d (coerce_csv_writer_field_text v, r, q) \<and> (csv_force_quote d v \<longrightarrow> q) \<and>
     (v = CsvNone \<and> (cd_quoting d = 4 \<or> cd_quoting d = 5) \<longrightarrow> \<not> q) \<and> none = (v = CsvNone) \<and> (r = [] \<longrightarrow> \<not> quoted))"

definition written :: "CsvDialect \<Rightarrow> CsvValue \<Rightarrow> CsvField \<Rightarrow> bool" where
  "written d v f \<longleftrightarrow> (\<exists>q. written_as d v f q)"

lemma bare_nil: "bare_field d s [] \<Longrightarrow> s = []"
  by (auto simp: bare_field_def dest: escape_all_eq_nil)

lemma quoted_not_nil: "\<not> quoted_field d s []"
  by (simp add: quoted_field_def)

lemma field_written:
  assumes v: "validate_csv_parameter_consistency d = Inr ()" and f: "csv_writer_field_from_value d v = Inr f"
  shows "written d v f"
proof -
  let ?s = "coerce_csv_writer_field_text v" and ?force = "csv_force_quote d v"
  obtain r where r: "quote_csv_field d ?s ?force = Inr r" and fe: "f = (r, ?force \<or> r \<noteq> ?s, v = CsvNone)"
    using f by (auto simp: csv_writer_field_from_value_def Let_def)
  have f3: "cd_quoting d = 3 \<Longrightarrow> \<not> ?force" by (simp add: csv_force_quote_def)
  from v r show ?thesis
  proof (cases rule: quote_csv_field_form)
    case 1
    then have "written_as d v f True"
      by (auto simp: written_as_def fe field_form_def quoted_not_nil csv_force_quote_def)
    then show ?thesis by (auto simp: written_def)
  next
    case 2
    then have "written_as d v f False"
      using f3 by (auto simp: written_as_def fe field_form_def dest: bare_nil)
    then show ?thesis by (auto simp: written_def)
  qed
qed

lemma fields_written:
  assumes v: "validate_csv_parameter_consistency d = Inr ()" and f: "csv_fields d row = Inr fs"
  shows "list_all2 (written d) row fs"
  using f by (induction row arbitrary: fs) (auto intro: field_written[OF v])

lemma written_empty:
  assumes w: "written d v ([], quoted, none)" and q: "cd_quotechar d = Some q" "cd_quoting d \<noteq> 3"
    and n: "\<not> (none \<and> (cd_quoting d = 4 \<or> cd_quoting d = 5))"
  shows "written d v ([q, q], True, none)"
proof -
  have "coerce_csv_writer_field_text v = []" "none = (v = CsvNone)"
    using w by (auto simp: written_def written_as_def field_form_def quoted_not_nil dest: bare_nil split: if_splits)
  then have "written_as d v ([q, q], True, none) True"
    using q n by (auto simp: written_as_def field_form_def quoted_field_def active_quotechar_def)
  then show ?thesis by (auto simp: written_def)
qed

lemma single_written:
  assumes v: "validate_csv_parameter_consistency d = Inr ()" and w: "list_all2 (written d) row fs" and f: "csv_single_empty d fs = Inr fs'"
  shows "list_all2 (written d) row fs'" "fs' = [f] \<Longrightarrow> fst f \<noteq> []"
proof -
  consider "fs' = fs" "\<And>f. fs = [f] \<Longrightarrow> fst f \<noteq> [] \<or> fst (snd f)"
    | none q where "fs = [([], False, none)]" "fs' = [([q, q], True, none)]" "cd_quotechar d = Some q"
        "cd_quoting d \<noteq> 3" "cd_quoting d \<noteq> 4" "cd_quoting d \<noteq> 5"
    using f consistent(3)[OF v] by (auto simp: csv_single_empty_def csv_error_def split: list.splits prod.splits if_splits option.splits)
  then have "list_all2 (written d) row fs' \<and> (fs' = [f] \<longrightarrow> fst f \<noteq> [])"
  proof cases
    case 1
    have "fst f \<noteq> []" if e: "fs' = [f]"
    proof
      assume "fst f = []"
      moreover from this have "fst (snd f)" using 1 e by auto
      ultimately obtain none where f': "f = ([], True, none)" by (cases f) auto
      from w obtain x where "written d x f" using 1 e by (auto simp: list_all2_Cons2)
      then show False by (auto simp: f' written_def written_as_def)
    qed
    then show ?thesis using 1 w by simp
  next
    case 2
    then show ?thesis using w by (auto simp: list_all2_Cons2 intro: written_empty)
  qed
  then show "list_all2 (written d) row fs'" "fs' = [f] \<Longrightarrow> fst f \<noteq> []" by auto
qed

lemma space_written:
  assumes w: "list_all2 (written d) row fs" and f: "csv_space_fields d fs = Inr fs'"
  shows "list_all2 (written d) row fs' \<and> (\<forall>f\<in>set fs'. fst f \<noteq> [])"
  using assms
proof (induction row fs arbitrary: fs' rule: list_all2_induct)
  case (Cons v row f fs)
  obtain r quoted none where f: "f = (r, quoted, none)" by (cases f)
  obtain g gs where g: "fs' = g # gs" and gs: "csv_space_fields d fs = Inr gs"
    and cases: "g = f \<and> \<not> (r = [] \<and> \<not> quoted) \<or> (\<exists>q. r = [] \<and> cd_quoting d \<noteq> 3 \<and> \<not> (none \<and> (cd_quoting d = 4 \<or> cd_quoting d = 5)) \<and>
        cd_quotechar d = Some q \<and> g = ([q, q], True, none))"
    using Cons.prems by (auto simp: f Let_def csv_error_def split: if_splits option.splits)
  have "written d v g \<and> fst g \<noteq> []"
    using cases
  proof
    assume a: "g = f \<and> \<not> (r = [] \<and> \<not> quoted)"
    then show ?thesis using Cons.hyps(1) by (auto simp: f written_def written_as_def)
  next
    assume "\<exists>q. r = [] \<and> cd_quoting d \<noteq> 3 \<and> \<not> (none \<and> (cd_quoting d = 4 \<or> cd_quoting d = 5)) \<and>
        cd_quotechar d = Some q \<and> g = ([q, q], True, none)"
    then show ?thesis using Cons.hyps(1) by (auto simp: f intro: written_empty)
  qed
  then show ?case using Cons.IH[OF gs] by (simp add: g)
qed simp

lemma written_forms:
  assumes "list_all2 (written d) row fs"
  shows "\<exists>fl. map fld_out fl = map fst fs \<and>
    list_all2 (\<lambda>v f. fld_text f = coerce_csv_writer_field_text v \<and> field_form d f \<and> (csv_force_quote d v \<longrightarrow> fld_quoted f) \<and>
      (v = CsvNone \<and> (cd_quoting d = 4 \<or> cd_quoting d = 5) \<longrightarrow> \<not> fld_quoted f)) row fl"
  using assms
proof (induction row fs rule: list_all2_induct)
  case (Cons v row f fs)
  then obtain fl q where fl: "map fld_out fl = map fst fs" "list_all2 (\<lambda>v f. fld_text f = coerce_csv_writer_field_text v \<and> field_form d f \<and>
      (csv_force_quote d v \<longrightarrow> fld_quoted f) \<and> (v = CsvNone \<and> (cd_quoting d = 4 \<or> cd_quoting d = 5) \<longrightarrow> \<not> fld_quoted f)) row fl"
    and q: "written_as d v f q" by (auto simp: written_def)
  show ?case
    by (rule exI[of _ "(coerce_csv_writer_field_text v, fst f, q) # fl"]) (use fl q in \<open>auto simp: written_as_def split: prod.splits\<close>)
qed simp

section \<open>Reading a written record\<close>

text \<open>The values a text gives back, and what each comes back as.\<close>

definition comes_back :: "int \<Rightarrow> CsvValue \<Rightarrow> bool" where
  "comes_back quoting v =
     (case v of CsvStr _ \<Rightarrow> True | CsvNone \<Rightarrow> True | CsvNumber _ \<Rightarrow> quoting \<noteq> 2 \<and> quoting \<noteq> 4 | CsvOther _ \<Rightarrow> quoting \<noteq> 4)"

definition cell_of :: "int \<Rightarrow> CsvValue \<Rightarrow> CsvCell" where
  "cell_of quoting v =
     (if v = CsvNone \<and> (quoting = 4 \<or> quoting = 5) then CellNone else CellStr (coerce_csv_writer_field_text v))"

text \<open>A row whose fields the reader accepts: within its limit, and with no leading space it would skip.\<close>

definition readable_row :: "CsvDialect \<Rightarrow> CsvValue list \<Rightarrow> bool" where
  "readable_row d row = list_all (\<lambda>v. comes_back (cd_quoting d) v \<and> within_limit d (length (coerce_csv_writer_field_text v)) \<and>
     (cd_skipinitialspace d \<longrightarrow> coerce_csv_writer_field_text v = [] \<or> hd (coerce_csv_writer_field_text v) \<noteq> 32)) row"

lemma cell_value:
  assumes "comes_back (cd_quoting d) v" "csv_force_quote d v \<longrightarrow> q" "v = CsvNone \<and> (cd_quoting d = 4 \<or> cd_quoting d = 5) \<longrightarrow> \<not> q"
  shows "csv_reader_value_for_field (cd_quoting d) (CsvParsedField (coerce_csv_writer_field_text v) q) = Inr (cell_of (cd_quoting d) v)"
  using assms by (cases v) (auto simp: csv_reader_value_for_field_def cell_of_def comes_back_def csv_force_quote_def)

text \<open>The text of a row and its fields.\<close>

lemma row_text_fields:
  assumes v: "validate_csv_parameter_consistency d = Inr ()" and t: "csv_row_text d row = Inr txt" and r: "readable_row d row"
  obtains fl where "txt = csv_join (cd_delimiter d) (map fld_out fl)" "list_all (field_ok d) fl" "length fl = length row"
    and "\<And>f. fl = [f] \<Longrightarrow> fld_out f \<noteq> []"
    and "csv_cells (cd_quoting d) (map (\<lambda>f. CsvParsedField (fld_text f) (fld_quoted f)) fl) = Inr (map (cell_of (cd_quoting d)) row)"
proof -
  obtain f1 f2 fs where f1: "csv_fields d row = Inr f1" and f2: "csv_single_empty d f1 = Inr f2"
    and fs: "(if cd_delimiter d = 32 \<and> cd_skipinitialspace d then csv_space_fields d f2 else Inr f2) = Inr fs"
    and te: "txt = csv_join (cd_delimiter d) (map fst fs)"
    using t by (auto simp: csv_row_text_def)
  note w2 = single_written[OF v fields_written[OF v f1] f2]
  have w: "list_all2 (written d) row fs \<and> (cd_skipinitialspace d \<and> cd_delimiter d = 32 \<longrightarrow> (\<forall>f\<in>set fs. fst f \<noteq> []))"
    using fs w2(1) space_written by (auto split: if_splits)
  have one: "fst f \<noteq> []" if "fs = [f]" for f
    using fs w2 w that by (auto split: if_splits)
  obtain fl where fl: "map fld_out fl = map fst fs"
    and rel: "list_all2 (\<lambda>v f. fld_text f = coerce_csv_writer_field_text v \<and> field_form d f \<and> (csv_force_quote d v \<longrightarrow> fld_quoted f) \<and>
      (v = CsvNone \<and> (cd_quoting d = 4 \<or> cd_quoting d = 5) \<longrightarrow> \<not> fld_quoted f)) row fl"
    using written_forms w by blast
  have outs: "cd_skipinitialspace d \<and> cd_delimiter d = 32 \<longrightarrow> (\<forall>f\<in>set fl. fld_out f \<noteq> [])"
  proof (intro impI ballI)
    fix f assume "cd_skipinitialspace d \<and> cd_delimiter d = 32" "f \<in> set fl"
    moreover from this have "fld_out f \<in> set (map fst fs)" unfolding fl[symmetric] by simp
    ultimately show "fld_out f \<noteq> []" using w by auto
  qed
  have ok: "list_all (field_ok d) fl \<and>
      csv_cells (cd_quoting d) (map (\<lambda>f. CsvParsedField (fld_text f) (fld_quoted f)) fl) = Inr (map (cell_of (cd_quoting d)) row)"
    using rel r outs
  proof (induction row fl rule: list_all2_induct)
    case (Cons v row f fl)
    have "csv_reader_value_for_field (cd_quoting d) (CsvParsedField (fld_text f) (fld_quoted f)) = Inr (cell_of (cd_quoting d) v)"
      using cell_value[of d v "fld_quoted f"] Cons by (simp add: readable_row_def)
    then show ?case using Cons by (auto simp: readable_row_def field_ok_def)
  qed (simp add: readable_row_def)
  have "fld_out f \<noteq> []" if "fl = [f]" for f
    using fl one that by (cases fs) auto
  then show ?thesis using that[of fl] te fl ok list_all2_lengthD[OF rel] by simp
qed

lemma join_not_nil: "fs \<noteq> [] \<Longrightarrow> (\<And>f. fs = [f] \<Longrightarrow> f \<noteq> []) \<Longrightarrow> csv_join c fs \<noteq> []"
  by (cases "(c, fs)" rule: csv_join.cases) auto

lemma parse_written_row:
  assumes "validate_csv_parameter_consistency d = Inr ()" "readable_row d row" "csv_row_text d row = Inr txt"
  shows "csv_record d txt = Inr (map (cell_of (cd_quoting d)) row)"
proof (cases "row = []")
  case True
  then have "txt = []" using assms(3) by (auto simp: csv_row_text_def csv_single_empty_def split: if_splits)
  then show ?thesis using True by (simp add: csv_record_def parse_csv_row_simple_def)
next
  case False
  obtain fl where fl: "txt = csv_join (cd_delimiter d) (map fld_out fl)" "list_all (field_ok d) fl" "length fl = length row"
      "\<And>f. fl = [f] \<Longrightarrow> fld_out f \<noteq> []"
    and cells: "csv_cells (cd_quoting d) (map (\<lambda>f. CsvParsedField (fld_text f) (fld_quoted f)) fl) = Inr (map (cell_of (cd_quoting d)) row)"
    by (rule row_text_fields[OF assms(1,3,2)]) (rule that)
  have ne: "fl \<noteq> []" using False fl(3) by auto
  then have "txt \<noteq> []" unfolding fl(1) using fl(4) by (intro join_not_nil) (auto simp: map_eq_Cons_conv)
  then show ?thesis
    using row_parse[OF assms(1) fl(2) ne, of "[]"] cells
    by (auto simp: csv_record_def parse_csv_row_simple_def row_state_new_def fl(1))
qed


definition excel :: CsvDialect where
  "excel = \<lparr>cd_delimiter = 44, cd_quotechar = Some 34, cd_escapechar = None, cd_quoting = 0, cd_doublequote = True,
     cd_skipinitialspace = False, cd_strict = True, cd_lineterminator = [13, 10], cd_field_limit = Some 131072\<rparr>"

definition sample_row :: "CsvValue list" where
  "sample_row = [CsvStr [34, 44, 10, 34], CsvNone, CsvNumber [49], CsvStr [13, 97]]"

lemma sample_checks:
  shows "validate_csv_parameter_consistency excel = Inr ()" "readable_row excel sample_row"
    and "csv_row_text excel sample_row = Inr [34, 34, 34, 44, 10, 34, 34, 34, 44, 44, 49, 44, 34, 13, 97, 34]"
proof -
  show "validate_csv_parameter_consistency excel = Inr ()"
    by (simp add: validate_csv_parameter_consistency_def excel_def one_of_def csv_error_def)
  show "readable_row excel sample_row"
    by (simp add: readable_row_def excel_def sample_row_def comes_back_def within_limit_def)
  show "csv_row_text excel sample_row = Inr [34, 34, 34, 44, 10, 34, 34, 34, 44, 44, 49, 44, 34, 13, 97, 34]"
    by (simp add: csv_row_text_def sample_row_def excel_def csv_writer_field_from_value_def quote_csv_field_def Let_def one_of_def
        csv_force_quote_def csv_single_empty_def)
qed


section \<open>Whether a record goes on\<close>

definition line_break :: "rchar \<Rightarrow> bool" where
  "line_break c \<longleftrightarrow> c = 10 \<or> c = 13"

lemma consistent_break:
  assumes "validate_csv_parameter_consistency d = Inr ()" "line_break c"
  shows "cd_escapechar d \<noteq> Some c" "cd_delimiter d \<noteq> c" "active_quotechar d \<noteq> Some c" "c \<noteq> 32"
  using assms consistent[OF assms(1)] by (auto simp: line_break_def active_quotechar_Some)

lemma record_loop_break:
  assumes "cd_escapechar d \<noteq> Some c" "cd_delimiter d \<noteq> c" "active_quotechar d \<noteq> Some c" "c \<noteq> 32"
  shows "record_loop d inq start (p @ [c]) = \<lparr>in_quotes = in_quotes (record_loop d inq start p), trailing_escape = False\<rparr>"
  using assms
proof (induction "length p" arbitrary: inq start p rule: less_induct)
  case less
  note IH = less.hyps[OF _ less.prems]
  show ?case
  proof (cases p)
    case (Cons ch rest)
    have IH1: "record_loop d b b' (rest @ [c]) = \<lparr>in_quotes = in_quotes (record_loop d b b' rest), trailing_escape = False\<rparr>" for b b'
      using IH[of rest] Cons by simp
    show ?thesis
    proof (cases rest)
      case Nil
      then show ?thesis using Cons less.prems by auto
    next
      case (Cons x xs)
      have IH2: "record_loop d b b' (xs @ [c]) = \<lparr>in_quotes = in_quotes (record_loop d b b' xs), trailing_escape = False\<rparr>" for b b'
        using IH[of xs] \<open>p = ch # rest\<close> Cons by simp
      show ?thesis
        unfolding \<open>p = ch # rest\<close> append_Cons record_loop.simps(2)[of d inq start ch]
        using IH1 IH2 by (simp del: record_loop.simps add: Cons)
    qed
  qed (use less.prems in simp)
qed

lemma record_loop_escape:
  assumes "cd_escapechar d = Some e"
  shows "record_loop d inq start (e # c # rest) = record_loop d inq False rest"
  using assms by simp

lemma record_loop_plain:
  assumes "plain_char d ch"
  shows "\<exists>start'. record_loop d False start (ch # rest) = record_loop d False start' rest"
  using assms by (auto simp: plain_char_def)

lemma bare_state:
  assumes "escape_all (cd_escapechar d) special s = Inr r" "\<forall>ch\<in>set s. special ch \<or> plain_char d ch"
  shows "\<exists>start'. record_loop d False start (r @ rest) = record_loop d False start' rest"
  using assms
proof (induction s arbitrary: r start)
  case (Cons ch s)
  show ?case
  proof (cases "special ch")
    case True
    then obtain e r' where e: "cd_escapechar d = Some e" "r = e # ch # r'" and r': "escape_all (cd_escapechar d) special s = Inr r'"
      using Cons.prems(1) by (auto simp: csv_error_def split: option.splits)
    then show ?thesis using Cons.IH[OF r', of False] Cons.prems(2) by simp
  next
    case False
    then obtain r' where r: "r = ch # r'" and r': "escape_all (cd_escapechar d) special s = Inr r'"
      using Cons.prems(1) by auto
    obtain start' where "record_loop d False start (ch # r' @ rest) = record_loop d False start' (r' @ rest)"
      using record_loop_plain False Cons.prems(2) by fastforce
    then show ?thesis using Cons.IH[OF r', of start'] Cons.prems(2) r by auto
  qed
qed auto

lemma bare_prefix:
  assumes "escape_all (cd_escapechar d) special s = Inr (p @ c # t)" "\<forall>ch\<in>set s. special ch \<or> plain_char d ch"
    and "line_break c" "cd_escapechar d \<noteq> Some c"
  shows "trailing_escape (record_loop d False start p)"
  using assms
proof (induction s arbitrary: p start)
  case (Cons ch s)
  show ?case
  proof (cases "special ch")
    case True
    then obtain e r' where e: "cd_escapechar d = Some e" "p @ c # t = e # ch # r'" and r': "escape_all (cd_escapechar d) special s = Inr r'"
      using Cons.prems(1) by (fastforce simp: csv_error_def split: option.splits)
    then consider "p = [e]" | p' where "p = e # ch # p'" "r' = p' @ c # t"
      using Cons.prems(4) by (auto simp: Cons_eq_append_conv append_eq_Cons_conv)
    then show ?thesis
      using Cons.IH[of _ False] Cons.prems r' e by cases auto
  next
    case False
    then obtain r' where e: "p @ c # t = ch # r'" and r': "escape_all (cd_escapechar d) special s = Inr r'"
      using Cons.prems(1) by fastforce
    have pl: "plain_char d ch" using False Cons.prems(2) by auto
    then obtain p' where p: "p = ch # p'" "r' = p' @ c # t"
      using e Cons.prems(3) by (auto simp: Cons_eq_append_conv append_eq_Cons_conv plain_char_def line_break_def)
    obtain start' where "record_loop d False start (ch # p') = record_loop d False start' p'"
      using record_loop_plain[OF pl] by blast
    then show ?thesis using Cons.IH[of p' start'] Cons.prems p r' by simp
  qed
qed simp

lemma quoted_state:
  assumes "quoted_body d q s = Inr body" "active_quotechar d = Some q" "cd_escapechar d \<noteq> Some q" "rest = [] \<or> hd rest \<noteq> q"
  shows "\<exists>start'. record_loop d True start (body @ q # rest) = record_loop d False start' rest"
  using assms
proof (induction s arbitrary: body start)
  case Nil
  then show ?case by (cases rest) (auto split: if_splits)
next
  case (Cons ch s)
  from Cons.prems(1) show ?case
  proof (cases rule: quoted_body_Cons)
    case (1 r)
    then show ?thesis using Cons.IH[of r False] Cons.prems by simp
  next
    case (2 r)
    then show ?thesis using Cons.IH[of r False] Cons.prems by auto
  next
    case (3 r)
    then show ?thesis using Cons.IH[of r False] Cons.prems by auto
  qed
qed

lemma quoted_prefix:
  assumes "quoted_body d q s = Inr (p @ c # t)" "active_quotechar d = Some q" "cd_escapechar d \<noteq> Some q"
    and "cd_escapechar d \<noteq> Some c" "q \<noteq> c"
  shows "in_quotes (record_loop d True start p)"
  using assms
proof (induction s arbitrary: p start)
  case (Cons ch s)
  from Cons.prems(1) show ?case
  proof (cases rule: quoted_body_Cons)
    case (1 r)
    then obtain p' where "p = q # q # p'" "r = p' @ c # t"
      using Cons.prems(5) by (auto simp: Cons_eq_append_conv append_eq_Cons_conv)
    then show ?thesis using Cons.IH[of p' False] Cons.prems 1 by simp
  next
    case (2 r)
    then obtain e where e: "cd_escapechar d = Some e" by auto
    consider "p = [e]" | p' where "p = e # ch # p'" "r = p' @ c # t"
      using Cons.prems(4) 2 e by (auto simp: Cons_eq_append_conv append_eq_Cons_conv)
    then show ?thesis using Cons.IH[of _ False] Cons.prems 2 e by cases auto
  next
    case (3 r)
    then consider "p = []" | p' where "p = ch # p'" "r = p' @ c # t"
      by (auto simp: Cons_eq_append_conv append_eq_Cons_conv)
    then show ?thesis using Cons.IH[of _ False] Cons.prems 3 by cases auto
  qed
qed simp

lemma field_state:
  assumes v: "validate_csv_parameter_consistency d = Inr ()" and ok: "field_ok d (s, r, q)" and rest: "rest = [] \<or> hd rest = cd_delimiter d"
  shows "\<exists>start. record_loop d False True (r @ rest) = record_loop d False start rest"
proof (cases q)
  case True
  then obtain qc body where qc: "active_quotechar d = Some qc" and body: "quoted_body d qc s = Inr body" and r: "r = qc # body @ [qc]"
    using ok by (auto simp: field_ok_def field_form_def quoted_field_def)
  have "rest = [] \<or> hd rest \<noteq> qc" using rest active_consistent[OF v qc] by auto
  from quoted_state[OF body qc _ this] show ?thesis
    using active_consistent[OF v qc] qc by (auto simp: r)
next
  case False
  then show ?thesis using ok bare_state by (fastforce simp: field_ok_def field_form_def bare_field_def)
qed

lemma field_prefix:
  assumes v: "validate_csv_parameter_consistency d = Inr ()" and ok: "field_ok d (s, p @ c # t, q)" and c: "line_break c"
  shows "in_quotes (record_loop d False True p) \<or> trailing_escape (record_loop d False True p)"
proof (cases q)
  case True
  then obtain qc body where qc: "active_quotechar d = Some qc" and body: "quoted_body d qc s = Inr body" and r: "p @ c # t = qc # body @ [qc]"
    using ok by (auto simp: field_ok_def field_form_def quoted_field_def)
  have nq: "qc \<noteq> c" using consistent_break(3)[OF v c] qc by simp
  then obtain p' where p': "p = qc # p'" "p' @ c # t = body @ [qc]"
    using r by (cases p) auto
  then obtain t' where "body = p' @ c # t'"
    using nq by (cases t rule: rev_cases) auto
  then have "in_quotes (record_loop d True False p')"
    using quoted_prefix[of d qc s p' c t'] body qc active_consistent[OF v qc] consistent_break[OF v c] nq by simp
  then show ?thesis using active_consistent[OF v qc] qc by (auto simp: p')
next
  case False
  then show ?thesis using ok c consistent_break(1)[OF v c] bare_prefix by (fastforce simp: field_ok_def field_form_def bare_field_def)
qed

lemma record_loop_delimiter:
  assumes "validate_csv_parameter_consistency d = Inr ()"
  shows "record_loop d False start (cd_delimiter d # rest) = record_loop d False True rest"
  using consistent[OF assms] by (auto simp: active_quotechar_def)

lemma row_state:
  assumes v: "validate_csv_parameter_consistency d = Inr ()" and ok: "list_all (field_ok d) fl"
  shows "record_loop d False True (csv_join (cd_delimiter d) (map fld_out fl)) = \<lparr>in_quotes = False, trailing_escape = False\<rparr>"
  using ok
proof (induction fl)
  case (Cons f fl)
  obtain s r q where f: "f = (s, r, q)" by (cases f)
  have okf: "field_ok d (s, r, q)" using Cons.prems f by simp
  show ?case
  proof (cases fl)
    case Nil
    then show ?thesis using field_state[OF v okf, of "[]"] f by auto
  next
    case (Cons g fl')
    then show ?thesis
      using field_state[OF v okf, of "cd_delimiter d # csv_join (cd_delimiter d) (map fld_out fl)"] Cons.IH \<open>list_all (field_ok d) (f # fl)\<close>
      by (auto simp: f record_loop_delimiter[OF v] simp del: record_loop.simps)
  qed
qed simp

lemma row_prefix:
  assumes v: "validate_csv_parameter_consistency d = Inr ()" and ok: "list_all (field_ok d) fl"
    and e: "csv_join (cd_delimiter d) (map fld_out fl) = p @ c # t" and c: "line_break c"
  shows "in_quotes (record_loop d False True p) \<or> trailing_escape (record_loop d False True p)"
  using ok e
proof (induction fl arbitrary: p)
  case (Cons f fl)
  obtain s r q where f: "f = (s, r, q)" by (cases f)
  have okf: "field_ok d (s, r, q)" using Cons.prems f by simp
  show ?case
  proof (cases fl)
    case Nil
    then show ?thesis using field_prefix[OF v _ c] okf f Cons.prems(2) by simp
  next
    case (Cons g fl')
    let ?rest = "csv_join (cd_delimiter d) (map fld_out fl)"
    have "r @ cd_delimiter d # ?rest = p @ c # t" using Cons.prems(2) Cons f by simp
    then consider p' where "p = r @ cd_delimiter d # p'" "?rest = p' @ c # t" | t' where "r = p @ c # t'"
      using consistent_break(2)[OF v c] by (auto simp: append_eq_append_conv2 Cons_eq_append_conv append_eq_Cons_conv)
    then show ?thesis
    proof cases
      case (1 p')
      then have "record_loop d False True p = record_loop d False True p'"
        using field_state[OF v okf, of "cd_delimiter d # p'"] by (auto simp: record_loop_delimiter[OF v] simp del: record_loop.simps)
      then show ?thesis using Cons.IH[OF _ 1(2)] Cons.prems(1) by simp
    next
      case (2 t')
      then show ?thesis using field_prefix[OF v _ c] okf by simp
    qed
  qed
qed simp

section \<open>The lines of a written record\<close>

abbreviation (input) line_ending :: "rstring \<Rightarrow> bool" where
  "line_ending e \<equiv> e = [10] \<or> e = [13] \<or> e = [13, 10]"

definition file_line :: "rstring \<Rightarrow> bool" where
  "file_line l \<longleftrightarrow> (\<exists>b e. l = b @ e \<and> (\<forall>c\<in>set b. \<not> line_break c) \<and> line_ending e)"

text \<open>The lines end at line breaks, and only the last one reaches into the terminator of the record.\<close>

definition breaks_into :: "rstring \<Rightarrow> rstring \<Rightarrow> rstring list \<Rightarrow> bool" where
  "breaks_into txt term ls \<longleftrightarrow>
     ls \<noteq> [] \<and> list_all file_line ls \<and> concat ls = txt @ term \<and> length (concat (butlast ls)) \<le> length txt"

lemma split_file_line:
  assumes "\<forall>c\<in>set b. \<not> line_break c" "line_ending e"
  shows "split_csv_line_ending (b @ e) = (b, e)"
  using assms by (cases b rule: rev_cases) (auto simp: split_csv_line_ending_def line_break_def)

lemma csv_record_state_loop: "csv_record_state d p = record_loop d False True p"
  by (simp add: csv_record_state_def)

text \<open>What makes a text the text of a record: the reader goes on at every line break inside it, and at its end it does not.\<close>

definition record_text :: "CsvDialect \<Rightarrow> rstring \<Rightarrow> bool" where
  "record_text d row \<longleftrightarrow>
     (\<forall>c b b' p. line_break c \<longrightarrow> record_loop d b b' (p @ [c]) = \<lparr>in_quotes = in_quotes (record_loop d b b' p), trailing_escape = False\<rparr>) \<and>
     record_loop d False True row = \<lparr>in_quotes = False, trailing_escape = False\<rparr> \<and>
     (\<forall>p c t. row = p @ c # t \<longrightarrow> line_break c \<longrightarrow>
       in_quotes (record_loop d False True p) \<or> trailing_escape (record_loop d False True p))"

lemma record_textD:
  assumes "record_text d row"
  shows "line_break c \<Longrightarrow> record_loop d b b' (p @ [c]) = \<lparr>in_quotes = in_quotes (record_loop d b b' p), trailing_escape = False\<rparr>"
    and "record_loop d False True row = \<lparr>in_quotes = False, trailing_escape = False\<rparr>"
    and "row = p @ c # t \<Longrightarrow> line_break c \<Longrightarrow> in_quotes (record_loop d False True p) \<or> trailing_escape (record_loop d False True p)"
  using assms by (auto simp: record_text_def)

lemma goes_on:
  assumes r: "record_text d txt" and t: "txt = p @ e @ t" and e: "line_ending e"
  shows "continue_record d p e = (p @ e, True)"
proof -
  have 1: "in_quotes (record_loop d False True p) \<or> trailing_escape (record_loop d False True p)"
    using e record_textD(3)[OF r, of p "hd e" "tl e @ t"] t by (auto simp: line_break_def)
  have 2: "in_quotes (record_loop d False True p)" if "e = [13, 10]"
    using record_textD(3)[OF r, of "p @ [13]" 10 t] record_textD(1)[OF r, of 13 False True p] t that by (auto simp: line_break_def)
  show ?thesis using 1 2 e by (auto simp: continue_record_def csv_record_state_loop Let_def)
qed

lemma ends:
  assumes r: "record_text d txt" and "pending @ b @ e = txt @ term" "\<forall>c\<in>set b. \<not> line_break c" "line_ending e" "line_ending term" "length pending \<le> length txt"
  shows "continue_record d (pending @ b) e = (txt, False)"
proof -
  note assms = assms(2-)
  consider "pending @ b = txt" | "txt = (pending @ b) @ [13]" "e = [13, 10]" | "pending @ b = txt @ [13]"
    using assms(1,3,4) by (auto simp flip: append_assoc)
  then show ?thesis
  proof cases
    case 1
    then show ?thesis using record_textD(2)[OF r] by (simp add: continue_record_def csv_record_state_loop Let_def)
  next
    case 2
    let ?st = "record_loop d False True (pending @ b)"
    have "\<not> in_quotes ?st" using record_textD(2)[OF r] record_textD(1)[OF r, of 13 False True "pending @ b"] 2 by (auto simp: line_break_def)
    moreover have "in_quotes ?st \<or> trailing_escape ?st" using record_textD(3)[OF r, of "pending @ b" 13 "[]"] 2 by (auto simp: line_break_def)
    ultimately show ?thesis using 2 by (simp add: continue_record_def csv_record_state_loop Let_def)
  next
    case 3
    then have "b \<noteq> []" using assms(5) by auto
    then have "last b = 13" using 3 by (metis last_append last_snoc)
    then show ?thesis using assms(2) \<open>b \<noteq> []\<close> last_in_set by (fastforce simp: line_break_def)
  qed
qed

lemma read_lines:
  assumes r: "record_text d txt" and "ls \<noteq> []" "list_all file_line ls" "pending @ concat ls = txt @ term" "length (pending @ concat (butlast ls)) \<le> length txt" "line_ending term"
  shows "reader_loop d rd pending n (ls @ rest) = finish_record d rd rest txt (n + length ls)"
  using assms(2-5)
proof (induction ls arbitrary: pending n)
  case (Cons l ls)
  obtain b e where l: "l = b @ e" and b: "\<forall>c\<in>set b. \<not> line_break c" and e: "line_ending e"
    using Cons.prems(2) by (auto simp: file_line_def)
  note sp = split_file_line[OF b e]
  show ?case
  proof (cases "ls = []")
    case True
    then have "continue_record d (pending @ b) e = (txt, False)"
      using Cons.prems(3,4) l by (intro ends[OF r _ b e assms(6)]) auto
    then show ?thesis using True by (simp add: l sp)
  next
    case False
    have len: "length (pending @ l) \<le> length txt" using Cons.prems(4) False by simp
    have "(pending @ l) @ concat ls = txt @ term" using Cons.prems(3) by simp
    then have "\<exists>t. txt = (pending @ l) @ t" using len
      by (metis append_eq_append_conv_if append_take_drop_id)
    then obtain t where "txt = (pending @ b) @ e @ t" using l by auto
    from goes_on[OF r this e] have "reader_loop d rd pending n ((l # ls) @ rest) = reader_loop d rd (pending @ l) (n + 1) (ls @ rest)"
      by (simp add: l sp)
    also have "\<dots> = finish_record d rd rest txt (n + 1 + length ls)"
      using Cons.prems False by (intro Cons.IH) auto
    finally show ?thesis by simp
  qed
qed simp

text \<open>
  C25. A record the writer wrote is read back from the lines of a file. Lines end at every line break, also at those
  inside quoted fields and behind escape characters, and the reader joins them into the record that was written: it
  gives the row, counts the lines and leaves those of the next record to the iterator.
\<close>

theorem written_record_read:
  assumes "validate_csv_parameter_consistency d = Inr ()" "readable_row d row" "csv_row_text d row = Inr txt"
    and "cd_lineterminator d \<in> {[10], [13], [13, 10]}" "breaks_into txt (cd_lineterminator d) ls"
  shows "csv_reader_next d \<lparr>cr_lines = ls @ rest, cr_pending = [], cr_line_num = n\<rparr> =
    (Inr (map (cell_of (cd_quoting d)) row), \<lparr>cr_lines = rest, cr_pending = [], cr_line_num = n + length ls\<rparr>)"
proof -
  obtain fl where fl: "txt = csv_join (cd_delimiter d) (map fld_out fl)" "list_all (field_ok d) fl"
    by (rule row_text_fields[OF assms(1,3,2)]) (rule that)
  have "record_text d txt"
    using record_loop_break consistent_break[OF assms(1)] row_state[OF assms(1) fl(2)] row_prefix[OF assms(1) fl(2)]
    unfolding record_text_def fl(1) by metis
  from read_lines[OF this, of ls "[]" "cd_lineterminator d" _ n rest] show ?thesis
    using assms(4,5) parse_written_row[OF assms(1-3)]
    by (auto simp: csv_reader_next_def breaks_into_def finish_record_def)
qed

lemma written_record_read_witness:
  "csv_reader_next excel \<lparr>cr_lines = [[34, 34, 34, 44, 10], [34, 34, 34, 44, 44, 49, 44, 34, 13], [97, 34, 13, 10]] @ [[98, 10]],
     cr_pending = [], cr_line_num = 0\<rparr> =
   (Inr (map (cell_of 0) sample_row), \<lparr>cr_lines = [[98, 10]], cr_pending = [], cr_line_num = 3\<rparr>)"
proof -
  have b: "breaks_into [34, 34, 34, 44, 10, 34, 34, 34, 44, 44, 49, 44, 34, 13, 97, 34] (cd_lineterminator excel)
      [[34, 34, 34, 44, 10], [34, 34, 34, 44, 44, 49, 44, 34, 13], [97, 34, 13, 10]]"
  proof -
    have "file_line ([34, 34, 34, 44] @ [10])" "file_line ([34, 34, 34, 44, 44, 49, 44, 34] @ [13])" "file_line ([97, 34] @ [13, 10])"
      unfolding file_line_def by (rule exI, rule exI, rule conjI, rule refl, simp add: line_break_def)+
    then show ?thesis by (simp add: breaks_into_def excel_def)
  qed
  have l: "cd_lineterminator excel \<in> {[10], [13], [13, 10]}" "cd_quoting excel = 0" by (simp_all add: excel_def)
  show ?thesis using written_record_read[OF sample_checks l(1) b, of "[[98, 10]]" 0] l(2) by simp
qed

section \<open>Where the parser and the scan for the end of a record differ\<close>

text \<open>
  Without doubled quotes an empty quoted part followed by a quote opens the quotes again in the parser, which asks
  whether the field is still empty, and does not in the scan, which asks whether the field has just begun.
\<close>

lemma empty_quotes_reopen:
  "in_quotes (csv_record_state (excel\<lparr>cd_doublequote := False, cd_strict := False\<rparr>) [34, 34, 34, 97]) = False"
  "parse_csv_row_simple (excel\<lparr>cd_doublequote := False, cd_strict := False\<rparr>) [34, 34, 34, 97, 44, 98] =
     Inr [CsvParsedField [97, 44, 98] True]"
  by (simp_all add: csv_record_state_def excel_def active_quotechar_def parse_csv_row_simple_def row_state_new_def row_step_def
      field_step_def quote_step_def)

text \<open>The limit on the length of a field does not count doubled quotes.\<close>

lemma limit_skips_quotes:
  "parse_csv_row_simple (excel\<lparr>cd_field_limit := Some 1\<rparr>) [34, 34, 34, 34, 34, 34, 34, 34] = Inr [CsvParsedField [34, 34, 34] True]"
  by (simp add: excel_def active_quotechar_def parse_csv_row_simple_def row_state_new_def row_step_def field_step_def quote_step_def)

end
