(* ===== verification/Int_Ops.thy ===== *)
theory Int_Ops
  imports Bigint_Spec Floats Lexing "HOL-Library.Signed_Division"
begin

text \<open>
  The integers of the interpreter: the operators of \<^verbatim>\<open>src/vm/ops.rs\<close> on the values that are integers, and the
  conversions of \<^verbatim>\<open>src/vm/mod.rs\<close> they and the methods of \<open>int\<close> use. A value is a machine integer, a
  \<open>BigInt\<close>, a bool, or an instance of a subclass of \<open>int\<close> with the integer it stores. For other operands the
  functions go on to sets, strings, sequences and floats.
\<close>

section \<open>Values\<close>

datatype IntStorage = StBool bool | StInt i64 | StBig BigInt

datatype IntValue = VBool bool | VInt i64 | VBig BigInt | VInstance IntStorage

datatype OpError =
    PlainError string | TypeErr string | ValueErr string | OverflowErr string | ZeroDivisionErr string

type_synonym 'a ores = "OpError + 'a"

fun int_like_to_bigint :: "IntValue \<Rightarrow> BigInt" where
  "int_like_to_bigint (VBool flag) = from_i64 (if flag then 1 else 0)"
| "int_like_to_bigint (VInt number) = from_i64 number"
| "int_like_to_bigint (VBig number) = number"
| "int_like_to_bigint (VInstance (StBool flag)) = from_i64 (if flag then 1 else 0)"
| "int_like_to_bigint (VInstance (StInt number)) = from_i64 number"
| "int_like_to_bigint (VInstance (StBig number)) = number"

fun int_like_to_i64 :: "IntValue \<Rightarrow> i64 option" where
  "int_like_to_i64 (VBool flag) = Some (if flag then 1 else 0)"
| "int_like_to_i64 (VInt number) = Some number"
| "int_like_to_i64 (VBig number) = None"
| "int_like_to_i64 (VInstance (StBool flag)) = Some (if flag then 1 else 0)"
| "int_like_to_i64 (VInstance (StInt number)) = Some number"
| "int_like_to_i64 (VInstance (StBig number)) = None"

definition integer_i64_pair :: "IntValue \<Rightarrow> IntValue \<Rightarrow> (i64 \<times> i64) option" where
  "integer_i64_pair left right =
     (case int_like_to_i64 left of
        None \<Rightarrow> None
      | Some a \<Rightarrow> (case int_like_to_i64 right of None \<Rightarrow> None | Some b \<Rightarrow> Some (a, b)))"

definition integer_pair :: "IntValue \<Rightarrow> IntValue \<Rightarrow> BigInt \<times> BigInt" where
  "integer_pair left right = (int_like_to_bigint left, int_like_to_bigint right)"

definition bigint_to_value :: "BigInt \<Rightarrow> IntValue" where
  "bigint_to_value b = (case to_i64 b of Some number \<Rightarrow> VInt number | None \<Rightarrow> VBig b)"

definition value_to_int :: "IntValue \<Rightarrow> i64 ores" where
  "value_to_int v =
     (let of_big = (\<lambda>b. case to_i64 b of Some number \<Rightarrow> Inr number | None \<Rightarrow> Inl (OverflowErr ''integer overflow''))
      in case v of
           VInt number \<Rightarrow> Inr number
         | VBool flag \<Rightarrow> Inr (if flag then 1 else 0)
         | VBig b \<Rightarrow> of_big b
         | VInstance (StInt number) \<Rightarrow> Inr number
         | VInstance (StBool flag) \<Rightarrow> Inr (if flag then 1 else 0)
         | VInstance (StBig b) \<Rightarrow> of_big b)"

text \<open>\<open>checked_add\<close>, \<open>checked_sub\<close>, \<open>checked_mul\<close>, \<open>checked_neg\<close>: the exact result when it is an \<open>i64\<close>.\<close>

definition checked :: "int \<Rightarrow> i64 option" where
  "checked n = (if - (2 ^ 63) \<le> n \<and> n < 2 ^ 63 then Some (word_of_int n) else None)"

section \<open>Arithmetic\<close>

text \<open>The pattern of addition, subtraction and multiplication: machine integers first.\<close>

definition arith_values :: "(int \<Rightarrow> int \<Rightarrow> int) \<Rightarrow> (BigInt \<Rightarrow> BigInt \<Rightarrow> BigInt) \<Rightarrow> IntValue \<Rightarrow> IntValue \<Rightarrow> IntValue ores" where
  "arith_values op big left right =
     (case integer_i64_pair left right of
        Some (a, b) \<Rightarrow>
          (case checked (op (sint a) (sint b)) of
             Some n \<Rightarrow> Inr (VInt n)
           | None \<Rightarrow> Inr (bigint_to_value (big (from_i64 a) (from_i64 b))))
      | None \<Rightarrow> (let (a, b) = integer_pair left right in Inr (bigint_to_value (big a b))))"

definition add_values :: "IntValue \<Rightarrow> IntValue \<Rightarrow> IntValue ores" where
  "add_values = arith_values (+) bigint_add"

definition sub_values :: "IntValue \<Rightarrow> IntValue \<Rightarrow> IntValue ores" where
  "sub_values = arith_values (-) bigint_sub"

definition mul_values :: "IntValue \<Rightarrow> IntValue \<Rightarrow> IntValue ores" where
  "mul_values = arith_values (*) bigint_mul"

text \<open>The division of \<open>i128\<close> truncates, the remainder has the sign of the dividend.\<close>

definition python_floor_div :: "i64 \<Rightarrow> i64 \<Rightarrow> i64 ores" where
  "python_floor_div left right =
     (if right = 0 then Inl (PlainError ''integer division by zero'')
      else let a = sint left; b = sint right; q = a sdiv b; rem = a smod b;
               q = (if rem \<noteq> 0 \<and> (a < 0) \<noteq> (b < 0) then q - 1 else q)
           in if q < - (2 ^ 63) \<or> 2 ^ 63 - 1 < q then Inl (OverflowErr ''integer overflow'') else Inr (word_of_int q))"

definition python_mod :: "i64 \<Rightarrow> i64 \<Rightarrow> i64 ores" where
  "python_mod left right =
     (if right = 0 then Inl (ZeroDivisionErr ''modulo by zero'')
      else bindr (python_floor_div left right) (\<lambda>q.
        let n = sint left - sint right * sint q
        in if n < - (2 ^ 63) \<or> 2 ^ 63 - 1 < n then Inl (OverflowErr ''integer overflow'') else Inr (word_of_int n)))"

text \<open>The division of \<open>BigInt\<close>; \<open>Diverge\<close> of its loop is shown not to occur.\<close>

definition floor_div_values :: "IntValue \<Rightarrow> IntValue \<Rightarrow> IntValue ores option" where
  "floor_div_values left right =
     (case integer_i64_pair left right of
        Some (a, b) \<Rightarrow> Some (bindr (python_floor_div a b) (\<lambda>q. Inr (VInt q)))
      | None \<Rightarrow> (let (a, b) = integer_pair left right in
          map_option (\<lambda>r. case r of
              None \<Rightarrow> Inl (ZeroDivisionErr ''division by zero'')
            | Some (quot, _) \<Rightarrow> Inr (bigint_to_value quot)) (div_mod_floor a b)))"

definition mod_values :: "IntValue \<Rightarrow> IntValue \<Rightarrow> IntValue ores option" where
  "mod_values left right =
     (case integer_i64_pair left right of
        Some (a, b) \<Rightarrow> Some (bindr (python_mod a b) (\<lambda>n. Inr (VInt n)))
      | None \<Rightarrow> (let (a, b) = integer_pair left right in
          map_option (\<lambda>r. case r of
              None \<Rightarrow> Inl (ZeroDivisionErr ''modulo by zero'')
            | Some (_, remainder) \<Rightarrow> Inr (bigint_to_value remainder)) (div_mod_floor a b)))"

text \<open>A power with a negative exponent is a double, \<open>powf\<close> of the standard library.\<close>

datatype Power = PowInt IntValue | PowFloat f64

definition pow_values :: "(f64 \<Rightarrow> f64 \<Rightarrow> f64) \<Rightarrow> IntValue \<Rightarrow> IntValue \<Rightarrow> Power ores" where
  "pow_values powf left right =
     (let (a, b) = integer_pair left right
      in if is_negative b then
           (let x = to_f64 a; y = to_f64 b
            in if x = 0 \<or> x = push_bit 63 1 then Inl (ZeroDivisionErr ''division by zero'') else Inr (PowFloat (powf x y)))
         else case to_i64 b of
             None \<Rightarrow> Inl (PlainError ''exponent too large'')
           | Some e \<Rightarrow> Inr (PowInt (bigint_to_value (pow_u64 a e))))"

fun neg_value :: "IntValue \<Rightarrow> IntValue ores" where
  "neg_value (VInt v) = (case checked (- sint v) of Some n \<Rightarrow> Inr (VInt n) | None \<Rightarrow> Inl (OverflowErr ''integer overflow''))"
| "neg_value (VBig b) = Inr (bigint_to_value (negated b))"
| "neg_value (VBool flag) = Inr (VInt (if flag then - 1 else 0))"
| "neg_value (VInstance _) = Inl (PlainError ''unsupported operand type for -'')"

fun pos_value :: "IntValue \<Rightarrow> IntValue ores" where
  "pos_value (VInt v) = Inr (VInt v)"
| "pos_value (VBig b) = Inr (bigint_to_value b)"
| "pos_value (VBool flag) = Inr (VInt (if flag then 1 else 0))"
| "pos_value (VInstance _) = Inl (TypeErr ''unsupported operand type for +'')"

section \<open>Bitwise operators and shifts\<close>

definition invert_value :: "IntValue \<Rightarrow> IntValue ores" where
  "invert_value v = Inr (bigint_to_value (bigint_bitnot (int_like_to_bigint v)))"

definition bit_values :: "(bool \<Rightarrow> bool \<Rightarrow> bool) \<Rightarrow> (BigInt \<Rightarrow> BigInt \<Rightarrow> BigInt) \<Rightarrow> IntValue \<Rightarrow> IntValue \<Rightarrow> IntValue ores" where
  "bit_values bop big left right =
     (case (left, right) of
        (VBool a, VBool b) \<Rightarrow> Inr (VBool (bop a b))
      | _ \<Rightarrow> (let (a, b) = integer_pair left right in Inr (bigint_to_value (big a b))))"

definition and_values :: "IntValue \<Rightarrow> IntValue \<Rightarrow> IntValue ores" where
  "and_values = bit_values (\<and>) bigint_bitand"

definition or_values :: "IntValue \<Rightarrow> IntValue \<Rightarrow> IntValue ores" where
  "or_values = bit_values (\<or>) bigint_bitor"

definition xor_values :: "IntValue \<Rightarrow> IntValue \<Rightarrow> IntValue ores" where
  "xor_values = bit_values (\<noteq>) bigint_bitxor"

definition shift_values :: "(BigInt \<Rightarrow> nat \<Rightarrow> BigInt) \<Rightarrow> IntValue \<Rightarrow> IntValue \<Rightarrow> IntValue ores" where
  "shift_values shift left right =
     (let (a, b) = integer_pair left right
      in if is_negative b then Inl (ValueErr ''negative shift count'')
         else case to_i64 b of
             None \<Rightarrow> Inl (OverflowErr ''shift count too large'')
           | Some n \<Rightarrow> if sint n < 0 then Inl (OverflowErr ''shift count too large'')
               else Inr (bigint_to_value (shift a (unat n))))"

definition lshift_values :: "IntValue \<Rightarrow> IntValue \<Rightarrow> IntValue ores" where
  "lshift_values = shift_values shl_bits"

definition rshift_values :: "IntValue \<Rightarrow> IntValue \<Rightarrow> IntValue ores" where
  "rshift_values = shift_values shr_bits_arithmetic"

section \<open>Comparison\<close>

definition compare_order :: "IntValue \<Rightarrow> IntValue \<Rightarrow> Ordering" where
  "compare_order left right =
     (case integer_i64_pair left right of
        Some (a, b) \<Rightarrow> (if sint a < sint b then Less else if sint a = sint b then Equal else Greater)
      | None \<Rightarrow> (let (a, b) = integer_pair left right in cmp_total a b))"

section \<open>Bytes and text\<close>

definition horner_256 :: "u8 list \<Rightarrow> BigInt" where
  "horner_256 bs = foldl (\<lambda>value byte. add_small (mul_small value 256) (ucast byte)) bigint_zero bs"

definition bigint_from_bytes :: "u8 list \<Rightarrow> bool \<Rightarrow> bool \<Rightarrow> BigInt" where
  "bigint_from_bytes bs little_endian is_signed =
     (if bs = [] then bigint_zero
      else let value = horner_256 (if little_endian then rev bs else bs);
               sign_bit_set = (if little_endian then last bs else hd bs) AND 0x80 \<noteq> 0
           in if is_signed \<and> sign_bit_set then bigint_sub value (shl_bits bigint_one (length bs * 8)) else value)"

definition resize :: "nat \<Rightarrow> 'a \<Rightarrow> 'a list \<Rightarrow> 'a list" where
  "resize n x xs = take n xs @ replicate (n - length xs) x"

definition int_too_big :: "'a ores" where
  "int_too_big = Inl (PlainError ''int too big to convert'')"

definition bigint_to_fixed_bytes :: "BigInt \<Rightarrow> nat \<Rightarrow> bool \<Rightarrow> bool \<Rightarrow> u8 list ores" where
  "bigint_to_fixed_bytes value len little_endian is_signed =
     (if len = 0 then (if is_zero value then Inr [] else int_too_big)
      else if 2 ^ 64 \<le> len * 8 then int_too_big
      else let bits = len * 8; modulus = shl_bits bigint_one bits;
                  signed_limit = shl_bits bigint_one (bits - 1);
                  signed_min = negated signed_limit; signed_max = bigint_sub signed_limit bigint_one
              in bindr (if is_signed then
                          (if cmp_total value signed_min = Less \<or> cmp_total value signed_max = Greater then int_too_big
                           else if is_negative value then Inr (bigint_add modulus value) else Inr value)
                        else if is_negative value then Inl (PlainError (''can'' @ [CHR 0x27] @ ''t convert negative int to unsigned''))
                        else Inr value) (\<lambda>unsigned_value.
                 let bytes = to_abs_le_bytes unsigned_value
                 in if len < length bytes then int_too_big
                    else let bytes = resize len 0 bytes in Inr (if little_endian then bytes else rev bytes)))"

text \<open>The digits of a decimal literal without its underscores; an underscore stands between digits.\<close>

fun digits_loop :: "bool \<Rightarrow> bool \<Rightarrow> rstring \<Rightarrow> rstring option" where
  "digits_loop saw_digit prev_underscore [] = (if \<not> saw_digit \<or> prev_underscore then None else Some [])"
| "digits_loop saw_digit prev_underscore (ch # s) =
     (if ch = 95 then (if \<not> saw_digit \<or> prev_underscore then None else digits_loop saw_digit True s)
      else if \<not> is_ascii_digit ch then None
      else map_option ((#) ch) (digits_loop True False s))"

definition normalize_decimal_int_digits :: "rstring \<Rightarrow> rstring option" where
  "normalize_decimal_int_digits s = (if s = [] then None else digits_loop False False s)"

definition parse_decimal_bigint_literal :: "rstring \<Rightarrow> BigInt ores" where
  "parse_decimal_bigint_literal txt =
     (let invalid = Inl (ValueErr ''invalid literal for int() with base 10'');
          cleaned = rev (dropWhile is_whitespace (rev txt))
      in if cleaned = [] then invalid
         else let (negative, digits) =
                    (if hd cleaned = 43 then (False, tl cleaned) else if hd cleaned = 45 then (True, tl cleaned) else (False, cleaned))
              in case normalize_decimal_int_digits digits of
                   None \<Rightarrow> invalid
                 | Some normalized \<Rightarrow>
                     (case from_str_radix normalized 10 of
                        None \<Rightarrow> invalid
                      | Some value \<Rightarrow> Inr (if negative then negated value else value)))"

end
