(* ===== verification/Int_Spec.thy ===== *)
theory Int_Spec
  imports Int_Ops
begin

text \<open>
  What the operators on integers promise: they compute on the integers, whatever mixture of machine integers,
  \<open>BigInt\<close>s and bools they are given, and give the normal form of the result, with the exceptions stated.
\<close>

section \<open>The integer of a value\<close>

definition int_of :: "IntValue \<Rightarrow> int" where
  "int_of v = bval (int_like_to_bigint v)"

definition sound :: "IntValue \<Rightarrow> bool" where
  "sound v \<longleftrightarrow> bwf (int_like_to_bigint v)"

definition machine_int :: "int \<Rightarrow> bool" where
  "machine_int n \<longleftrightarrow> - (2 ^ 63) \<le> n \<and> n < 2 ^ 63"

text \<open>A result is a bool, a machine integer, or a \<open>BigInt\<close> that is no machine integer.\<close>

fun normal :: "IntValue \<Rightarrow> bool" where
  "normal (VBool _) \<longleftrightarrow> True"
| "normal (VInt _) \<longleftrightarrow> True"
| "normal (VBig b) \<longleftrightarrow> bwf b \<and> \<not> machine_int (bval b)"
| "normal (VInstance _) \<longleftrightarrow> False"

definition yields :: "IntValue ores \<Rightarrow> int \<Rightarrow> bool" where
  "yields r n \<longleftrightarrow> (case r of Inl _ \<Rightarrow> False | Inr v \<Rightarrow> normal v \<and> int_of v = n)"

named_theorems int_ops \<open>routines on integer values compute the integer operation\<close>

lemma sint_of_int64: "machine_int n \<Longrightarrow> sint (word_of_int n :: i64) = n"
  by (simp add: machine_int_def sint_of_int_u64)

lemma machine_int_sint [simp]: "machine_int (sint (x :: i64))"
  using sint_u64_range [of x] by (simp add: machine_int_def)

lemma int_of_simps [simp]:
  "int_of (VInt x) = sint x" "int_of (VBig b) = bval b" "int_of (VBool p) = of_bool p"
  by (simp_all add: int_of_def bval_from_i64)

lemma sound_simps [simp]: "sound (VInt x)" "sound (VBool p)" "sound (VBig b) \<longleftrightarrow> bwf b"
  by (simp_all add: sound_def wf_from_i64)

lemma int_like_to_i64_int_of: "int_like_to_i64 v = Some x \<Longrightarrow> sound v \<and> int_of v = sint x"
  by (cases v rule: int_like_to_i64.cases) (auto simp: sound_def int_of_def wf_from_i64 bval_from_i64)

lemma integer_i64_pair_int_of:
  "integer_i64_pair a b = Some (x, y) \<Longrightarrow> int_of a = sint x \<and> int_of b = sint y"
  using int_like_to_i64_int_of by (auto simp: integer_i64_pair_def split: option.splits)

lemma yields_VInt: "machine_int n \<Longrightarrow> yields (Inr (VInt (word_of_int n))) n"
  by (simp add: yields_def sint_of_int64)

lemma yields_bigint [int_ops]: "bwf b \<Longrightarrow> bval b = n \<Longrightarrow> yields (Inr (bigint_to_value b)) n"
  using sint_of_int64 [of n] by (auto simp: yields_def bigint_to_value_def to_i64_correct machine_int_def)

lemma is_negative_iff: "bwf b \<Longrightarrow> is_negative b \<longleftrightarrow> bval b < 0"
  by (cases rule: wf_sign_cases) (auto simp: is_negative_def bval_def)

section \<open>Arithmetic\<close>

lemma arith_yields:
  assumes "sound a" "sound b"
    and "\<And>x y. bwf x \<Longrightarrow> bwf y \<Longrightarrow> bwf (big x y) \<and> bval (big x y) = op (bval x) (bval y)"
  shows "yields (arith_values op big a b) (op (int_of a) (int_of b))"
proof (cases "integer_i64_pair a b")
  case None
  then show ?thesis using assms by (auto simp: arith_values_def integer_pair_def sound_def int_of_def intro: int_ops)
next
  case (Some p)
  obtain x y where p: "p = (x, y)" by (cases p)
  have i: "int_of a = sint x" "int_of b = sint y" using integer_i64_pair_int_of Some p by auto
  show ?thesis
    using assms(3) [OF wf_from_i64 wf_from_i64, of x y] Some p
    by (auto simp: arith_values_def i checked_def bval_from_i64 intro: int_ops yields_VInt [unfolded machine_int_def])
qed

lemma ring_values [int_ops]:
  assumes "sound a" "sound b"
  shows "yields (add_values a b) (int_of a + int_of b)" "yields (sub_values a b) (int_of a - int_of b)"
    and "yields (mul_values a b) (int_of a * int_of b)"
  using assms unfolding add_values_def sub_values_def mul_values_def
  by (auto intro!: arith_yields simp: bigint_wf bigint_val)

lemma sdiv_floor:
  fixes a b :: int
  assumes "b \<noteq> 0"
  shows "(if a smod b \<noteq> 0 \<and> (a < 0) \<noteq> (b < 0) then a sdiv b - 1 else a sdiv b) = a div b"
proof -
  define x y where "x = \<bar>a\<bar>" and "y = \<bar>b\<bar>"
  have y: "0 < y" using assms by (simp add: y_def)
  have m: "x mod y = 0 \<longleftrightarrow> x = x div y * y" using div_mult_mod_eq [of x y] by linarith
  consider "a \<ge> 0" "b > 0" | "a < 0" "b < 0" | "a < 0" "b > 0" | "a \<ge> 0" "b < 0" using assms by linarith
  then show ?thesis
  proof cases
    case 1
    then show ?thesis by (cases "a = 0") (simp_all add: signed_divide_int_def)
  next
    case 2
    then show ?thesis by (simp add: signed_divide_int_def)
  next
    case 3
    then have ab: "a = - x" "b = y" "0 < x" by (simp_all add: x_def y_def)
    show ?thesis unfolding ab using y ab(3) m zdiv_zminus1_eq_if [of y x]
      by (simp add: signed_divide_int_def signed_modulo_int_def)
  next
    case 4
    then have ab: "a = x" "b = - y" by (simp_all add: x_def y_def)
    show ?thesis unfolding ab using y x_def m zdiv_zminus2_eq_if [of y x]
      by (cases "x = 0") (simp_all add: signed_divide_int_def signed_modulo_int_def)
  qed
qed

lemma floor_div_range:
  fixes a b N :: int
  assumes "- N \<le> a" "a < N" "b \<noteq> 0" "0 < N"
  shows "- N \<le> a div b \<and> a div b < N \<longleftrightarrow> \<not> (a = - N \<and> b = - 1)"
proof -
  define q r where "q = a div b" and "r = a mod b"
  have a: "a = q * b + r" unfolding q_def r_def by (simp add: div_mult_mod_eq)
  have hi: "q < N \<or> a = - N \<and> b = - 1" 
  proof (cases "0 < b")
    case True
    then have "r \<ge> 0" by (simp add: r_def)
    then have "q * b \<le> a" using a by linarith
    moreover have "q \<le> q * b" if "0 \<le> q" using True that by (simp add: mult_le_cancel_left1)
    ultimately show ?thesis using assms by linarith
  next
    case False
    then have b: "b < 0" "r \<le> 0" using assms by (auto simp: r_def)
    have "q * b \<ge> - N" using a b assms by linarith
    show ?thesis
    proof (cases "b = - 1")
      case True
      then have "r = 0" by (simp add: r_def)
      then have "q = - a" using a True by simp
      then show ?thesis using assms(1) True by linarith
    next
      case False
      then have "q * b \<le> q * (- 2)" if "0 \<le> q" using b that by (intro mult_left_mono) auto
      then show ?thesis using \<open>q * b \<ge> - N\<close> assms by (cases "0 \<le> q") linarith+
    qed
  qed
  have lo: "- N \<le> q"
  proof (rule ccontr)
    assume "\<not> - N \<le> q"
    then have q: "q + 1 \<le> - N" by simp
    show False
    proof (cases "0 < b")
      case True
      then have "r < b" by (simp add: r_def)
      then have "a < (q + 1) * b" using a by (simp add: algebra_simps)
      also have "\<dots> \<le> (- N) * b" using q True by (intro mult_right_mono) auto
      also have "\<dots> \<le> (- N) * 1" using True assms by (intro mult_left_mono_neg) auto
      finally show False using assms by simp
    next
      case False
      then have b: "b < 0" "b < r" using assms by (auto simp: r_def)
      then have "a > (q + 1) * b" using a by (simp add: algebra_simps)
      moreover have "(q + 1) * b \<ge> (- N) * b" using q b by (intro mult_right_mono_neg) auto
      moreover have "(- N) * b \<ge> (- N) * (- 1)" using b assms by (intro mult_left_mono_neg) auto
      ultimately show False using assms by simp
    qed
  qed
  have "a = - N \<and> b = - 1 \<Longrightarrow> \<not> q < N" by (simp add: q_def)
  then show ?thesis using hi lo unfolding q_def by blast
qed

lemma sint_eq_0 [simp]: "sint (x :: i64) = 0 \<longleftrightarrow> x = 0"
  by (rule signed_eq_0_iff)

lemma python_floor_div_exact:
  "python_floor_div x y =
     (if y = 0 then Inl (PlainError ''integer division by zero'')
      else if sint x = - (2 ^ 63) \<and> sint y = - 1 then Inl (OverflowErr ''integer overflow'')
      else Inr (word_of_int (sint x div sint y)))"
proof (cases "y = 0")
  case False
  then have y: "sint y \<noteq> 0" by simp
  have r: "- (2 ^ 63) \<le> sint x div sint y \<and> sint x div sint y < 2 ^ 63 \<longleftrightarrow> \<not> (sint x = - (2 ^ 63) \<and> sint y = - 1)"
    using floor_div_range [of "2 ^ 63" "sint x" "sint y"] y sint_u64_range [of x] by simp
  have "python_floor_div x y = (let q = sint x div sint y in
      if q < - (2 ^ 63) \<or> 2 ^ 63 - 1 < q then Inl (OverflowErr ''integer overflow'') else Inr (word_of_int q))"
    unfolding python_floor_div_def Let_def using False sdiv_floor [OF y, of "sint x"] by simp
  then show ?thesis using r False by (auto simp: Let_def)
qed (simp add: python_floor_div_def)

lemma mod_machine:
  assumes "b \<noteq> 0" "machine_int b"
  shows "machine_int (a mod b)"
proof (cases "0 < b")
  case True
  then have "0 \<le> a mod b" "a mod b < b" by simp_all
  then show ?thesis using assms unfolding machine_int_def by linarith
next
  case False
  then have "b < a mod b" "a mod b \<le> 0" using assms(1) by simp_all
  then show ?thesis using assms unfolding machine_int_def by linarith
qed

lemma python_mod_exact:
  "python_mod x y =
     (if y = 0 then Inl (ZeroDivisionErr ''modulo by zero'')
      else if sint x = - (2 ^ 63) \<and> sint y = - 1 then Inl (OverflowErr ''integer overflow'')
      else Inr (word_of_int (sint x mod sint y)))"
proof (cases "y = 0 \<or> sint x = - (2 ^ 63) \<and> sint y = - 1")
  case False
  then have y: "sint y \<noteq> 0" "y \<noteq> 0" by simp_all
  have "machine_int (sint x div sint y)"
    using floor_div_range [of "2 ^ 63" "sint x" "sint y"] y sint_u64_range [of x] False by (simp add: machine_int_def)
  then have q: "sint (word_of_int (sint x div sint y) :: i64) = sint x div sint y" by (rule sint_of_int64)
  have m: "sint x - sint y * (sint x div sint y) = sint x mod sint y" by (simp add: minus_mult_div_eq_mod)
  have "machine_int (sint x mod sint y)" using y by (intro mod_machine) simp_all
  then show ?thesis using False y q m by (auto simp: python_mod_def python_floor_div_exact machine_int_def Let_def)
qed (auto simp: python_mod_def python_floor_div_exact)

text \<open>Both operands machine integers, the smallest one divided by minus one.\<close>

definition overflows :: "IntValue \<Rightarrow> IntValue \<Rightarrow> bool" where
  "overflows a b \<longleftrightarrow> integer_i64_pair a b \<noteq> None \<and> int_of a = - (2 ^ 63) \<and> int_of b = - 1"

lemma big_division:
  assumes "sound a" "sound b" "integer_i64_pair a b = None"
  shows "\<exists>q r. floor_div_values a b = Some q \<and> mod_values a b = Some r \<and>
    (if int_of b = 0 then q = Inl (ZeroDivisionErr ''division by zero'') \<and> r = Inl (ZeroDivisionErr ''modulo by zero'')
     else yields q (int_of a div int_of b) \<and> yields r (int_of a mod int_of b))"
proof -
  define x y where "x = int_like_to_bigint a" and "y = int_like_to_bigint b"
  have w: "bwf x" "bwf y" "int_of a = bval x" "int_of b = bval y" using assms by (simp_all add: x_def y_def sound_def int_of_def)
  show ?thesis
  proof (cases "bval y = 0")
    case True
    then have "div_mod_floor x y = Some None" using division_floors [OF w(1,2)] by simp
    then show ?thesis using True w assms(3)
      by (simp add: floor_div_values_def mod_values_def integer_pair_def x_def [symmetric] y_def [symmetric])
  next
    case False
    then show ?thesis using div_mod_floor_correct [OF w(1,2) False] w assms(3)
      by (auto simp: floor_div_values_def mod_values_def integer_pair_def x_def [symmetric] y_def [symmetric] intro: int_ops)
  qed
qed

lemma machine_division:
  assumes "integer_i64_pair a b = Some (x, y)"
  shows "\<exists>q r. floor_div_values a b = Some q \<and> mod_values a b = Some r \<and>
    (if int_of b = 0 then q = Inl (PlainError ''integer division by zero'') \<and> r = Inl (ZeroDivisionErr ''modulo by zero'')
     else if overflows a b then q = Inl (OverflowErr ''integer overflow'') \<and> r = Inl (OverflowErr ''integer overflow'')
     else yields q (int_of a div int_of b) \<and> yields r (int_of a mod int_of b))"
proof -
  have i: "int_of a = sint x" "int_of b = sint y" using integer_i64_pair_int_of [OF assms] by auto
  have o1: "overflows a b \<longleftrightarrow> sint x = - (2 ^ 63) \<and> sint y = - 1" by (simp add: overflows_def assms i)
  have "machine_int (sint x div sint y)" if "y \<noteq> 0" "\<not> (sint x = - (2 ^ 63) \<and> sint y = - 1)"
    using floor_div_range [of "2 ^ 63" "sint x" "sint y"] that sint_u64_range [of x] by (simp add: machine_int_def)
  moreover have "machine_int (sint x mod sint y)" if "y \<noteq> 0" using that by (intro mod_machine) simp_all
  ultimately show ?thesis
    by (auto simp: floor_div_values_def mod_values_def assms python_floor_div_exact python_mod_exact i o1 intro: yields_VInt)
qed

section \<open>Powers, signs, bits and shifts\<close>

lemma wf_bit_ops [bigint_wf]:
  "bwf (bigint_bitand a b)" "bwf (bigint_bitor a b)" "bwf (bigint_bitxor a b)" "bwf a \<Longrightarrow> bwf (bigint_bitnot a)"
  by (simp_all add: bigint_bitand_def bigint_bitor_def bigint_bitxor_def bigint_bitnot_def bigint_wf)

lemma invert_yields [int_ops]: "sound a \<Longrightarrow> yields (invert_value a) (NOT (int_of a))"
  by (simp add: invert_value_def sound_def int_of_def yields_bigint bigint_wf bigint_val)

lemma bit_yields:
  assumes "sound a" "sound b" "\<And>x y. bwf x \<Longrightarrow> bwf y \<Longrightarrow> bwf (big x y) \<and> bval (big x y) = op (bval x) (bval y)"
    and "\<And>p q. op (of_bool p) (of_bool q) = of_bool (bop p q)"
  shows "yields (bit_values bop big a b) (op (int_of a) (int_of b))"
proof (cases "\<exists>p q. a = VBool p \<and> b = VBool q")
  case True
  then show ?thesis using assms(4) by (auto simp: bit_values_def yields_def)
next
  case False
  then have "bit_values bop big a b = Inr (bigint_to_value (big (int_like_to_bigint a) (int_like_to_bigint b)))"
    by (auto simp: bit_values_def integer_pair_def split: IntValue.splits)
  then show ?thesis using assms(1-3) by (simp add: sound_def int_of_def yields_bigint)
qed

lemma bitwise_values [int_ops]:
  assumes "sound a" "sound b"
  shows "yields (and_values a b) (int_of a AND int_of b)" "yields (or_values a b) (int_of a OR int_of b)"
    and "yields (xor_values a b) (int_of a XOR int_of b)"
  using assms unfolding and_values_def or_values_def xor_values_def
  by (auto intro!: bit_yields simp: bigint_wf bigint_val)

lemma shift_count:
  assumes "sound b" "0 \<le> int_of b" "int_of b < 2 ^ 63"
  shows "\<not> is_negative (int_like_to_bigint b) \<and> (\<exists>n. to_i64 (int_like_to_bigint b) = Some n \<and> 0 \<le> sint n \<and> unat n = nat (int_of b))"
proof -
  have m: "machine_int (int_of b)" using assms by (simp add: machine_int_def)
  have "unat (word_of_int (int_of b) :: i64) = nat (int_of b)" using assms by (simp add: unat_eq_nat_uint uint_word_of_int)
  then show ?thesis
    using assms m sint_of_int64 [OF m] by (simp add: sound_def int_of_def is_negative_iff to_i64_correct machine_int_def)
qed

lemma shift_pow_yields [int_ops]:
  assumes "sound a" "sound b" "0 \<le> int_of b" "int_of b < 2 ^ 63"
  shows "yields (lshift_values a b) (int_of a * 2 ^ nat (int_of b))" "yields (rshift_values a b) (int_of a div 2 ^ nat (int_of b))"
    and "\<exists>v. pow_values powf a b = Inr (PowInt v) \<and> yields (Inr v) (int_of a ^ nat (int_of b))"
  using shift_count [OF assms(2-4)] assms(1)
  by (auto simp: lshift_values_def rshift_values_def shift_values_def pow_values_def integer_pair_def sound_def int_of_def Let_def
      bigint_wf bigint_val intro!: yields_bigint)

text \<open>A shift by more than an \<open>i64\<close> is refused, to the right as well, where the result would be 0 or -1.\<close>

lemma huge_shift_refused:
  assumes "sound b" "2 ^ 63 \<le> int_of b"
  shows "rshift_values a b = Inl (OverflowErr ''shift count too large'')"
  using assms
  by (simp add: rshift_values_def shift_values_def integer_pair_def sound_def int_of_def is_negative_iff to_i64_correct)

lemma neg_value_exact:
  assumes "sound v"
  shows "case v of VInstance _ \<Rightarrow> neg_value v = Inl (PlainError ''unsupported operand type for -'')
    | VInt x \<Rightarrow> if sint x = - (2 ^ 63) then neg_value v = Inl (OverflowErr ''integer overflow'') else yields (neg_value v) (- int_of v)
    | _ \<Rightarrow> yields (neg_value v) (- int_of v)"
proof (cases v)
  case (VInt x)
  have "machine_int (- sint x) \<longleftrightarrow> sint x \<noteq> - (2 ^ 63)" using sint_u64_range [of x] by (auto simp: machine_int_def)
  then show ?thesis using VInt yields_VInt [of "- sint x"] by (auto simp: checked_def machine_int_def)
next
  case (VBig b)
  then show ?thesis using assms by (auto simp: bigint_wf bigint_val intro: yields_bigint)
qed (simp_all add: yields_def)

lemma compare_exact: "sound a \<Longrightarrow> sound b \<Longrightarrow> compare_order a b = cmp (int_of a) (int_of b)"
  using integer_i64_pair_int_of [of a b]
  by (auto simp: compare_order_def integer_pair_def sound_def cmp_total_correct cmp_def int_of_def split: option.splits)

section \<open>Bytes\<close>

lemma horner_256_val:
  "bwf (horner_256 bs) \<and> bval (horner_256 bs) = int (bytes_val (rev bs))"
proof (induction bs rule: rev_induct)
  case (snoc b bs)
  have "unat (ucast b :: u32) = unat b" by simp
  then show ?case using snoc by (simp add: horner_256_def bigint_wf bigint_val)
qed (simp add: horner_256_def)

lemma exp_bytes: "(2 :: 'a :: comm_semiring_1) ^ (n * 8) = 256 ^ n"
  by (simp add: mult.commute [of n] power_mult)

lemma byte_top_bit: "b AND 0x80 \<noteq> (0 :: u8) \<longleftrightarrow> 128 \<le> unat b"
proof -
  have "b AND 0x80 \<noteq> 0 \<longleftrightarrow> bit b 7" using and_exp_eq_0_iff_not_bit [of b 7] by simp
  also have "\<dots> \<longleftrightarrow> bit (unat b) 7" by (simp add: bit_unsigned_iff)
  also have "\<dots> \<longleftrightarrow> odd (unat b div 128)" by (simp add: bit_iff_odd)
  also have "\<dots> \<longleftrightarrow> 128 \<le> unat b"
  proof -
    have "unat b div 128 = (if 128 \<le> unat b then 1 else 0)" using u8_lt [of b] by auto
    then show ?thesis by simp
  qed
  finally show ?thesis .
qed

lemma top_digit:
  assumes "(x :: nat) < k"
  shows "k * m \<le> x + k * d \<longleftrightarrow> m \<le> d"
proof
  assume a: "k * m \<le> x + k * d"
  show "m \<le> d"
  proof (rule ccontr)
    assume "\<not> m \<le> d"
    then have "k * Suc d \<le> k * m" by (intro mult_le_mono2) simp
    then show False using a assms by simp
  qed
qed (intro trans_le_add2 mult_le_mono2)

lemma top_bit:
  assumes "bs \<noteq> []"
  shows "last bs AND 0x80 \<noteq> (0 :: u8) \<longleftrightarrow> 2 ^ (length bs * 8 - 1) \<le> bytes_val bs"
proof -
  obtain xs b where bs: "bs = xs @ [b]" using assms by (cases bs rule: rev_cases) auto
  have p: "(2 :: nat) ^ (length bs * 8 - 1) = 256 ^ length xs * 128"
    using exp_bytes [of "length xs", where 'a = nat] by (simp add: bs power_add mult.commute [of 8])
  have v: "bytes_val bs = bytes_val xs + 256 ^ length xs * unat b" by (simp add: bs bytes_val_append)
  have "256 ^ length xs * 128 \<le> bytes_val bs \<longleftrightarrow> 128 \<le> unat b"
    unfolding v by (rule top_digit [OF bytes_val_bound])
  then show ?thesis unfolding byte_top_bit p by (simp add: bs)
qed

lemma from_bytes_val:
  assumes "bs \<noteq> []"
  shows "bwf (bigint_from_bytes bs le s) \<and> bval (bigint_from_bytes bs le s) =
    (let v = bytes_val (if le then bs else rev bs)
     in if s \<and> 2 ^ (length bs * 8 - 1) \<le> v then int v - 2 ^ (length bs * 8) else int v)"
proof -
  have "(if le then last bs else hd bs) AND 0x80 \<noteq> 0 \<longleftrightarrow> 2 ^ (length bs * 8 - 1) \<le> bytes_val (if le then bs else rev bs)"
    using top_bit [of bs] top_bit [of "rev bs"] assms by (simp add: last_rev)
  then show ?thesis
    using horner_256_val [of "if le then rev bs else bs"] assms
    by (auto simp: bigint_from_bytes_def Let_def bigint_wf bigint_val)
qed

lemma length_to_abs_le_bytes:
  assumes "bwf b" "0 < len"
  shows "length (to_abs_le_bytes b) \<le> len \<longleftrightarrow> \<bar>bval b\<bar> < 256 ^ len"
proof (cases "is_zero b")
  case True
  then show ?thesis using assms by (simp add: to_abs_le_bytes_def is_zero_iff)
next
  case False
  let ?bs = "to_abs_le_bytes b"
  have v: "int (bytes_val ?bs) = \<bar>bval b\<bar>" using to_abs_le_bytes_val [OF assms(1)] .
  have nz: "bytes_val ?bs \<noteq> 0" using v False is_zero_iff [OF assms(1)] by auto
  have last: "last ?bs \<noteq> 0"
  proof -
    let ?cs = "rev (concat (map u32_le_bytes (limbs b)))"
    have ne: "dropWhile (\<lambda>x. x = 0) ?cs \<noteq> []"
      using nz False by (auto simp: to_abs_le_bytes_def Let_def split: if_splits)
    then show ?thesis using hd_dropWhile [OF ne] False by (simp add: to_abs_le_bytes_def Let_def last_rev)
  qed
  show ?thesis
  proof
    assume "length ?bs \<le> len"
    then have "(256 :: nat) ^ length ?bs \<le> 256 ^ len" by (intro power_increasing) simp_all
    then have "bytes_val ?bs < 256 ^ len" by (rule less_le_trans [OF bytes_val_bound])
    then have "int (bytes_val ?bs) < int (256 ^ len)" by (simp only: of_nat_less_iff)
    then show "\<bar>bval b\<bar> < 256 ^ len" using v by simp
  next
    assume lt: "\<bar>bval b\<bar> < 256 ^ len"
    obtain xs x where bs: "?bs = xs @ [x]" "x \<noteq> 0" using last nz by (cases ?bs rule: rev_cases) auto
    have "0 < unat x" using bs(2) by (simp add: unat_gt_0)
    then have "1 \<le> unat x" by linarith
    then have "256 ^ length xs * 1 \<le> bytes_val xs + 256 ^ length xs * unat x"
      unfolding top_digit [OF bytes_val_bound] .
    moreover have "bytes_val ?bs = bytes_val xs + 256 ^ length xs * unat x" unfolding bs(1) by (simp add: bytes_val_append)
    ultimately have "256 ^ length xs \<le> bytes_val ?bs" by simp
    also have "bytes_val ?bs < 256 ^ len"
    proof -
      have "int (bytes_val ?bs) < int (256 ^ len)" using v lt by simp
      then show ?thesis by (simp only: of_nat_less_iff)
    qed
    finally have "(256 :: nat) ^ length xs < 256 ^ len" .
    then have "length xs < len" by (simp only: power_strict_increasing_iff)
    then show "length ?bs \<le> len" by (simp add: bs(1))
  qed
qed

definition int_fits :: "bool \<Rightarrow> nat \<Rightarrow> int \<Rightarrow> bool" where
  "int_fits is_signed len n \<longleftrightarrow>
     (if is_signed then - (2 ^ (len * 8 - 1)) \<le> n \<and> n < 2 ^ (len * 8 - 1) else 0 \<le> n \<and> n < 2 ^ (len * 8))"

lemma resize_bytes:
  assumes "length bs \<le> len"
  shows "length (resize len 0 bs) = len" "bytes_val (resize len 0 bs) = bytes_val bs"
  using assms by (simp_all add: resize_def bytes_val_append)

lemma unsigned_bytes:
  assumes u: "bwf u" "0 \<le> bval u" "bval u < 2 ^ (len * 8)" and len: "0 < len"
  shows "length (to_abs_le_bytes u) \<le> len" "int (bytes_val (resize len 0 (to_abs_le_bytes u))) = bval u"
    "length (resize len 0 (to_abs_le_bytes u)) = len"
proof -
  show l: "length (to_abs_le_bytes u) \<le> len"
    using length_to_abs_le_bytes [OF u(1) len] u exp_bytes [of len, where 'a = int] by simp
  show "int (bytes_val (resize len 0 (to_abs_le_bytes u))) = bval u" "length (resize len 0 (to_abs_le_bytes u)) = len"
    using resize_bytes [OF l] to_abs_le_bytes_val [OF u(1)] u by simp_all
qed

text \<open>The bytes \<open>to_bytes\<close> gives for the number \<open>u\<close> it has made of its argument, and what \<open>from_bytes\<close> makes of them.\<close>

lemma bytes_read_back:
  fixes le s :: bool and u b :: BigInt
  assumes u: "bwf u" "0 \<le> bval u" "bval u < 2 ^ (len * 8)" and len: "0 < len" and b: "bwf b"
    and v: "bval b = (if s \<and> 2 ^ (len * 8 - 1) \<le> bval u then bval u - 2 ^ (len * 8) else bval u)"
  defines "bs \<equiv> (if le then resize len 0 (to_abs_le_bytes u) else rev (resize len 0 (to_abs_le_bytes u)))"
  shows "length bs = len \<and> bigint_from_bytes bs le s = b"
proof -
  let ?r = "resize len 0 (to_abs_le_bytes u)"
  note r = unsigned_bytes [OF u len]
  have l: "length bs = len" and ne: "bs \<noteq> []" and raw: "(if le then bs else rev bs) = ?r"
    using r(3) len by (auto simp: bs_def)
  have "2 ^ (len * 8 - 1) \<le> bytes_val ?r \<longleftrightarrow> 2 ^ (len * 8 - 1) \<le> bval u"
    unfolding r(2) [symmetric] by (simp flip: of_nat_le_iff)
  then have "bval (bigint_from_bytes bs le s) = bval b"
    using from_bytes_val [OF ne, of le s] r(2) v by (simp add: raw l Let_def)
  then show ?thesis using from_bytes_val [OF ne, of le s] b l wf_eqI by auto
qed

lemma to_bytes_in_range:
  assumes b: "bwf b" and len: "0 < len" "len * 8 < 2 ^ 64" and fits: "int_fits s len (bval b)"
  shows "\<exists>bs. bigint_to_fixed_bytes b len le s = Inr bs \<and> length bs = len \<and> bigint_from_bytes bs le s = b"
proof -
  let ?u = "if s \<and> bval b < 0 then bigint_add (shl_bits bigint_one (len * 8)) b else b"
  have w: "bwf ?u" and val: "bval ?u = (if s \<and> bval b < 0 then 2 ^ (len * 8) + bval b else bval b)"
    using b by (simp_all add: bigint_wf bigint_val)
  have half: "(2 :: int) ^ (len * 8) = 2 * 2 ^ (len * 8 - 1)" using len(1) by (cases "len * 8") simp_all
  have pos: "(0 :: int) < 2 ^ (len * 8 - 1)" by simp
  have range: "0 \<le> bval ?u" "bval ?u < 2 ^ (len * 8)"
    using fits half pos unfolding val int_fits_def by (auto split: if_splits)
  have rb: "bval b = (if s \<and> 2 ^ (len * 8 - 1) \<le> bval ?u then bval ?u - 2 ^ (len * 8) else bval ?u)"
    using fits half pos unfolding val int_fits_def by (auto split: if_splits)
  have "bigint_to_fixed_bytes b len le s =
      Inr (if le then resize len 0 (to_abs_le_bytes ?u) else rev (resize len 0 (to_abs_le_bytes ?u)))"
    using unsigned_bytes(1) [OF w range len(1)] fits b len
    by (cases s; cases "bval b < 0") (simp_all add: bigint_to_fixed_bytes_def Let_def int_fits_def cmp_total_correct cmp_def bigint_wf bigint_val is_negative_iff)
  then show ?thesis using bytes_read_back [OF w range len(1) b rb] by auto
qed

lemma to_bytes_out_of_range:
  assumes b: "bwf b" and len: "0 < len" and no: "\<not> int_fits s len (bval b)"
  shows "\<exists>e. bigint_to_fixed_bytes b len le s = Inl e"
proof -
  have "\<not> length (to_abs_le_bytes b) \<le> len" if "\<not> s" "0 \<le> bval b"
    using that no length_to_abs_le_bytes [OF b len] exp_bytes [of len, where 'a = int] by (simp add: int_fits_def)
  then show ?thesis
    using b len no
    by (cases s) (auto simp: bigint_to_fixed_bytes_def Let_def int_fits_def int_too_big_def cmp_total_correct cmp_def bigint_wf bigint_val is_negative_iff)
qed

section \<open>Text\<close>

lemma to_string_digits:
  assumes "bwf b" "0 \<le> bval b"
  shows "bigint_to_string b \<noteq> [] \<and> (\<forall>c\<in>set (bigint_to_string b). is_ascii_digit c)"
proof (cases "is_zero b")
  case True
  then show ?thesis by (simp add: bigint_to_string_def str_def is_ascii_digit_def)
next
  case False
  then have ab: "bigint_abs b = b" and sg: "\<not> sign b < 0"
    using assms by (auto simp: bigint_abs_def is_negative_def sign_eq_sgn is_zero_iff sgn_if)
  let ?ds = "radix_loop 1000000000 b"
  have ne: "?ds \<noteq> []" using False by (intro radix_loop_nonempty) simp_all
  have s: "bigint_to_string b = nat_dec (unat (last ?ds)) @ concat (map (\<lambda>c. dec09 (unat c)) (rev (butlast ?ds)))"
    using False ab sg ne by (simp add: bigint_to_string_def Let_def)
  have "nat_dec n \<noteq> []" for n by (subst nat_dec.simps) simp
  then show ?thesis unfolding s by (auto simp: is_ascii_digit_def dest: nat_dec_digits dec09_digits)
qed

lemma digits_loop_digits:
  "\<forall>c\<in>set s. is_ascii_digit c \<Longrightarrow> s \<noteq> [] \<or> saw \<and> \<not> prev \<Longrightarrow> digits_loop saw prev s = Some s"
  by (induction saw prev s rule: digits_loop.induct) (auto simp: is_ascii_digit_def)

lemma trim_digits: "is_ascii_digit (last s) \<Longrightarrow> s \<noteq> [] \<Longrightarrow> rev (dropWhile is_whitespace (rev s)) = s"
  by (cases s rule: rev_cases) (auto simp: is_ascii_digit_def is_whitespace_def)

lemma literal_of_digits:
  assumes "bwf b" "0 \<le> bval b"
  shows "parse_decimal_bigint_literal (bigint_to_string b) = Inr b"
    and "parse_decimal_bigint_literal (45 # bigint_to_string b) = Inr (negated b)"
proof -
  let ?s = "bigint_to_string b"
  have s: "?s \<noteq> []" "\<forall>c\<in>set ?s. is_ascii_digit c" using to_string_digits [OF assms] by auto
  then have h: "is_ascii_digit (hd ?s)" "is_ascii_digit (last ?s)" by (simp_all add: hd_in_set)
  then have t: "rev (dropWhile is_whitespace (rev ?s)) = ?s" "rev (dropWhile is_whitespace (rev (45 # ?s))) = 45 # ?s"
    using s trim_digits [of ?s] trim_digits [of "45 # ?s"] by simp_all
  have d: "normalize_decimal_int_digits ?s = Some ?s"
    using s by (simp add: normalize_decimal_int_digits_def digits_loop_digits)
  show "parse_decimal_bigint_literal ?s = Inr b"
    using h(1) s(1) d bigint_to_string_parses [OF assms]
    by (auto simp: parse_decimal_bigint_literal_def t is_ascii_digit_def Let_def)
  show "parse_decimal_bigint_literal (45 # ?s) = Inr (negated b)"
    using d bigint_to_string_parses [OF assms] unfolding parse_decimal_bigint_literal_def Let_def t(2) by simp
qed

text \<open>\<open>int(str(n))\<close> is \<open>n\<close>, for negative numbers as well.\<close>

lemma literal_of_string:
  assumes "bwf b"
  shows "parse_decimal_bigint_literal (bigint_to_string b) = Inr b"
proof (cases "0 \<le> bval b")
  case False
  let ?a = "negated b"
  have a: "bwf ?a" "0 < bval ?a" using assms False by (simp_all add: bigint_wf bigint_val)
  have b: "negated ?a = b" using assms a by (intro wf_eqI) (simp_all add: bigint_wf bigint_val)
  show ?thesis using literal_of_digits(2) [OF a(1)] bigint_to_string_negated [OF a] a(2) by (simp add: b)
qed (use literal_of_digits assms in simp)

section \<open>Properties\<close>



text \<open>
  C5. Floor division and remainder are those of the integers, with a zero divisor an error, for all operands but one
  pair: the smallest machine integer divided by minus one is reported as an overflow, quotient and remainder alike,
  although the quotient is an integer like any other and the remainder is zero.
\<close>

theorem int_division_exact:
  assumes "sound a" "sound b"
  shows "\<exists>q r. floor_div_values a b = Some q \<and> mod_values a b = Some r \<and>
    (if int_of b = 0 then (\<exists>e. q = Inl e) \<and> r = Inl (ZeroDivisionErr ''modulo by zero'')
     else if overflows a b then q = Inl (OverflowErr ''integer overflow'') \<and> r = Inl (OverflowErr ''integer overflow'')
     else yields q (int_of a div int_of b) \<and> yields r (int_of a mod int_of b))"
proof (cases "integer_i64_pair a b")
  case None
  then show ?thesis using big_division [OF assms] by (auto simp: overflows_def split: if_splits)
next
  case (Some p)
  then show ?thesis using machine_division [of a b "fst p" "snd p"] by (auto split: if_splits)
qed

theorem int_division_exact_witness:
  "(\<exists>q. floor_div_values (VInt (- 7)) (VInt 2) = Some q \<and> yields q (- 4)) \<and>
   (\<exists>q. floor_div_values (VInt 0x8000000000000000) (VInt (- 1)) = Some q \<and> q = Inl (OverflowErr ''integer overflow''))"
  using int_division_exact [of "VInt (- 7)" "VInt 2"] int_division_exact [of "VInt 0x8000000000000000" "VInt (- 1)"]
  by (auto simp: overflows_def integer_i64_pair_def)

text \<open>
  C30. Bytes. \<open>to_bytes\<close> accepts exactly the integers of the given length, signed or not, and in both byte orders
  \<open>from_bytes\<close> reads back the number from the bytes it gives.
\<close>

theorem int_bytes_roundtrip:
  assumes "bwf b" "0 < len" "len * 8 < 2 ^ 64"
  shows "if int_fits s len (bval b)
    then \<exists>bs. bigint_to_fixed_bytes b len le s = Inr bs \<and> length bs = len \<and> bigint_from_bytes bs le s = b
    else \<exists>e. bigint_to_fixed_bytes b len le s = Inl e"
  using to_bytes_in_range to_bytes_out_of_range assms by simp

theorem int_bytes_roundtrip_witness:
  "\<exists>bs. bigint_to_fixed_bytes (from_i64 (- 300)) 2 False True = Inr bs \<and> length bs = 2 \<and>
     bigint_from_bytes bs False True = from_i64 (- 300)"
  using int_bytes_roundtrip [OF wf_from_i64, of 2 True "- 300" False] by (simp add: int_fits_def bval_from_i64)

end
