(* ===== verification/Slices.thy ===== *)
theory Slices
  imports Int_Spec
begin

text \<open>
  Slices, \<open>slice_indices\<close> and \<open>slice_bounds_for_step_one\<close> of \<^verbatim>\<open>src/vm/mod.rs\<close>: the indexes a slice selects of a
  sequence. \<open>isize\<close> and \<open>i64\<close> are 64-bit words; additions wrap, as in a release build.
\<close>

definition less_than :: "i64 \<Rightarrow> i64 \<Rightarrow> bool" where
  "less_than a b \<longleftrightarrow> sint a < sint b"

definition isize :: "nat \<Rightarrow> i64" where
  "isize len = of_nat len"

definition value_or :: "'a option \<Rightarrow> 'a \<Rightarrow> 'a" where
  "value_or x d = (case x of None \<Rightarrow> d | Some v \<Rightarrow> v)"

text \<open>A bound for a slice that goes forward: from the end when it is negative, then within \<open>0..len\<close>.\<close>

definition forward_bound :: "nat \<Rightarrow> i64 \<Rightarrow> i64" where
  "forward_bound len bound =
     (let bound = (if less_than bound 0 then bound + isize len else bound)
      in if less_than bound 0 then 0 else if less_than (isize len) bound then isize len else bound)"

text \<open>A bound for a slice that goes backward, within \<open>-1..len - 1\<close>.\<close>

definition backward_bound :: "nat \<Rightarrow> bool \<Rightarrow> i64 \<Rightarrow> i64" where
  "backward_bound len from_end bound =
     (let bound = (if from_end \<and> less_than bound 0 then bound + isize len else bound)
      in if less_than bound (- 1) then - 1 else if \<not> less_than bound (isize len) then isize len - 1 else bound)"

definition slice_ends :: "nat \<Rightarrow> i64 option \<Rightarrow> i64 option \<Rightarrow> i64 \<Rightarrow> i64 \<times> i64" where
  "slice_ends len lower upper step =
     (if less_than 0 step then
        (forward_bound len (value_or lower 0), forward_bound len (value_or upper (isize len)))
      else
        (backward_bound len True (value_or lower (isize len - 1)),
         backward_bound len (upper \<noteq> None) (value_or upper (- 1))))"

partial_function (option) slice_loop :: "nat \<Rightarrow> i64 \<Rightarrow> i64 \<Rightarrow> i64 \<Rightarrow> nat list \<Rightarrow> nat list option" where
  "slice_loop len step stop i indices =
     (if (if less_than 0 step then less_than i stop else less_than stop i) then
        slice_loop len step stop (i + step)
          (if \<not> less_than i 0 \<and> less_than i (isize len) then indices @ [unat i] else indices)
      else Some indices)"

definition slice_indices :: "nat \<Rightarrow> i64 option \<Rightarrow> i64 option \<Rightarrow> i64 option \<Rightarrow> nat list ores option" where
  "slice_indices len lower upper step =
     (let step = value_or step 1
      in if step = 0 then Some (Inl (ValueErr ''slice step cannot be zero''))
         else let (start, stop) = slice_ends len lower upper step
              in map_option Inr (slice_loop len step stop start []))"

definition slice_bounds_for_step_one :: "nat \<Rightarrow> i64 option \<Rightarrow> i64 option \<Rightarrow> nat \<times> nat" where
  "slice_bounds_for_step_one len lower upper =
     (unat (forward_bound len (value_or lower 0)), unat (forward_bound len (value_or upper (isize len))))"

end
