(* ===== verification/Slices_Spec.thy ===== *)
theory Slices_Spec
  imports Slices
begin

text \<open>
  What a slice selects. The reference is the definition of the language: the bounds are taken from the end when they
  are negative and cut to the sequence, and every \<open>step\<close>-th index between them is selected.
\<close>

section \<open>The reference\<close>

definition py_bound :: "int \<Rightarrow> int \<Rightarrow> int \<Rightarrow> int \<Rightarrow> int" where
  "py_bound len lo hi b = max lo (min hi (if b < 0 then b + len else b))"

definition indexes :: "nat \<Rightarrow> (int \<Rightarrow> bool) \<Rightarrow> nat list" where
  "indexes len P = filter (\<lambda>j. P (int j)) [0..<len]"

definition py_slice :: "nat \<Rightarrow> int option \<Rightarrow> int option \<Rightarrow> int \<Rightarrow> nat list" where
  "py_slice len lower upper step =
     (let n = int len in
      if 0 < step then
        (let start = (case lower of None \<Rightarrow> 0 | Some b \<Rightarrow> py_bound n 0 n b);
             stop = (case upper of None \<Rightarrow> n | Some b \<Rightarrow> py_bound n 0 n b)
         in indexes len (\<lambda>j. start \<le> j \<and> j < stop \<and> step dvd j - start))
      else
        (let start = (case lower of None \<Rightarrow> n - 1 | Some b \<Rightarrow> py_bound n (- 1) (n - 1) b);
             stop = (case upper of None \<Rightarrow> - 1 | Some b \<Rightarrow> py_bound n (- 1) (n - 1) b)
         in rev (indexes len (\<lambda>j. j \<le> start \<and> stop < j \<and> - step dvd start - j))))"

lemma py_bound_default:
  "0 \<le> n \<Longrightarrow> py_bound n 0 n 0 = 0" "0 \<le> n \<Longrightarrow> py_bound n 0 n n = n" "0 \<le> n \<Longrightarrow> py_bound n (- 1) (n - 1) (n - 1) = n - 1"
  by (auto simp: py_bound_def)

section \<open>Words as integers\<close>

lemma value_or_simps [simp]: "value_or None d = d" "value_or (Some v) d = v"
  by (simp_all add: value_or_def)

lemma sint_isize: "len < 2 ^ 63 \<Longrightarrow> sint (isize len) = int len"
  using sint_of_int64 [of "int len"] by (simp add: isize_def machine_int_def)

lemma sint_add64: "machine_int (sint a + sint b) \<Longrightarrow> sint (a + b :: i64) = sint a + sint b"
  using sint_of_int64 [of "sint a + sint b"] by (simp flip: wi_hom_add)

lemma unat_sint:
  assumes "0 \<le> sint (i :: i64)"
  shows "unat i = nat (sint i)"
proof -
  have "uint i = uint (word_of_int (sint i) :: i64)" by simp
  also have "\<dots> = sint i" unfolding uint_word_of_int using assms sint_u64_range [of i] by simp
  finally show ?thesis by (simp add: unat_eq_nat_uint)
qed

section \<open>The loop\<close>

lemma indexes_eq:
  assumes "sorted_wrt (<) ys" "set ys = {j. j < len \<and> P (int j)}"
  shows "indexes len P = ys"
proof (rule sorted_distinct_set_unique)
  show "sorted (indexes len P)" "distinct (indexes len P)" by (simp_all add: indexes_def sorted_filter [where f = id, simplified])
  show "sorted ys" "distinct ys" using assms(1) by (simp_all add: strict_sorted_iff)
  show "set (indexes len P) = set ys" using assms(2) by (auto simp: indexes_def)
qed

lemma sorted_indexes: "sorted_wrt (<) (indexes len P)"
  unfolding indexes_def by (intro sorted_wrt_filter) simp

lemma set_indexes [simp]: "set (indexes len P) = {j. j < len \<and> P (int j)}"
  by (auto simp: indexes_def)

lemma dvd_shift: "(s :: int) dvd j - (a + s) \<longleftrightarrow> s dvd j - a"
  using dvd_add_left_iff [of s "- s" "j - a"] by (simp add: algebra_simps)

lemma dvd_between: "0 < s \<Longrightarrow> (s :: int) dvd j - a \<Longrightarrow> a \<le> j \<Longrightarrow> j \<noteq> a \<Longrightarrow> a + s \<le> j"
  using zdvd_imp_le [of s "j - a"] by simp

lemma indexes_forward:
  assumes "0 \<le> a" "a < b" "b \<le> int len" "0 < s"
  shows "indexes len (\<lambda>j. a \<le> j \<and> j < b \<and> s dvd j - a) =
    nat a # indexes len (\<lambda>j. a + s \<le> j \<and> j < b \<and> s dvd j - (a + s))"
proof (rule indexes_eq)
  show "sorted_wrt (<) (nat a # indexes len (\<lambda>j. a + s \<le> j \<and> j < b \<and> s dvd j - (a + s)))"
    using assms sorted_indexes by auto
  show "set (nat a # indexes len (\<lambda>j. a + s \<le> j \<and> j < b \<and> s dvd j - (a + s))) =
      {j. j < len \<and> a \<le> int j \<and> int j < b \<and> s dvd int j - a}"
    using assms dvd_between [OF assms(4), of _ a] by (auto simp: dvd_shift)
qed

lemma indexes_backward:
  assumes "b < a" "- 1 \<le> b" "a < int len" "0 < s"
  shows "indexes len (\<lambda>j. j \<le> a \<and> b < j \<and> s dvd a - j) =
    indexes len (\<lambda>j. j \<le> a - s \<and> b < j \<and> s dvd a - s - j) @ [nat a]"
proof (rule indexes_eq)
  show "sorted_wrt (<) (indexes len (\<lambda>j. j \<le> a - s \<and> b < j \<and> s dvd a - s - j) @ [nat a])"
    using assms sorted_indexes by (auto simp: sorted_wrt_append)
  have "s dvd a - s - j \<longleftrightarrow> s dvd a - j" for j
    using dvd_shift [of s a j] by (simp add: algebra_simps)
  moreover have "int x \<le> a - s" if "int x \<le> a" "s dvd a - int x" "x \<noteq> nat a" for x
    using dvd_between [OF assms(4) that(2)] that(1,3) by (cases "a = int x") auto
  ultimately show "set (indexes len (\<lambda>j. j \<le> a - s \<and> b < j \<and> s dvd a - s - j) @ [nat a]) =
      {j. j < len \<and> int j \<le> a \<and> b < int j \<and> s dvd a - int j}"
    using assms by auto
qed

lemma indexes_none: "(\<And>j. j < len \<Longrightarrow> \<not> P (int j)) \<Longrightarrow> indexes len P = []"
  by (simp add: indexes_def)

lemma loop_forward:
  assumes "sint stop \<le> int len" "len < 2 ^ 63" "0 < sint step" "int len + sint step \<le> 2 ^ 63" "0 \<le> sint i"
  shows "slice_loop len step stop i acc =
    Some (acc @ indexes len (\<lambda>j. sint i \<le> j \<and> j < sint stop \<and> sint step dvd j - sint i))"
  using assms(5)
proof (induction "nat (sint stop - sint i)" arbitrary: i acc rule: less_induct)
  case less
  show ?case
  proof (cases "sint i < sint stop")
    case True
    have next_i: "sint (i + step) = sint i + sint step"
      using assms less.prems True by (intro sint_add64) (simp add: machine_int_def)
    have "slice_loop len step stop i acc = slice_loop len step stop (i + step) (acc @ [unat i])"
      using True assms less.prems
      by (subst slice_loop.simps) (simp add: less_than_def sint_isize)
    also have "\<dots> = Some ((acc @ [unat i]) @ indexes len (\<lambda>j. sint (i + step) \<le> j \<and> j < sint stop \<and> sint step dvd j - sint (i + step)))"
      using True assms less.prems next_i by (intro less.hyps) auto
    finally show ?thesis
      using indexes_forward [OF less.prems True assms(1,3)] less.prems by (simp add: next_i unat_sint)
  next
    case False
    then have "slice_loop len step stop i acc = Some acc"
      using assms by (subst slice_loop.simps) (simp add: less_than_def)
    then show ?thesis using False by (simp add: indexes_none)
  qed
qed

lemma loop_backward:
  assumes "- 1 \<le> sint stop" "len < 2 ^ 63" "sint step < 0" "sint i < int len"
  shows "slice_loop len step stop i acc =
    Some (acc @ rev (indexes len (\<lambda>j. j \<le> sint i \<and> sint stop < j \<and> - sint step dvd sint i - j)))"
  using assms(4)
proof (induction "nat (sint i - sint stop)" arbitrary: i acc rule: less_induct)
  case less
  show ?case
  proof (cases "sint stop < sint i")
    case True
    have next_i: "sint (i + step) = sint i + sint step"
      using assms less.prems True sint_u64_range [of step] sint_u64_range [of i] by (intro sint_add64) (simp add: machine_int_def)
    have "slice_loop len step stop i acc = slice_loop len step stop (i + step) (acc @ [unat i])"
      using True assms less.prems
      by (subst slice_loop.simps) (simp add: less_than_def sint_isize)
    also have "\<dots> = Some ((acc @ [unat i]) @ rev (indexes len (\<lambda>j. j \<le> sint (i + step) \<and> sint stop < j \<and> - sint step dvd sint (i + step) - j)))"
      using True assms less.prems next_i by (intro less.hyps) auto
    finally show ?thesis
      using indexes_backward [of "sint stop" "sint i" len "- sint step"] True assms less.prems by (simp add: next_i unat_sint)
  next
    case False
    then have "slice_loop len step stop i acc = Some acc"
      using assms by (subst slice_loop.simps) (simp add: less_than_def)
    then show ?thesis using False by (simp add: indexes_none)
  qed
qed

section \<open>The ends\<close>

lemma forward_bound_val:
  assumes "len < 2 ^ 63"
  shows "sint (forward_bound len b) = py_bound (int len) 0 (int len) (sint b)"
proof -
  have "sint (b + isize len) = sint b + int len" if "sint b < 0"
    using that assms sint_u64_range [of b] sint_add64 [of b "isize len"] by (simp add: sint_isize machine_int_def)
  then show ?thesis using assms by (auto simp: forward_bound_def py_bound_def less_than_def sint_isize Let_def)
qed

lemma backward_bound_val:
  assumes "len < 2 ^ 63"
  shows "sint (backward_bound len from_end b) =
    (if from_end then py_bound (int len) (- 1) (int len - 1) (sint b) else max (- 1) (min (int len - 1) (sint b)))"
proof -
  have "sint (b + isize len) = sint b + int len" if "sint b < 0"
    using that assms sint_u64_range [of b] sint_add64 [of b "isize len"] by (simp add: sint_isize machine_int_def)
  moreover have "sint (isize len - 1) = int len - 1"
    using assms sint_add64 [of "isize len" "- 1"] by (simp add: sint_isize machine_int_def)
  ultimately show ?thesis using assms by (auto simp: backward_bound_def py_bound_def less_than_def sint_isize Let_def)
qed

lemma step_one_bounds:
  assumes "len < 2 ^ 63"
  shows "slice_bounds_for_step_one len lower upper =
    (nat (case lower of None \<Rightarrow> 0 | Some b \<Rightarrow> py_bound (int len) 0 (int len) (sint b)),
     nat (case upper of None \<Rightarrow> int len | Some b \<Rightarrow> py_bound (int len) 0 (int len) (sint b)))"
proof -
  have "unat (forward_bound len b) = nat (py_bound (int len) 0 (int len) (sint b))" for b
    using unat_sint [of "forward_bound len b"] forward_bound_val [OF assms, of b] by (simp add: py_bound_def)
  then show ?thesis using assms
    by (cases lower; cases upper) (simp_all add: slice_bounds_for_step_one_def sint_isize py_bound_default)
qed

section \<open>Properties\<close>



text \<open>
  A step near the largest machine integer makes the index wrap around and select elements a second time round:
  the slice of ten elements from the last one on has one element.
\<close>

lemma large_step_wraps:
  "slice_indices 10 (Some 9) None (Some 0x7FFFFFFFFFFFFFFF) = Some (Inr [9, 7, 5, 3, 1])"
  "py_slice 10 (Some 9) None 0x7FFFFFFFFFFFFFFF = [9]"
  by (simp_all add: slice_indices_def slice_ends_def forward_bound_def value_or_def less_than_def isize_def Let_def
      slice_loop.simps py_slice_def py_bound_def indexes_def upt_rec)

end
