(* ===== verification/Calls.thy ===== *)
theory Calls
  imports Bigint_Text
begin

text \<open>
  Binding the arguments of a call to the parameters of a function, \<open>bind_arguments\<close> of \<^verbatim>\<open>src/vm/mod.rs\<close>. Values are
  any type. The keyword arguments are a hash map; the list here gives its entries in the order the map iterates over
  them, with \<open>kwargs_order\<close> the order of the call when it is known. The name errors use is computed elsewhere.
\<close>

record 'v FunctionObject =
  fo_name :: rstring
  posonly_params :: "rstring list"
  params :: "rstring list"
  kwonly_params :: "rstring list"
  fo_vararg :: "rstring option"
  fo_kwarg :: "rstring option"
  fo_defaults :: "'v list"
  kwonly_defaults :: "rstring \<Rightarrow> 'v option"

record 'v BoundArguments =
  ba_posonly :: "'v list"
  ba_positional :: "'v list"
  ba_kwonly :: "'v list"
  ba_vararg :: "'v list option"
  ba_kwarg :: "(rstring \<times> 'v) list option"

datatype CallError = CallTypeError rstring | CallPlainError rstring | CallPanic

type_synonym 'a bres = "CallError + 'a"

section \<open>Messages\<close>

definition quote_name :: "rstring \<Rightarrow> rstring" where
  "quote_name nm = [39] @ nm @ [39]"

fun join_comma :: "rstring list \<Rightarrow> rstring" where
  "join_comma [] = []"
| "join_comma [x] = x"
| "join_comma (x # y # xs) = x @ str '', '' @ join_comma (y # xs)"

definition format_missing_positional_arguments_error :: "rstring \<Rightarrow> rstring list \<Rightarrow> rstring" where
  "format_missing_positional_arguments_error fn missing =
     (case missing of
        [] \<Rightarrow> fn @ str ''() missing required positional argument''
      | [a] \<Rightarrow> fn @ str ''() missing 1 required positional argument: '' @ quote_name a
      | [a, b] \<Rightarrow> fn @ str ''() missing 2 required positional arguments: '' @ quote_name a @ str '' and '' @ quote_name b
      | _ \<Rightarrow> fn @ str ''() missing '' @ nat_dec (length missing) @ str '' required positional arguments: '' @
          join_comma (map quote_name (butlast missing)) @ str '', and '' @ quote_name (last missing))"

definition format_too_many_positional_arguments_error :: "rstring \<Rightarrow> nat \<Rightarrow> nat \<Rightarrow> nat \<Rightarrow> rstring" where
  "format_too_many_positional_arguments_error fn min_expected max_expected given =
     (let given_verb = str (if given = 1 then ''was'' else ''were'')
      in if min_expected = max_expected then
           fn @ str ''() takes '' @ nat_dec max_expected @ str '' positional '' @
             str (if max_expected = 1 then ''argument'' else ''arguments'') @
             str '' but '' @ nat_dec given @ str '' '' @ given_verb @ str '' given''
         else
           fn @ str ''() takes from '' @ nat_dec min_expected @ str '' to '' @ nat_dec max_expected @
             str '' positional arguments but '' @ nat_dec given @ str '' '' @ given_verb @ str '' given'')"

definition multiple_values :: "rstring \<Rightarrow> rstring \<Rightarrow> 'a bres" where
  "multiple_values fn nm = Inl (CallTypeError (fn @ str ''() got multiple values for argument '' @ quote_name nm))"

definition unexpected_keyword :: "rstring \<Rightarrow> rstring \<Rightarrow> 'a bres" where
  "unexpected_keyword fn nm = Inl (CallTypeError (fn @ str ''() got an unexpected keyword argument '' @ quote_name nm))"

section \<open>Binding\<close>

text \<open>The entries named by the order of the call first, then those left in the map.\<close>

fun ordered_kwargs :: "rstring list \<Rightarrow> (rstring \<times> 'v) list \<Rightarrow> (rstring \<times> 'v) list" where
  "ordered_kwargs [] kwargs = kwargs"
| "ordered_kwargs (nm # order) kwargs =
     (case map_of kwargs nm of
        None \<Rightarrow> ordered_kwargs order kwargs
      | Some v \<Rightarrow> (nm, v) # ordered_kwargs order (filter (\<lambda>(k, _). k \<noteq> nm) kwargs))"

fun position_of :: "'a \<Rightarrow> 'a list \<Rightarrow> nat option" where
  "position_of x [] = None"
| "position_of x (y # ys) = (if x = y then Some 0 else map_option Suc (position_of x ys))"

text \<open>The slots of the positional parameters, the keyword-only values, the keywords for \<open>**kwargs\<close>.\<close>

record 'v BindState =
  bs_bound :: "'v option list"
  bs_kwonly :: "rstring \<Rightarrow> 'v option"
  bs_extra :: "(rstring \<times> 'v) list"

definition add_extra :: "rstring \<Rightarrow> rstring \<times> 'v \<Rightarrow> 'v BindState \<Rightarrow> 'v BindState bres" where
  "add_extra fn kv st =
     (if fst kv \<in> fst ` set (bs_extra st) then multiple_values fn (fst kv)
      else Inr (st\<lparr>bs_extra := bs_extra st @ [kv]\<rparr>))"

definition bind_keyword :: "'v FunctionObject \<Rightarrow> rstring \<times> 'v \<Rightarrow> 'v BindState \<Rightarrow> 'v BindState bres" where
  "bind_keyword f kv st =
     (let nm = fst kv; n = length (posonly_params f)
      in if nm \<in> set (posonly_params f) then
           (if fo_kwarg f \<noteq> None then add_extra (fo_name f) kv st else unexpected_keyword (fo_name f) nm)
         else case position_of nm (params f) of
             Some i \<Rightarrow>
               (if bs_bound st ! (n + i) \<noteq> None then multiple_values (fo_name f) nm
                else Inr (st\<lparr>bs_bound := (bs_bound st)[n + i := Some (snd kv)]\<rparr>))
           | None \<Rightarrow>
               (if nm \<in> set (kwonly_params f) then
                  (if bs_kwonly st nm \<noteq> None then multiple_values (fo_name f) nm
                   else Inr (st\<lparr>bs_kwonly := (bs_kwonly st)(nm \<mapsto> snd kv)\<rparr>))
                else if fo_kwarg f \<noteq> None then add_extra (fo_name f) kv st
                else unexpected_keyword (fo_name f) nm))"

fun bind_keywords :: "'v FunctionObject \<Rightarrow> (rstring \<times> 'v) list \<Rightarrow> 'v BindState \<Rightarrow> 'v BindState bres" where
  "bind_keywords f [] st = Inr st"
| "bind_keywords f (kv # kvs) st = bindr (bind_keyword f kv st) (bind_keywords f kvs)"

definition missing_required :: "'v FunctionObject \<Rightarrow> 'v option list \<Rightarrow> nat \<Rightarrow> rstring list" where
  "missing_required f bound required =
     map (\<lambda>i. (posonly_params f @ params f) ! i) (filter (\<lambda>i. bound ! i = None) [0..<required])"

text \<open>The slots from \<open>required\<close> on that are empty get their defaults.\<close>

definition fill_defaults :: "'v list \<Rightarrow> nat \<Rightarrow> 'v option list \<Rightarrow> 'v option list" where
  "fill_defaults defaults required bound =
     map (\<lambda>(i, slot). if required \<le> i \<and> slot = None then Some (defaults ! (i - required)) else slot)
       (zip [0..<length bound] bound)"

fun unwrap_all :: "'v option list \<Rightarrow> 'v list bres" where
  "unwrap_all [] = Inr []"
| "unwrap_all (None # xs) = Inl CallPanic"
| "unwrap_all (Some v # xs) = bindr (unwrap_all xs) (\<lambda>vs. Inr (v # vs))"

fun collect_kwonly :: "(rstring \<Rightarrow> 'v option) \<Rightarrow> rstring list \<Rightarrow> (rstring \<Rightarrow> 'v option) \<Rightarrow> 'v list bres" where
  "collect_kwonly defaults [] values = Inr []"
| "collect_kwonly defaults (nm # names) values =
     (case values nm of
        Some v \<Rightarrow> bindr (collect_kwonly defaults names (values(nm := None))) (\<lambda>vs. Inr (v # vs))
      | None \<Rightarrow>
          (case defaults nm of
             Some v \<Rightarrow> bindr (collect_kwonly defaults names values) (\<lambda>vs. Inr (v # vs))
           | None \<Rightarrow> Inl (CallTypeError (str ''missing keyword-only argument''))))"

definition bind_plain :: "'v FunctionObject \<Rightarrow> 'v list \<Rightarrow> 'v BoundArguments bres" where
  "bind_plain f positional =
     (let n = length (posonly_params f); total = n + length (params f)
      in if length positional < total then
           Inl (CallTypeError (format_missing_positional_arguments_error (fo_name f)
             (map (\<lambda>i. if i < n then posonly_params f ! i else params f ! (i - n)) [length positional..<total])))
         else if total < length positional then
           Inl (CallTypeError (format_too_many_positional_arguments_error (fo_name f) total total (length positional)))
         else Inr \<lparr>ba_posonly = take n positional, ba_positional = drop n positional, ba_kwonly = [],
                  ba_vararg = None, ba_kwarg = None\<rparr>)"

definition bind_full :: "'v FunctionObject \<Rightarrow> 'v list \<Rightarrow> (rstring \<times> 'v) list \<Rightarrow> 'v BoundArguments bres" where
  "bind_full f positional kwargs =
     (let n = length (posonly_params f); total = n + length (params f); required = total - length (fo_defaults f)
      in if total < length (fo_defaults f) then Inl (CallPlainError (str ''invalid function defaults''))
         else if total < length positional \<and> fo_vararg f = None then
           Inl (CallTypeError (format_too_many_positional_arguments_error (fo_name f) required total (length positional)))
         else
           bindr (bind_keywords f kwargs
                   \<lparr>bs_bound = map Some (take total positional) @ replicate (total - length positional) None,
                    bs_kwonly = (\<lambda>_. None), bs_extra = []\<rparr>) (\<lambda>st.
             let missing = missing_required f (bs_bound st) required
             in if missing \<noteq> [] then Inl (CallTypeError (format_missing_positional_arguments_error (fo_name f) missing))
                else let bound = fill_defaults (fo_defaults f) required (bs_bound st)
                     in bindr (unwrap_all (take n bound)) (\<lambda>posonly.
                        bindr (unwrap_all (drop n bound)) (\<lambda>positional_values.
                        bindr (collect_kwonly (kwonly_defaults f) (kwonly_params f) (bs_kwonly st)) (\<lambda>kwonly.
                        Inr \<lparr>ba_posonly = posonly, ba_positional = positional_values, ba_kwonly = kwonly,
                          ba_vararg = map_option (\<lambda>_. drop total positional) (fo_vararg f),
                          ba_kwarg = map_option (\<lambda>_. bs_extra st) (fo_kwarg f)\<rparr>)))))"

definition bind_arguments ::
  "'v FunctionObject \<Rightarrow> 'v list \<Rightarrow> (rstring \<times> 'v) list \<Rightarrow> rstring list option \<Rightarrow> 'v BoundArguments bres" where
  "bind_arguments f positional kwargs kwargs_order =
     (if kwargs = [] \<and> fo_defaults f = [] \<and> kwonly_params f = [] \<and> fo_vararg f = None \<and> fo_kwarg f = None then
        bind_plain f positional
      else bind_full f positional (ordered_kwargs (case kwargs_order of None \<Rightarrow> [] | Some order \<Rightarrow> order) kwargs))"

end
