(* ===== verification/Calls_Spec.thy ===== *)
theory Calls_Spec
  imports Calls
begin

text \<open>
  What a call binds. The reference states, parameter by parameter, where its value comes from; \<open>bind_arguments\<close> is
  shown to compute it and to fail exactly when the call is not one the signature allows.
\<close>

section \<open>The reference\<close>

definition names_of :: "'v FunctionObject \<Rightarrow> rstring list" where
  "names_of f = posonly_params f @ params f"

definition required_of :: "'v FunctionObject \<Rightarrow> nat" where
  "required_of f = length (names_of f) - length (fo_defaults f)"

text \<open>A keyword that goes into \<open>**kwargs\<close>: no parameter takes it by name.\<close>

definition extra_keyword :: "'v FunctionObject \<Rightarrow> rstring \<Rightarrow> bool" where
  "extra_keyword f nm \<longleftrightarrow> nm \<notin> set (params f) \<and> nm \<notin> set (kwonly_params f)"

text \<open>The value of the \<open>i\<close>-th positional parameter: its argument, its keyword, its default.\<close>

definition positional_value :: "'v FunctionObject \<Rightarrow> 'v list \<Rightarrow> (rstring \<Rightarrow> 'v option) \<Rightarrow> nat \<Rightarrow> 'v option" where
  "positional_value f pos kw i =
     (if i < length pos then Some (pos ! i)
      else if length (posonly_params f) \<le> i \<and> kw (names_of f ! i) \<noteq> None then kw (names_of f ! i)
      else if required_of f \<le> i then Some (fo_defaults f ! (i - required_of f)) else None)"

definition kwonly_value :: "'v FunctionObject \<Rightarrow> (rstring \<Rightarrow> 'v option) \<Rightarrow> rstring \<Rightarrow> 'v option" where
  "kwonly_value f kw nm = (case kw nm of Some v \<Rightarrow> Some v | None \<Rightarrow> kwonly_defaults f nm)"

text \<open>
  The calls a signature allows: no surplus of positional arguments without \<open>*args\<close>, no unknown keyword without
  \<open>**kwargs\<close>, no parameter given twice, none left without a value.
\<close>

definition call_allowed :: "'v FunctionObject \<Rightarrow> 'v list \<Rightarrow> (rstring \<Rightarrow> 'v option) \<Rightarrow> bool" where
  "call_allowed f pos kw \<longleftrightarrow>
     (length pos \<le> length (names_of f) \<or> fo_vararg f \<noteq> None) \<and>
     (\<forall>nm\<in>dom kw. extra_keyword f nm \<longrightarrow> fo_kwarg f \<noteq> None) \<and>
     (\<forall>i < length (names_of f). length (posonly_params f) \<le> i \<and> i < length pos \<longrightarrow> kw (names_of f ! i) = None) \<and>
     (\<forall>i < length (names_of f). positional_value f pos kw i \<noteq> None) \<and>
     (\<forall>nm\<in>set (kwonly_params f). kwonly_value f kw nm \<noteq> None)"

definition bound_values :: "'v FunctionObject \<Rightarrow> 'v list \<Rightarrow> (rstring \<times> 'v) list \<Rightarrow> 'v BoundArguments" where
  "bound_values f pos kwargs =
     (let kw = map_of kwargs; n = length (posonly_params f); total = length (names_of f)
      in \<lparr>ba_posonly = map (\<lambda>i. the (positional_value f pos kw i)) [0..<n],
          ba_positional = map (\<lambda>i. the (positional_value f pos kw i)) [n..<total],
          ba_kwonly = map (\<lambda>nm. the (kwonly_value f kw nm)) (kwonly_params f),
          ba_vararg = map_option (\<lambda>_. drop total pos) (fo_vararg f),
          ba_kwarg = map_option (\<lambda>_. filter (\<lambda>kv. extra_keyword f (fst kv)) kwargs) (fo_kwarg f)\<rparr>)"

text \<open>A signature as the compiler makes it: distinct names, no more defaults than positional parameters.\<close>

definition signature_ok :: "'v FunctionObject \<Rightarrow> bool" where
  "signature_ok f \<longleftrightarrow> distinct (names_of f @ kwonly_params f) \<and> length (fo_defaults f) \<le> length (names_of f)"

section \<open>The keywords in the order of the call\<close>

lemma map_of_ordered: "map_of (ordered_kwargs order kwargs) = map_of kwargs"
proof (induction order kwargs rule: ordered_kwargs.induct)
  case (2 nm order kwargs)
  show ?case
  proof (cases "map_of kwargs nm")
    case (Some v)
    have "map_of (filter (\<lambda>(k, _). k \<noteq> nm) kwargs) x = (if x = nm then None else map_of kwargs x)" for x
      by (induction kwargs) auto
    then show ?thesis using 2 Some by (auto simp: fun_eq_iff)
  qed (use 2 in simp)
qed simp

lemma distinct_ordered:
  "distinct (map fst kwargs) \<Longrightarrow> distinct (map fst (ordered_kwargs order kwargs))"
proof (induction order kwargs rule: ordered_kwargs.induct)
  case (2 nm order kwargs)
  show ?case
  proof (cases "map_of kwargs nm")
    case (Some v)
    let ?rest = "filter (\<lambda>(k, _). k \<noteq> nm) kwargs"
    have d: "distinct (map fst ?rest)" using 2 by (simp add: distinct_map_filter)
    have "map_of (ordered_kwargs order ?rest) nm = None"
      unfolding map_of_ordered by (auto simp: map_of_eq_None_iff)
    then show ?thesis using 2 Some d by (auto simp: map_of_eq_None_iff)
  qed (use 2 in simp)
qed simp

text \<open>When the order names every keyword once, it is the order of the result.\<close>

lemma ordered_follows:
  assumes "distinct order" "set order = fst ` set kwargs" "distinct (map fst kwargs)"
  shows "map fst (ordered_kwargs order kwargs) = order"
  using assms
proof (induction order kwargs rule: ordered_kwargs.induct)
  case (2 nm order kwargs)
  have "nm \<in> fst ` set kwargs" using "2.prems"(2) by auto
  then obtain v where v: "map_of kwargs nm = Some v" by (metis map_of_eq_None_iff not_Some_eq)
  let ?rest = "filter (\<lambda>(k, _). k \<noteq> nm) kwargs"
  have "fst ` set ?rest = fst ` set kwargs - {nm}" by force
  then have "set order = fst ` set ?rest" using "2.prems"(1,2) by auto
  moreover have "distinct (map fst ?rest)" "distinct order" using "2.prems"(1,3) by (simp_all add: distinct_map_filter)
  ultimately have "map fst (ordered_kwargs order ?rest) = order" using "2.IH"(2) [OF v] by blast
  then show ?case using v by simp
qed simp

section \<open>Binding keywords\<close>

lemma position_of_Some: "position_of x xs = Some i \<Longrightarrow> i < length xs \<and> xs ! i = x"
  by (induction xs arbitrary: i) (auto split: if_splits)

lemma position_of_None: "position_of x xs = None \<longleftrightarrow> x \<notin> set xs"
  by (induction xs) auto

definition accepts :: "'v FunctionObject \<Rightarrow> 'v BindState \<Rightarrow> rstring \<Rightarrow> bool" where
  "accepts f st nm \<longleftrightarrow>
     (if extra_keyword f nm then fo_kwarg f \<noteq> None \<and> nm \<notin> fst ` set (bs_extra st)
      else (\<forall>i < length (names_of f). length (posonly_params f) \<le> i \<and> names_of f ! i = nm \<longrightarrow> bs_bound st ! i = None) \<and>
        (nm \<in> set (kwonly_params f) \<longrightarrow> bs_kwonly st nm = None))"

definition bind_all :: "'v FunctionObject \<Rightarrow> (rstring \<times> 'v) list \<Rightarrow> 'v BindState \<Rightarrow> 'v BindState" where
  "bind_all f kvs st =
     \<lparr>bs_bound = map (\<lambda>i. if bs_bound st ! i = None \<and> length (posonly_params f) \<le> i then map_of kvs (names_of f ! i)
         else bs_bound st ! i) [0..<length (names_of f)],
      bs_kwonly = (\<lambda>nm. if bs_kwonly st nm = None \<and> nm \<in> set (kwonly_params f) then map_of kvs nm else bs_kwonly st nm),
      bs_extra = bs_extra st @ filter (\<lambda>kv. extra_keyword f (fst kv)) kvs\<rparr>"

lemma name_cases:
  assumes "signature_ok f"
  obtains "nm \<in> set (posonly_params f)" "extra_keyword f nm"
  | i where "nm \<notin> set (posonly_params f)" "position_of nm (params f) = Some i" "i < length (params f)" "params f ! i = nm"
      "nm \<notin> set (kwonly_params f)" "\<not> extra_keyword f nm"
  | "nm \<notin> set (posonly_params f)" "position_of nm (params f) = None" "nm \<in> set (kwonly_params f)" "\<not> extra_keyword f nm" "nm \<notin> set (params f)"
  | "nm \<notin> set (posonly_params f)" "position_of nm (params f) = None" "nm \<notin> set (kwonly_params f)" "extra_keyword f nm"
proof (cases "nm \<in> set (posonly_params f)")
  case True
  then show thesis using that(1) assms by (auto simp: signature_ok_def names_of_def extra_keyword_def)
next
  case False
  show thesis
  proof (cases "position_of nm (params f)")
    case (Some i)
    then have "i < length (params f)" "params f ! i = nm" by (auto dest: position_of_Some)
    then have "nm \<in> set (params f)" by auto
    then show thesis using that(2) [of i] Some False assms \<open>i < length (params f)\<close> \<open>params f ! i = nm\<close>
      by (auto simp: signature_ok_def names_of_def extra_keyword_def)
  next
    case None
    then have "nm \<notin> set (params f)" by (simp add: position_of_None)
    then show thesis using that(3,4) None False by (auto simp: extra_keyword_def)
  qed
qed

lemma names_nth_params:
  assumes "signature_ok f" "i < length (params f)" "j < length (names_of f)"
  shows "names_of f ! j = params f ! i \<longleftrightarrow> j = length (posonly_params f) + i"
proof -
  have "names_of f ! (length (posonly_params f) + i) = params f ! i" "length (posonly_params f) + i < length (names_of f)"
    using assms(2) by (simp_all add: names_of_def nth_append)
  moreover have "distinct (names_of f)" using assms(1) by (simp add: signature_ok_def)
  ultimately show ?thesis using assms(3) nth_eq_iff_index_eq by metis
qed

lemma bind_keyword_step:
  assumes s: "signature_ok f" and len: "length (bs_bound st) = length (names_of f)"
  shows "if accepts f st nm then bind_keyword f (nm, v) st = Inr (bind_all f [(nm, v)] st)
    else \<exists>e. bind_keyword f (nm, v) st = Inl (CallTypeError e)"
  using s
proof (cases rule: name_cases [where nm = nm])
  case 1
  have "names_of f ! i \<noteq> nm" if "length (posonly_params f) \<le> i" "i < length (names_of f)" for i
    using 1 s that by (auto simp: names_of_def nth_append signature_ok_def)
  then have "map (\<lambda>i. if bs_bound st ! i = None \<and> length (posonly_params f) \<le> i then map_of [(nm, v)] (names_of f ! i)
      else bs_bound st ! i) [0..<length (names_of f)] = bs_bound st"
    using len by (intro nth_equalityI) auto
  then show ?thesis using 1
    by (auto simp: bind_keyword_def accepts_def add_extra_def multiple_values_def unexpected_keyword_def bind_all_def extra_keyword_def fun_eq_iff)
next
  case (2 i)
  have nth: "names_of f ! j = nm \<longleftrightarrow> j = length (posonly_params f) + i" if "j < length (names_of f)" for j
    using names_nth_params [OF s 2(3) that] 2 by simp
  have lt: "length (posonly_params f) + i < length (names_of f)" using 2 by (simp add: names_of_def)
  have acc: "accepts f st nm \<longleftrightarrow> bs_bound st ! (length (posonly_params f) + i) = None"
    using 2 nth lt by (auto simp: accepts_def)
  have "map (\<lambda>j. if bs_bound st ! j = None \<and> length (posonly_params f) \<le> j then map_of [(nm, v)] (names_of f ! j)
      else bs_bound st ! j) [0..<length (names_of f)] = (bs_bound st)[length (posonly_params f) + i := Some v]"
    if "bs_bound st ! (length (posonly_params f) + i) = None"
    using len that nth lt by (intro nth_equalityI) (auto simp: nth_list_update)
  then show ?thesis using 2 acc
    by (auto simp: bind_keyword_def Let_def multiple_values_def bind_all_def fun_eq_iff)
next
  case 3
  have "names_of f ! i \<noteq> nm" if "length (posonly_params f) \<le> i" "i < length (names_of f)" for i
    using 3 that by (auto simp: names_of_def nth_append)
  moreover from this have "map (\<lambda>i. if bs_bound st ! i = None \<and> length (posonly_params f) \<le> i then map_of [(nm, v)] (names_of f ! i)
      else bs_bound st ! i) [0..<length (names_of f)] = bs_bound st"
    using len by (intro nth_equalityI) auto
  ultimately show ?thesis using 3
    by (auto simp: bind_keyword_def Let_def accepts_def multiple_values_def bind_all_def fun_eq_iff)
next
  case 4
  have "names_of f ! i \<noteq> nm" if "length (posonly_params f) \<le> i" "i < length (names_of f)" for i
    using 4 that by (auto simp: names_of_def nth_append position_of_None)
  then have "map (\<lambda>i. if bs_bound st ! i = None \<and> length (posonly_params f) \<le> i then map_of [(nm, v)] (names_of f ! i)
      else bs_bound st ! i) [0..<length (names_of f)] = bs_bound st"
    using len by (intro nth_equalityI) auto
  then show ?thesis using 4
    by (auto simp: bind_keyword_def Let_def accepts_def add_extra_def multiple_values_def unexpected_keyword_def bind_all_def fun_eq_iff)
qed

lemma accepts_after:
  assumes "nm' \<noteq> nm" "length (bs_bound st) = length (names_of f)"
  shows "accepts f (bind_all f [(nm, v)] st) nm' \<longleftrightarrow> accepts f st nm'"
  using assms by (auto simp: accepts_def bind_all_def)

lemma bind_all_Cons:
  assumes "accepts f st nm" "nm \<notin> fst ` set kvs" "length (bs_bound st) = length (names_of f)"
  shows "bind_all f kvs (bind_all f [(nm, v)] st) = bind_all f ((nm, v) # kvs) st"
  using assms by (auto simp: bind_all_def fun_eq_iff map_of_eq_None_iff)

lemma bind_keywords_all:
  assumes s: "signature_ok f" and "length (bs_bound st) = length (names_of f)" "distinct (map fst kvs)"
  shows "if \<forall>kv\<in>set kvs. accepts f st (fst kv) then bind_keywords f kvs st = Inr (bind_all f kvs st)
    else \<exists>e. bind_keywords f kvs st = Inl (CallTypeError e)"
  using assms(2,3)
proof (induction kvs arbitrary: st)
  case Nil
  have "bind_all f [] st = st"
    using Nil(1) by (cases st) (auto simp: bind_all_def fun_eq_iff intro!: nth_equalityI)
  then show ?case by simp
next
  case (Cons kv kvs)
  obtain nm v where kv: "kv = (nm, v)" by (cases kv)
  show ?case
  proof (cases "accepts f st nm")
    case True
    let ?st = "bind_all f [(nm, v)] st"
    have step: "bind_keyword f (nm, v) st = Inr ?st" using bind_keyword_step [OF s Cons.prems(1)] True by simp
    have len: "length (bs_bound ?st) = length (names_of f)" by (simp add: bind_all_def)
    have "accepts f ?st (fst x) \<longleftrightarrow> accepts f st (fst x)" if "x \<in> set kvs" for x
      using that Cons.prems kv by (intro accepts_after) force+
    moreover have "bind_all f kvs ?st = bind_all f ((nm, v) # kvs) st"
      using True Cons.prems kv by (intro bind_all_Cons) auto
    ultimately show ?thesis using Cons.IH [OF len] Cons.prems True step kv by (auto split: if_splits)
  next
    case False
    then show ?thesis using bind_keyword_step [OF s Cons.prems(1), of nm v] kv by auto
  qed
qed

section \<open>The values\<close>

definition start_state :: "'v FunctionObject \<Rightarrow> 'v list \<Rightarrow> 'v BindState" where
  "start_state f pos = \<lparr>bs_bound = map Some (take (length (names_of f)) pos) @ replicate (length (names_of f) - length pos) None,
     bs_kwonly = (\<lambda>_. None), bs_extra = []\<rparr>"

lemma start_bound:
  "i < length (names_of f) \<Longrightarrow> bs_bound (start_state f pos) ! i = (if i < length pos then Some (pos ! i) else None)"
  "length (bs_bound (start_state f pos)) = length (names_of f)"
  "bs_kwonly (start_state f pos) = (\<lambda>_. None)" "bs_extra (start_state f pos) = []"
  by (auto simp: start_state_def nth_append)

lemma accepts_start:
  "accepts f (start_state f pos) nm \<longleftrightarrow>
     (if extra_keyword f nm then fo_kwarg f \<noteq> None
      else \<forall>i < length (names_of f). length (posonly_params f) \<le> i \<and> i < length pos \<longrightarrow> names_of f ! i \<noteq> nm)"
  by (auto simp: accepts_def start_bound)

abbreviation (input) slots :: "'v FunctionObject \<Rightarrow> (rstring \<times> 'v) list \<Rightarrow> 'v list \<Rightarrow> 'v option list" where
  "slots f kvs pos \<equiv> bs_bound (bind_all f kvs (start_state f pos))"

lemma slot_value:
  assumes "i < length (names_of f)"
  shows "slots f kvs pos ! i = (if i < length pos then Some (pos ! i)
    else if length (posonly_params f) \<le> i then map_of kvs (names_of f ! i) else None)"
  using assms by (simp add: bind_all_def start_bound)

lemma length_slots [simp]: "length (slots f kvs pos) = length (names_of f)"
  by (simp add: bind_all_def)

lemma positional_value_slot:
  assumes "i < length (names_of f)"
  shows "positional_value f pos (map_of kvs) i =
    (if required_of f \<le> i \<and> slots f kvs pos ! i = None then Some (fo_defaults f ! (i - required_of f)) else slots f kvs pos ! i)"
  using assms by (auto simp: slot_value positional_value_def)

lemma fill_defaults_values:
  "fill_defaults (fo_defaults f) (required_of f) (slots f kvs pos) =
    map (positional_value f pos (map_of kvs)) [0..<length (names_of f)]"
proof (rule nth_equalityI)
  fix i assume "i < length (fill_defaults (fo_defaults f) (required_of f) (slots f kvs pos))"
  then have "i < length (names_of f)" by (simp add: fill_defaults_def)
  then show "fill_defaults (fo_defaults f) (required_of f) (slots f kvs pos) ! i =
      map (positional_value f pos (map_of kvs)) [0..<length (names_of f)] ! i"
    by (simp add: fill_defaults_def positional_value_slot)
qed (simp add: fill_defaults_def)

lemma missing_required_nil:
  "missing_required f (slots f kvs pos) (required_of f) = [] \<longleftrightarrow>
    (\<forall>i < length (names_of f). positional_value f pos (map_of kvs) i \<noteq> None)"
proof -
  have "required_of f \<le> length (names_of f)" by (simp add: required_of_def)
  then have "missing_required f (slots f kvs pos) (required_of f) = [] \<longleftrightarrow> (\<forall>i < required_of f. slots f kvs pos ! i \<noteq> None)"
    by (auto simp: missing_required_def filter_empty_conv)
  also have "\<dots> \<longleftrightarrow> (\<forall>i < length (names_of f). positional_value f pos (map_of kvs) i \<noteq> None)"
  proof -
    have "positional_value f pos (map_of kvs) i \<noteq> None \<longleftrightarrow> (i < required_of f \<longrightarrow> slots f kvs pos ! i \<noteq> None)"
      if "i < length (names_of f)" for i
      using that by (cases "i < required_of f") (auto simp: positional_value_slot)
    then show ?thesis using \<open>required_of f \<le> length (names_of f)\<close> by (meson less_le_trans)
  qed
  finally show ?thesis .
qed

lemma unwrap_all_map: "\<forall>x\<in>set xs. g x \<noteq> None \<Longrightarrow> unwrap_all (map g xs) = Inr (map (\<lambda>x. the (g x)) xs)"
  by (induction xs) auto

lemma collect_kwonly_values:
  assumes "distinct names"
  shows "if \<forall>nm\<in>set names. values nm \<noteq> None \<or> defaults nm \<noteq> None
    then collect_kwonly defaults names values = Inr (map (\<lambda>nm. the (case values nm of Some v \<Rightarrow> Some v | None \<Rightarrow> defaults nm)) names)
    else \<exists>e. collect_kwonly defaults names values = Inl (CallTypeError e)"
  using assms
proof (induction names arbitrary: "values")
  case (Cons nm names)
  have e: "(values(nm := None)) x = values x" if "x \<in> set names" for x using that Cons.prems by auto
  then have m: "map (\<lambda>nm'. the (case (values(nm := None)) nm' of Some v \<Rightarrow> Some v | None \<Rightarrow> defaults nm')) names =
      map (\<lambda>nm'. the (case values nm' of Some v \<Rightarrow> Some v | None \<Rightarrow> defaults nm')) names"
    by (intro map_cong) auto
  show ?case
  proof (cases "values nm")
    case (Some v)
    then show ?thesis using Cons.IH [of "values(nm := None)"] Cons.prems e unfolding m by (auto split: if_splits)
  next
    case None
    then show ?thesis using Cons.IH [of "values"] Cons.prems by (cases "defaults nm") (auto split: if_splits)
  qed
qed simp

lemma accepted_keywords:
  "(\<forall>kv\<in>set kvs. accepts f (start_state f pos) (fst kv)) \<longleftrightarrow>
     (\<forall>nm\<in>dom (map_of kvs). extra_keyword f nm \<longrightarrow> fo_kwarg f \<noteq> None) \<and>
     (\<forall>i < length (names_of f). length (posonly_params f) \<le> i \<and> i < length pos \<longrightarrow> map_of kvs (names_of f ! i) = None)"
    (is "?l \<longleftrightarrow> ?r")
proof -
  have named: "\<not> extra_keyword f (names_of f ! i)" if "i < length (names_of f)" "length (posonly_params f) \<le> i" for i
    using that by (auto simp: extra_keyword_def names_of_def nth_append)
  have "?l \<longleftrightarrow> (\<forall>nm\<in>dom (map_of kvs). accepts f (start_state f pos) nm)" by (simp add: dom_map_of_conv_image_fst)
  also have "\<dots> \<longleftrightarrow> ?r" using named unfolding accepts_start by (auto simp: dom_def)
  finally show ?thesis .
qed

lemma bind_full_bindr:
  assumes s: "signature_ok f" and d: "distinct (map fst kvs)"
    and allowed: "length pos \<le> length (names_of f) \<or> fo_vararg f \<noteq> None"
      "\<forall>kv\<in>set kvs. accepts f (start_state f pos) (fst kv)" "\<forall>i < length (names_of f). positional_value f pos (map_of kvs) i \<noteq> None"
  shows "bind_full f pos kvs = bindr (collect_kwonly (kwonly_defaults f) (kwonly_params f) (bs_kwonly (bind_all f kvs (start_state f pos))))
    (\<lambda>kwonly. Inr (bound_values f pos kvs\<lparr>ba_kwonly := kwonly\<rparr>))"
proof -
  let ?n = "length (posonly_params f)" and ?total = "length (names_of f)" and ?kw = "map_of kvs"
  have total: "?n + length (params f) = ?total" "?n \<le> ?total" by (simp_all add: names_of_def)
  have defs: "length (fo_defaults f) \<le> ?total" using s by (simp add: signature_ok_def)
  have st: "bind_keywords f kvs (start_state f pos) = Inr (bind_all f kvs (start_state f pos))"
    using bind_keywords_all [OF s start_bound(2) d] allowed(2) by simp
  have u: "unwrap_all (map (positional_value f pos ?kw) xs) = Inr (map (\<lambda>i. the (positional_value f pos ?kw i)) xs)"
    if "set xs \<subseteq> {..<?total}" for xs
    using that allowed(3) by (intro unwrap_all_map) auto
  have "take ?n [0..<?total] = [0..<?n]" "drop ?n [0..<?total] = [?n..<?total]" using total(2) by simp_all
  then have tk: "unwrap_all (take ?n (fill_defaults (fo_defaults f) (required_of f) (slots f kvs pos))) =
        Inr (map (\<lambda>i. the (positional_value f pos ?kw i)) [0..<?n])"
      and dr: "unwrap_all (drop ?n (fill_defaults (fo_defaults f) (required_of f) (slots f kvs pos))) =
        Inr (map (\<lambda>i. the (positional_value f pos ?kw i)) [?n..<?total])"
    using total(2) unfolding fill_defaults_values take_map drop_map by (simp_all add: u subset_eq)
  have ex: "bs_extra (bind_all f kvs (start_state f pos)) = filter (\<lambda>kv. extra_keyword f (fst kv)) kvs"
    by (simp add: bind_all_def start_bound)
  show ?thesis
    using allowed(1) defs st tk dr missing_required_nil [of f kvs pos] allowed(3)
    by (auto simp: bind_full_def total(1) start_state_def [symmetric] required_of_def [symmetric] Let_def bound_values_def ex)
qed

lemma bind_full_exact:
  assumes s: "signature_ok f" and d: "distinct (map fst kvs)"
  shows "case bind_full f pos kvs of
      Inr b \<Rightarrow> call_allowed f pos (map_of kvs) \<and> b = bound_values f pos kvs
    | Inl e \<Rightarrow> \<not> call_allowed f pos (map_of kvs) \<and> e \<noteq> CallPanic"
proof -
  let ?total = "length (names_of f)" and ?kw = "map_of kvs" and ?ok = "\<forall>kv\<in>set kvs. accepts f (start_state f pos) (fst kv)"
  have total: "length (posonly_params f) + length (params f) = ?total" by (simp add: names_of_def)
  have defs: "length (fo_defaults f) \<le> ?total" and dk: "distinct (kwonly_params f)" using s by (auto simp: signature_ok_def)
  consider (many) "?total < length pos" "fo_vararg f = None"
    | (kw) "length pos \<le> ?total \<or> fo_vararg f \<noteq> None" "\<not> ?ok"
    | (missing) "length pos \<le> ?total \<or> fo_vararg f \<noteq> None" ?ok "\<not> (\<forall>i < ?total. positional_value f pos ?kw i \<noteq> None)"
    | (ok) "length pos \<le> ?total \<or> fo_vararg f \<noteq> None" ?ok "\<forall>i < ?total. positional_value f pos ?kw i \<noteq> None"
    by (meson not_le)
  then show ?thesis
  proof cases
    case many
    then show ?thesis using defs by (auto simp: bind_full_def total call_allowed_def Let_def)
  next
    case kw
    then obtain e where "bind_keywords f kvs (start_state f pos) = Inl (CallTypeError e)"
      using bind_keywords_all [OF s start_bound(2) d, of pos] unfolding if_not_P [OF kw(2)] by blast
    then have "bind_full f pos kvs = Inl (CallTypeError e)"
      using kw(1) defs by (auto simp: bind_full_def total start_state_def [symmetric] Let_def)
    moreover have "\<not> call_allowed f pos ?kw" using kw(2) unfolding accepted_keywords call_allowed_def by blast
    ultimately show ?thesis by simp
  next
    case missing
    have "bind_keywords f kvs (start_state f pos) = Inr (bind_all f kvs (start_state f pos))"
      using bind_keywords_all [OF s start_bound(2) d] missing(2) by simp
    then have "\<exists>e. bind_full f pos kvs = Inl (CallTypeError e)"
      using missing defs missing_required_nil [of f kvs pos]
      by (auto simp: bind_full_def total start_state_def [symmetric] required_of_def [symmetric] Let_def)
    then show ?thesis using missing(3) by (auto simp: call_allowed_def)
  next
    case ok
    have kwv: "bs_kwonly (bind_all f kvs (start_state f pos)) nm = ?kw nm" if "nm \<in> set (kwonly_params f)" for nm
      using that by (simp add: bind_all_def start_bound)
    then have "(\<forall>nm\<in>set (kwonly_params f). bs_kwonly (bind_all f kvs (start_state f pos)) nm \<noteq> None \<or> kwonly_defaults f nm \<noteq> None) \<longleftrightarrow>
        call_allowed f pos ?kw"
      using ok unfolding accepted_keywords by (auto simp: call_allowed_def kwonly_value_def split: option.splits)
    moreover have "map (\<lambda>nm. the (case bs_kwonly (bind_all f kvs (start_state f pos)) nm of Some v \<Rightarrow> Some v | None \<Rightarrow> kwonly_defaults f nm))
        (kwonly_params f) = ba_kwonly (bound_values f pos kvs)"
      using kwv by (simp add: bound_values_def kwonly_value_def Let_def)
    ultimately show ?thesis
      using collect_kwonly_values [OF dk, of "bs_kwonly (bind_all f kvs (start_state f pos))" "kwonly_defaults f"]
        bind_full_bindr [OF s d ok] by (auto split: if_splits)
  qed
qed

section \<open>Properties\<close>

lemma bind_plain_exact:
  assumes "fo_defaults f = []" "kwonly_params f = []" "fo_vararg f = None" "fo_kwarg f = None"
  shows "case bind_plain f pos of
      Inr b \<Rightarrow> call_allowed f pos Map.empty \<and> b = bound_values f pos []
    | Inl e \<Rightarrow> \<not> call_allowed f pos Map.empty \<and> e \<noteq> CallPanic"
proof -
  let ?n = "length (posonly_params f)" and ?total = "length (names_of f)"
  have total: "?n + length (params f) = ?total" "?n \<le> ?total" by (simp_all add: names_of_def)
  have pv: "positional_value f pos Map.empty i = (if i < length pos then Some (pos ! i) else None)" if "i < ?total" for i
    using that assms by (auto simp: positional_value_def required_of_def)
  have allowed: "call_allowed f pos Map.empty \<longleftrightarrow> length pos = ?total"
  proof -
    have "(\<forall>i < ?total. positional_value f pos Map.empty i \<noteq> None) \<longleftrightarrow> ?total \<le> length pos"
      using pv by (auto simp: not_less [symmetric])
    then show ?thesis using assms by (auto simp: call_allowed_def)
  qed
  have "bound_values f pos [] = \<lparr>ba_posonly = take ?n pos, ba_positional = drop ?n pos, ba_kwonly = [], ba_vararg = None, ba_kwarg = None\<rparr>"
    if "length pos = ?total"
    using that assms pv total by (auto simp: bound_values_def Let_def intro!: nth_equalityI)
  then show ?thesis using allowed by (auto simp: bind_plain_def total(1) Let_def)
qed

text \<open>
  C4. Calls. Binding arguments succeeds exactly on the calls the signature allows, and gives every parameter the
  value the language defines: the positional argument, the keyword argument or the default, the surplus to
  \<open>*args\<close>, the keywords no parameter takes to \<open>**kwargs\<close> in the order of the call. The shortcut for plain calls
  agrees, and no slot is left empty.
\<close>

theorem calls_bind:
  assumes "signature_ok f" "distinct (map fst kwargs)"
  shows "case bind_arguments f pos kwargs order of
      Inr b \<Rightarrow> call_allowed f pos (map_of kwargs) \<and>
        b = bound_values f pos (ordered_kwargs (case order of None \<Rightarrow> [] | Some names \<Rightarrow> names) kwargs)
    | Inl e \<Rightarrow> \<not> call_allowed f pos (map_of kwargs) \<and> e \<noteq> CallPanic"
proof (cases "kwargs = [] \<and> fo_defaults f = [] \<and> kwonly_params f = [] \<and> fo_vararg f = None \<and> fo_kwarg f = None")
  case True
  then have e: "bind_arguments f pos kwargs order = bind_plain f pos" "map_of kwargs = Map.empty" by (simp_all add: bind_arguments_def)
  have "kwargs = []" using True by simp
  then have "ordered_kwargs names kwargs = []" for names by (induction names) simp_all
  then show ?thesis using bind_plain_exact [of f pos] True unfolding e by (auto split: sum.splits)
next
  case False
  let ?kvs = "ordered_kwargs (case order of None \<Rightarrow> [] | Some names \<Rightarrow> names) kwargs"
  have e: "bind_arguments f pos kwargs order = bind_full f pos ?kvs"
    unfolding bind_arguments_def if_not_P [OF False] ..
  show ?thesis
    using bind_full_exact [OF assms(1) distinct_ordered [OF assms(2)], of pos "case order of None \<Rightarrow> [] | Some names \<Rightarrow> names"]
    unfolding e map_of_ordered .
qed

definition sample_function :: "nat FunctionObject" where
  "sample_function = \<lparr>fo_name = [102], posonly_params = [[97]], params = [[98], [99]], kwonly_params = [[100]],
     fo_vararg = None, fo_kwarg = Some [107], fo_defaults = [7], kwonly_defaults = (\<lambda>_. None)\<rparr>"

theorem calls_bind_witness:
  "\<exists>b. bind_arguments sample_function [1] [([97], 4), ([98], 2), ([100], 3)] (Some [[98], [97], [100]]) = Inr b \<and>
    ba_posonly b = [1] \<and> ba_positional b = [2, 7] \<and> ba_kwonly b = [3] \<and> ba_kwarg b = Some [([97], 4)]"
proof -
  let ?kw = "[([97], 4), ([98], 2), ([100], 3)] :: (rstring \<times> nat) list"
  have s: "signature_ok sample_function" "distinct (map fst ?kw)"
    by (simp_all add: signature_ok_def sample_function_def names_of_def)
  have a: "call_allowed sample_function [1] (map_of ?kw)"
    by (simp add: call_allowed_def sample_function_def names_of_def extra_keyword_def positional_value_def required_of_def
        kwonly_value_def less_Suc_eq numeral_3_eq_3)
  show ?thesis
    using calls_bind [OF s, of "[1]" "Some [[98], [97], [100]]"] a
    by (auto simp: bound_values_def sample_function_def names_of_def positional_value_def required_of_def
        kwonly_value_def extra_keyword_def upt_rec split: sum.splits)
qed

end
