(* ===== verification/Calendar.thy ===== *)
theory Calendar
  imports Prelude "HOL-Library.Signed_Division"
begin

text \<open>
  Dates, \<open>civil_from_days\<close>, \<open>days_from_civil\<close>, \<open>day_of_year\<close> and \<open>split_unix_timestamp\<close> of
  \<^verbatim>\<open>src/vm/mod.rs\<close>. Numbers are integers, as no \<open>i64\<close> overflows on the days of a timestamp; \<open>/\<close> truncates, and
  the year is cut to an \<open>i32\<close>.
\<close>

definition as_i32 :: "int \<Rightarrow> int" where
  "as_i32 n = sint (word_of_int n :: i32)"

text \<open>The year of the civil date before the cast; \<open>doe\<close> and \<open>yoe\<close> count days and years of the 400-year era from March.\<close>

definition era_of :: "int \<Rightarrow> int" where
  "era_of z = (if 0 \<le> z then z else z - 146096) sdiv 146097"

definition yoe_of :: "int \<Rightarrow> int" where
  "yoe_of doe = (doe - doe sdiv 1460 + doe sdiv 36524 - doe sdiv 146096) sdiv 365"

definition civil_wide :: "int \<Rightarrow> int \<times> int \<times> int" where
  "civil_wide days =
     (let z = days + 719468; era = era_of z; doe = z - era * 146097; yoe = yoe_of doe; y = yoe + era * 400;
          doy = doe - (365 * yoe + yoe sdiv 4 - yoe sdiv 100); mp = (5 * doy + 2) sdiv 153;
          d = doy - (153 * mp + 2) sdiv 5 + 1; m = mp + (if mp < 10 then 3 else - 9)
      in (y + (if m \<le> 2 then 1 else 0), m, d))"

definition civil_from_days :: "int \<Rightarrow> int \<times> int \<times> int" where
  "civil_from_days days = (let (year, m, d) = civil_wide days in (as_i32 year, m, d))"

definition days_from_civil :: "int \<Rightarrow> int \<Rightarrow> int \<Rightarrow> int" where
  "days_from_civil year month day =
     (let year = year - (if month \<le> 2 then 1 else 0);
          era = (if 0 \<le> year then year else year - 399) sdiv 400; yoe = year - era * 400;
          doy = (153 * (month + (if 2 < month then - 3 else 9)) + 2) sdiv 5 + day - 1;
          doe = yoe * 365 + yoe sdiv 4 - yoe sdiv 100 + doy
      in era * 146097 + doe - 719468)"

definition is_leap_year :: "int \<Rightarrow> bool" where
  "is_leap_year year \<longleftrightarrow> year smod 4 = 0 \<and> year smod 100 \<noteq> 0 \<or> year smod 400 = 0"

definition days_in_month :: "int \<Rightarrow> int \<Rightarrow> int option" where
  "days_in_month year month =
     (if month \<in> {1, 3, 5, 7, 8, 10, 12} then Some 31
      else if month \<in> {4, 6, 9, 11} then Some 30
      else if month = 2 then Some (if is_leap_year year then 29 else 28)
      else None)"

definition month_days :: "int \<Rightarrow> int list" where
  "month_days year = [31, if is_leap_year year then 29 else 28, 31, 30, 31, 30, 31, 31, 30, 31, 30, 31]"

definition day_of_year :: "int \<Rightarrow> int \<Rightarrow> int \<Rightarrow> int" where
  "day_of_year year month day = day + sum_list (take (nat (max 0 (month - 1))) (month_days year))"

record TimeParts =
  tp_year :: int
  tp_month :: int
  tp_day :: int
  tp_hour :: int
  tp_minute :: int
  tp_second :: int
  tp_weekday :: int
  tp_yearday :: int
  tp_isdst :: int
  tp_utc_offset_seconds :: "int option"

definition split_unix_timestamp :: "int \<Rightarrow> TimeParts" where
  "split_unix_timestamp total_secs =
     (let days = total_secs div 86400; sec_of_day = total_secs mod 86400; (year, month, day) = civil_from_days days
      in \<lparr>tp_year = year, tp_month = month, tp_day = day, tp_hour = sec_of_day sdiv 3600,
          tp_minute = (sec_of_day smod 3600) sdiv 60, tp_second = sec_of_day smod 60,
          tp_weekday = (days + 3) mod 7, tp_yearday = day_of_year year month day, tp_isdst = - 1,
          tp_utc_offset_seconds = None\<rparr>)"

end
