(* ===== verification/Isodates.thy ===== *)
theory Isodates
  imports Calendar Unicode Bigint_Text
begin

text \<open>
  Texts of dates and the ISO calendar: \<open>date.isoformat\<close>, \<open>date.fromisoformat\<close>, \<open>fromisocalendar\<close> of
  \<^verbatim>\<open>src/vm/builtins_system_misc.rs\<close> and \<open>format_strftime\<close> of \<^verbatim>\<open>src/vm/mod.rs\<close>, on the numbers and texts they
  take from their arguments. An error carries the numbers its message shows.
\<close>

datatype DateMessage =
    YearNotIn int
  | MonthNotIn int
  | DayNotIn int int int int
  | WeekInvalid int
  | WeekdayInvalid int
  | IsoInvalid rstring

datatype DateError = DateValueError DateMessage | DatePlainError DateMessage | SlicePanic

type_synonym 'a dres = "DateError + 'a"

definition DATETIME_MIN_YEAR :: int where "DATETIME_MIN_YEAR = 1"
definition DATETIME_MAX_YEAR :: int where "DATETIME_MAX_YEAR = 9999"
definition UNIX_EPOCH_ORDINAL :: int where "UNIX_EPOCH_ORDINAL = 719163"

section \<open>Writing\<close>

text \<open>\<open>{:0w}\<close> of an integer: zeros between the sign and the digits.\<close>

definition pad_int :: "nat \<Rightarrow> int \<Rightarrow> rstring" where
  "pad_int w n =
     (let text = nat_dec (nat \<bar>n\<bar>)
      in if n < 0 then 45 # replicate (w - 1 - length text) 48 @ text else replicate (w - length text) 48 @ text)"

text \<open>The time is the separator, hour, minute, second and microsecond.\<close>

definition date_isoformat :: "int \<Rightarrow> int \<Rightarrow> int \<Rightarrow> (rstring \<times> int \<times> int \<times> int \<times> int) option \<Rightarrow> rstring" where
  "date_isoformat year month day time =
     pad_int 4 year @ [45] @ pad_int 2 month @ [45] @ pad_int 2 day @
     (case time of None \<Rightarrow> []
      | Some (sep, hour, minute, second, microsecond) \<Rightarrow>
          sep @ pad_int 2 hour @ [58] @ pad_int 2 minute @ [58] @ pad_int 2 second @
          (if microsecond \<noteq> 0 then 46 # pad_int 6 microsecond else []))"

definition strftime_offset :: "int option \<Rightarrow> rstring" where
  "strftime_offset offset =
     (case offset of None \<Rightarrow> []
      | Some seconds \<Rightarrow>
          [chr (if 0 \<le> seconds then CHR ''+'' else CHR ''-'')] @ pad_int 2 (\<bar>seconds\<bar> div 3600) @ pad_int 2 (\<bar>seconds\<bar> mod 3600 div 60))"

definition strftime_spec :: "rchar \<Rightarrow> TimeParts \<Rightarrow> rstring" where
  "strftime_spec spec parts =
     (if spec = chr CHR ''%'' then str ''%''
      else if spec = chr CHR ''Y'' then pad_int 4 (tp_year parts)
      else if spec = chr CHR ''m'' then pad_int 2 (tp_month parts)
      else if spec = chr CHR ''d'' then pad_int 2 (tp_day parts)
      else if spec = chr CHR ''H'' then pad_int 2 (tp_hour parts)
      else if spec = chr CHR ''M'' then pad_int 2 (tp_minute parts)
      else if spec = chr CHR ''S'' then pad_int 2 (tp_second parts)
      else if spec = chr CHR ''y'' then pad_int 2 (tp_year parts mod 100)
      else if spec = chr CHR ''j'' then pad_int 3 (tp_yearday parts)
      else if spec = chr CHR ''w'' then pad_int 0 ((tp_weekday parts + 1) mod 7)
      else if spec = chr CHR ''z'' then strftime_offset (tp_utc_offset_seconds parts)
      else [chr CHR ''%'', spec])"

fun format_strftime :: "rstring \<Rightarrow> TimeParts \<Rightarrow> rstring" where
  "format_strftime [] parts = []"
| "format_strftime [ch] parts = [ch]"
| "format_strftime (ch # spec # rest) parts =
     (if ch \<noteq> chr CHR ''%'' then ch # format_strftime (spec # rest) parts
      else strftime_spec spec parts @ format_strftime rest parts)"

section \<open>The ISO calendar\<close>

definition iso_week1_monday_ordinal :: "int \<Rightarrow> int" where
  "iso_week1_monday_ordinal year =
     (let first_day = days_from_civil year 1 1 + UNIX_EPOCH_ORDINAL; first_weekday = (first_day + 6) mod 7;
          week1_monday = first_day - first_weekday
      in if 3 < first_weekday then week1_monday + 7 else week1_monday)"

definition week_in_range :: "int \<Rightarrow> int \<Rightarrow> bool" where
  "week_in_range iso_year iso_week \<longleftrightarrow>
     \<not> (iso_week \<le> 0 \<or> 53 \<le> iso_week) \<or>
     (iso_week = 53 \<and>
       (let first_weekday = (days_from_civil iso_year 1 1 + 3) mod 7
        in first_weekday = 3 \<or> first_weekday = 2 \<and> day_of_year (as_i32 iso_year) 12 31 = 366))"

definition iso_to_ymd :: "int \<Rightarrow> int \<Rightarrow> int \<Rightarrow> (int \<times> int \<times> int) dres" where
  "iso_to_ymd iso_year iso_week iso_day =
     (if \<not> (DATETIME_MIN_YEAR \<le> iso_year \<and> iso_year \<le> DATETIME_MAX_YEAR) then Inl (DatePlainError (YearNotIn iso_year))
      else if \<not> week_in_range iso_year iso_week then Inl (DatePlainError (WeekInvalid iso_week))
      else if iso_day \<le> 0 \<or> 8 \<le> iso_day then Inl (DatePlainError (WeekdayInvalid iso_day))
      else Inr (civil_wide (iso_week1_monday_ordinal iso_year + ((iso_week - 1) * 7 + iso_day - 1) - UNIX_EPOCH_ORDINAL)))"

section \<open>Reading\<close>

definition ascii_digit :: "u8 \<Rightarrow> bool" where
  "ascii_digit b \<longleftrightarrow> 48 \<le> unat b \<and> unat b \<le> 57"

definition parse_ascii_i64_component :: "u8 list \<Rightarrow> int option" where
  "parse_ascii_i64_component text =
     (if text = [] \<or> \<not> list_all ascii_digit text then None
      else let n = foldl (\<lambda>v b. v * 10 + int (unat b - 48)) 0 text in if n < 2 ^ 63 then Some n else None)"

definition escaped_single_quoted :: "rstring \<Rightarrow> rstring" where
  "escaped_single_quoted s = concat (map (\<lambda>c. if c = 92 then [92, 92] else if c = 39 then [92, 39] else [c]) s)"

text \<open>\<open>&text[a..b]\<close> panics unless both ends are boundaries of characters.\<close>

definition is_char_boundary :: "u8 list \<Rightarrow> nat \<Rightarrow> bool" where
  "is_char_boundary bs i \<longleftrightarrow> i = 0 \<or> i = length bs \<or> i < length bs \<and> \<not> cont_byte (bs ! i)"

definition str_slice :: "u8 list \<Rightarrow> nat \<Rightarrow> nat \<Rightarrow> u8 list dres" where
  "str_slice bs a b =
     (if a \<le> b \<and> is_char_boundary bs a \<and> is_char_boundary bs b then Inr (drop a (take b bs)) else Inl SlicePanic)"

definition parse_ymd :: "DateError \<Rightarrow> u8 list \<Rightarrow> u8 list \<Rightarrow> u8 list \<Rightarrow> (int \<times> int \<times> int) dres" where
  "parse_ymd invalid year month day =
     (case parse_ascii_i64_component year of None \<Rightarrow> Inl invalid | Some year \<Rightarrow>
      (case parse_ascii_i64_component month of None \<Rightarrow> Inl invalid | Some month \<Rightarrow>
       (case parse_ascii_i64_component day of None \<Rightarrow> Inl invalid | Some day \<Rightarrow>
         if \<not> (DATETIME_MIN_YEAR \<le> year \<and> year \<le> DATETIME_MAX_YEAR) then Inl (DateValueError (YearNotIn year))
         else if \<not> (1 \<le> month \<and> month \<le> 12) then Inl (DateValueError (MonthNotIn month))
         else case days_in_month year month of None \<Rightarrow> Inl invalid
           | Some max_day \<Rightarrow>
               if day < 1 \<or> max_day < day then Inl (DateValueError (DayNotIn day max_day month year))
               else Inr (year, month, day))))"

definition component :: "DateError \<Rightarrow> u8 list \<Rightarrow> nat \<Rightarrow> nat \<Rightarrow> int dres" where
  "component invalid bs a b =
     bindr (str_slice bs a b) (\<lambda>text. case parse_ascii_i64_component text of None \<Rightarrow> Inl invalid | Some n \<Rightarrow> Inr n)"

definition iso_components :: "DateError \<Rightarrow> u8 list \<Rightarrow> (int \<times> int \<times> int) dres" where
  "iso_components invalid bs =
     (let part = component invalid bs
      in if length bs = 10 \<and> bs ! 4 = 45 \<and> bs ! 5 = 87 \<and> bs ! 8 = 45 then
           bindr (part 0 4) (\<lambda>y. bindr (part 6 8) (\<lambda>w. bindr (part 9 10) (\<lambda>d. Inr (y, w, d))))
         else if length bs = 8 \<and> bs ! 4 = 87 then
           bindr (part 0 4) (\<lambda>y. bindr (part 5 7) (\<lambda>w. bindr (part 7 8) (\<lambda>d. Inr (y, w, d))))
         else if length bs = 8 \<and> bs ! 4 = 45 \<and> bs ! 5 = 87 then
           bindr (part 0 4) (\<lambda>y. bindr (part 6 8) (\<lambda>w. Inr (y, w, 1)))
         else if length bs = 7 \<and> bs ! 4 = 87 then
           bindr (part 0 4) (\<lambda>y. bindr (part 5 7) (\<lambda>w. Inr (y, w, 1)))
         else Inl invalid)"

definition parse_date_fromisoformat_components :: "rstring \<Rightarrow> (int \<times> int \<times> int) dres" where
  "parse_date_fromisoformat_components dtstr =
     (let bs = as_bytes dtstr; invalid = DateValueError (IsoInvalid (escaped_single_quoted dtstr))
      in if length bs = 10 \<and> bs ! 4 = 45 \<and> bs ! 7 = 45 then
           bindr (str_slice bs 0 4) (\<lambda>year. bindr (str_slice bs 5 7) (\<lambda>month. bindr (str_slice bs 8 10) (\<lambda>day.
             parse_ymd invalid year month day)))
         else if length bs = 8 \<and> list_all ascii_digit bs then
           bindr (str_slice bs 0 4) (\<lambda>year. bindr (str_slice bs 4 6) (\<lambda>month. bindr (str_slice bs 6 8) (\<lambda>day.
             parse_ymd invalid year month day)))
         else
           bindr (iso_components invalid bs) (\<lambda>(iso_year, iso_week, iso_day).
             case iso_to_ymd iso_year iso_week iso_day of
               Inr date \<Rightarrow> Inr date
             | Inl SlicePanic \<Rightarrow> Inl SlicePanic
             | Inl _ \<Rightarrow> Inl invalid))"

end
