(* ===== verification/Timedelta.thy ===== *)
theory Timedelta
  imports Int_Ops Isodates
begin

text \<open>
  Durations, \<open>timedelta\<close> of \<^verbatim>\<open>src/vm/builtins_system_misc.rs\<close>: the attributes of an instance are a record, the
  operators functions of the parts and the other operand. Building the instances and checking the number of the
  arguments are left out.
\<close>

record DeltaParts =
  td_days :: i64
  td_seconds :: i64
  td_microseconds :: i64

datatype DeltaError = DaysOverflow BigInt | ZeroDivision | NanRatio | InfinityRatio | ExpectFailed | LoopForever

type_synonym 'a tres = "DeltaError + 'a"

datatype Operand = NumberArg IntValue | FloatArg f64 | DeltaArg DeltaParts | OtherArg

datatype DeltaResult =
    NewDelta DeltaParts
  | IntResult IntValue
  | FloatResult f64
  | PairResult IntValue DeltaParts
  | NotImplemented

definition DATETIME_MAX_DELTA_DAYS :: i64 where "DATETIME_MAX_DELTA_DAYS = 999999999"
definition DATETIME_SECONDS_PER_DAY :: i64 where "DATETIME_SECONDS_PER_DAY = 86400"
definition DATETIME_MICROSECONDS_PER_SECOND :: i64 where "DATETIME_MICROSECONDS_PER_SECOND = 1000000"
definition DATETIME_MICROSECONDS_PER_DAY :: i64 where
  "DATETIME_MICROSECONDS_PER_DAY = DATETIME_SECONDS_PER_DAY * DATETIME_MICROSECONDS_PER_SECOND"

section \<open>Microseconds\<close>

text \<open>A division by a value that is not zero, as the sources write it with \<open>expect\<close> or after a test.\<close>

definition divided :: "DeltaError \<Rightarrow> BigInt \<Rightarrow> BigInt \<Rightarrow> (BigInt \<times> BigInt) tres" where
  "divided e a b = (case div_mod_floor a b of None \<Rightarrow> Inl LoopForever | Some None \<Rightarrow> Inl e | Some (Some qr) \<Rightarrow> Inr qr)"

definition expect_i64 :: "BigInt \<Rightarrow> i64 tres" where
  "expect_i64 b = (case to_i64 b of None \<Rightarrow> Inl ExpectFailed | Some v \<Rightarrow> Inr v)"

definition normalized_timedelta_parts_from_total_microseconds :: "BigInt \<Rightarrow> DeltaParts tres" where
  "normalized_timedelta_parts_from_total_microseconds total_microseconds =
     (let day_us = from_i64 DATETIME_MICROSECONDS_PER_DAY; us_per_second = from_i64 DATETIME_MICROSECONDS_PER_SECOND;
          max_days = from_i64 DATETIME_MAX_DELTA_DAYS; min_days = negated max_days
      in bindr (divided ExpectFailed total_microseconds day_us) (\<lambda>(days, remainder).
         if cmp_total days min_days = Less \<or> cmp_total days max_days = Greater then Inl (DaysOverflow days)
         else bindr (divided ExpectFailed remainder us_per_second) (\<lambda>(seconds, microseconds).
              bindr (expect_i64 days) (\<lambda>days. bindr (expect_i64 seconds) (\<lambda>seconds.
              bindr (expect_i64 microseconds) (\<lambda>microseconds.
                Inr \<lparr>td_days = days, td_seconds = seconds, td_microseconds = microseconds\<rparr>))))))"

definition timedelta_total_microseconds :: "DeltaParts \<Rightarrow> BigInt" where
  "timedelta_total_microseconds p =
     (let day_part = bigint_mul (from_i64 (td_days p)) (from_i64 DATETIME_MICROSECONDS_PER_DAY);
          second_part = bigint_mul (from_i64 (td_seconds p)) (from_i64 DATETIME_MICROSECONDS_PER_SECOND)
      in bigint_add (bigint_add day_part second_part) (from_i64 (td_microseconds p)))"

definition timedelta_from_total :: "BigInt \<Rightarrow> DeltaResult tres" where
  "timedelta_from_total micros = bindr (normalized_timedelta_parts_from_total_microseconds micros) (\<lambda>p. Inr (NewDelta p))"

text \<open>\<open>timedelta(days, seconds, microseconds, weeks, hours, minutes, milliseconds)\<close>\<close>

definition delta_init :: "i64 \<Rightarrow> i64 \<Rightarrow> i64 \<Rightarrow> i64 \<Rightarrow> i64 \<Rightarrow> i64 \<Rightarrow> i64 \<Rightarrow> DeltaParts tres" where
  "delta_init days seconds microseconds weeks hours minutes milliseconds =
     (let times = (\<lambda>x c. bigint_mul (from_i64 x) (from_i64 c));
          micros = bigint_add (from_i64 microseconds) (times milliseconds 1000);
          micros = bigint_add micros (times seconds DATETIME_MICROSECONDS_PER_SECOND);
          micros = bigint_add micros (times minutes (60 * DATETIME_MICROSECONDS_PER_SECOND));
          micros = bigint_add micros (times hours (3600 * DATETIME_MICROSECONDS_PER_SECOND));
          micros = bigint_add micros
            (bigint_mul (bigint_add (from_i64 days) (times weeks 7)) (from_i64 DATETIME_MICROSECONDS_PER_DAY))
      in normalized_timedelta_parts_from_total_microseconds micros)"

section \<open>Factors\<close>

fun timedelta_integer_factor :: "Operand \<Rightarrow> BigInt option" where
  "timedelta_integer_factor (NumberArg (VInt number)) = Some (from_i64 number)"
| "timedelta_integer_factor (NumberArg (VBool flag)) = Some (from_i64 (if flag then 1 else 0))"
| "timedelta_integer_factor (NumberArg (VBig number)) = Some number"
| "timedelta_integer_factor _ = None"

definition trailing_zeros :: "u64 \<Rightarrow> nat" where
  "trailing_zeros x = length (takeWhile (\<lambda>i. \<not> bit x i) [0..<64])"

text \<open>A finite double as a fraction: the powers of two are taken out of the mantissa first.\<close>

definition timedelta_float_ratio :: "f64 \<Rightarrow> (BigInt \<times> BigInt) tres" where
  "timedelta_float_ratio x =
     (let exponent_bits = int (f64_exponent x); fraction = x AND (push_bit 52 1 - 1)
      in if f64_exponent x = 0x7ff \<and> fraction \<noteq> 0 then Inl NanRatio
         else if f64_exponent x = 0x7ff then Inl InfinityRatio
         else if exponent_bits = 0 \<and> fraction = 0 then Inr (bigint_zero, bigint_one)
         else let mantissa = (if exponent_bits = 0 then fraction else push_bit 52 1 OR fraction);
                  exponent = (if exponent_bits = 0 then 1 - 1023 - 52 else exponent_bits - 1023 - 52);
                  reduce = (if exponent < 0 then min (trailing_zeros mantissa) (nat (- exponent)) else 0);
                  mantissa = drop_bit reduce mantissa; exponent = exponent + int reduce;
                  numerator = from_u64 mantissa;
                  numerator = (if f64_sign_bit x then negated numerator else numerator)
              in Inr (if 0 \<le> exponent then (shl_bits numerator (nat exponent), bigint_one)
                      else (numerator, shl_bits bigint_one (nat (- exponent)))))"

definition bigint_is_odd :: "BigInt \<Rightarrow> bool tres" where
  "bigint_is_odd value = bindr (divided ExpectFailed value (from_i64 2)) (\<lambda>(_, remainder). Inr (\<not> is_zero remainder))"

definition timedelta_divide_nearest :: "BigInt \<Rightarrow> BigInt \<Rightarrow> BigInt tres" where
  "timedelta_divide_nearest numerator denominator =
     (if is_zero denominator then Inl ZeroDivision
      else let denominator_abs = bigint_abs denominator
           in bindr (divided ZeroDivision (bigint_abs numerator) denominator_abs) (\<lambda>(quotient, remainder).
              bindr (case cmp_total (mul_small remainder 2) denominator_abs of
                       Greater \<Rightarrow> Inr (bigint_add quotient bigint_one)
                     | Equal \<Rightarrow> bindr (bigint_is_odd quotient) (\<lambda>odd. Inr (if odd then bigint_add quotient bigint_one else quotient))
                     | Less \<Rightarrow> Inr quotient) (\<lambda>quotient.
                Inr (if is_negative numerator = is_negative denominator \<or> is_zero quotient then quotient else negated quotient))))"

section \<open>Operators\<close>

definition delta_add :: "bool \<Rightarrow> DeltaParts \<Rightarrow> Operand \<Rightarrow> DeltaResult tres" where
  "delta_add reflected left arg =
     (case arg of
        DeltaArg right \<Rightarrow>
          let l = timedelta_total_microseconds left; r = timedelta_total_microseconds right
          in timedelta_from_total (if reflected then bigint_add r l else bigint_add l r)
      | _ \<Rightarrow> Inr NotImplemented)"

definition delta_sub :: "bool \<Rightarrow> DeltaParts \<Rightarrow> Operand \<Rightarrow> DeltaResult tres" where
  "delta_sub reflected left arg =
     (case arg of
        DeltaArg right \<Rightarrow>
          let l = timedelta_total_microseconds left; r = timedelta_total_microseconds right
          in timedelta_from_total (if reflected then bigint_sub r l else bigint_sub l r)
      | _ \<Rightarrow> Inr NotImplemented)"

definition delta_neg :: "DeltaParts \<Rightarrow> DeltaResult tres" where
  "delta_neg p = timedelta_from_total (negated (timedelta_total_microseconds p))"

definition delta_pos :: "DeltaParts \<Rightarrow> DeltaResult tres" where
  "delta_pos p = timedelta_from_total (timedelta_total_microseconds p)"

definition delta_abs :: "DeltaParts \<Rightarrow> DeltaResult tres" where
  "delta_abs p =
     (let micros = timedelta_total_microseconds p in timedelta_from_total (if is_negative micros then negated micros else micros))"

definition delta_bool :: "DeltaParts \<Rightarrow> bool" where
  "delta_bool p \<longleftrightarrow> td_days p \<noteq> 0 \<or> td_seconds p \<noteq> 0 \<or> td_microseconds p \<noteq> 0"

definition delta_mul :: "DeltaParts \<Rightarrow> Operand \<Rightarrow> DeltaResult tres" where
  "delta_mul p arg =
     (let micros = timedelta_total_microseconds p
      in case timedelta_integer_factor arg of
           Some factor \<Rightarrow> timedelta_from_total (bigint_mul micros factor)
         | None \<Rightarrow>
             (case arg of
                FloatArg x \<Rightarrow>
                  bindr (timedelta_float_ratio x) (\<lambda>(numerator, denominator).
                  bindr (timedelta_divide_nearest (bigint_mul micros numerator) denominator) timedelta_from_total)
              | _ \<Rightarrow> Inr NotImplemented))"

definition delta_divide :: "BigInt \<Rightarrow> Operand \<Rightarrow> DeltaResult tres" where
  "delta_divide micros arg =
     (case timedelta_integer_factor arg of
        Some divisor \<Rightarrow> bindr (timedelta_divide_nearest micros divisor) timedelta_from_total
      | None \<Rightarrow>
          (case arg of
             FloatArg x \<Rightarrow>
               bindr (timedelta_float_ratio x) (\<lambda>(numerator, denominator).
               bindr (timedelta_divide_nearest (bigint_mul micros denominator) numerator) timedelta_from_total)
           | _ \<Rightarrow> Inr NotImplemented))"

text \<open>\<open>fdiv\<close> is the division of doubles.\<close>

definition delta_truediv :: "(f64 \<Rightarrow> f64 \<Rightarrow> f64) \<Rightarrow> DeltaParts \<Rightarrow> Operand \<Rightarrow> DeltaResult tres" where
  "delta_truediv fdiv p arg =
     (let micros = timedelta_total_microseconds p
      in case arg of
           DeltaArg other \<Rightarrow>
             let other_total = timedelta_total_microseconds other
             in if is_zero other_total then Inl ZeroDivision else Inr (FloatResult (fdiv (to_f64 micros) (to_f64 other_total)))
         | _ \<Rightarrow> delta_divide micros arg)"

definition delta_floordiv :: "DeltaParts \<Rightarrow> Operand \<Rightarrow> DeltaResult tres" where
  "delta_floordiv p arg =
     (let micros = timedelta_total_microseconds p
      in case timedelta_integer_factor arg of
           Some divisor \<Rightarrow> bindr (divided ZeroDivision micros divisor) (\<lambda>(quotient, _). timedelta_from_total quotient)
         | None \<Rightarrow>
             (case arg of
                DeltaArg other \<Rightarrow>
                  bindr (divided ZeroDivision micros (timedelta_total_microseconds other)) (\<lambda>(quotient, _).
                    Inr (IntResult (bigint_to_value quotient)))
              | _ \<Rightarrow> Inr NotImplemented))"

definition delta_mod :: "DeltaParts \<Rightarrow> Operand \<Rightarrow> DeltaResult tres" where
  "delta_mod left arg =
     (case arg of
        DeltaArg right \<Rightarrow>
          bindr (divided ZeroDivision (timedelta_total_microseconds left) (timedelta_total_microseconds right))
            (\<lambda>(_, remainder). timedelta_from_total remainder)
      | _ \<Rightarrow> Inr NotImplemented)"

definition delta_divmod :: "DeltaParts \<Rightarrow> Operand \<Rightarrow> DeltaResult tres" where
  "delta_divmod left arg =
     (case arg of
        DeltaArg right \<Rightarrow>
          bindr (divided ZeroDivision (timedelta_total_microseconds left) (timedelta_total_microseconds right))
            (\<lambda>(quotient, remainder).
              bindr (normalized_timedelta_parts_from_total_microseconds remainder) (\<lambda>p. Inr (PairResult (bigint_to_value quotient) p)))
      | _ \<Rightarrow> Inr NotImplemented)"

section \<open>Texts\<close>

definition delta_repr :: "DeltaParts \<Rightarrow> rstring" where
  "delta_repr p =
     (let part = (\<lambda>name v. if v \<noteq> 0 then [str name @ pad_int 0 (sint (v :: i64))] else []);
          parts = part ''days='' (td_days p) @ part ''seconds='' (td_seconds p) @ part ''microseconds='' (td_microseconds p);
          parts = (if parts = [] then [str ''0''] else parts)
      in str ''datetime.timedelta('' @ concat (hd parts # map (\<lambda>x. str '', '' @ x) (tl parts)) @ str '')'')"

definition delta_str :: "DeltaParts \<Rightarrow> rstring" where
  "delta_str p =
     (let days = sint (td_days p); total_seconds = sint (td_seconds p); microseconds = sint (td_microseconds p);
          hours = total_seconds div 3600; minutes = total_seconds mod 3600 div 60; seconds = total_seconds mod 60;
          clock = pad_int 0 hours @ [58] @ pad_int 2 minutes @ [58] @ pad_int 2 seconds @
            (if microseconds \<noteq> 0 then 46 # pad_int 6 microseconds else [])
      in if days \<noteq> 0 then pad_int 0 days @ str '' day'' @ (if days = 1 \<or> days = - 1 then [] else str ''s'') @ str '', '' @ clock
         else clock)"

end
