(* ===== verification/Calendar_Spec.thy ===== *)
theory Calendar_Spec
  imports Calendar
begin

text \<open>
  Days and dates are in one-to-one correspondence. The year within an era is found by a formula that divides once;
  it is monotone in the day, so it is enough to look at the first and the last day of each of the 400 years.
\<close>

section \<open>Division\<close>

lemma sdiv_nonneg: "0 \<le> a \<Longrightarrow> 0 < b \<Longrightarrow> a sdiv b = (a :: int) div b"
  by (cases "a = 0") (simp_all add: signed_divide_int_def)

lemma sdiv_floored:
  fixes z b :: int
  assumes "0 < b"
  shows "(if 0 \<le> z then z else z - (b - 1)) sdiv b = z div b"
proof (cases "0 \<le> z")
  case False
  define q r where "q = z div b" and "r = z mod b"
  have z: "z = b * q + r" and r: "0 \<le> r" "r < b" using assms by (simp_all add: q_def r_def)
  have "(z - (b - 1)) sdiv b = - ((b - 1 - z) div b)" using False assms by (simp add: signed_divide_int_def)
  also have "b - 1 - z = (b - 1 - r) + (- q) * b" using z by (simp add: algebra_simps)
  also have "\<dots> div b = - q" using r assms by (subst div_mult_self1) simp_all
  finally show ?thesis using False by (simp add: q_def)
qed (simp add: sdiv_nonneg assms)

lemma smod_zero: "(a :: int) smod b = 0 \<longleftrightarrow> b dvd a"
  by (auto simp: signed_modulo_int_def sgn_if mod_eq_0_iff_dvd)

lemma is_leap_dvd: "is_leap_year y \<longleftrightarrow> 4 dvd y \<and> \<not> 100 dvd y \<or> 400 dvd y"
  by (simp add: is_leap_year_def smod_zero)

lemma div_gap:
  assumes "m \<le> n" "0 < b"
  shows "n div b - m div b \<le> n - (m :: int)"
proof -
  have "n div b \<le> (m + (n - m) * b) div b"
    using assms mult_left_mono [of 1 b "n - m"] by (intro zdiv_mono1) simp_all
  also have "\<dots> = m div b + (n - m)" using assms(2) by simp
  finally show ?thesis by simp
qed

section \<open>The year within the era\<close>

definition shifted :: "int \<Rightarrow> int" where
  "shifted n = n - n div 1460 + n div 36524 - n div 146096"

definition year_start :: "int \<Rightarrow> int" where
  "year_start k = 365 * k + k div 4 - k div 100"

lemma shifted_mono:
  assumes "m \<le> n"
  shows "shifted m \<le> shifted n"
proof -
  have "n div 146096 = n div 36524 div 4" "m div 146096 = m div 36524 div 4"
    using zdiv_zmult2_eq [of 4 n 36524] zdiv_zmult2_eq [of 4 m 36524] by simp_all
  then have "n div 146096 - m div 146096 \<le> n div 36524 - m div 36524"
    using div_gap [of "m div 36524" "n div 36524" 4] assms by (simp add: zdiv_mono1)
  moreover have "n div 1460 - m div 1460 \<le> n - m" using div_gap assms by simp
  ultimately show ?thesis by (simp add: shifted_def)
qed

definition years_ok :: bool where
  "years_ok = list_all (\<lambda>k. 365 * k \<le> shifted (year_start k) \<and>
     shifted (if k = 399 then 146096 else year_start (k + 1) - 1) < 365 * (k + 1)) [0..399]"

lemma years_ok: years_ok
  by code_simp

lemma year_bounds:
  assumes "0 \<le> k" "k \<le> 399"
  shows "365 * k \<le> shifted (year_start k)" "k < 399 \<Longrightarrow> shifted (year_start (k + 1) - 1) < 365 * (k + 1)"
proof -
  have "365 * k \<le> shifted (year_start k) \<and> shifted (if k = 399 then 146096 else year_start (k + 1) - 1) < 365 * (k + 1)"
    using years_ok assms unfolding years_ok_def list_all_iff by (elim bspec) simp
  then show "365 * k \<le> shifted (year_start k)" "k < 399 \<Longrightarrow> shifted (year_start (k + 1) - 1) < 365 * (k + 1)" by simp_all
qed

lemma yoe_of_range:
  assumes "0 \<le> doe" "doe \<le> 146096"
  defines "k \<equiv> yoe_of doe"
  shows "0 \<le> k" "k \<le> 399" "year_start k \<le> doe" "k < 399 \<Longrightarrow> doe < year_start (k + 1)"
proof -
  have "0 \<le> shifted doe" using shifted_mono [OF assms(1)] by (simp add: shifted_def)
  then have k: "k = shifted doe div 365"
    using assms(1) by (simp add: k_def yoe_of_def sdiv_nonneg shifted_def)
  then show k0: "0 \<le> k" using \<open>0 \<le> shifted doe\<close> by (simp add: pos_imp_zdiv_nonneg_iff)
  have lo: "365 * k \<le> shifted doe" and hi: "shifted doe < 365 * (k + 1)" unfolding k by simp_all
  have "shifted doe \<le> shifted 146096" using assms(2) by (rule shifted_mono)
  then show k399: "k \<le> 399" using lo by (simp add: shifted_def)
  show "year_start k \<le> doe"
  proof (rule ccontr)
    assume "\<not> year_start k \<le> doe"
    then have "k \<noteq> 0" using assms(1) by (auto simp: year_start_def)
    then have "shifted doe < 365 * k"
      using \<open>\<not> year_start k \<le> doe\<close> year_bounds(2) [of "k - 1"] shifted_mono [of doe "year_start k - 1"] k0 k399 by simp
    then show False using lo by simp
  qed
  show "doe < year_start (k + 1)" if "k < 399"
    using that k0 hi year_bounds(1) [of "k + 1"] shifted_mono [of "year_start (k + 1)" doe] by fastforce
qed

section \<open>Days of years that begin in March\<close>

definition march_start :: "int \<Rightarrow> int" where
  "march_start y = 365 * y + y div 4 - y div 100 + y div 400"

lemma march_start_era:
  assumes "0 \<le> k" "k \<le> 399"
  shows "march_start (k + era * 400) = era * 146097 + year_start k"
proof -
  have "(k + era * 400) div 4 = k div 4 + era * 100" "(k + era * 400) div 100 = k div 100 + era * 4"
    using div_mult_self1 [of 4 k "era * 100"] div_mult_self1 [of 100 k "era * 4"] by (simp_all add: algebra_simps)
  then show ?thesis using assms by (simp add: march_start_def year_start_def algebra_simps)
qed

lemma div_Suc_int:
  fixes y n :: int
  assumes "0 < n"
  shows "(y + 1) div n = y div n + (if n dvd y + 1 then 1 else 0)"
proof -
  define q r where "q = y div n" and "r = y mod n"
  have y: "y + 1 = (r + 1) + q * n" and r: "0 \<le> r" "r < n" using assms by (simp_all add: q_def r_def)
  have "n dvd y + 1 \<longleftrightarrow> n dvd r + 1" unfolding y by simp
  also have "\<dots> \<longleftrightarrow> r + 1 = n" using r zdvd_imp_le [of n "r + 1"] by auto
  finally show ?thesis using r assms unfolding y by (auto simp: q_def)
qed

lemma march_start_Suc: "march_start (y + 1) = march_start y + (if is_leap_year (y + 1) then 366 else 365)"
proof -
  have "100 dvd y + 1 \<Longrightarrow> 4 dvd y + 1" "400 dvd y + 1 \<Longrightarrow> 100 dvd y + 1"
    using dvd_trans [of "4 :: int" 100 "y + 1"] dvd_trans [of "100 :: int" 400 "y + 1"] by simp_all
  then show ?thesis by (auto simp: march_start_def is_leap_dvd div_Suc_int)
qed

lemma march_start_less: "a < b \<Longrightarrow> march_start (a + 1) \<le> march_start b"
proof (induction "nat (b - a - 1)" arbitrary: b)
  case (Suc k)
  then have "march_start (a + 1) \<le> march_start (b - 1)" by simp
  then show ?case using march_start_Suc [of "b - 1"] by (simp split: if_splits)
next
  case 0
  then have "b = a + 1" by simp
  then show ?case by simp
qed

lemma march_year_unique:
  assumes "march_start a \<le> z" "z < march_start (a + 1)" "march_start b \<le> z" "z < march_start (b + 1)"
  shows "a = b"
  using assms march_start_less [of a b] march_start_less [of b a] by linarith

text \<open>The months from March: how many days they have and where they begin.\<close>

definition month_length :: "int \<Rightarrow> int" where
  "month_length mp = [31, 30, 31, 30, 31, 31, 30, 31, 30, 31, 31, 29] ! nat mp"

definition month_start :: "int \<Rightarrow> int" where
  "month_start mp = (153 * mp + 2) div 5"

definition month_of :: "int \<Rightarrow> int" where
  "month_of doy = (5 * doy + 2) div 153"

definition days_ok :: bool where
  "days_ok = list_all (\<lambda>doy. let mp = month_of doy; d = doy - month_start mp + 1
     in 0 \<le> mp \<and> mp \<le> 11 \<and> 1 \<le> d \<and> d \<le> month_length mp \<and> (mp = 11 \<and> d = 29 \<longleftrightarrow> doy = 365)) [0..365]"

definition months_ok :: bool where
  "months_ok = list_all (\<lambda>mp. 0 \<le> month_start mp \<and> list_all (\<lambda>d. month_of (month_start mp + d - 1) = mp \<and> month_start mp + d \<le> 366) [1..month_length mp] \<and>
     (mp < 11 \<longrightarrow> month_start mp + month_length mp \<le> 365)) [0..11]"

lemma days_ok: days_ok and months_ok: months_ok
  by code_simp+


lemma month_of_doy:
  assumes "0 \<le> doy" "doy \<le> 365"
  defines "mp \<equiv> month_of doy" and "d \<equiv> doy - month_start (month_of doy) + 1"
  shows "0 \<le> mp" "mp \<le> 11" "1 \<le> d" "d \<le> month_length mp" "mp = 11 \<and> d = 29 \<longleftrightarrow> doy = 365" "0 \<le> month_start mp"
proof -
  have 1: "let mp = month_of doy; d = doy - month_start mp + 1
     in 0 \<le> mp \<and> mp \<le> 11 \<and> 1 \<le> d \<and> d \<le> month_length mp \<and> (mp = 11 \<and> d = 29 \<longleftrightarrow> doy = 365)"
    using days_ok assms(1,2) unfolding days_ok_def list_all_iff by (elim bspec) simp
  then show "0 \<le> mp" "mp \<le> 11" "1 \<le> d" "d \<le> month_length mp" "mp = 11 \<and> d = 29 \<longleftrightarrow> doy = 365"
    by (simp_all only: Let_def mp_def d_def)
  then show "0 \<le> month_start mp" by (simp add: month_start_def)
qed

lemma month_of_start:
  assumes "0 \<le> mp" "mp \<le> 11" "1 \<le> d" "d \<le> month_length mp"
  shows "month_of (month_start mp + d - 1) = mp" "month_start mp + d \<le> 366" "mp < 11 \<Longrightarrow> month_start mp + d \<le> 365"
proof -
  have 1: "0 \<le> month_start mp \<and> list_all (\<lambda>d. month_of (month_start mp + d - 1) = mp \<and> month_start mp + d \<le> 366) [1..month_length mp] \<and>
     (mp < 11 \<longrightarrow> month_start mp + month_length mp \<le> 365)"
    using months_ok assms(1,2) unfolding months_ok_def list_all_iff by (elim bspec) simp
  then have "month_of (month_start mp + d - 1) = mp \<and> month_start mp + d \<le> 366"
    using assms(3,4) unfolding list_all_iff by (elim conjE bspec) simp
  then show "month_of (month_start mp + d - 1) = mp" "month_start mp + d \<le> 366" by simp_all
  show "mp < 11 \<Longrightarrow> month_start mp + d \<le> 365" using 1 assms(4) by linarith
qed

section \<open>Dates\<close>

definition valid_date :: "int \<Rightarrow> int \<Rightarrow> int \<Rightarrow> bool" where
  "valid_date year month day \<longleftrightarrow> (case days_in_month year month of None \<Rightarrow> False | Some n \<Rightarrow> 1 \<le> day \<and> day \<le> n)"

text \<open>The year and the month counted from March.\<close>

definition march_year :: "int \<Rightarrow> int \<Rightarrow> int" where
  "march_year year month = year - (if month \<le> 2 then 1 else 0)"

definition march_month :: "int \<Rightarrow> int" where
  "march_month month = month + (if 2 < month then - 3 else 9)"

lemma month_cases:
  fixes m :: int
  assumes "1 \<le> m" "m \<le> 12"
  shows "m \<in> {1, 2, 3, 4, 5, 6, 7, 8, 9, 10, 11, 12}"
  using assms by simp presburger

lemma days_in_month_march:
  assumes "1 \<le> m" "m \<le> 12"
  shows "days_in_month y m =
    Some (if march_month m = 11 \<and> \<not> is_leap_year (march_year y m + 1) then 28 else month_length (march_month m))"
  using month_cases [OF assms] by (auto simp: days_in_month_def month_length_def march_month_def march_year_def)

lemma valid_date_march:
  "valid_date y m d \<longleftrightarrow> 1 \<le> m \<and> m \<le> 12 \<and> 1 \<le> d \<and> d \<le> month_length (march_month m) \<and>
    (march_month m = 11 \<and> d = 29 \<longrightarrow> is_leap_year (march_year y m + 1))"
proof (cases "1 \<le> m \<and> m \<le> 12")
  case True
  have "month_length 11 = 29" by (simp add: month_length_def)
  then show ?thesis using True by (auto simp: valid_date_def days_in_month_march)
qed (auto simp: valid_date_def days_in_month_def)

lemma days_from_civil_march:
  "days_from_civil y m d = march_start (march_year y m) + month_start (march_month m) + d - 1 - 719468"
  if "1 \<le> m" "m \<le> 12"
proof -
  let ?y = "march_year y m"
  have "(if 0 \<le> ?y then ?y else ?y - 399) sdiv 400 = ?y div 400"
    using sdiv_floored [of 400 ?y] by (simp split: if_splits)
  moreover have "march_start ?y = ?y div 400 * 146097 + year_start (?y mod 400)"
    using march_start_era [of "?y mod 400" "?y div 400"] by simp
  moreover have "?y - ?y div 400 * 400 = ?y mod 400" by (simp add: minus_div_mult_eq_mod)
  moreover have "(153 * march_month m + 2) sdiv 5 = month_start (march_month m)"
    using that by (simp add: month_start_def march_month_def sdiv_nonneg)
  moreover have "days_from_civil y m d = (let era = (if 0 \<le> ?y then ?y else ?y - 399) sdiv 400; yoe = ?y - era * 400
      in era * 146097 + (yoe * 365 + yoe sdiv 4 - yoe sdiv 100 + ((153 * march_month m + 2) sdiv 5 + d - 1)) - 719468)"
    by (simp add: days_from_civil_def march_year_def march_month_def Let_def)
  ultimately show ?thesis by (simp add: Let_def sdiv_nonneg year_start_def)
qed

lemma civil_wide_march:
  obtains y doy where "days + 719468 = march_start y + doy" "0 \<le> doy" "doy < march_start (y + 1) - march_start y"
    "civil_wide days = (let mp = month_of doy; m = mp + (if mp < 10 then 3 else - 9)
       in (y + (if m \<le> 2 then 1 else 0), m, doy - month_start mp + 1))"
proof -
  define z where "z = days + 719468"
  define era doe where "era = z div 146097" and "doe = z mod 146097"
  define k where "k = yoe_of doe"
  define doy where "doy = doe - year_start k"
  have z: "z = era * 146097 + doe" and doe: "0 \<le> doe" "doe \<le> 146096"
    using pos_mod_bound [of 146097 z] by (simp_all add: era_def doe_def)
  note k = yoe_of_range [OF doe, folded k_def]
  have s: "march_start (k + era * 400) = era * 146097 + year_start k" using march_start_era k(1,2) by blast
  have s1: "z < march_start (k + era * 400 + 1)"
  proof (cases "k = 399")
    case True
    then have "k + era * 400 + 1 = 0 + (era + 1) * 400" by simp
    then have "march_start (k + era * 400 + 1) = (era + 1) * 146097"
      using march_start_era [of 0 "era + 1"] unfolding year_start_def by (simp only:)
    then show ?thesis using z doe(2) by simp
  next
    case False
    then have "march_start (k + 1 + era * 400) = era * 146097 + year_start (k + 1)" using k by (intro march_start_era) simp_all
    then show ?thesis using z k(2) k(4) False by (simp add: algebra_simps)
  qed
  have doy: "z = march_start (k + era * 400) + doy" "0 \<le> doy" using s z k(3) by (simp_all add: doy_def)
  show ?thesis
  proof (rule that)
    show "days + 719468 = march_start (k + era * 400) + doy" using doy(1) by (simp add: z_def)
    show "doy < march_start (k + era * 400 + 1) - march_start (k + era * 400)" using doy(1) s1 by simp
    have e: "era_of z = era" using sdiv_floored [of 146097 z] by (simp add: era_of_def era_def split: if_splits)
    have d: "z - era * 146097 = doe" using z by simp
    have y: "doe - (365 * k + k sdiv 4 - k sdiv 100) = doy" using k(1) by (simp add: doy_def year_start_def sdiv_nonneg)
    have m: "(5 * doy + 2) sdiv 153 = month_of doy" using doy(2) by (simp add: month_of_def sdiv_nonneg)
    have ms: "(153 * month_of doy + 2) sdiv 5 = month_start (month_of doy)"
      using doy(2) by (simp add: month_start_def month_of_def sdiv_nonneg pos_imp_zdiv_nonneg_iff)
    show "civil_wide days = (let mp = month_of doy; m = mp + (if mp < 10 then 3 else - 9)
       in (k + era * 400 + (if m \<le> 2 then 1 else 0), m, doy - month_start mp + 1))"
      unfolding civil_wide_def Let_def z_def [symmetric] e d k_def [symmetric] y m ms by simp
  qed (rule doy(2))
qed


lemma march_month_inverse:
  assumes "0 \<le> mp" "mp \<le> 11"
  defines "m \<equiv> mp + (if mp < 10 then 3 else - 9)"
  shows "march_month m = mp" "1 \<le> m" "m \<le> 12" "march_year (y + (if m \<le> 2 then 1 else 0)) m = y"
  using assms by (auto simp: march_month_def march_year_def)

lemma civil_wide_valid:
  assumes "civil_wide days = (y, m, d)"
  shows "valid_date y m d" "days_from_civil y m d = days"
proof -
  obtain Y doy where z: "days + 719468 = march_start Y + doy" and doy: "0 \<le> doy" "doy < march_start (Y + 1) - march_start Y"
    and e: "civil_wide days = (let mp = month_of doy; m = mp + (if mp < 10 then 3 else - 9)
       in (Y + (if m \<le> 2 then 1 else 0), m, doy - month_start mp + 1))"
    by (rule civil_wide_march)
  define mp where "mp = month_of doy"
  have le: "doy \<le> 365" "doy = 365 \<Longrightarrow> is_leap_year (Y + 1)" using doy(2) march_start_Suc [of Y] by (auto split: if_splits)
  note mo = month_of_doy [OF doy(1) le(1), folded mp_def]
  have m: "m = mp + (if mp < 10 then 3 else - 9)" "y = Y + (if m \<le> 2 then 1 else 0)" "d = doy - month_start mp + 1"
    using e assms by (auto simp: Let_def mp_def)
  note mm = march_month_inverse [OF mo(1,2), folded m(1)]
  have Y: "march_year y m = Y" using mm(4) m(2) by simp
  show "valid_date y m d" using mo mm Y le by (auto simp: valid_date_march m(3))
  show "days_from_civil y m d = days" using mm Y z by (simp add: days_from_civil_march m(3))
qed

lemma days_from_civil_inverse:
  assumes "valid_date y m d"
  shows "civil_wide (days_from_civil y m d) = (y, m, d)"
proof -
  let ?days = "days_from_civil y m d" and ?mp = "march_month m" and ?Y = "march_year y m"
  have v: "1 \<le> m" "m \<le> 12" "1 \<le> d" "d \<le> month_length ?mp" "?mp = 11 \<and> d = 29 \<Longrightarrow> is_leap_year (?Y + 1)"
    using assms by (auto simp: valid_date_march)
  have mp: "0 \<le> ?mp" "?mp \<le> 11" using v by (auto simp: march_month_def)
  define D where "D = month_start ?mp + d - 1"
  note mo = month_of_start [OF mp v(3,4), folded D_def]
  have D0: "0 \<le> D" using mp v(3) by (simp add: D_def month_start_def pos_imp_zdiv_nonneg_iff)
  have days: "?days + 719468 = march_start ?Y + D" using v by (simp add: days_from_civil_march D_def)
  have Dlt: "D < march_start (?Y + 1) - march_start ?Y"
  proof (cases "D = 365")
    case True
    then have "?mp = 11 \<and> d = 29" using month_of_doy(5) [of D] mo(1) D0 by (auto simp: D_def)
    then show ?thesis using v(5) march_start_Suc [of ?Y] True by simp
  qed (use mo(2) march_start_Suc [of ?Y] in \<open>auto simp: D_def split: if_splits\<close>)
  obtain Y doy where z: "?days + 719468 = march_start Y + doy" and doy: "0 \<le> doy" "doy < march_start (Y + 1) - march_start Y"
    and e: "civil_wide ?days = (let mp = month_of doy; m = mp + (if mp < 10 then 3 else - 9)
       in (Y + (if m \<le> 2 then 1 else 0), m, doy - month_start mp + 1))"
    by (rule civil_wide_march)
  have Y: "Y = ?Y" using march_year_unique [of Y "?days + 719468" ?Y] z days doy D0 Dlt by linarith
  then have "doy = D" using z days by simp
  moreover have "?mp + (if ?mp < 10 then 3 else - 9) = m" "?Y + (if m \<le> 2 then 1 else 0) = y"
    using v by (auto simp: march_month_def march_year_def)
  ultimately show ?thesis using Y mo(1) by (simp add: e Let_def D_def)
qed

section \<open>The next day\<close>

definition next_date :: "int \<times> int \<times> int \<Rightarrow> int \<times> int \<times> int" where
  "next_date date = (case date of (y, m, d) \<Rightarrow>
     if days_in_month y m \<noteq> Some d then (y, m, d + 1) else if m < 12 then (y, m + 1, 1) else (y + 1, 1, 1))"

lemma valid_date_month: "valid_date y m d \<Longrightarrow> m \<in> {1, 2, 3, 4, 5, 6, 7, 8, 9, 10, 11, 12}"
  using month_cases [of m] by (simp add: valid_date_march)

lemma day_one_valid: "1 \<le> m \<Longrightarrow> m \<le> 12 \<Longrightarrow> valid_date y m 1"
  using month_cases [of m] by (auto simp: valid_date_def days_in_month_def)

lemma next_date_valid:
  assumes "valid_date y m d" "next_date (y, m, d) = (y', m', d')"
  shows "valid_date y' m' d'"
proof (cases "days_in_month y m = Some d")
  case False
  then show ?thesis using assms by (auto simp: next_date_def valid_date_def split: option.splits)
next
  case True
  have "1 \<le> m" using assms by (simp add: valid_date_march)
  then show ?thesis using assms True by (auto simp: next_date_def intro!: day_one_valid split: if_splits)
qed

lemma next_date_days:
  assumes "valid_date y m d" "next_date (y, m, d) = (y', m', d')"
  shows "days_from_civil y' m' d' = days_from_civil y m d + 1"
proof -
  have m: "m \<in> {1, 2, 3, 4, 5, 6, 7, 8, 9, 10, 11, 12}" using valid_date_month [OF assms(1)] .
  then have range: "1 \<le> m" "m \<le> 12" by auto
  show ?thesis
  proof (cases "days_in_month y m = Some d")
    case False
    then show ?thesis using assms range by (auto simp: next_date_def days_from_civil_march)
  next
    case last: True
    have "(y', m', d') = (if m < 12 then (y, m + 1, 1) else (y + 1, 1, 1))"
      using assms last by (auto simp: next_date_def)
    then have n: "y' = (if m < 12 then y else y + 1)" "m' = (if m < 12 then m + 1 else 1)" "d' = 1" by (auto split: if_splits)
    have leap: "march_start y = march_start (y - 1) + (if is_leap_year y then 366 else 365)"
      using march_start_Suc [of "y - 1"] by simp
    have e: "1 \<le> m'" "m' \<le> 12" using n range by auto
    show ?thesis
      unfolding days_from_civil_march [OF range] days_from_civil_march [OF e]
      using m last leap by (auto simp: n march_year_def march_month_def month_start_def days_in_month_def)
  qed
qed

section \<open>Days of the year and the time of day\<close>

lemma day_of_year_days:
  assumes "valid_date y m d"
  shows "day_of_year y m d = days_from_civil y m d - days_from_civil y 1 1 + 1"
proof -
  have m: "m \<in> {1, 2, 3, 4, 5, 6, 7, 8, 9, 10, 11, 12}" using valid_date_month [OF assms] .
  then have range: "1 \<le> m" "m \<le> 12" by auto
  have leap: "march_start y = march_start (y - 1) + (if is_leap_year y then 366 else 365)"
    using march_start_Suc [of "y - 1"] by simp
  show ?thesis
    unfolding days_from_civil_march [OF range] days_from_civil_march [of 1 y 1, simplified]
    using m leap by (auto simp: day_of_year_def month_days_def march_year_def march_month_def month_start_def numeral_eq_Suc)
qed

definition days_in_year :: "int \<Rightarrow> int" where
  "days_in_year y = (if is_leap_year y then 366 else 365)"

lemma day_of_year_range: "valid_date y m d \<Longrightarrow> 1 \<le> day_of_year y m d \<and> day_of_year y m d \<le> days_in_year y"
  using valid_date_month [of y m d]
  by (auto simp: valid_date_def days_in_month_def day_of_year_def month_days_def days_in_year_def numeral_eq_Suc split: if_splits)

lemma new_year_next: "days_from_civil (y + 1) 1 1 = days_from_civil y 1 1 + days_in_year y"
  using march_start_Suc [of "y - 1"] by (simp add: days_from_civil_march march_year_def march_month_def days_in_year_def)

lemma new_year_less:
  assumes "a < b"
  shows "days_from_civil a 1 1 + days_in_year a \<le> days_from_civil b 1 1"
  using march_start_less [of "a - 1" "b - 1"] new_year_next [of a] assms
  by (simp add: days_from_civil_march march_year_def march_month_def)

lemma year_of_day:
  assumes "civil_wide days = (y, m, d)"
  shows "y = y' \<longleftrightarrow> days_from_civil y' 1 1 \<le> days \<and> days < days_from_civil y' 1 1 + days_in_year y'"
proof -
  have "days_from_civil y 1 1 \<le> days" "days < days_from_civil y 1 1 + days_in_year y"
    using day_of_year_days [OF civil_wide_valid(1) [OF assms]] day_of_year_range [OF civil_wide_valid(1) [OF assms]]
      civil_wide_valid(2) [OF assms] by simp_all
  then show ?thesis using new_year_less [of y y'] new_year_less [of y' y] by fastforce
qed

section \<open>Properties\<close>

text \<open>
  C31. Dates. The number of a day and its date determine each other: every day has a valid date whose number it is,
  day 0 is the first of January 1970 and the date of the next day is the next date of the Gregorian calendar. The day
  of the year counts from the first of January.
\<close>

theorem dates_are_days:
  assumes "civil_wide days = (y, m, d)"
  shows "valid_date y m d \<and> days_from_civil y m d = days \<and> civil_wide (days + 1) = next_date (y, m, d) \<and>
    civil_wide 0 = (1970, 1, 1) \<and> day_of_year y m d = days - days_from_civil y 1 1 + 1"
proof -
  note v = civil_wide_valid [OF assms]
  obtain y' m' d' where n: "next_date (y, m, d) = (y', m', d')" by (cases "next_date (y, m, d)")
  have "civil_wide (days + 1) = next_date (y, m, d)"
    using days_from_civil_inverse [OF next_date_valid [OF v(1) n]] next_date_days [OF v(1) n] v(2) n by simp
  moreover have "civil_wide 0 = (1970, 1, 1)" by code_simp
  ultimately show ?thesis using v day_of_year_days [OF v(1)] by simp
qed

theorem dates_are_days_witness: "civil_wide 19782 = (2024, 2, 29) \<and> civil_wide 19783 = (2024, 3, 1)"
proof -
  have "civil_wide 19782 = (2024, 2, 29)" by code_simp
  moreover have "next_date (2024, 2, 29) = (2024, 3, 1)" by code_simp
  ultimately show ?thesis using dates_are_days [of 19782 2024 2 29] by simp
qed

lemma as_i32_id: "- (2 ^ 31) \<le> n \<Longrightarrow> n < 2 ^ 31 \<Longrightarrow> as_i32 n = n"
  by (simp add: as_i32_def sint_sbintrunc' signed_take_bit_int_eq_self)

lemma smod_nonneg: "0 \<le> a \<Longrightarrow> 0 < b \<Longrightarrow> a smod b = (a :: int) mod b"
  by (simp add: signed_modulo_int_def sgn_if)

text \<open>
  The parts of a time stamp give the time stamp back, as long as the year fits 32 bits; the day of the week goes
  round with the days, and 1 January 1970 was a Thursday.
\<close>

lemma timestamp_parts:
  assumes "civil_wide (total_secs div 86400) = (y, m, d)" "- (2 ^ 31) \<le> y" "y < 2 ^ 31"
  defines "p \<equiv> split_unix_timestamp total_secs"
  shows "valid_date (tp_year p) (tp_month p) (tp_day p)"
    "days_from_civil (tp_year p) (tp_month p) (tp_day p) * 86400 + tp_hour p * 3600 + tp_minute p * 60 + tp_second p = total_secs"
    "tp_hour p \<in> {0..23} \<and> tp_minute p \<in> {0..59} \<and> tp_second p \<in> {0..59}"
    "tp_weekday p \<in> {0..6} \<and> (tp_weekday p - 3) mod 7 = total_secs div 86400 mod 7"
    "tp_yearday p = day_of_year y m d"
proof -
  define s where "s = total_secs mod 86400"
  have s: "0 \<le> s" "s < 86400" by (simp_all add: s_def)
  have p: "p = \<lparr>tp_year = y, tp_month = m, tp_day = d, tp_hour = s div 3600, tp_minute = s mod 3600 div 60,
      tp_second = s mod 60, tp_weekday = (total_secs div 86400 + 3) mod 7, tp_yearday = day_of_year y m d,
      tp_isdst = - 1, tp_utc_offset_seconds = None\<rparr>"
    using assms(1) s as_i32_id [OF assms(2,3)]
    by (simp add: p_def split_unix_timestamp_def civil_from_days_def s_def [symmetric] sdiv_nonneg smod_nonneg)
  note v = civil_wide_valid [OF assms(1)]
  show "valid_date (tp_year p) (tp_month p) (tp_day p)" using v by (simp add: p)
  have t: "total_secs = total_secs div 86400 * 86400 + s" by (simp add: s_def)
  have "s div 3600 * 3600 + s mod 3600 div 60 * 60 + s mod 60 = s"
  proof -
    have "s mod 3600 mod 60 = s mod 60" by (simp add: mod_mod_cancel)
    then show ?thesis using div_mult_mod_eq [of "s mod 3600" 60] div_mult_mod_eq [of s 3600] by linarith
  qed
  then show "days_from_civil (tp_year p) (tp_month p) (tp_day p) * 86400 + tp_hour p * 3600 + tp_minute p * 60 + tp_second p = total_secs"
    unfolding p using v(2) t by (simp only: TimeParts.simps)
  show "tp_hour p \<in> {0..23} \<and> tp_minute p \<in> {0..59} \<and> tp_second p \<in> {0..59}"
    using s pos_mod_bound [of 3600 s] pos_mod_bound [of 60 s] by (simp add: p) linarith
  show "tp_weekday p \<in> {0..6} \<and> (tp_weekday p - 3) mod 7 = total_secs div 86400 mod 7"
  proof -
    have "((total_secs div 86400 + 3) mod 7 - 3) mod 7 = total_secs div 86400 mod 7"
      using mod_diff_left_eq [of "total_secs div 86400 + 3" 7 3] by simp
    then show ?thesis using pos_mod_bound [of 7 "total_secs div 86400 + 3"] by (simp add: p)
  qed
  show "tp_yearday p = day_of_year y m d" by (simp add: p)
qed

text \<open>Beyond that the year is cut: the second \<open>10 ^ 18\<close> is in the year 31688740476.\<close>

lemma timestamp_year_cut:
  "civil_wide (10 ^ 18 div 86400) = (31688740476, 10, 23)" "tp_year (split_unix_timestamp (10 ^ 18)) \<noteq> 31688740476"
  by code_simp+

end
