(* ===== verification/Isodates_Spec.thy ===== *)
theory Isodates_Spec
  imports Isodates Calendar_Spec
begin

text \<open>
  The ISO calendar is the one the standard defines by the Thursdays of the weeks, and the text of a date is read back.
\<close>

section \<open>The ISO calendar\<close>

text \<open>The standard: the year of a week and its number are those of its Thursday.\<close>

definition iso_of :: "int \<Rightarrow> int \<times> int \<times> int" where
  "iso_of days =
     (let weekday = (days + 3) mod 7; (year, month, day) = civil_wide (days - weekday + 3)
      in (year, (day_of_year year month day - 1) div 7 + 1, weekday + 1))"

definition week1_monday :: "int \<Rightarrow> int" where
  "week1_monday year = iso_week1_monday_ordinal year - UNIX_EPOCH_ORDINAL"

lemma week1_monday_eq:
  defines "J y \<equiv> days_from_civil y 1 1"
  shows "week1_monday y = J y - (J y + 3) mod 7 + (if 3 < (J y + 3) mod 7 then 7 else 0)"
proof -
  have "(J y + UNIX_EPOCH_ORDINAL + 6) mod 7 = (J y + 3 + 102738 * 7) mod 7" by (simp add: UNIX_EPOCH_ORDINAL_def)
  also have "\<dots> = (J y + 3) mod 7" by (rule mod_mult_self1)
  finally show ?thesis by (simp add: week1_monday_def iso_week1_monday_ordinal_def J_def [symmetric] Let_def)
qed

lemma week1_monday_range:
  "(week1_monday y + 3) mod 7 = 0" "days_from_civil y 1 1 \<le> week1_monday y + 3" "week1_monday y + 3 \<le> days_from_civil y 1 1 + 6"
proof -
  define J where "J = days_from_civil y 1 1"
  show "(week1_monday y + 3) mod 7 = 0"
    unfolding week1_monday_eq J_def [symmetric] by presburger
  show "days_from_civil y 1 1 \<le> week1_monday y + 3" "week1_monday y + 3 \<le> days_from_civil y 1 1 + 6"
    unfolding week1_monday_eq J_def [symmetric] using pos_mod_bound [of 7 "J + 3"] pos_mod_sign [of 7 "J + 3"] by auto
qed

lemma week_number:
  fixes t m j :: int
  assumes "t mod 7 = 0" "m mod 7 = 0" "j \<le> m" "m \<le> j + 6"
  shows "(t - j) div 7 + 1 = w \<longleftrightarrow> t = m + (w - 1) * 7"
proof -
  obtain a b where ab: "t = 7 * a" "m = 7 * b" using assms(1,2) by (auto simp: mod_eq_0_iff_dvd elim!: dvdE)
  have "(t - j) div 7 = ((m - j) + (a - b) * 7) div 7" by (simp add: ab algebra_simps)
  also have "\<dots> = (m - j) div 7 + (a - b)" using div_mult_self1 [of 7 "m - j" "a - b"] by simp
  also have "(m - j) div 7 = 0" using assms(3,4) by (simp add: div_pos_pos_trivial)
  finally show ?thesis by (auto simp: ab)
qed

lemma weekday_of:
  assumes "(m + 3) mod 7 = 0" "1 \<le> d" "d \<le> 7"
  shows "(m + (w - 1) * 7 + d - 1 + 3) mod 7 = (d - 1 :: int)"
proof -
  obtain b where b: "m + 3 = 7 * b" using assms(1) by (auto simp: mod_eq_0_iff_dvd elim!: dvdE)
  have "m + (w - 1) * 7 + d - 1 + 3 = (d - 1) + (b + w - 1) * 7" using b by (simp add: algebra_simps)
  also have "\<dots> mod 7 = (d - 1) mod 7" by (rule mod_mult_self1)
  finally show ?thesis using assms(2,3) by simp
qed

lemma iso_of_iff:
  defines "thursday y w \<equiv> week1_monday y + 3 + (w - 1) * 7"
  shows "iso_of days = (y, w, d) \<longleftrightarrow>
    1 \<le> d \<and> d \<le> 7 \<and> days = week1_monday y + (w - 1) * 7 + d - 1 \<and>
    days_from_civil y 1 1 \<le> thursday y w \<and> thursday y w < days_from_civil y 1 1 + days_in_year y"
proof -
  define wd where "wd = (days + 3) mod 7"
  define t where "t = days - wd + 3"
  obtain y' m' d' where c: "civil_wide t = (y', m', d')" by (cases "civil_wide t")
  have doy: "day_of_year y' m' d' = t - days_from_civil y' 1 1 + 1"
    using day_of_year_days [OF civil_wide_valid(1) [OF c]] civil_wide_valid(2) [OF c] by simp
  have iso: "iso_of days = (y', (t - days_from_civil y' 1 1) div 7 + 1, wd + 1)"
    by (simp add: iso_of_def Let_def wd_def [symmetric] t_def [symmetric] c doy)
  have wd: "0 \<le> wd" "wd < 7" by (simp_all add: wd_def)
  have t0: "t mod 7 = 0" unfolding t_def wd_def by presburger
  note mon = week1_monday_range [of y]
  have week: "(t - days_from_civil y 1 1) div 7 + 1 = w \<longleftrightarrow> t = thursday y w"
    using week_number [OF t0 mon] unfolding thursday_def .
  show ?thesis
  proof
    assume "iso_of days = (y, w, d)"
    then have "y' = y" "(t - days_from_civil y 1 1) div 7 + 1 = w" "d = wd + 1" using iso by auto
    then show "1 \<le> d \<and> d \<le> 7 \<and> days = week1_monday y + (w - 1) * 7 + d - 1 \<and>
      days_from_civil y 1 1 \<le> thursday y w \<and> thursday y w < days_from_civil y 1 1 + days_in_year y"
      using week wd year_of_day [OF c, of y] by (auto simp: t_def thursday_def)
  next
    assume r: "1 \<le> d \<and> d \<le> 7 \<and> days = week1_monday y + (w - 1) * 7 + d - 1 \<and>
      days_from_civil y 1 1 \<le> thursday y w \<and> thursday y w < days_from_civil y 1 1 + days_in_year y"
    then have "wd = d - 1" using weekday_of [OF mon(1), of d w] by (simp add: wd_def)
    then have "t = thursday y w" using r by (simp add: t_def thursday_def)
    then show "iso_of days = (y, w, d)"
      using r week year_of_day [OF c, of y] \<open>wd = d - 1\<close> iso by auto
  qed
qed

lemma week_in_range_iff:
  assumes "1 \<le> y" "y \<le> 9999"
  defines "thursday w \<equiv> week1_monday y + 3 + (w - 1) * 7"
  shows "week_in_range y w \<longleftrightarrow>
    days_from_civil y 1 1 \<le> thursday w \<and> thursday w < days_from_civil y 1 1 + days_in_year y"
proof -
  define J where "J = days_from_civil y 1 1"
  define a where "a = (J + 3) mod 7"
  have a: "0 \<le> a" "a < 7" by (simp_all add: a_def)
  have M: "week1_monday y = J - a + (if 3 < a then 7 else 0)" by (simp add: week1_monday_eq J_def a_def)
  have L: "day_of_year y 12 31 = days_in_year y" "days_in_year y = 365 \<or> days_in_year y = 366"
    by (simp_all add: day_of_year_def month_days_def days_in_year_def numeral_eq_Suc)
  have "as_i32 y = y" using assms by (simp add: as_i32_id)
  then have "week_in_range y w \<longleftrightarrow> 1 \<le> w \<and> w \<le> 52 \<or> w = 53 \<and> (a = 3 \<or> a = 2 \<and> days_in_year y = 366)"
    by (auto simp: week_in_range_def J_def [symmetric] a_def [symmetric] L(1) Let_def)
  then show ?thesis unfolding thursday_def M J_def [symmetric] using a L(2) by auto
qed



text \<open>The last days of the last week are in the year 10000, which dates do not have.\<close>

lemma iso_past_the_last_year: "iso_to_ymd 9999 52 7 = Inr (10000, 1, 2)"
  by code_simp

section \<open>Texts\<close>

lemma as_bytes_digits: "(\<And>c. c \<in> set s \<Longrightarrow> c < 128) \<Longrightarrow> as_bytes s = map of_nat s"
  by (induction s) (simp_all add: as_bytes_def utf8_char_def)

lemma nat_dec_foldl: "foldl (\<lambda>v b. v * 10 + int (unat (b :: u8) - 48)) v (map of_nat (nat_dec n)) = v * 10 ^ length (nat_dec n) + int n"
proof (induction n arbitrary: v rule: nat_dec.induct)
  case (1 n)
  have d: "unat (of_nat (48 + k) :: u8) - 48 = k" if "k < 10" for k :: nat
    using that by (simp add: unat_of_nat del: of_nat_add)
  show ?case
  proof (cases "n < 10")
    case True
    then show ?thesis using d [OF True] by (simp add: nat_dec.simps [of n] del: of_nat_add)
  next
    case False
    have "int n = int (n div 10) * 10 + int (n mod 10)" by (simp add: zdiv_int zmod_int)
    then show ?thesis using False "1.IH" d [of "n mod 10"] by (simp add: nat_dec.simps [of n] algebra_simps del: of_nat_add)
  qed
qed

lemma pad_int_digits:
  assumes "0 \<le> n" "n < 10 ^ Suc k"
  shows "length (pad_int (Suc k) n) = Suc k" "c \<in> set (pad_int (Suc k) n) \<Longrightarrow> 48 \<le> c \<and> c \<le> 57"
    "parse_ascii_i64_component (map of_nat (pad_int (Suc k) n)) = (if n < 2 ^ 63 then Some n else None)"
proof -
  let ?t = "nat_dec (nat n)"
  have t: "pad_int (Suc k) n = replicate (Suc k - length ?t) 48 @ ?t" using assms by (simp add: pad_int_def Let_def)
  have "length ?t \<le> Suc k" using assms by (intro length_nat_dec) (simp add: nat_less_iff)
  then show len: "length (pad_int (Suc k) n) = Suc k" by (simp add: t)
  have digits: "48 \<le> c \<and> c \<le> 57" if "c \<in> set (pad_int (Suc k) n)" for c
    using that nat_dec_digits [of c "nat n"] by (auto simp: t)
  then show "c \<in> set (pad_int (Suc k) n) \<Longrightarrow> 48 \<le> c \<and> c \<le> 57" .
  have zeros: "foldl (\<lambda>v b. v * 10 + int (unat (b :: u8) - 48)) 0 (map of_nat (replicate j 48)) = 0" for j
    by (induction j) simp_all
  have "list_all ascii_digit (map of_nat (pad_int (Suc k) n))"
  proof -
    have "c mod 256 = c" if "c \<in> set (pad_int (Suc k) n)" for c using digits [OF that] by simp
    then show ?thesis using digits by (auto simp: list_all_iff ascii_digit_def unat_of_nat)
  qed
  moreover have "map of_nat (pad_int (Suc k) n) \<noteq> ([] :: u8 list)" using len by (cases "pad_int (Suc k) n") simp_all
  ultimately show "parse_ascii_i64_component (map of_nat (pad_int (Suc k) n)) = (if n < 2 ^ 63 then Some n else None)"
    unfolding parse_ascii_i64_component_def using nat_dec_foldl [of 0 "nat n"] assms(1) zeros by (auto simp: t)
qed

lemma parse_ymd_valid:
  "parse_ymd invalid year month day = Inr (y, m, d) \<Longrightarrow> valid_date y m d"
  unfolding parse_ymd_def valid_date_def by (simp split: option.splits if_splits)

lemma iso_result:
  "(case iso_to_ymd a b c of Inr date \<Rightarrow> Inr date | Inl SlicePanic \<Rightarrow> Inl SlicePanic | Inl _ \<Rightarrow> Inl e) = Inr (y, m, d) \<Longrightarrow>
    valid_date y m d"
  using civil_wide_valid(1) by (auto simp: iso_to_ymd_def split: if_splits sum.splits DateError.splits)

lemma accepted_date_valid:
  assumes "parse_date_fromisoformat_components text = Inr (y, m, d)"
  shows "valid_date y m d"
proof (rule ccontr)
  assume invalid: "\<not> valid_date y m d"
  have p: "parse_ymd e year month day \<noteq> Inr (y, m, d)" for e year month day using parse_ymd_valid invalid by blast
  have i: "(case iso_to_ymd a b c of Inr date \<Rightarrow> Inr date | Inl SlicePanic \<Rightarrow> Inl SlicePanic | Inl _ \<Rightarrow> Inl e) \<noteq> Inr (y, m, d)" for a b c e
    using iso_result invalid by blast
  show False using assms unfolding parse_date_fromisoformat_components_def Let_def
    by (simp add: bindr_Inr_iff p i case_prod_beta' split: if_splits)
qed

lemma days_in_month_31: "days_in_month y m = Some n \<Longrightarrow> n \<le> 31"
  by (auto simp: days_in_month_def split: if_splits)



text \<open>A character of several bytes behind the week panics.\<close>

lemma compact_week_panics: "parse_date_fromisoformat_components (str ''2024W'' @ [0x20AC]) = Inl SlicePanic"
proof -
  have "as_bytes (str ''2024W'' @ [0x20AC]) = [50, 48, 50, 52, 87, 0xE2, 0x82, 0xAC]"
    by (simp add: as_bytes_def str_def chr_def utf8_char_def)
  moreover have "component e [50, 48, 50, 52, 87, 0xE2, 0x82, 0xAC] 0 4 = Inr 2024" for e by code_simp
  moreover have "component e [50, 48, 50, 52, 87, 0xE2, 0x82, 0xAC] 5 7 = Inl SlicePanic" for e by code_simp
  ultimately show ?thesis
    by (simp add: parse_date_fromisoformat_components_def iso_components_def ascii_digit_def Let_def)
qed

lemma strftime_isoformat:
  "format_strftime (str ''%Y-%m-%dT%H:%M:%S'') p =
    date_isoformat (tp_year p) (tp_month p) (tp_day p) (Some (str ''T'', tp_hour p, tp_minute p, tp_second p, 0))"
  by (simp add: str_def chr_def strftime_spec_def date_isoformat_def)

end
