(* ===== verification/Timedelta_Spec.thy ===== *)
theory Timedelta_Spec
  imports Timedelta Int_Spec Isodates_Spec
begin

text \<open>
  Arithmetic of durations is exact on microseconds: every operator gives the duration of the integer result, split in
  the one normal form, or refuses it because it is too long.
\<close>

section \<open>Durations as microseconds\<close>

definition delta_of :: "DeltaParts \<Rightarrow> int" where
  "delta_of p = sint (td_days p) * 86400000000 + sint (td_seconds p) * 1000000 + sint (td_microseconds p)"

definition canonical :: "DeltaParts \<Rightarrow> bool" where
  "canonical p \<longleftrightarrow> \<bar>sint (td_days p)\<bar> \<le> 999999999 \<and> 0 \<le> sint (td_seconds p) \<and> sint (td_seconds p) < 86400 \<and>
     0 \<le> sint (td_microseconds p) \<and> sint (td_microseconds p) < 1000000"

definition delta_range :: "int \<Rightarrow> bool" where
  "delta_range n \<longleftrightarrow> - 999999999 * 86400000000 \<le> n \<and> n < 1000000000 * 86400000000"

text \<open>A canonical duration is in the range, and the range has one canonical duration for each number.\<close>

lemma delta_range_days: "delta_range n \<longleftrightarrow> - 999999999 \<le> n div 86400000000 \<and> n div 86400000000 \<le> 999999999"
proof -
  have "n = n div 86400000000 * 86400000000 + n mod 86400000000" "0 \<le> n mod 86400000000" "n mod 86400000000 < 86400000000" by simp_all
  then have "- 999999999 \<le> n div 86400000000 \<longleftrightarrow> - 999999999 * 86400000000 \<le> n"
    "n div 86400000000 \<le> 999999999 \<longleftrightarrow> n < 1000000000 * 86400000000" by linarith+
  then show ?thesis by (simp add: delta_range_def)
qed

lemma canonical_parts:
  assumes "canonical p"
  shows "delta_of p div 86400000000 = sint (td_days p)" "delta_of p mod 86400000000 div 1000000 = sint (td_seconds p)"
    "delta_of p mod 86400000000 mod 1000000 = sint (td_microseconds p)" "delta_range (delta_of p)"
proof -
  let ?d = "sint (td_days p)" and ?s = "sint (td_seconds p)" and ?u = "sint (td_microseconds p)"
  have r: "0 \<le> ?s * 1000000 + ?u" "?s * 1000000 + ?u < 86400000000" using assms by (simp_all add: canonical_def)
  have e: "delta_of p = (?s * 1000000 + ?u) + ?d * 86400000000" by (simp add: delta_of_def)
  have "delta_of p div 86400000000 = (?s * 1000000 + ?u) div 86400000000 + ?d"
    unfolding e using div_mult_self1 [of 86400000000 "?s * 1000000 + ?u" ?d] by simp
  then show d: "delta_of p div 86400000000 = ?d" using r by simp
  have m: "delta_of p mod 86400000000 = ?s * 1000000 + ?u" unfolding e using r by (simp add: mod_mult_self1)
  show "delta_of p mod 86400000000 div 1000000 = ?s" "delta_of p mod 86400000000 mod 1000000 = ?u"
    unfolding m using assms by (simp_all add: canonical_def)
  show "delta_range (delta_of p)" using assms by (auto simp: delta_range_days d canonical_def)
qed

lemma canonical_unique: "canonical p \<Longrightarrow> canonical q \<Longrightarrow> delta_of p = delta_of q \<Longrightarrow> p = q"
  using canonical_parts [of p] canonical_parts [of q] by (cases p; cases q) (simp add: signed_word_eqI)

text \<open>The result of an operator: the canonical duration, or the error that it is too long.\<close>

definition gives_parts :: "DeltaParts tres \<Rightarrow> int \<Rightarrow> bool" where
  "gives_parts r n \<longleftrightarrow>
     (if delta_range n then \<exists>p. r = Inr p \<and> canonical p \<and> delta_of p = n else \<exists>days. r = Inl (DaysOverflow days))"

definition gives :: "DeltaResult tres \<Rightarrow> int \<Rightarrow> bool" where
  "gives r n \<longleftrightarrow>
     (if delta_range n then \<exists>p. r = Inr (NewDelta p) \<and> canonical p \<and> delta_of p = n else \<exists>days. r = Inl (DaysOverflow days))"

lemma unit_vals [simp]:
  "sint DATETIME_MICROSECONDS_PER_DAY = 86400000000" "sint DATETIME_MICROSECONDS_PER_SECOND = 1000000"
  "sint DATETIME_MAX_DELTA_DAYS = 999999999"
  by (simp_all add: DATETIME_MICROSECONDS_PER_DAY_def DATETIME_SECONDS_PER_DAY_def DATETIME_MICROSECONDS_PER_SECOND_def
      DATETIME_MAX_DELTA_DAYS_def)

lemma divided_correct:
  assumes "bwf a" "bwf b" "bval b \<noteq> 0"
  obtains q r where "divided e a b = Inr (q, r)" "bwf q" "bwf r" "bval q = bval a div bval b" "bval r = bval a mod bval b"
  using div_mod_floor_correct [OF assms] by (auto simp: divided_def)

lemma divided_zero: "bwf b \<Longrightarrow> bval b = 0 \<Longrightarrow> divided e a b = Inl e"
  by (simp add: divided_def div_mod_floor_def is_zero_iff)

lemma expect_i64_correct: "bwf b \<Longrightarrow> machine_int (bval b) \<Longrightarrow> expect_i64 b = Inr (word_of_int (bval b))"
  by (simp add: expect_i64_def to_i64_correct machine_int_def)

lemma normalized_exact:
  assumes "bwf b"
  shows "gives_parts (normalized_timedelta_parts_from_total_microseconds b) (bval b)"
proof -
  obtain days rest where 1: "divided ExpectFailed b (from_i64 DATETIME_MICROSECONDS_PER_DAY) = Inr (days, rest)"
    "bwf days" "bwf rest" "bval days = bval b div 86400000000" "bval rest = bval b mod 86400000000"
    using divided_correct [OF assms wf_from_i64, of DATETIME_MICROSECONDS_PER_DAY ExpectFailed] by (auto simp: bval_from_i64)
  obtain secs us where 2: "divided ExpectFailed rest (from_i64 DATETIME_MICROSECONDS_PER_SECOND) = Inr (secs, us)"
    "bwf secs" "bwf us" "bval secs = bval rest div 1000000" "bval us = bval rest mod 1000000"
    using divided_correct [OF 1(3) wf_from_i64, of DATETIME_MICROSECONDS_PER_SECOND ExpectFailed] by (auto simp: bval_from_i64)
  have range: "cmp_total days (negated (from_i64 DATETIME_MAX_DELTA_DAYS)) = Less \<or> cmp_total days (from_i64 DATETIME_MAX_DELTA_DAYS) = Greater
      \<longleftrightarrow> \<not> delta_range (bval b)"
    using 1(2) by (auto simp: cmp_total_correct bigint_wf bigint_val delta_range_days 1(4) [symmetric])
  have n: "normalized_timedelta_parts_from_total_microseconds b = (if \<not> delta_range (bval b) then Inl (DaysOverflow days)
      else bindr (expect_i64 days) (\<lambda>days. bindr (expect_i64 secs) (\<lambda>seconds. bindr (expect_i64 us) (\<lambda>microseconds.
        Inr \<lparr>td_days = days, td_seconds = seconds, td_microseconds = microseconds\<rparr>))))"
    unfolding normalized_timedelta_parts_from_total_microseconds_def Let_def 1(1) by (simp add: range 2(1))
  have s: "0 \<le> bval secs" "bval secs < 86400" "0 \<le> bval us" "bval us < 1000000"
    using 1(5) 2(4,5) div_mult_mod_eq [of "bval rest" 1000000] pos_mod_bound [of 86400000000 "bval b"]
      pos_mod_sign [of 86400000000 "bval b"] pos_mod_bound [of 1000000 "bval rest"] pos_mod_sign [of 1000000 "bval rest"] by linarith+
  show ?thesis
  proof (cases "delta_range (bval b)")
    case True
    then have d: "\<bar>bval days\<bar> \<le> 999999999" by (auto simp: delta_range_days 1(4))
    have "machine_int (bval days)" "machine_int (bval secs)" "machine_int (bval us)" using d s by (auto simp: machine_int_def)
    moreover have "bval days * 86400000000 + bval secs * 1000000 + bval us = bval b"
      unfolding 1(4) 2(4,5) using div_mult_mod_eq [of "bval rest" 1000000] div_mult_mod_eq [of "bval b" 86400000000] 1(5) by linarith
    ultimately show ?thesis
      using True d s by (simp add: gives_parts_def n expect_i64_correct 1(2) 2(2,3) sint_of_int64 canonical_def delta_of_def)
  next
    case False
    then show ?thesis by (simp add: gives_parts_def n)
  qed
qed

lemma normalized_gives:
  "bwf b \<Longrightarrow> bval b = n \<Longrightarrow> gives_parts (normalized_timedelta_parts_from_total_microseconds b) n"
  using normalized_exact by blast

lemma from_total_exact: "bwf b \<Longrightarrow> bval b = n \<Longrightarrow> gives (timedelta_from_total b) n"
  using normalized_exact [of b] by (auto simp: gives_def gives_parts_def timedelta_from_total_def)

lemma total_microseconds [simp]:
  "bwf (timedelta_total_microseconds p)" "bval (timedelta_total_microseconds p) = delta_of p"
  by (simp_all add: timedelta_total_microseconds_def delta_of_def bigint_wf bigint_val)

section \<open>Rounding to the nearest\<close>

text \<open>The integer nearest to a fraction, the even one of two.\<close>

definition nearest :: "int \<Rightarrow> int \<Rightarrow> int \<Rightarrow> bool" where
  "nearest n d q \<longleftrightarrow> 2 * \<bar>n - q * d\<bar> \<le> \<bar>d\<bar> \<and> (2 * \<bar>n - q * d\<bar> = \<bar>d\<bar> \<longrightarrow> even q)"

lemma nearest_scaled:
  assumes "0 \<le> a" "0 < b"
  shows "nearest a b (if b < 2 * (a mod b) \<or> 2 * (a mod b) = b \<and> odd (a div b) then a div b + 1 else a div b)"
proof -
  define q r where "q = a div b" and "r = a mod b"
  have a: "a = q * b + r" by (simp add: q_def r_def)
  have r: "0 \<le> r" "r < b" using assms by (simp_all add: r_def)
  have e: "a - q * b = r" "a - (q + 1) * b = r - b" using a by (simp_all only: distrib_right)
  show ?thesis
  proof (cases "b < 2 * r \<or> 2 * r = b \<and> odd q")
    case True
    then show ?thesis
      unfolding q_def [symmetric] r_def [symmetric] if_P [OF True] nearest_def e using r by auto
  next
    case False
    then show ?thesis
      unfolding q_def [symmetric] r_def [symmetric] if_not_P [OF False] nearest_def e using r by auto
  qed
qed

lemma nearest_signs: "nearest \<bar>n\<bar> \<bar>d\<bar> q \<Longrightarrow> nearest n d (if (n < 0) = (d < 0) then q else - q)"
  by (auto simp: nearest_def abs_if split: if_splits)

lemma is_odd_correct: "bwf b \<Longrightarrow> bigint_is_odd b = Inr (odd (bval b))"
proof -
  assume b: "bwf b"
  obtain q r where "divided ExpectFailed b (from_i64 2) = Inr (q, r)" "bwf r" "bval r = bval b mod bval (from_i64 2)"
    by (rule divided_correct [OF b wf_from_i64, of 2 ExpectFailed]) (simp_all add: bval_from_i64)
  then show ?thesis by (simp add: bigint_is_odd_def is_zero_iff odd_iff_mod_2_eq_one bval_from_i64)
qed

lemma divide_nearest_correct:
  assumes "bwf n" "bwf d" "bval d \<noteq> 0"
  obtains q where "timedelta_divide_nearest n d = Inr q" "bwf q" "nearest (bval n) (bval d) (bval q)"
proof -
  obtain q r where qr: "divided ZeroDivision (bigint_abs n) (bigint_abs d) = Inr (q, r)" "bwf q" "bwf r"
    "bval q = \<bar>bval n\<bar> div \<bar>bval d\<bar>" "bval r = \<bar>bval n\<bar> mod \<bar>bval d\<bar>"
    using divided_correct [OF wf_abs [OF assms(1)] wf_abs [OF assms(2)], of ZeroDivision] assms by (auto simp: bval_abs)
  define up where "up \<longleftrightarrow> \<bar>bval d\<bar> < 2 * bval r \<or> 2 * bval r = \<bar>bval d\<bar> \<and> odd (bval q)"
  define q' where "q' = (if up then bigint_add q bigint_one else q)"
  have q': "bwf q'" "bval q' = (if up then bval q + 1 else bval q)" using qr(2) by (simp_all add: q'_def bigint_wf bigint_val)
  have two: "bwf (mul_small r 2)" "bval (mul_small r 2) = 2 * bval r" using qr(3) by (simp_all add: bigint_wf bigint_val)
  have step: "(case cmp_total (mul_small r 2) (bigint_abs d) of
       Greater \<Rightarrow> Inr (bigint_add q bigint_one)
     | Equal \<Rightarrow> bindr (bigint_is_odd q) (\<lambda>odd. Inr (if odd then bigint_add q bigint_one else q))
     | Less \<Rightarrow> Inr q) = (Inr q' :: BigInt tres)"
    using cmp_total_correct [OF two(1) wf_abs [OF assms(2)]] qr(2)
    by (auto simp: two(2) bval_abs assms(2) is_odd_correct q'_def up_def split: Ordering.splits)
  define result where "result = (if is_negative n = is_negative d \<or> is_zero q' then q' else negated q')"
  have "timedelta_divide_nearest n d = Inr result"
    using assms by (simp add: timedelta_divide_nearest_def is_zero_iff Let_def qr(1) step result_def)
  moreover have "bwf result" using q' by (simp add: result_def bigint_wf)
  moreover have "nearest \<bar>bval n\<bar> \<bar>bval d\<bar> (bval q')"
    using nearest_scaled [of "\<bar>bval n\<bar>" "\<bar>bval d\<bar>"] assms(3) unfolding q'(2) up_def qr(4,5) by simp
  then have "nearest (bval n) (bval d) (bval result)"
    using nearest_signs [of "bval n" "bval d" "bval q'"] q'(1) assms
    by (auto simp: result_def is_negative_iff is_zero_iff bigint_val split: if_splits)
  ultimately show ?thesis using that by blast
qed

section \<open>Doubles as fractions\<close>

lemma trailing_zeros_dvd:
  assumes "k \<le> trailing_zeros x"
  shows "2 ^ k dvd unat x"
proof -
  have zero: "\<not> bit x i" if "i < k" for i
  proof -
    have "i < length (takeWhile (\<lambda>i. \<not> bit x i) [0..<64])" using that assms by (simp add: trailing_zeros_def)
    then have "takeWhile (\<lambda>i. \<not> bit x i) [0..<64] ! i \<in> set (takeWhile (\<lambda>i. \<not> bit x i) [0..<64])"
      and "takeWhile (\<lambda>i. \<not> bit x i) [0..<64] ! i = i"
      using length_takeWhile_le [of "\<lambda>i. \<not> bit x i" "[0..<64]"] by (simp_all only: nth_mem) (simp add: takeWhile_nth)
    then have "i \<in> set (takeWhile (\<lambda>i. \<not> bit x i) [0..<64])" by simp
    then show ?thesis by (rule set_takeWhileD [THEN conjunct2])
  qed
  have "take_bit k (unat x) = 0"
    by (rule bit_eqI) (simp add: bit_take_bit_iff bit_unsigned_iff zero)
  then show ?thesis by (simp add: take_bit_eq_0_iff)
qed

lemma f64_mantissa_less: "f64_mantissa x < 2 ^ 52"
proof -
  have m: "(push_bit 52 1 - 1 :: u64) = mask 52" by (simp add: mask_eq_exp_minus_1)
  have "f64_mantissa x = take_bit 52 (unat x)"
    unfolding f64_mantissa_def m take_bit_eq_mask [symmetric] by (simp add: unsigned_take_bit_eq)
  then show ?thesis using take_bit_nat_less_exp [of 52 "unat x"] by simp
qed


lemma float_ratio_correct:
  assumes "is_finite x"
  obtains n d where "timedelta_float_ratio x = Inr (n, d)" "bwf n" "bwf d" "0 < bval d"
    "bval n * int (snd (f64_frac x)) = (if f64_sign_bit x then - 1 else 1) * int (fst (f64_frac x)) * bval d"
proof -
  define fraction where "fraction = x AND (push_bit 52 1 - 1)"
  define e where "e = f64_exponent x"
  have fr: "unat fraction = f64_mantissa x" by (simp add: fraction_def f64_mantissa_def)
  have zero: "fraction = 0 \<longleftrightarrow> f64_mantissa x = 0" by (simp add: unat_eq_0 flip: fr)
  show ?thesis
  proof (cases "e = 0 \<and> fraction = 0")
    case True
    then have "timedelta_float_ratio x = Inr (bigint_zero, bigint_one)" "fst (f64_frac x) = 0"
      using assms zero by (simp_all add: timedelta_float_ratio_def is_finite_def f64_frac_def Let_def e_def fraction_def)
    then show ?thesis using that [of bigint_zero bigint_one] by (simp add: wf_one bval_one)
  next
    case False
    define m where "m = (if e = 0 then fraction else push_bit 52 1 OR fraction)"
    define ex where "ex = (if e = 0 then - 1074 else int e - 1075)"
    define k where "k = (if ex < 0 then min (trailing_zeros m) (nat (- ex)) else 0)"
    have k_bounds: "0 \<le> ex \<Longrightarrow> k = 0" "k \<le> nat (- ex)" by (simp_all add: k_def)
    define n where "n = (if f64_sign_bit x then negated (from_u64 (drop_bit k m)) else from_u64 (drop_bit k m))"
    have m: "unat m = (if e = 0 then f64_mantissa x else 2 ^ 52 + f64_mantissa x)"
      using unat_push_or [of fraction 52 "1 :: u64"] f64_mantissa_less [of x] by (simp add: m_def fr)
    have "k \<le> trailing_zeros m" by (simp add: k_def)
    moreover have "unat (drop_bit k m) = unat m div 2 ^ k" by (simp only: unat_drop_bit_eq drop_bit_eq_div [where 'a = nat])
    ultimately have dm: "unat (drop_bit k m) * 2 ^ k = unat m" using trailing_zeros_dvd [of k m] by (simp only: dvd_div_mult_self)
    have n: "bwf n" "bval n * 2 ^ k = (if f64_sign_bit x then - 1 else 1) * int (unat m)"
      by (simp_all add: n_def bigint_wf bigint_val flip: dm)
    have frac: "f64_frac x = (if 0 \<le> ex then (unat m * 2 ^ nat ex, 1) else (unat m, 2 ^ nat (- ex)))"
      by (simp add: f64_frac_def Let_def e_def [symmetric] m ex_def nat_diff_distrib')
    have ratio: "timedelta_float_ratio x = Inr (if 0 \<le> ex + int k then (shl_bits n (nat (ex + int k)), bigint_one)
        else (n, shl_bits bigint_one (nat (- (ex + int k)))))"
    proof -
      have c: "\<not> (e = 0x7ff \<and> fraction \<noteq> 0)" "e \<noteq> 0x7ff" "\<not> (int e = 0 \<and> fraction = 0)"
        using assms False by (simp_all add: is_finite_def e_def)
      have mm: "(if int e = 0 then fraction else push_bit 52 1 OR fraction) = m" by (simp add: m_def)
      have ee: "(if int e = 0 then 1 - 1023 - 52 else int e - 1023 - 52) = ex" by (simp add: ex_def)
      show ?thesis
        unfolding timedelta_float_ratio_def Let_def e_def [symmetric] fraction_def [symmetric] if_not_P [OF c(1)] if_not_P [OF c(2)]
          if_not_P [OF c(3)] mm ee k_def [symmetric] n_def [symmetric] ..
    qed
    show ?thesis
    proof (cases "0 \<le> ex + int k")
      case True
      then have ek: "0 \<le> ex \<and> k = 0 \<or> ex < 0 \<and> k = nat (- ex) \<and> ex + int k = 0"
        using k_bounds by (cases "0 \<le> ex") auto
      then have "bval (shl_bits n (nat (ex + int k))) * int (snd (f64_frac x)) =
          (if f64_sign_bit x then - 1 else 1) * int (fst (f64_frac x)) * bval bigint_one"
        using n by (auto simp: bigint_val frac)
      then show ?thesis using True n(1) ratio by (intro that [of "shl_bits n (nat (ex + int k))" bigint_one]) (simp_all add: bigint_wf bigint_val)
    next
      case neg: False
      have "nat (- ex) = nat (- (ex + int k)) + k" using neg by (simp add: nat_eq_iff)
      then have "bval n * int (snd (f64_frac x)) = (if f64_sign_bit x then - 1 else 1) * int (fst (f64_frac x)) * bval (shl_bits bigint_one (nat (- (ex + int k))))"
        using n neg by (simp add: bigint_val bigint_wf frac power_add)
      then show ?thesis using neg n(1) ratio
        by (intro that [of n "shl_bits bigint_one (nat (- (ex + int k)))"]) (simp_all add: bigint_wf bigint_val)
    qed
  qed
qed

section \<open>The operators\<close>

lemma nearest_scale: "c \<noteq> 0 \<Longrightarrow> nearest (n * c) (d * c) q \<longleftrightarrow> nearest n d q"
proof -
  assume c: "c \<noteq> 0"
  have "n * c - q * (d * c) = (n - q * d) * c" by (simp add: algebra_simps)
  then have "2 * \<bar>n * c - q * (d * c)\<bar> = (2 * \<bar>n - q * d\<bar>) * \<bar>c\<bar>" "\<bar>d * c\<bar> = \<bar>d\<bar> * \<bar>c\<bar>" by (simp_all add: abs_mult)
  then show ?thesis using c by (simp add: nearest_def)
qed

lemma nearest_frac:
  assumes "num * s = f * (d :: int)" "d \<noteq> 0" "s \<noteq> 0"
  shows "nearest (t * num) d q \<longleftrightarrow> nearest (t * f) s q"
proof -
  have "nearest (t * num) d q \<longleftrightarrow> nearest (t * num * s) (d * s) q" using nearest_scale [OF assms(3)] by simp
  also have "t * num * s = t * f * d" using assms(1) by (simp add: mult.assoc)
  also have "nearest (t * f * d) (d * s) q \<longleftrightarrow> nearest (t * f) s q" using nearest_scale [OF assms(2), of "t * f" s q] by (simp add: mult.commute)
  finally show ?thesis .
qed

lemma divide_nearest_gives:
  assumes "bwf n" "bwf d" "bval d \<noteq> 0"
  shows "\<exists>q. nearest (bval n) (bval d) q \<and> gives (bindr (timedelta_divide_nearest n d) timedelta_from_total) q"
  by (rule divide_nearest_correct [OF assms]) (auto intro: from_total_exact)

lemma divide_nearest_zero: "bwf d \<Longrightarrow> bval d = 0 \<Longrightarrow> timedelta_divide_nearest n d = Inl ZeroDivision"
  by (simp add: timedelta_divide_nearest_def is_zero_iff)

lemma divided_gives:
  assumes "bwf a" "bwf b" "bval b \<noteq> 0"
  shows "gives (bindr (divided e a b) (\<lambda>(quotient, _). timedelta_from_total quotient)) (bval a div bval b)"
    and "gives (bindr (divided e a b) (\<lambda>(_, remainder). timedelta_from_total remainder)) (bval a mod bval b)"
  by (rule divided_correct [OF assms, of e]; simp add: from_total_exact)+

definition float_num :: "f64 \<Rightarrow> int" where
  "float_num x = (if f64_sign_bit x then - 1 else 1) * int (fst (f64_frac x))"

definition float_den :: "f64 \<Rightarrow> int" where
  "float_den x = int (snd (f64_frac x))"

lemma float_den_pos: "0 < float_den x"
  by (simp add: float_den_def f64_frac_def Let_def)

lemma float_factor:
  assumes "is_finite x"
  shows "\<exists>q. nearest (delta_of p * float_num x) (float_den x) q \<and> gives (delta_mul p (FloatArg x)) q"
proof -
  obtain n d where nd: "timedelta_float_ratio x = Inr (n, d)" "bwf n" "bwf d" "0 < bval d"
    "bval n * float_den x = float_num x * bval d"
    using float_ratio_correct [OF assms] unfolding float_num_def float_den_def by metis
  show ?thesis
    using divide_nearest_gives [of "bigint_mul (timedelta_total_microseconds p) n" d] nd nearest_frac [OF nd(5)] float_den_pos [of x]
    by (simp add: delta_mul_def bigint_wf bigint_val)
qed

lemma float_divisor:
  assumes "is_finite x"
  shows "if float_num x = 0 then delta_truediv fdiv p (FloatArg x) = Inl ZeroDivision
    else \<exists>q. nearest (delta_of p * float_den x) (float_num x) q \<and> gives (delta_truediv fdiv p (FloatArg x)) q"
proof -
  obtain n d where nd: "timedelta_float_ratio x = Inr (n, d)" "bwf n" "bwf d" "0 < bval d"
    "bval n * float_den x = float_num x * bval d"
    using float_ratio_correct [OF assms] unfolding float_num_def float_den_def by metis
  have z: "bval n = 0 \<longleftrightarrow> float_num x = 0" using nd(4,5) float_den_pos [of x] by auto
  have "bval d * float_num x = float_den x * bval n" using nd(5) by (simp add: mult.commute)
  then show ?thesis
    using divide_nearest_gives [of "bigint_mul (timedelta_total_microseconds p) d" n] nd(1-4) z
      nearest_frac [of "bval d" "float_num x" "float_den x" "bval n"]
    by (simp add: delta_truediv_def delta_divide_def Let_def bigint_wf bigint_val divide_nearest_zero)
qed



lemma delta_init_exact:
  "gives_parts (delta_init days seconds microseconds weeks hours minutes milliseconds)
     (sint microseconds + sint milliseconds * 1000 + sint seconds * 1000000 + sint minutes * 60000000 + sint hours * 3600000000 +
      (sint days + sint weeks * 7) * 86400000000)"
proof -
  have "sint (60 * DATETIME_MICROSECONDS_PER_SECOND) = 60000000" "sint (3600 * DATETIME_MICROSECONDS_PER_SECOND) = 3600000000"
    by (simp_all add: DATETIME_MICROSECONDS_PER_SECOND_def)
  then show ?thesis
    unfolding delta_init_def Let_def by (intro normalized_gives) (simp_all add: bigint_wf bigint_val)
qed

lemma delta_divmod_exact:
  assumes "delta_of b \<noteq> 0" "delta_range (delta_of a mod delta_of b)"
  shows "\<exists>q p. delta_divmod a (DeltaArg b) = Inr (PairResult q p) \<and> int_of q = delta_of a div delta_of b \<and>
    canonical p \<and> delta_of p = delta_of a mod delta_of b"
proof -
  obtain q r where qr: "divided ZeroDivision (timedelta_total_microseconds a) (timedelta_total_microseconds b) = Inr (q, r)"
    "bwf q" "bwf r" "bval q = delta_of a div delta_of b" "bval r = delta_of a mod delta_of b"
    using divided_correct [of "timedelta_total_microseconds a" "timedelta_total_microseconds b" ZeroDivision] assms(1) by auto
  show ?thesis
    using normalized_exact [OF qr(3)] yields_bigint [OF qr(2) refl] assms(2)
    by (auto simp: delta_divmod_def qr gives_parts_def yields_def)
qed

lemma delta_bool_iff: "canonical p \<Longrightarrow> delta_bool p \<longleftrightarrow> delta_of p \<noteq> 0"
  using canonical_parts [of p] by (auto simp: delta_bool_def delta_of_def)

end
