(* ===== verification/Spec2Isabelle.thy ===== *)
theory Spec2Isabelle
  imports Marshal_Spec Verifier_Spec Translate_Spec Dict_Spec Set_Spec Lexer_Spec Json_Spec Json_Bounds Csv_Spec Int_Spec
    Slices_Spec Calls_Spec Timedelta_Spec
begin

text \<open>
  A verification library for \<^verbatim>\<open>pyrs\<close>, a Python interpreter written in Rust. Paths below are those of the
  crate, under \<^verbatim>\<open>src/\<close>.

  \<^bold>\<open>The program.\<close> Source text goes through the lexer (\<^verbatim>\<open>parser/lexer.rs\<close>), the parser and the compiler to
  the bytecode of \<^verbatim>\<open>bytecode/mod.rs\<close>; a compiled module of CPython (\<^verbatim>\<open>.pyc\<close>) is read by
  \<^verbatim>\<open>bytecode/pyc.rs\<close> and the marshal codec of \<^verbatim>\<open>bytecode/cpython.rs\<close>, its tables are decoded, it is lowered
  to the same bytecode and validated. The interpreter in \<^verbatim>\<open>vm/\<close> runs the bytecode over the values and the
  heap of \<^verbatim>\<open>runtime/\<close>, with native versions of library modules in \<^verbatim>\<open>vm/stdlib/\<close>. The library models the
  parts of this pipeline whose behaviour is their own: the numbers, dictionaries and sets of the runtime, the
  lexer, the whole path from the bytes of a \<^verbatim>\<open>.pyc\<close> file to validated bytecode, and the JSON and CSV modules.

  \<^bold>\<open>Theories and sources.\<close>

  \<^item> \<open>Prelude\<close>: words, Unicode scalars and strings, limbs and bytes as numbers, results (\<open>Inl\<close> an error or
    a panic, \<open>Inr\<close> a value) and their monadic composition \<open>bindr\<close>.
  \<^item> \<open>Bigint\<close>, \<open>Bigint_Arith\<close>, \<open>Bigint_Shift\<close>, \<open>Bigint_Bitwise\<close>, \<open>Bigint_Division\<close>,
    \<open>Bigint_Text\<close>, \<open>Bigint_Spec\<close>: \<^verbatim>\<open>BigInt\<close> of \<^verbatim>\<open>runtime/bigint.rs\<close>, its sign and 32-bit limbs a
    record, every routine a function on them. The lemmas show the limb algorithms compute on the integers
    that \<open>bval\<close> abstracts to; the locale \<open>integer_impl\<close> is the interface, \<open>bigint\<close> its interpretation.
  \<^item> \<open>Int_Ops\<close>, \<open>Int_Spec\<close>: the operators of \<^verbatim>\<open>vm/ops.rs\<close> on integers, which try machine integers and
    fall back on \<open>BigInt\<close>, and the conversions of \<^verbatim>\<open>vm/mod.rs\<close> from and to bytes and text. They are exact and
    in normal form, with the operands that are rejected stated.
  \<^item> \<open>Slices\<close>, \<open>Slices_Spec\<close>: \<^verbatim>\<open>slice_indices\<close> of \<^verbatim>\<open>vm/mod.rs\<close> on 64-bit words, equal to the slices the
    language defines wherever the index cannot wrap.
  \<^item> \<open>Calls\<close>, \<open>Calls_Spec\<close>: \<^verbatim>\<open>bind_arguments\<close> of \<^verbatim>\<open>vm/mod.rs\<close>, refining the rules of the language: which calls
    a signature allows and what each parameter is bound to.
  \<^item> \<open>Calendar\<close>, \<open>Calendar_Spec\<close>, \<open>Isodates\<close>, \<open>Isodates_Spec\<close>: dates and time stamps of \<^verbatim>\<open>vm/mod.rs\<close>, the ISO
    calendar and the texts of dates of \<^verbatim>\<open>vm/builtins_system_misc.rs\<close>, compared with the Gregorian calendar day by day
    and with the weeks the standard defines.
  \<^item> \<open>Timedelta\<close>, \<open>Timedelta_Spec\<close>: durations, on the routines of \<open>BigInt\<close>; the operators are exact on microseconds,
    or round to the nearest.
  \<^item> \<open>Floats\<close>: doubles as bit patterns, the operations on them the sources use, \<^verbatim>\<open>str::parse::<f64>\<close>.
  \<^item> \<open>Unicode\<close>: characters, UTF-8, and the private code points that stand for lone surrogates
    (\<^verbatim>\<open>unicode.rs\<close>).
  \<^item> \<open>Pyc\<close>, \<open>Marshal\<close>, \<open>Marshal_Progress\<close>, \<open>Marshal_Proofs\<close>, \<open>Marshal_Spec\<close>: the header of a
    compiled module (\<^verbatim>\<open>bytecode/pyc.rs\<close>) and the marshal reader and writer, with the table of references
    (\<^verbatim>\<open>read_object\<close>, \<^verbatim>\<open>write_object\<close> of \<^verbatim>\<open>bytecode/cpython.rs\<close>). Round trips, termination, and what the
    switch against code objects keeps out.
  \<^item> \<open>Bytecode\<close>, \<open>Bytecode_Spec\<close>: instructions and code objects of \<^verbatim>\<open>bytecode/mod.rs\<close> with the layout
    indexes; the locale \<open>name_table\<close> is what every table of names promises.
  \<^item> \<open>Codetables\<close>, \<open>Codetables_Spec\<close>, \<open>Linetable\<close>, \<open>Linetable_Spec\<close>: the decoders of instructions,
    exception table and location table, shown to invert the encodings CPython documents.
  \<^item> \<open>Translator\<close>, \<open>Translate\<close>, \<open>Translate_Spec\<close>: lowering of CPython instructions
    (\<^verbatim>\<open>Translator\<close>), state by state, and of constants and nested code objects; what the operands mean
    before and after.
  \<^item> \<open>Verifier\<close>, \<open>Verifier_Spec\<close>: \<^verbatim>\<open>validate_translated_code\<close>, compared with an abstract machine over
    instruction indexes and stack depths.
  \<^item> \<open>Dict_Backend\<close>, \<open>Dict_Probe\<close>, \<open>Dict_Proofs\<close>, \<open>Dict_Refine\<close>, \<open>Dict_Object\<close>, \<open>Dict_Spec\<close>:
    the open-addressing table of \<^verbatim>\<open>runtime/dict_backend.rs\<close> and \<^verbatim>\<open>DictObject\<close> of \<^verbatim>\<open>runtime/mod.rs\<close>. Invariant,
    refinement of an insertion-ordered association list, the locale \<open>ordered_dict\<close> interpreted for both.
  \<^item> \<open>Set_Object\<close>, \<open>Set_Spec\<close>: \<^verbatim>\<open>SetObject\<close> of \<^verbatim>\<open>runtime/mod.rs\<close>, members and buckets of indexes; the
    locale \<open>key_set\<close> and its interpretation.
  \<^item> \<open>Text_Repr\<close>: \<^verbatim>\<open>format_repr_string\<close> of \<^verbatim>\<open>runtime/mod.rs\<close>.
  \<^item> \<open>Lexing\<close>, \<open>Tokenizer\<close>, \<open>Lexer_Proofs\<close>, \<open>Lexer_Spec\<close>: the tokens of \<^verbatim>\<open>parser/token.rs\<close>, the names
    of \<^verbatim>\<open>parser/unicode_names.rs\<close> and the whole lexer. Positions, the spelling of tokens, indentation,
    errors, and that the representation of a string is read back.
  \<^item> \<open>Json\<close>, \<open>Json_Write\<close>, \<open>Json_Strings\<close>, \<open>Json_Numbers\<close>, \<open>Json_Proofs\<close>, \<open>Json_Spec\<close>,
    \<open>Json_Bounds\<close>: \<^verbatim>\<open>JsonParser\<close> and the writer of \<^verbatim>\<open>vm/stdlib/json.rs\<close>, with \<^verbatim>\<open>format_float\<close>. What is
    written is read back; cycles are rejected; errors and depth stay within their limits.
  \<^item> \<open>Csv\<close>, \<open>Csv_Spec\<close>: writer and reader of \<^verbatim>\<open>vm/stdlib/csv.rs\<close>; a written row is read back, also from
    the lines a file breaks it into.

  \<^bold>\<open>Interfaces.\<close> The integer operators rest on the properties of \<open>BigInt\<close>. The lexer reads the strings \<open>Text_Repr\<close> writes; marshal and translator share the code
  objects of \<open>Marshal\<close> and \<open>Bytecode\<close>; the translator's integers and the JSON and marshal numbers are the
  values of \<open>Bigint\<close>; the CSV reader and the JSON parser share \<open>parse_f64\<close>.

  \<^bold>\<open>Loops and bounds.\<close> Loops over a list or an index are structural or have a termination proof. Fuel is used
  where the sources recurse on unknown data: \<open>read_fuel\<close>, one more than the bytes of the input, because
  every nested object consumes a byte (\<open>marshal_terminates\<close>); the JSON parser recurses at most as deep as its
  depth limit; the probe loops of the dictionary run the rounds the code itself allows, which visit every slot
  (\<open>probe_visits_every_slot\<close>). \<open>Diverge\<close> would be the value of an exhausted loop and is shown not to occur.
  A vector of slots has at most \<open>2 ^ 58\<close> of them, as the allocator refuses more, so the refinement of
  dictionaries is stated for fewer than \<open>2 ^ 57\<close> insertions; name tables have fewer than \<open>2 ^ 32\<close> entries
  (\<open>fits\<close>), as their indexes are 32-bit words.

  \<^bold>\<open>Parameters.\<close> Equality and hash of keys, which for instances call back into the interpreter, are a record
  of functions with the laws of an equivalence and its hash. The tables of \<^verbatim>\<open>char::is_alphabetic\<close> and
  \<^verbatim>\<open>char::is_numeric\<close> beyond ASCII and the Unicode name file are fields of \<open>lexenv\<close>. The shortest decimal
  of a double (\<^verbatim>\<open>{:?}\<close> of Rust) is a function assumed to be read back by \<open>parse_f64\<close>. What the JSON writer
  asks of the heap is a field of its environment. The text \<^verbatim>\<open>str()\<close> gives is part of a CSV value, \<^verbatim>\<open>f64::powf\<close> an
  argument of the power. The opcode names of the CPython version are data of the decoder.

  \<^bold>\<open>Not modelled.\<close> The parser proper, the compiler and the instruction loop (\<^verbatim>\<open>parser/parser.rs\<close>,
  \<^verbatim>\<open>compiler/\<close>, \<^verbatim>\<open>vm/vm_execution.rs\<close>): each is one large function over the whole AST or all values, and a
  part of it says little alone. The built-in functions and modules (\<^verbatim>\<open>vm/builtins_*.rs\<close>,
  \<^verbatim>\<open>vm/vm_native_dispatch.rs\<close>, \<^verbatim>\<open>vm/vm_runtime_methods.rs\<close>, the other files of \<^verbatim>\<open>vm/stdlib/\<close>) mostly take
  arguments apart, call the interpreter again or wrap third-party crates and the operating system. The C API
  (\<^verbatim>\<open>vm/vm_extensions/\<close>) is unsafe code over foreign pointers. The heap's cycle collector, the command line,
  the REPL, the host and the WebAssembly shell are input and output. In the modelled files: operators on other
  operands than integers, the assignment of bound arguments to the locals of a frame, time zones and the clock, the iterators of
  dictionaries and sets (their entry lists), keyword arguments, subclasses and callbacks of \<^verbatim>\<open>json\<close>, and the
  dialect objects of \<^verbatim>\<open>csv\<close>.
\<close>

end
